(* ===== verification/Prelude.thy ===== *)
theory Prelude
  imports Main "HOL-Library.Word" "HOL-Library.Char_ord" "HOL-Library.List_Lexorder"
    "HOL-Library.Sublist"
begin

text \<open>
  What every component of the development shares: the machine types, the little-endian byte
  codecs of the standard library (\<^verbatim>\<open>to_le_bytes\<close> and \<^verbatim>\<open>from_le_bytes\<close>), the ordered maps
  (\<^verbatim>\<open>BTreeMap\<close>) as strictly sorted association lists, fallible stateful actions, the error
  values, saturating \<^verbatim>\<open>i64\<close> arithmetic and the UTF-8 view of a string. A Rust \<^verbatim>\<open>String\<close> is a
  \<^typ>\<open>string\<close>: its UTF-8 bytes, on which Rust's equality and ordering are defined.
  Sizes, offsets and row numbers (\<^verbatim>\<open>usize\<close>, \<^verbatim>\<open>u64\<close>) are \<^typ>\<open>nat\<close> on a 64-bit target.
\<close>

section \<open>Machine types\<close>

type_synonym byte = "8 word"
type_synonym u16 = "16 word"
type_synonym u32 = "32 word"
type_synonym u64 = "64 word"

text \<open>An IEEE \<^verbatim>\<open>f32\<close> or \<^verbatim>\<open>f64\<close> is its bit pattern.\<close>

type_synonym f32 = "32 word"
type_synonym f64 = "64 word"

named_theorems codec_simps \<open>byte codecs: lengths and round trips\<close>
named_theorems amap_simps \<open>ordered maps: lookups after updates\<close>

section \<open>Little-endian codecs\<close>

fun nat_to_le :: "nat \<Rightarrow> nat \<Rightarrow> byte list" where
  "nat_to_le 0 v = []"
| "nat_to_le (Suc n) v = word_of_nat v # nat_to_le n (v div 256)"

fun nat_from_le :: "byte list \<Rightarrow> nat" where
  "nat_from_le [] = 0"
| "nat_from_le (b # bs) = unat b + 256 * nat_from_le bs"

definition u16_to_le :: "u16 \<Rightarrow> byte list" where
  "u16_to_le w = nat_to_le 2 (unat w)"

definition u32_to_le :: "u32 \<Rightarrow> byte list" where
  "u32_to_le w = nat_to_le 4 (unat w)"

definition u64_to_le :: "u64 \<Rightarrow> byte list" where
  "u64_to_le w = nat_to_le 8 (unat w)"

definition u16_from_le :: "byte list \<Rightarrow> u16" where
  "u16_from_le bs = word_of_nat (nat_from_le bs)"

definition u32_from_le :: "byte list \<Rightarrow> u32" where
  "u32_from_le bs = word_of_nat (nat_from_le bs)"

definition u64_from_le :: "byte list \<Rightarrow> u64" where
  "u64_from_le bs = word_of_nat (nat_from_le bs)"

lemma length_nat_to_le [simp, codec_simps]: "length (nat_to_le n v) = n"
  by (induction n arbitrary: v) auto

lemma nat_to_le_numeral:
  "nat_to_le (numeral k) v = word_of_nat v # nat_to_le (pred_numeral k) (v div 256)"
  by (simp only: numeral_eq_Suc nat_to_le.simps)

lemma nat_from_to_le [codec_simps]: "nat_from_le (nat_to_le n v) = v mod 256 ^ n"
proof (induction n arbitrary: v)
  case 0
  then show ?case by simp
next
  case (Suc n)
  have "unat (word_of_nat v :: byte) = v mod 256"
    by (simp add: unat_of_nat)
  then show ?case
    using Suc.IH[of "v div 256"] by (simp add: mod_mult2_eq)
qed

lemma nat_from_le_less: "nat_from_le bs < 256 ^ length bs"
proof (induction bs)
  case (Cons b bs)
  have "unat b < 256" using unsigned_less[of b, where ?'a = nat] by simp
  moreover have "256 * nat_from_le bs + 256 \<le> 256 * 256 ^ length bs"
    using Cons.IH by (metis Suc_leI mult_Suc_right mult_le_mono2 add.commute)
  ultimately show ?case by simp
qed simp

lemma nat_to_from_le [codec_simps]: "nat_to_le (length bs) (nat_from_le bs) = bs"
proof (induction bs)
  case (Cons b bs)
  have b: "unat b < 256" using unsigned_less[of b, where ?'a = nat] by simp
  have "(unat b + 256 * nat_from_le bs) div 256 = nat_from_le bs"
    using b by simp
  moreover have "word_of_nat (unat b + 256 * nat_from_le bs) = b"
  proof -
    have "unat (word_of_nat (unat b + 256 * nat_from_le bs) :: byte) = unat b"
      using b by (simp add: unat_of_nat del: of_nat_add of_nat_mult)
    then show ?thesis by (metis word_unat_eq_iff)
  qed
  ultimately show ?case using Cons.IH by simp
qed simp

lemma length_u_to_le [simp, codec_simps]:
  "length (u16_to_le a) = 2" "length (u32_to_le b) = 4" "length (u64_to_le c) = 8"
  by (simp_all add: u16_to_le_def u32_to_le_def u64_to_le_def)

lemma u16_from_to_le [simp, codec_simps]: "u16_from_le (u16_to_le w) = w"
  using unsigned_less[of w, where ?'a = nat] by (simp add: u16_from_le_def u16_to_le_def nat_from_to_le)

lemma u32_from_to_le [simp, codec_simps]: "u32_from_le (u32_to_le w) = w"
  using unsigned_less[of w, where ?'a = nat] by (simp add: u32_from_le_def u32_to_le_def nat_from_to_le)

lemma u64_from_to_le [simp, codec_simps]: "u64_from_le (u64_to_le w) = w"
  using unsigned_less[of w, where ?'a = nat] by (simp add: u64_from_le_def u64_to_le_def nat_from_to_le)

lemma u32_to_from_le [codec_simps]: "length bs = 4 \<Longrightarrow> u32_to_le (u32_from_le bs) = bs"
  using nat_from_le_less[of bs] nat_to_from_le[of bs]
  by (simp add: u32_from_le_def u32_to_le_def unat_of_nat)

lemma u32_to_le_inj: "u32_to_le a = u32_to_le b \<Longrightarrow> a = b"
  by (metis u32_from_to_le)

section \<open>Ordered maps\<close>

text \<open>
  A \<^verbatim>\<open>BTreeMap\<close> is the list of its entries in key order, so that iteration is the list itself
  and two maps are equal exactly when their entries are. A \<^verbatim>\<open>HashMap\<close> is kept in the same
  form; where the source iterates one, the iteration order is an argument of the model.
\<close>

type_synonym ('k, 'v) amap = "('k \<times> 'v) list"

abbreviation aget :: "('k, 'v) amap \<Rightarrow> 'k \<Rightarrow> 'v option" where
  "aget \<equiv> map_of"

abbreviation akeys :: "('k, 'v) amap \<Rightarrow> 'k list" where
  "akeys m \<equiv> map fst m"

abbreviation avals :: "('k, 'v) amap \<Rightarrow> 'v list" where
  "avals m \<equiv> map snd m"

fun aput :: "'k::linorder \<Rightarrow> 'v \<Rightarrow> ('k, 'v) amap \<Rightarrow> ('k, 'v) amap" where
  "aput k v [] = [(k, v)]"
| "aput k v ((a, b) # m) =
     (if k < a then (k, v) # (a, b) # m
      else if k = a then (k, v) # m
      else (a, b) # aput k v m)"

definition adel :: "'k \<Rightarrow> ('k, 'v) amap \<Rightarrow> ('k, 'v) amap" where
  "adel k m = filter (\<lambda>e. fst e \<noteq> k) m"

definition amap_wf :: "('k::linorder, 'v) amap \<Rightarrow> bool" where
  "amap_wf m \<longleftrightarrow> sorted_wrt (<) (akeys m)"

definition amap_of_list :: "('k::linorder \<times> 'v) list \<Rightarrow> ('k, 'v) amap" where
  "amap_of_list es = fold (\<lambda>e m. aput (fst e) (snd e) m) es []"

lemma set_akeys_aput [simp, amap_simps]: "fst ` set (aput k v m) = insert k (fst ` set m)"
  by (induction k v m rule: aput.induct) auto

lemma aget_aput [simp, amap_simps]: "aget (aput k v m) = (aget m)(k \<mapsto> v)"
  by (induction k v m rule: aput.induct) (auto simp: fun_eq_iff)

lemma aput_aput [simp, amap_simps]: "aput k v (aput k w m) = aput k v m"
  by (induction k w m rule: aput.induct) auto

lemma aget_adel [simp, amap_simps]: "aget (adel k m) = (aget m)(k := None)"
  by (induction m) (auto simp: adel_def fun_eq_iff)

lemma set_akeys_adel [simp, amap_simps]: "fst ` set (adel k m) = fst ` set m - {k}"
  by (auto simp: adel_def)

lemma amap_wf_Nil [simp]: "amap_wf []"
  by (simp add: amap_wf_def)

lemma amap_wf_Cons [simp]:
  "amap_wf ((a, b) # m) \<longleftrightarrow> (\<forall>k \<in> fst ` set m. a < k) \<and> amap_wf m"
  by (auto simp: amap_wf_def)

lemma amap_wf_aput [simp]: "amap_wf m \<Longrightarrow> amap_wf (aput k v m)"
proof (induction k v m rule: aput.induct)
  case (2 k v a b m)
  then show ?case by (auto simp: less_le_not_le)
qed simp

lemma amap_wf_adel [simp]: "amap_wf m \<Longrightarrow> amap_wf (adel k m)"
  by (induction m) (auto simp: adel_def)

lemma amap_wf_distinct: "amap_wf m \<Longrightarrow> distinct (akeys m)"
  by (auto simp: amap_wf_def dest: strict_sorted_imp_sorted strict_sorted_iff[THEN iffD1])

lemma amap_ext:
  assumes "amap_wf m" "amap_wf n" "aget m = aget n"
  shows "m = n"
proof (rule map_sorted_distinct_set_unique[of fst])
  show "inj_on fst (set m \<union> set n)"
  proof (rule inj_onI, clarsimp)
    fix k u v
    assume "(k, u) \<in> set m \<or> (k, u) \<in> set n" "(k, v) \<in> set m \<or> (k, v) \<in> set n"
    then show "u = v"
      using assms by (metis amap_wf_distinct map_of_is_SomeI option.inject)
  qed
  show "set m = set n"
    using assms by (metis amap_wf_distinct map_of_inject_set)
qed (use assms in \<open>auto simp: amap_wf_def strict_sorted_iff\<close>)

lemma aput_absent_length: "k \<notin> fst ` set m \<Longrightarrow> length (aput k v m) = Suc (length m)"
  by (induction k v m rule: aput.induct) auto

lemma adel_absent [simp]: "k \<notin> fst ` set m \<Longrightarrow> adel k m = m"
  by (induction m) (auto simp: adel_def)

lemma aget_mem: "amap_wf m \<Longrightarrow> aget m k = Some v \<longleftrightarrow> (k, v) \<in> set m"
  using amap_wf_distinct by (metis map_of_eq_Some_iff)

lemma fold_aput_wf [simp]: "amap_wf m \<Longrightarrow> amap_wf (fold (\<lambda>e m. aput (fst e) (snd e) m) es m)"
  by (induction es arbitrary: m) auto

lemma amap_wf_of_list [simp]: "amap_wf (amap_of_list es)"
  by (simp add: amap_of_list_def)

lemma aget_fold_aput:
  "aget (fold (\<lambda>e m. aput (fst e) (snd e) m) es m) = aget m ++ map_of (rev es)"
proof (induction es arbitrary: m)
  case (Cons e es)
  then show ?case
    by (cases e) (auto simp: map_add_def fun_eq_iff map_of_append split: option.splits)
qed simp

lemma map_of_rev:
  assumes "amap_wf m"
  shows "map_of (rev m) = map_of m"
  using amap_wf_distinct[OF assms]
  by (intro map_of_inject_set[THEN iffD2]) (simp_all add: rev_map[symmetric])

lemma amap_of_list_id: "amap_wf m \<Longrightarrow> amap_of_list m = m"
  unfolding amap_of_list_def
proof (rule amap_ext)
  assume "amap_wf m"
  then have "map_of (rev m) = map_of m" by (rule map_of_rev)
  then show "aget (fold (\<lambda>e m. aput (fst e) (snd e) m) m []) = aget m"
    by (simp add: aget_fold_aput)
qed auto

section \<open>Errors and fallible actions\<close>

text \<open>
  One constructor per failing branch of the modelled source: what an \<^verbatim>\<open>anyhow\<close> error says,
  without its wording.
\<close>

datatype backend_error =
    IoFailed                      \<comment> \<open>a failing system call\<close>
  | ReadPastEnd
  | TruncatePastEnd nat nat
  | BadKey string

datatype log_error =
    SerializeFailed
  | PayloadTooLarge nat
  | LogCorruption nat
  | PinnedOffset nat nat
  | PinnedTorn nat

datatype data_error =
    HeaderTruncated nat
  | BadMagic
  | BadVersion u16
  | BadDistance byte
  | DimMismatch nat nat
  | DistanceMismatch
  | VectorLength nat nat
  | ImmutableSegment
  | TruncateRows nat nat
  | RowsNotMultiple nat nat
  | NoBacking
  | ChecksumRows nat nat

datatype segments_error =
    CapExceeded nat nat
  | NoSegments
  | BelowActiveBase nat nat
  | RowPanic nat                  \<comment> \<open>an index past the matrix: the code panics\<close>

datatype cache_error =
    CacheSerialize
  | CacheKeyTooLong nat

datatype manifest_error =
    ManifestSerialize
  | ManifestTruncated nat
  | ManifestCrc
  | ManifestDecode
  | ManifestVersion u16
  | AliasEmpty
  | AliasSelf string
  | AliasChain string string

datatype store_error =
    ReadOnlyStore
  | LeaseLost
  | LeaseTransient
  | ManifestStale
  | IsAlias string string string
  | AliasIsCollection string
  | AliasNoTarget string string
  | CollectionIsAlias string
  | AliasedCollection string string
  | SchemaInvalid
  | ConfigInvalid
  | StoreDimension nat nat
  | StoreDistance
  | VersionFuture nat nat
  | VersionGone nat
  | RefreshRefused

datatype record_error =
    ReservedVector string
  | UndeclaredVector string string
  | NamedVectorLength string nat nat
  | VectorCap nat nat
  | NameEmpty
  | NameReserved
  | NameTwice string

datatype nidus_error =
    Backend backend_error
  | Log log_error
  | Data data_error
  | Segs segments_error
  | Cache cache_error
  | Mani manifest_error
  | Sto store_error
  | Rec record_error
  | Rollback nidus_error          \<comment> \<open>undoing a failed batch failed itself\<close>

text \<open>
  An action reads and changes a state and returns a value or an error. The state it leaves
  behind is kept on the error path too, because the source's writes before a failing step
  stay written.
\<close>

type_synonym ('s, 'a) act = "'s \<Rightarrow> (nidus_error + 'a) \<times> 's"

definition ret :: "'a \<Rightarrow> ('s, 'a) act" where
  "ret x = (\<lambda>s. (Inr x, s))"

definition fail :: "nidus_error \<Rightarrow> ('s, 'a) act" where
  "fail e = (\<lambda>s. (Inl e, s))"

definition andThen :: "('s, 'a) act \<Rightarrow> ('a \<Rightarrow> ('s, 'b) act) \<Rightarrow> ('s, 'b) act" where
  "andThen m f = (\<lambda>s. case m s of (Inl e, t) \<Rightarrow> (Inl e, t) | (Inr x, t) \<Rightarrow> f x t)"

lemma ret_apply [simp]: "ret x s = (Inr x, s)"
  by (simp add: ret_def)

lemma fail_apply [simp]: "fail e s = (Inl e, s)"
  by (simp add: fail_def)

lemma andThen_ok [simp]: "m s = (Inr x, t) \<Longrightarrow> andThen m f s = f x t"
  by (simp add: andThen_def)

lemma andThen_err [simp]: "m s = (Inl e, t) \<Longrightarrow> andThen m f s = (Inl e, t)"
  by (simp add: andThen_def)

lemma andThen_Inr_iff:
  "andThen m f s = (Inr y, u) \<longleftrightarrow> (\<exists>x t. m s = (Inr x, t) \<and> f x t = (Inr y, u))"
  by (auto simp: andThen_def split: prod.splits sum.splits)

lemma andThen_Inl_iff:
  "andThen m f s = (Inl e, u) \<longleftrightarrow>
     m s = (Inl e, u) \<or> (\<exists>x t. m s = (Inr x, t) \<and> f x t = (Inl e, u))"
  by (auto simp: andThen_def split: prod.splits sum.splits)

lemma andThen_assoc: "andThen (andThen m f) g = andThen m (\<lambda>x. andThen (f x) g)"
  by (auto simp: andThen_def fun_eq_iff split: prod.splits sum.splits)

text \<open>A loop whose body may fail, left at the first failure, and one that collects results.\<close>

primrec for_each :: "('a \<Rightarrow> ('s, 'b) act) \<Rightarrow> 'a list \<Rightarrow> ('s, unit) act" where
  "for_each f [] = ret ()"
| "for_each f (x # xs) = andThen (f x) (\<lambda>_. for_each f xs)"

primrec map_each :: "('a \<Rightarrow> ('s, 'b) act) \<Rightarrow> 'a list \<Rightarrow> ('s, 'b list) act" where
  "map_each f [] = ret []"
| "map_each f (x # xs) = andThen (f x) (\<lambda>y. andThen (map_each f xs) (\<lambda>ys. ret (y # ys)))"

section \<open>Saturating \<^verbatim>\<open>i64\<close> arithmetic\<close>

abbreviation i64_max :: int where "i64_max \<equiv> 9223372036854775807"
abbreviation i64_min :: int where "i64_min \<equiv> -9223372036854775808"

definition clamp_i64 :: "int \<Rightarrow> int" where
  "clamp_i64 x = max i64_min (min i64_max x)"

definition sat_add :: "int \<Rightarrow> int \<Rightarrow> int" where
  "sat_add a b = clamp_i64 (a + b)"

definition sat_mul :: "int \<Rightarrow> int \<Rightarrow> int" where
  "sat_mul a b = clamp_i64 (a * b)"

lemma clamp_i64_range [simp]: "i64_min \<le> clamp_i64 x" "clamp_i64 x \<le> i64_max"
  by (simp_all add: clamp_i64_def)

end
