(* ===== verification/Glob.thy ===== *)
theory Glob
  imports Prelude
begin

text \<open>
  The characters of a string, and the GLOB matcher of \<^verbatim>\<open>src/src/glob/mod.rs\<close>: the iterative
  matcher with its single backtracking point, proved to return on every input and to agree
  with the textbook recursive matcher.
\<close>

section \<open>Characters\<close>

text \<open>A Rust \<^verbatim>\<open>char\<close> is its code point; \<^verbatim>\<open>chars\<close> decodes the UTF-8 bytes of a string.\<close>

type_synonym uchar = nat

fun utf8_chars :: "nat list \<Rightarrow> uchar list" where
  "utf8_chars [] = []"
| "utf8_chars (a # bs) =
     (if a < 128 then a # utf8_chars bs
      else if a < 224 then
        (case bs of b # r \<Rightarrow> ((a mod 32) * 64 + b mod 64) # utf8_chars r | _ \<Rightarrow> [])
      else if a < 240 then
        (case bs of b # c # r \<Rightarrow> ((a mod 16) * 4096 + (b mod 64) * 64 + c mod 64) # utf8_chars r | _ \<Rightarrow> [])
      else
        (case bs of b # c # d # r \<Rightarrow>
           ((a mod 8) * 262144 + (b mod 64) * 4096 + (c mod 64) * 64 + d mod 64) # utf8_chars r | _ \<Rightarrow> []))"

definition chars :: "string \<Rightarrow> uchar list" where
  "chars s = utf8_chars (map of_char s)"

definition to_ascii_lowercase :: "uchar \<Rightarrow> uchar" where
  "to_ascii_lowercase c = (if 65 \<le> c \<and> c \<le> 90 then c + 32 else c)"

definition lower_chars :: "string \<Rightarrow> uchar list" where
  "lower_chars s = map to_ascii_lowercase (chars s)"

abbreviation cSTAR :: uchar where "cSTAR \<equiv> 42"
abbreviation cQUEST :: uchar where "cQUEST \<equiv> 63"
abbreviation cOPEN :: uchar where "cOPEN \<equiv> 91"
abbreviation cCLOSE :: uchar where "cCLOSE \<equiv> 93"
abbreviation cBANG :: uchar where "cBANG \<equiv> 33"
abbreviation cCARET :: uchar where "cCARET \<equiv> 94"
abbreviation cDASH :: uchar where "cDASH \<equiv> 45"

section \<open>The matcher\<close>

text \<open>
  The body of a character class, from the first element: whether the character is in it and
  where the class ends, or \<^const>\<open>None\<close> when no closing bracket is found.
\<close>

function class_loop :: "uchar list \<Rightarrow> uchar \<Rightarrow> nat \<Rightarrow> bool \<Rightarrow> (bool \<times> nat) option" where
  "class_loop cs ch i matched =
     (if i < length cs then
        if cs ! i = cCLOSE then Some (matched, Suc i)
        else if i + 2 < length cs \<and> cs ! (i + 1) = cDASH \<and> cs ! (i + 2) \<noteq> cCLOSE then
          class_loop cs ch (i + 3) (matched \<or> (cs ! i \<le> ch \<and> ch \<le> cs ! (i + 2)))
        else class_loop cs ch (i + 1) (matched \<or> cs ! i = ch)
      else None)"
  by pat_completeness auto
termination by (relation "measure (\<lambda>(cs, ch, i, matched). length cs - i)") auto

declare class_loop.simps [simp del]

definition match_class :: "uchar list \<Rightarrow> uchar \<Rightarrow> (bool \<times> nat) option" where
  "match_class class_chars ch =
     (let negate = (class_chars \<noteq> [] \<and> (hd class_chars = cBANG \<or> hd class_chars = cCARET));
          start = (if negate then 1 else 0)
      in map_option (\<lambda>(matched, i). (if negate then \<not> matched else matched, i))
           (class_loop class_chars ch start False))"

text \<open>
  One turn of the loop: how many pattern characters the element at the head of the pattern
  consumes when it accepts the character at the head of the text, which is none when the text
  is exhausted.
\<close>

definition step_elem :: "uchar list \<Rightarrow> uchar list \<Rightarrow> nat option" where
  "step_elem pat txt =
     (if hd pat = cQUEST then (if txt \<noteq> [] then Some 1 else None)
      else if hd pat = cOPEN then
        (case match_class (tl pat) (if txt \<noteq> [] then hd txt else 0) of
           Some (matched, consumed) \<Rightarrow> if txt \<noteq> [] \<and> matched then Some (1 + consumed) else None
         | None \<Rightarrow> if txt \<noteq> [] \<and> hd txt = cOPEN then Some 1 else None)
      else if txt \<noteq> [] \<and> hd txt = hd pat then Some 1 else None)"

definition skip_stars :: "uchar list \<Rightarrow> uchar list" where
  "skip_stars pat = dropWhile (\<lambda>c. c = cSTAR) pat"

text \<open>
  The loop's state is what is left of the pattern and of the text (the source's \<^verbatim>\<open>pat[pi..]\<close> and
  \<^verbatim>\<open>txt[ti..]\<close>) and the saved star (\<^verbatim>\<open>star_pi\<close> with \<^verbatim>\<open>star_ti\<close>). A turn returns a verdict or the
  next state; the loop may in principle run forever.
\<close>

type_synonym star = "(uchar list \<times> uchar list) option"

definition backtrack :: "star \<Rightarrow> bool + uchar list \<times> uchar list \<times> star" where
  "backtrack star = (case star of
     Some (sp, st) \<Rightarrow> if st \<noteq> [] then Inr (sp, tl st, Some (sp, tl st)) else Inl False
   | None \<Rightarrow> Inl False)"

definition match_turn ::
  "uchar list \<Rightarrow> uchar list \<Rightarrow> star \<Rightarrow> bool + uchar list \<times> uchar list \<times> star" where
  "match_turn pat txt star =
     (if pat \<noteq> [] then
        if hd pat = cSTAR then
          let rest = skip_stars pat in
          if rest = [] then Inl True else Inr (rest, txt, Some (rest, txt))
        else (case step_elem pat txt of
             Some n \<Rightarrow> Inr (drop n pat, tl txt, star)
           | None \<Rightarrow> backtrack star)
      else if txt = [] then Inl True else backtrack star)"

partial_function (option) match_loop ::
  "uchar list \<Rightarrow> uchar list \<Rightarrow> star \<Rightarrow> bool option" where
  "match_loop pat txt star =
     (case match_turn pat txt star of
        Inl b \<Rightarrow> Some b
      | Inr (pat', txt', star') \<Rightarrow> match_loop pat' txt' star')"

definition match_pattern :: "uchar list \<Rightarrow> uchar list \<Rightarrow> bool option" where
  "match_pattern pat txt = match_loop pat txt None"

definition glob_match :: "string \<Rightarrow> string \<Rightarrow> bool option" where
  "glob_match pattern txt = match_pattern (chars pattern) (chars txt)"

definition glob_match_ascii_ci :: "string \<Rightarrow> string \<Rightarrow> bool option" where
  "glob_match_ascii_ci pattern txt = match_pattern (lower_chars pattern) (lower_chars txt)"

section \<open>The reference matcher\<close>

text \<open>A class ends where it ends, whatever character it is asked about.\<close>

lemma class_loop_end:
  "map_option snd (class_loop cs ch i m) = map_option snd (class_loop cs ch' i m')"
proof (induction cs ch i m arbitrary: m' rule: class_loop.induct)
  case (1 cs ch i matched)
  show ?case using "1.IH" by (subst (1 2) class_loop.simps) auto
qed

lemma match_class_end: "map_option snd (match_class cs ch) = map_option snd (match_class cs ch')"
proof -
  have "map_option snd (map_option (\<lambda>(matched, i). (f matched, i)) r) = map_option snd r"
    for f :: "bool \<Rightarrow> bool" and r :: "(bool \<times> nat) option" by (cases r) auto
  then show ?thesis unfolding match_class_def Let_def using class_loop_end by metis
qed

text \<open>The pattern characters the first element takes, star or not.\<close>

definition elem_len :: "uchar list \<Rightarrow> nat" where
  "elem_len pat =
     (if hd pat = cOPEN then (case match_class (tl pat) 0 of Some (_, n) \<Rightarrow> 1 + n | None \<Rightarrow> 1) else 1)"

lemma elem_len_pos [simp]: "0 < elem_len pat" "elem_len pat \<noteq> 0"
  by (simp_all add: elem_len_def split: option.splits)

lemma step_elem_len: "step_elem pat txt = Some n \<Longrightarrow> n = elem_len pat \<and> txt \<noteq> []"
  using match_class_end[of "tl pat" "hd txt" 0]
  by (auto simp: step_elem_def elem_len_def split: if_splits option.splits)

text \<open>
  A star takes any run of characters, every other element exactly one character it accepts.
\<close>

function glob_spec :: "uchar list \<Rightarrow> uchar list \<Rightarrow> bool" where
  "glob_spec pat txt =
     (if pat = [] then txt = []
      else if hd pat = cSTAR then
        glob_spec (tl pat) txt \<or> (case txt of [] \<Rightarrow> False | _ # r \<Rightarrow> glob_spec pat r)
      else (case step_elem pat txt of
              Some n \<Rightarrow> glob_spec (drop n pat) (tl txt)
            | None \<Rightarrow> False))"
  by pat_completeness auto
termination
proof (relation "measures [\<lambda>(pat, txt). length txt, \<lambda>(pat, txt). length pat]", goal_cases)
  case (4 p t n)
  then have "t \<noteq> []" using step_elem_len[of p t n] by auto
  then show ?case by (cases t) auto
qed (auto simp: neq_Nil_conv)

declare glob_spec.simps [simp del]

lemma glob_spec_Nil [simp]: "glob_spec [] t \<longleftrightarrow> t = []"
  by (subst glob_spec.simps) simp

lemma glob_spec_elem:
  "p \<noteq> [] \<Longrightarrow> hd p \<noteq> cSTAR \<Longrightarrow>
     glob_spec p t = (case step_elem p t of Some n \<Rightarrow> glob_spec (drop n p) (tl t) | None \<Rightarrow> False)"
  by (subst glob_spec.simps) simp

lemma glob_spec_star: "glob_spec (cSTAR # q) t \<longleftrightarrow> (\<exists>k \<le> length t. glob_spec q (drop k t))"
proof (induction t)
  case Nil
  show ?case by (subst glob_spec.simps) simp
next
  case (Cons c t)
  have "glob_spec (cSTAR # q) (c # t) \<longleftrightarrow> glob_spec q (c # t) \<or> (\<exists>k \<le> length t. glob_spec q (drop k t))"
    using Cons by (subst glob_spec.simps) simp
  also have "\<dots> \<longleftrightarrow> (\<exists>k \<le> length (c # t). glob_spec q (drop k (c # t)))"
  proof safe
    assume "glob_spec q (c # t)"
    then show "\<exists>k \<le> length (c # t). glob_spec q (drop k (c # t))" by (intro exI[of _ 0]) simp
  next
    fix k assume "k \<le> length t" "glob_spec q (drop k t)"
    then show "\<exists>k \<le> length (c # t). glob_spec q (drop k (c # t))" by (intro exI[of _ "Suc k"]) simp
  next
    fix k assume "k \<le> length (c # t)" "glob_spec q (drop k (c # t))"
      "\<not> (\<exists>k \<le> length t. glob_spec q (drop k t))"
    then show "glob_spec q (c # t)" by (cases k) auto
  qed
  finally show ?case .
qed

lemma skip_stars_spec:
  assumes "p \<noteq> []" "hd p = cSTAR"
  shows "glob_spec p t \<longleftrightarrow> (\<exists>k \<le> length t. glob_spec (skip_stars p) (drop k t))"
  using assms
proof (induction p arbitrary: t)
  case (Cons c q)
  show ?case
  proof (cases "q \<noteq> [] \<and> hd q = cSTAR")
    case True
    have "glob_spec (cSTAR # q) t \<longleftrightarrow> (\<exists>k \<le> length t. \<exists>j \<le> length (drop k t).
        glob_spec (skip_stars q) (drop j (drop k t)))"
      unfolding glob_spec_star using Cons.IH True by blast
    also have "\<dots> \<longleftrightarrow> (\<exists>k \<le> length t. glob_spec (skip_stars q) (drop k t))"
    proof safe
      fix k j assume "k \<le> length t" "j \<le> length (drop k t)" "glob_spec (skip_stars q) (drop j (drop k t))"
      then show "\<exists>k \<le> length t. glob_spec (skip_stars q) (drop k t)"
        by (intro exI[of _ "j + k"]) simp
    next
      fix k assume "k \<le> length t" "glob_spec (skip_stars q) (drop k t)"
      then show "\<exists>k \<le> length t. \<exists>j \<le> length (drop k t). glob_spec (skip_stars q) (drop j (drop k t))"
        by (intro exI[of _ k] conjI exI[of _ 0]) simp_all
    qed
    finally show ?thesis using Cons.prems by (simp add: skip_stars_def)
  next
    case False
    then have "skip_stars (c # q) = q" using Cons.prems by (cases q) (auto simp: skip_stars_def)
    then show ?thesis using Cons.prems glob_spec_star[of q t] by simp
  qed
qed simp

lemma star_absorbs: "p \<noteq> [] \<Longrightarrow> hd p = cSTAR \<Longrightarrow> glob_spec p (drop j t) \<Longrightarrow> glob_spec p t"
proof -
  assume p: "p \<noteq> []" "hd p = cSTAR" and g: "glob_spec p (drop j t)"
  then obtain k where "k \<le> length (drop j t)" "glob_spec (skip_stars p) (drop k (drop j t))"
    by (auto simp: skip_stars_spec[OF p])
  then have "min (k + j) (length t) \<le> length t"
    "glob_spec (skip_stars p) (drop (min (k + j) (length t)) t)"
    by (auto simp: min_def)
  then show ?thesis unfolding skip_stars_spec[OF p] by blast
qed

text \<open>What is left of a pattern after its first \<^term>\<open>k\<close> elements, none of which is a star.\<close>

fun elems :: "nat \<Rightarrow> uchar list \<Rightarrow> uchar list option" where
  "elems 0 p = Some p"
| "elems (Suc k) p = (if p = [] \<or> hd p = cSTAR then None else elems k (drop (elem_len p) p))"

lemma elems_snoc:
  "elems k sp = Some p \<Longrightarrow> p \<noteq> [] \<Longrightarrow> hd p \<noteq> cSTAR \<Longrightarrow> elems (Suc k) sp = Some (drop (elem_len p) p)"
  by (induction k sp rule: elems.induct) (auto split: if_splits)

lemma elems_length: "elems k sp = Some p \<Longrightarrow> length p \<le> length sp"
  by (induction k sp rule: elems.induct) (auto split: if_splits)

lemma glob_spec_elems:
  "elems k sp = Some p \<Longrightarrow> glob_spec sp t \<Longrightarrow> k \<le> length t \<and> glob_spec p (drop k t)"
proof (induction k sp arbitrary: t rule: elems.induct)
  case (2 k sp)
  then have sp: "sp \<noteq> []" "hd sp \<noteq> cSTAR" "elems k (drop (elem_len sp) sp) = Some p"
    by (auto split: if_splits)
  then obtain n where n: "step_elem sp t = Some n" "glob_spec (drop n sp) (tl t)"
    using "2.prems"(2) by (auto simp: glob_spec_elem split: option.splits)
  then have "n = elem_len sp" "t \<noteq> []" using step_elem_len by blast+
  then show ?case using "2.IH"[of "tl t"] sp n by (cases t) auto
qed simp

section \<open>The loop agrees with the reference\<close>

definition loop_ok :: "uchar list \<Rightarrow> uchar list \<Rightarrow> star \<Rightarrow> bool" where
  "loop_ok p t star = (case star of
     None \<Rightarrow> True
   | Some (sp, st) \<Rightarrow> sp \<noteq> [] \<and> hd sp \<noteq> cSTAR \<and> (\<exists>k \<le> length st. t = drop k st \<and> elems k sp = Some p))"

text \<open>What is still to be decided: this position, or a later start for the saved star.\<close>

definition later :: "star \<Rightarrow> bool" where
  "later star = (case star of
     None \<Rightarrow> False
   | Some (sp, st) \<Rightarrow> (\<exists>j. 0 < j \<and> j \<le> length st \<and> glob_spec sp (drop j st)))"

definition loop_measure :: "(uchar list \<times> uchar list \<times> star) rel" where
  "loop_measure = measures
     [\<lambda>(p, t, star). case star of None \<Rightarrow> Suc (length p) | Some (sp, _) \<Rightarrow> length sp,
      \<lambda>(p, t, star). case star of None \<Rightarrow> 0 | Some (_, st) \<Rightarrow> length st,
      \<lambda>(p, t, star). length p]"

lemma now_or_later:
  "(glob_spec sp r \<or> later (Some (sp, r))) \<longleftrightarrow> (\<exists>j \<le> length r. glob_spec sp (drop j r))"
proof
  assume "\<exists>j \<le> length r. glob_spec sp (drop j r)"
  then obtain j where j: "j \<le> length r" "glob_spec sp (drop j r)" by blast
  then show "glob_spec sp r \<or> later (Some (sp, r))"
    by (cases "j = 0") (auto simp: later_def)
next
  assume "glob_spec sp r \<or> later (Some (sp, r))"
  then show "\<exists>j \<le> length r. glob_spec sp (drop j r)"
    using exI[of "\<lambda>j. j \<le> length r \<and> glob_spec sp (drop j r)" 0] by (auto simp: later_def)
qed

lemma backtrack_ok:
  assumes "loop_ok p t star"
  shows "case backtrack star of
      Inl b \<Rightarrow> b = later star
    | Inr (p', t', star') \<Rightarrow> loop_ok p' t' star' \<and> (glob_spec p' t' \<or> later star') = later star \<and>
        ((p', t', star'), (p, t, star)) \<in> loop_measure"
proof (cases star)
  case None
  then show ?thesis by (simp add: backtrack_def later_def)
next
  case (Some x)
  obtain sp st where x: "x = (sp, st)" by fastforce
  show ?thesis
  proof (cases st)
    case Nil
    then show ?thesis using Some x by (simp add: backtrack_def later_def)
  next
    case (Cons c r)
    have "(glob_spec sp r \<or> later (Some (sp, r))) = later (Some (sp, c # r))"
    proof -
      have "later (Some (sp, c # r)) \<longleftrightarrow> (\<exists>j \<le> length r. glob_spec sp (drop j r))"
      proof
        assume "later (Some (sp, c # r))"
        then obtain j where "0 < j" "j \<le> length (c # r)" "glob_spec sp (drop j (c # r))" by (auto simp: later_def)
        then show "\<exists>j \<le> length r. glob_spec sp (drop j r)" by (cases j) auto
      next
        assume "\<exists>j \<le> length r. glob_spec sp (drop j r)"
        then obtain j where "j \<le> length r" "glob_spec sp (drop j r)" by blast
        then show "later (Some (sp, c # r))" unfolding later_def by (auto intro!: exI[of _ "Suc j"])
      qed
      then show ?thesis using now_or_later by simp
    qed
    then show ?thesis using assms Some x Cons
      by (auto simp: backtrack_def loop_ok_def loop_measure_def intro: exI[of _ 0])
  qed
qed

lemma match_turn_ok:
  assumes "loop_ok p t star"
  shows "case match_turn p t star of
      Inl b \<Rightarrow> b = (glob_spec p t \<or> later star)
    | Inr (p', t', star') \<Rightarrow> loop_ok p' t' star' \<and>
        (glob_spec p' t' \<or> later star') = (glob_spec p t \<or> later star) \<and>
        ((p', t', star'), (p, t, star)) \<in> loop_measure"
proof (cases "p \<noteq> [] \<and> hd p = cSTAR")
  case True
  let ?rest = "skip_stars p"
  have shorter: "length ?rest < length p"
    using True by (cases p) (auto simp: skip_stars_def intro: le_less_trans[OF length_dropWhile_le])
  have spec: "glob_spec p t \<longleftrightarrow> (\<exists>k \<le> length t. glob_spec ?rest (drop k t))"
    using skip_stars_spec[of p t] True by blast
  have absorb: "later star \<Longrightarrow> glob_spec p t"
  proof -
    assume "later star"
    then obtain sp st j where j: "star = Some (sp, st)" "0 < j" "j \<le> length st" "glob_spec sp (drop j st)"
      by (auto simp: later_def split: option.splits)
    then obtain k where k: "k \<le> length st" "t = drop k st" "elems k sp = Some p"
      using assms by (auto simp: loop_ok_def)
    have "glob_spec p (drop k (drop j st))" using glob_spec_elems[OF k(3) j(4)] by blast
    moreover have "drop k (drop j st) = drop j t" using k(2) by (simp add: add.commute)
    ultimately show ?thesis using star_absorbs True by metis
  qed
  show ?thesis
  proof (cases "?rest = []")
    case empty: True
    have "glob_spec p t" using spec empty by auto
    then show ?thesis using True empty by (simp add: match_turn_def Let_def)
  next
    case False
    have hd: "hd ?rest \<noteq> cSTAR" using hd_dropWhile[of "\<lambda>c. c = cSTAR" p] False by (simp add: skip_stars_def)
    have "(glob_spec ?rest t \<or> later (Some (?rest, t))) = glob_spec p t"
      unfolding spec now_or_later ..
    moreover have "((?rest, t, Some (?rest, t)), (p, t, star)) \<in> loop_measure"
    proof (cases star)
      case (Some x)
      then obtain sp st where x: "star = Some (sp, st)" by fastforce
      then obtain k where "elems k sp = Some p" using assms by (auto simp: loop_ok_def)
      then have "length ?rest < length sp" using elems_length shorter by fastforce
      then show ?thesis using x by (simp add: loop_measure_def)
    qed (use shorter in \<open>simp add: loop_measure_def\<close>)
    moreover have "loop_ok ?rest t (Some (?rest, t))"
      using False hd by (simp add: loop_ok_def) (metis drop_0 elems.simps(1) zero_le)
    moreover have "match_turn p t star = Inr (?rest, t, Some (?rest, t))"
      using True False by (simp add: match_turn_def Let_def)
    ultimately show ?thesis using absorb by auto
  qed
next
  case False
  note noStar = this
  show ?thesis
  proof (cases "p = []")
    case True
    then show ?thesis using backtrack_ok[OF assms]
      by (cases "t = []") (auto simp: match_turn_def split: sum.splits)
  next
    case False
    show ?thesis
    proof (cases "step_elem p t")
      case None
      then have "\<not> glob_spec p t" using noStar False by (simp add: glob_spec_elem)
      then show ?thesis using backtrack_ok[OF assms] None noStar False
        by (auto simp: match_turn_def split: sum.splits)
    next
      case (Some n)
      then have n: "n = elem_len p" "t \<noteq> []" using step_elem_len by blast+
      have "glob_spec p t = glob_spec (drop n p) (tl t)" using Some noStar False by (simp add: glob_spec_elem)
      moreover have "loop_ok (drop n p) (tl t) star"
      proof (cases star)
        case (Some x)
        then obtain sp st where x: "star = Some (sp, st)" by fastforce
        then obtain k where k: "k \<le> length st" "t = drop k st" "elems k sp = Some p" "sp \<noteq> []" "hd sp \<noteq> cSTAR"
          using assms by (auto simp: loop_ok_def)
        have "Suc k \<le> length st" using k(1,2) n(2) by (cases "k = length st") auto
        moreover have "tl t = drop (Suc k) st" using k(2) by (simp add: drop_Suc tl_drop)
        moreover have "elems (Suc k) sp = Some (drop n p)" using elems_snoc[OF k(3)] noStar False n(1) by simp
        ultimately show ?thesis using x k(4,5) unfolding loop_ok_def by auto
      qed (simp add: loop_ok_def)
      moreover have "((drop n p, tl t, star), (p, t, star)) \<in> loop_measure"
        using False n(1) by (auto simp: loop_measure_def split: option.splits)
      ultimately show ?thesis using Some noStar False by (simp add: match_turn_def)
    qed
  qed
qed

lemma match_loop_total:
  assumes "loop_ok p t star"
  shows "match_loop p t star = Some (glob_spec p t \<or> later star)"
proof -
  have "wf loop_measure" by (simp add: loop_measure_def)
  then show ?thesis using assms
  proof (induction "(p, t, star)" arbitrary: p t star rule: wf_induct_rule)
    case less
    show ?case
    proof (cases "match_turn p t star")
      case (Inl b)
      then show ?thesis using match_turn_ok[OF less.prems] by (subst match_loop.simps) simp
    next
      case (Inr s)
      obtain p' t' star' where s: "s = (p', t', star')" by (cases s) auto
      have ok: "loop_ok p' t' star'" "(glob_spec p' t' \<or> later star') = (glob_spec p t \<or> later star)"
        "((p', t', star'), (p, t, star)) \<in> loop_measure"
        using match_turn_ok[OF less.prems] Inr s by simp_all
      then show ?thesis using less.hyps[OF ok(3,1)] Inr s by (subst match_loop.simps) simp
    qed
  qed
qed

text \<open>
  C26 (GLOB matching). The matcher with one saved backtracking point returns on every pattern
  and text, and its verdict is that of the recursive definition in which a star takes any run
  of characters and every other element exactly one.
\<close>
theorem match_pattern_correct: "match_pattern pat txt = Some (glob_spec pat txt)"
  using match_loop_total[of pat "txt" None] by (simp add: match_pattern_def loop_ok_def later_def)

end
