(* ===== verification/Model.thy ===== *)
theory Model
  imports Prelude
begin

text \<open>
  The shared data vocabulary of \<^verbatim>\<open>src/src/model.rs\<close>, with the schema types of
  \<^verbatim>\<open>src/src/fts/schema.rs\<close> and \<^verbatim>\<open>src/src/findex/schema.rs\<close> that its operations carry:
  metadata values with Rust's derived equality, records, predicates and filters, and the
  operations of the commit stream.
\<close>

section \<open>Values\<close>

datatype distance = Cosine | Euclidean | DotProduct

datatype attr_value =
    VNull
  | VStr string
  | VInt int
  | VBool bool
  | VList "string list"
  | VFloat f64
  | VDateTime int

type_synonym attrs = "(string, attr_value) amap"

text \<open>
  IEEE comparison of doubles on their bit patterns: an exponent of ones with a non-zero
  fraction is NaN, and every other pattern is ordered by sign and magnitude, the two zeros
  being equal.
\<close>

definition f64_is_nan :: "f64 \<Rightarrow> bool" where
  "f64_is_nan x \<longleftrightarrow> unat x mod 2 ^ 63 > 2047 * 2 ^ 52"

definition f64_key :: "f64 \<Rightarrow> int" where
  "f64_key x = (if unat x < 2 ^ 63 then int (unat x) else - int (unat x - 2 ^ 63))"

definition f64_eq :: "f64 \<Rightarrow> f64 \<Rightarrow> bool" where
  "f64_eq x y \<longleftrightarrow> \<not> f64_is_nan x \<and> \<not> f64_is_nan y \<and> f64_key x = f64_key y"

text \<open>The derived \<^verbatim>\<open>PartialEq\<close> of \<^verbatim>\<open>Value\<close>: structural, with IEEE equality on doubles.\<close>

fun value_eq :: "attr_value \<Rightarrow> attr_value \<Rightarrow> bool" where
  "value_eq VNull VNull = True"
| "value_eq (VStr a) (VStr b) = (a = b)"
| "value_eq (VInt a) (VInt b) = (a = b)"
| "value_eq (VBool a) (VBool b) = (a = b)"
| "value_eq (VList a) (VList b) = (a = b)"
| "value_eq (VFloat a) (VFloat b) = f64_eq a b"
| "value_eq (VDateTime a) (VDateTime b) = (a = b)"
| "value_eq _ _ = False"

lemma value_eq_sym: "value_eq a b = value_eq b a"
  by (induction a b rule: value_eq.induct) (auto simp: f64_eq_def)

lemma value_eq_trans: "value_eq a b \<Longrightarrow> value_eq b c \<Longrightarrow> value_eq a c"
  by (cases a; cases b; cases c) (auto simp: f64_eq_def)

lemma value_eq_refl: "(\<forall>x. a = VFloat x \<longrightarrow> \<not> f64_is_nan x) \<Longrightarrow> value_eq a a"
  by (cases a) (auto simp: f64_eq_def)

section \<open>Records\<close>

definition DEFAULT_VECTOR :: string where
  "DEFAULT_VECTOR = ''default''"

record doc_record =
  rec_id :: string
  rec_vector :: "f32 list option"
  rec_vectors :: "(string, f32 list) amap"
  rec_attrs :: attrs

section \<open>Predicates\<close>

datatype predicate =
    PEq string attr_value
  | PNe string attr_value
  | PGlob string string
  | PIGlob string string
  | PIn string "attr_value list"
  | PNotIn string "attr_value list"
  | PLt string attr_value
  | PLe string attr_value
  | PGt string attr_value
  | PGe string attr_value
  | PContains string attr_value
  | PNotContains string attr_value
  | PContainsAny string "attr_value list"
  | PAll "predicate list"
  | PAny "predicate list"
  | PNot predicate
  | PFuzzy string string nat
  | PContainsAllTokens string string
  | PContainsAnyToken string string
  | PContainsTokenSequence string string
  | PRegex string string

type_synonym filter_t = "predicate list"

section \<open>Schemas\<close>

datatype language = English

record analyzer_cfg =
  an_language :: language
  an_ascii_folding :: bool
  an_max_token_len :: "nat option"

record fts_field =
  ff_field :: string
  ff_k1 :: f32
  ff_b :: f32
  ff_analyzer :: analyzer_cfg

record filter_index_field =
  fi_field :: string
  fi_tokens :: bool
  fi_trigrams :: bool

section \<open>The open profile\<close>

datatype quant_kind = Int8 | Binary

record quantization =
  qz_kind :: quant_kind
  qz_rescore :: nat

datatype ann_kind = Hnsw | Ivf

record ann_config =
  ann_kind :: ann_kind
  ann_m :: nat
  ann_ef_construction :: nat
  ann_ef_search :: nat
  ann_n_lists :: nat
  ann_n_probe :: nat
  ann_overscan :: nat
  ann_seed :: u64

record open_profile =
  op_ann :: "ann_config option"
  op_quantization :: "quantization option"
  op_query_threads :: "nat option"
  op_mmap :: "bool option"

definition profile_default :: open_profile where
  "profile_default = \<lparr>op_ann = None, op_quantization = None, op_query_threads = None, op_mmap = None\<rparr>"

definition over :: "'a option \<Rightarrow> 'a option \<Rightarrow> 'a option" where
  "over newer old = (case newer of None \<Rightarrow> old | Some x \<Rightarrow> Some x)"

definition overlay :: "open_profile \<Rightarrow> open_profile \<Rightarrow> open_profile" where
  "overlay newer p = \<lparr>
     op_ann = over (op_ann newer) (op_ann p),
     op_quantization = over (op_quantization newer) (op_quantization p),
     op_query_threads = over (op_query_threads newer) (op_query_threads p),
     op_mmap = over (op_mmap newer) (op_mmap p)\<rparr>"

lemma overlay_default [simp]: "overlay profile_default p = p"
  by (simp add: overlay_def profile_default_def over_def)

lemma overlay_assoc: "overlay a (overlay b c) = overlay (overlay a b) c"
  by (simp add: overlay_def over_def split: option.splits)

section \<open>The commit stream\<close>

datatype op =
    CreateCollection string
  | DropCollection string
  | SetMeta string "(string, string) amap"
  | Upsert string string nat attrs
  | Delete string string
  | UpsertText string string attrs
  | SetFtsSchema string "(string \<times> language) list"
  | SetFtsFields string "fts_field list"
  | SetFilterIndex string "filter_index_field list"
  | Reinforce string string int int "int option"
  | UpsertVectors string string "(string \<times> nat) list" attrs
  | SetVectorNames string "string list"

end
