(* ===== verification/Filters.thy ===== *)
theory Filters
  imports Glob Model
begin

text \<open>
  Filter evaluation (\<^verbatim>\<open>src/src/filter/mod.rs\<close>), the text predicates (\<^verbatim>\<open>src/src/filter/text.rs\<close>) and the
  regex predicate (\<^verbatim>\<open>src/src/filter/pattern.rs\<close>). Two things the source takes from outside are
  arguments: the Unicode table behind \<^verbatim>\<open>char::is_alphanumeric\<close>, and the \<^verbatim>\<open>regex\<close> crate, which
  turns an anchored pattern into a test on strings or refuses it. The compile cache only saves
  that call and is left out.
\<close>

record text_env =
  te_alnum :: "uchar \<Rightarrow> bool"
  te_regex :: "string \<Rightarrow> (string \<Rightarrow> bool) option"

section \<open>Text predicates\<close>

definition MAX_FUZZY_EDITS :: nat where "MAX_FUZZY_EDITS = 8"

definition any_text :: "attr_value option \<Rightarrow> (string \<Rightarrow> bool) \<Rightarrow> bool" where
  "any_text value pred = (case value of
     Some (VStr s) \<Rightarrow> pred s
   | Some (VList items) \<Rightarrow> list_ex pred items
   | _ \<Rightarrow> False)"

text \<open>The two-row dynamic program: \<^verbatim>\<open>cur[j+1]\<close> from \<^verbatim>\<open>prev[j]\<close>, \<^verbatim>\<open>prev[j+1]\<close> and \<^verbatim>\<open>cur[j]\<close>.\<close>

fun lev_cells :: "uchar \<Rightarrow> uchar list \<Rightarrow> nat list \<Rightarrow> nat \<Rightarrow> nat list" where
  "lev_cells ca (cb # bs) (p0 # p1 # ps) cur =
     (let subst = p0 + (if ca \<noteq> cb then 1 else 0); v = min (min subst (p1 + 1)) (cur + 1)
      in v # lev_cells ca bs (p1 # ps) v)"
| "lev_cells ca _ _ _ = []"

fun lev_rows :: "uchar list \<Rightarrow> nat \<Rightarrow> uchar list \<Rightarrow> nat list \<Rightarrow> nat list" where
  "lev_rows [] i b prev = prev"
| "lev_rows (ca # a) i b prev = lev_rows a (Suc i) b (Suc i # lev_cells ca b prev (Suc i))"

definition levenshtein_chars :: "uchar list \<Rightarrow> uchar list \<Rightarrow> nat" where
  "levenshtein_chars a b =
     (if a = [] \<or> b = [] then max (length a) (length b)
      else lev_rows a 0 b [0..<Suc (length b)] ! length b)"

definition levenshtein_ascii_ci :: "string \<Rightarrow> string \<Rightarrow> nat" where
  "levenshtein_ascii_ci a b = levenshtein_chars (lower_chars a) (lower_chars b)"

text \<open>The maximal runs of alphanumerics.\<close>

fun split_on :: "(uchar \<Rightarrow> bool) \<Rightarrow> uchar list \<Rightarrow> uchar list list" where
  "split_on sep [] = [[]]"
| "split_on sep (c # cs) =
     (if sep c then [] # split_on sep cs
      else (case split_on sep cs of [] \<Rightarrow> [[c]] | w # ws \<Rightarrow> (c # w) # ws))"

definition tokens_of :: "text_env \<Rightarrow> uchar list \<Rightarrow> uchar list list" where
  "tokens_of env cs = filter (\<lambda>t. t \<noteq> []) (split_on (\<lambda>c. \<not> te_alnum env c) cs)"

definition tokens :: "text_env \<Rightarrow> string \<Rightarrow> uchar list list" where
  "tokens env s = tokens_of env (chars s)"

definition fold_token :: "uchar list \<Rightarrow> uchar list" where
  "fold_token t = map to_ascii_lowercase t"

definition eq_ignore_ascii_case :: "uchar list \<Rightarrow> uchar list \<Rightarrow> bool" where
  "eq_ignore_ascii_case a b \<longleftrightarrow> fold_token a = fold_token b"

fun starts_with_tokens :: "uchar list list \<Rightarrow> uchar list list \<Rightarrow> bool" where
  "starts_with_tokens have' [] = True"
| "starts_with_tokens [] (w # ws) = False"
| "starts_with_tokens (h # hs) (w # ws) = (eq_ignore_ascii_case h w \<and> starts_with_tokens hs ws)"

definition abs_diff :: "nat \<Rightarrow> nat \<Rightarrow> nat" where
  "abs_diff a b = (a - b) + (b - a)"

definition fuzzy :: "attr_value option \<Rightarrow> string \<Rightarrow> nat \<Rightarrow> bool" where
  "fuzzy value needle max_edits =
     any_text value (\<lambda>t. abs_diff (length (chars t)) (length (chars needle)) \<le> max_edits \<and>
       levenshtein_ascii_ci t needle \<le> max_edits)"

definition contains_all_tokens :: "text_env \<Rightarrow> attr_value option \<Rightarrow> string \<Rightarrow> bool" where
  "contains_all_tokens env value query =
     any_text value (\<lambda>t. list_all (\<lambda>w. list_ex (\<lambda>h. eq_ignore_ascii_case h w) (tokens env t)) (tokens env query))"

definition contains_any_token :: "text_env \<Rightarrow> attr_value option \<Rightarrow> string \<Rightarrow> bool" where
  "contains_any_token env value query =
     any_text value (\<lambda>t. list_ex (\<lambda>w. list_ex (\<lambda>h. eq_ignore_ascii_case h w) (tokens env t)) (tokens env query))"

text \<open>The cursor restarts at every token, the position after the last one included.\<close>

fun sequence_from :: "uchar list list \<Rightarrow> uchar list list \<Rightarrow> bool" where
  "sequence_from [] query = starts_with_tokens [] query"
| "sequence_from (h # hs) query = (starts_with_tokens (h # hs) query \<or> sequence_from hs query)"

definition contains_token_sequence :: "text_env \<Rightarrow> attr_value option \<Rightarrow> string \<Rightarrow> bool" where
  "contains_token_sequence env value query =
     any_text value (\<lambda>t. sequence_from (tokens env t) (tokens env query))"

section \<open>Regex\<close>

definition anchored :: "string \<Rightarrow> string" where
  "anchored pattern = ''^(?:'' @ pattern @ '')$''"

definition regex_compile :: "text_env \<Rightarrow> string \<Rightarrow> (string \<Rightarrow> bool) option" where
  "regex_compile env pattern = te_regex env (anchored pattern)"

definition regex_matches :: "text_env \<Rightarrow> attr_value option \<Rightarrow> string \<Rightarrow> bool" where
  "regex_matches env value pattern = (case regex_compile env pattern of
     None \<Rightarrow> False
   | Some re \<Rightarrow> any_text value re)"

section \<open>Predicates\<close>

datatype ordering = Less | Equal | Greater

definition cmp :: "'a::linorder \<Rightarrow> 'a \<Rightarrow> ordering" where
  "cmp x y = (if x < y then Less else if x = y then Equal else Greater)"

definition f64_partial_cmp :: "f64 \<Rightarrow> f64 \<Rightarrow> ordering option" where
  "f64_partial_cmp x y =
     (if f64_is_nan x \<or> f64_is_nan y then None else Some (cmp (f64_key x) (f64_key y)))"

fun value_cmp :: "attr_value \<Rightarrow> attr_value \<Rightarrow> ordering option" where
  "value_cmp (VInt x) (VInt y) = Some (cmp x y)"
| "value_cmp (VStr x) (VStr y) = Some (cmp x y)"
| "value_cmp (VBool x) (VBool y) = Some (cmp x y)"
| "value_cmp (VFloat x) (VFloat y) = f64_partial_cmp x y"
| "value_cmp (VDateTime x) (VDateTime y) = Some (cmp x y)"
| "value_cmp _ _ = None"

definition range_matches :: "attrs \<Rightarrow> string \<Rightarrow> attr_value \<Rightarrow> ordering list \<Rightarrow> bool" where
  "range_matches attrs key bound wanted =
     (case Option.bind (aget attrs key) (\<lambda>v. value_cmp v bound) of
        Some ord \<Rightarrow> ord \<in> set wanted
      | None \<Rightarrow> False)"

definition list_matches :: "attrs \<Rightarrow> string \<Rightarrow> (string list \<Rightarrow> bool) \<Rightarrow> bool" where
  "list_matches attrs key pred = (case aget attrs key of Some (VList items) \<Rightarrow> pred items | _ \<Rightarrow> False)"

fun needle_of :: "attr_value \<Rightarrow> string option" where
  "needle_of (VStr s) = Some s"
| "needle_of _ = None"

text \<open>\<^verbatim>\<open>set.contains(v)\<close> with the derived equality of values.\<close>

definition value_in :: "attr_value \<Rightarrow> attr_value list \<Rightarrow> bool" where
  "value_in v vs = list_ex (\<lambda>w. value_eq w v) vs"

fun matches_one :: "text_env \<Rightarrow> attrs \<Rightarrow> predicate \<Rightarrow> bool" where
  "matches_one env a (PEq key expected) =
     (case aget a key of Some v \<Rightarrow> value_eq v expected | None \<Rightarrow> False)"
| "matches_one env a (PNe key expected) =
     (case aget a key of Some v \<Rightarrow> \<not> value_eq v expected | None \<Rightarrow> False)"
| "matches_one env a (PGlob key pattern) =
     (case aget a key of Some (VStr s) \<Rightarrow> glob_match pattern s = Some True | _ \<Rightarrow> False)"
| "matches_one env a (PIGlob key pattern) =
     (case aget a key of Some (VStr s) \<Rightarrow> glob_match_ascii_ci pattern s = Some True | _ \<Rightarrow> False)"
| "matches_one env a (PIn key vs) = (case aget a key of Some v \<Rightarrow> value_in v vs | None \<Rightarrow> False)"
| "matches_one env a (PNotIn key vs) = (case aget a key of Some v \<Rightarrow> \<not> value_in v vs | None \<Rightarrow> False)"
| "matches_one env a (PLt key bound) = range_matches a key bound [Less]"
| "matches_one env a (PLe key bound) = range_matches a key bound [Less, Equal]"
| "matches_one env a (PGt key bound) = range_matches a key bound [Greater]"
| "matches_one env a (PGe key bound) = range_matches a key bound [Greater, Equal]"
| "matches_one env a (PContains key v) =
     (case needle_of v of
        Some want \<Rightarrow> list_matches a key (\<lambda>items. want \<in> set items)
      | None \<Rightarrow> False)"
| "matches_one env a (PNotContains key v) =
     (case needle_of v of
        Some want \<Rightarrow> list_matches a key (\<lambda>items. want \<notin> set items)
      | None \<Rightarrow> list_matches a key (\<lambda>_. True))"
| "matches_one env a (PContainsAny key vs) =
     list_matches a key (\<lambda>items. list_ex (\<lambda>want. want \<in> set items) (List.map_filter needle_of vs))"
| "matches_one env a (PAll ps) = list_all (matches_one env a) ps"
| "matches_one env a (PAny ps) = list_ex (matches_one env a) ps"
| "matches_one env a (PNot p) = (\<not> matches_one env a p)"
| "matches_one env a (PFuzzy key needle max_edits) = fuzzy (aget a key) needle max_edits"
| "matches_one env a (PContainsAllTokens key query) = contains_all_tokens env (aget a key) query"
| "matches_one env a (PContainsAnyToken key query) = contains_any_token env (aget a key) query"
| "matches_one env a (PContainsTokenSequence key query) = contains_token_sequence env (aget a key) query"
| "matches_one env a (PRegex key p) = regex_matches env (aget a key) p"

definition matches :: "text_env \<Rightarrow> filter_t \<Rightarrow> attrs \<Rightarrow> bool" where
  "matches env f a = list_all (matches_one env a) f"

fun validate_one :: "text_env \<Rightarrow> predicate \<Rightarrow> bool" where
  "validate_one env (PFuzzy key needle max_edits) = (max_edits \<le> MAX_FUZZY_EDITS)"
| "validate_one env (PRegex key p) = (regex_compile env p \<noteq> None)"
| "validate_one env (PAll ps) = list_all (validate_one env) ps"
| "validate_one env (PAny ps) = list_all (validate_one env) ps"
| "validate_one env (PNot p) = validate_one env p"
| "validate_one env _ = True"

definition validate_filter :: "text_env \<Rightarrow> filter_t \<Rightarrow> bool" where
  "validate_filter env f = list_all (validate_one env) f"

end
