(* ===== verification/EditDistance.thy ===== *)
theory EditDistance
  imports Filters
begin

text \<open>
  The distance of the fuzzy predicate: the two-row program computes the least number of
  single-character edits, and strings that few edits apart share most of their trigrams,
  which is what the trigram index of the filter relies on.
\<close>

section \<open>Edit scripts\<close>

text \<open>\<^term>\<open>n\<close> edits (a substitution, a deletion, an insertion) turn one list into the other.\<close>

inductive edit :: "nat \<Rightarrow> 'a list \<Rightarrow> 'a list \<Rightarrow> bool" where
  edit_nil: "edit 0 [] []"
| edit_keep: "edit n a b \<Longrightarrow> edit n (x # a) (x # b)"
| edit_subst: "edit n a b \<Longrightarrow> edit (Suc n) (x # a) (y # b)"
| edit_delete: "edit n a b \<Longrightarrow> edit (Suc n) (x # a) b"
| edit_insert: "edit n a b \<Longrightarrow> edit (Suc n) a (y # b)"

lemma edit_snoc_keep: "edit n a b \<Longrightarrow> edit n (a @ [x]) (b @ [x])"
  by (induction rule: edit.induct) (auto intro: edit.intros)

lemma edit_snoc_subst: "edit n a b \<Longrightarrow> edit (Suc n) (a @ [x]) (b @ [y])"
  by (induction rule: edit.induct) (auto intro: edit.intros)

lemma edit_snoc_delete: "edit n a b \<Longrightarrow> edit (Suc n) (a @ [x]) b"
  by (induction rule: edit.induct) (auto intro: edit.intros)

lemma edit_snoc_insert: "edit n a b \<Longrightarrow> edit (Suc n) a (b @ [y])"
  by (induction rule: edit.induct) (auto intro: edit.intros)

lemma edit_rev: "edit n a b \<Longrightarrow> edit n (rev a) (rev b)"
  by (induction rule: edit.induct)
    (auto intro: edit.intros edit_snoc_keep edit_snoc_subst edit_snoc_delete edit_snoc_insert)

section \<open>The dynamic program\<close>

text \<open>The recurrence, on the lists reversed so that the last characters come first.\<close>

fun levr :: "uchar list \<Rightarrow> uchar list \<Rightarrow> nat" where
  "levr [] b = length b"
| "levr (x # a) [] = Suc (length a)"
| "levr (x # a) (y # b) =
     min (min (levr a b + (if x \<noteq> y then 1 else 0)) (levr a (y # b) + 1)) (levr (x # a) b + 1)"

lemma levr_Nil2 [simp]: "levr a [] = length a"
  by (cases a) simp_all

fun lev_row :: "uchar list \<Rightarrow> uchar list \<Rightarrow> uchar list \<Rightarrow> nat list" where
  "lev_row ra rb [] = [levr ra rb]"
| "lev_row ra rb (c # bs) = levr ra rb # lev_row ra (c # rb) bs"

lemma lev_row_Cons: "lev_row ra rb bs = levr ra rb # tl (lev_row ra rb bs)"
  by (cases bs) simp_all

lemma lev_cells_row:
  "lev_cells ca bs (lev_row ra rb bs) (levr (ca # ra) rb) = tl (lev_row (ca # ra) rb bs)"
proof (induction bs arbitrary: rb)
  case (Cons cb bs)
  let ?v = "levr (ca # ra) (cb # rb)"
  obtain q where q: "lev_row ra (cb # rb) bs = levr ra (cb # rb) # q"
    using lev_row_Cons by blast
  have "lev_cells ca (cb # bs) (lev_row ra rb (cb # bs)) (levr (ca # ra) rb) =
      ?v # lev_cells ca bs (levr ra (cb # rb) # q) ?v"
    by (simp add: q Let_def)
  also have "\<dots> = ?v # lev_cells ca bs (lev_row ra (cb # rb) bs) ?v" by (simp only: q)
  finally show ?case using Cons.IH[of "cb # rb"] lev_row_Cons[of "ca # ra" "cb # rb" bs] by simp
qed simp

lemma lev_rows_row: "i = length ra \<Longrightarrow> lev_rows a i b (lev_row ra [] b) = lev_row (rev a @ ra) [] b"
proof (induction a arbitrary: i ra)
  case (Cons ca a)
  have "Suc i # lev_cells ca b (lev_row ra [] b) (Suc i) = lev_row (ca # ra) [] b"
    using lev_cells_row[of ca b ra "[]"] lev_row_Cons[of "ca # ra" "[]" b] Cons.prems by simp
  then show ?case using Cons.IH[of "Suc i" "ca # ra"] Cons.prems by simp
qed simp

lemma lev_row_first: "lev_row [] rb bs = [length rb..<Suc (length rb + length bs)]"
  by (induction bs arbitrary: rb) (simp_all add: upt_rec)

lemma lev_row_last: "lev_row ra rb bs ! length bs = levr ra (rev bs @ rb)"
  by (induction bs arbitrary: rb) simp_all

lemma levenshtein_levr: "levenshtein_chars a b = levr (rev a) (rev b)"
proof (cases "a = [] \<or> b = []")
  case True
  then show ?thesis by (auto simp: levenshtein_chars_def)
next
  case False
  then show ?thesis
    using lev_rows_row[of 0 "[]" a b] lev_row_first[of "[]" b] lev_row_last[of "rev a" "[]" b]
    by (simp add: levenshtein_chars_def)
qed

lemma edit_levr: "edit (levr ra rb) (rev ra) (rev rb)"
proof (induction ra rb rule: levr.induct)
  case (1 b)
  have "edit (length b) [] (rev b)" by (induction b) (auto intro: edit.intros edit_snoc_insert)
  then show ?case by simp
next
  case (2 x a)
  have "edit (length a) (rev a) []" by (induction a) (auto intro: edit.intros edit_snoc_delete)
  then show ?case using edit_snoc_delete by fastforce
next
  case (3 x a y b)
  have "min (min p q) r = p \<or> min (min p q) r = q \<or> min (min p q) r = r" for p q r :: nat
    by (simp add: min_def)
  from this[of "levr a b + (if x \<noteq> y then 1 else 0)" "levr a (y # b) + 1" "levr (x # a) b + 1"]
  consider "levr (x # a) (y # b) = levr a b" "x = y" | "levr (x # a) (y # b) = Suc (levr a b)"
    | "levr (x # a) (y # b) = Suc (levr a (y # b))" | "levr (x # a) (y # b) = Suc (levr (x # a) b)"
    by (cases "x = y") (simp_all only: levr.simps simp_thms if_True if_False add_0_right Suc_eq_plus1, blast+)
  then show ?case
    using "3.IH" by cases (auto dest: edit_snoc_keep edit_snoc_subst edit_snoc_delete edit_snoc_insert
        simp del: levr.simps)
qed

lemma levr_least: "edit n a b \<Longrightarrow> levr a b \<le> n"
proof (induction rule: edit.induct)
  case (edit_delete n a b x)
  then show ?case by (cases b) auto
next
  case (edit_insert n a b y)
  then show ?case by (cases a) auto
qed auto

text \<open>
  C27 (edit distance). The two-row program returns the least number of single-character
  substitutions, deletions and insertions that turn one string into the other.
\<close>
theorem levenshtein_least_edits:
  "edit (levenshtein_chars a b) a b \<and> (\<forall>n. edit n a b \<longrightarrow> levenshtein_chars a b \<le> n)"
proof -
  have "edit (levenshtein_chars a b) a b"
    using edit_levr[of "rev a" "rev b"] by (simp add: levenshtein_levr)
  moreover have "levenshtein_chars a b \<le> n" if "edit n a b" for n
    using levr_least[OF edit_rev[OF that]] by (simp add: levenshtein_levr)
  ultimately show ?thesis by blast
qed

theorem levenshtein_least_edits_witness:
  "levenshtein_chars [1, 2, 3] [1, 3] = 1 \<and> edit 1 [1, 2, 3] [1, 3 :: uchar]"
  using levenshtein_least_edits[of "[1, 2, 3]" "[1, 3]"]
  by (simp add: levenshtein_chars_def numeral_eq_Suc)

section \<open>Trigrams\<close>

type_synonym trigram = "uchar \<times> uchar \<times> uchar"

fun windows3 :: "uchar list \<Rightarrow> trigram list" where
  "windows3 (a # b # c # r) = (a, b, c) # windows3 (b # c # r)"
| "windows3 _ = []"

lemma windows3_take: "set (windows3 (x # b)) \<subseteq> insert (x, hd b, hd (tl b)) (set (windows3 b))"
  by (cases b rule: windows3.cases) auto

lemma windows3_Cons: "set (windows3 a) \<subseteq> set (windows3 (x # a))"
  by (cases a rule: windows3.cases) auto

lemma windows3_shared:
  "take 2 a = take 2 b \<Longrightarrow> set (windows3 (x # b)) - set (windows3 (x # a)) \<subseteq> set (windows3 b) - set (windows3 a)"
  by (cases a rule: windows3.cases; cases b rule: windows3.cases) auto

text \<open>Windows an earlier edit can still destroy: they straddle it.\<close>

definition pending :: "'a list \<Rightarrow> 'a list \<Rightarrow> nat" where
  "pending a b = (if take 2 a = take 2 b then 0 else if take 1 a = take 1 b then 1 else 2)"

lemma pending_le: "pending a b \<le> 2"
  by (simp add: pending_def)

abbreviation missing :: "uchar list \<Rightarrow> uchar list \<Rightarrow> nat" where
  "missing a b \<equiv> card (set (windows3 b) - set (windows3 a))"

lemma missing_Cons: "missing a (y # b) \<le> Suc (missing a b)"
proof -
  have "set (windows3 (y # b)) - set (windows3 a) \<subseteq> insert (y, hd b, hd (tl b)) (set (windows3 b) - set (windows3 a))"
    using windows3_take[of y b] by blast
  then have "missing a (y # b) \<le> card (insert (y, hd b, hd (tl b)) (set (windows3 b) - set (windows3 a)))"
    by (intro card_mono) auto
  also have "\<dots> \<le> Suc (missing a b)" by (rule card_insert_le_m1) simp_all
  finally show ?thesis .
qed

lemma missing_left: "missing (x # a) b \<le> missing a b"
  using windows3_Cons[of a x] by (intro card_mono) auto

lemma missing_bound: "edit n a b \<Longrightarrow> missing a b + pending a b \<le> 3 * n"
proof (induction rule: edit.induct)
  case (edit_keep n a b x)
  have miss: "missing (x # a) (x # b) \<le> Suc (missing a b)"
    using missing_Cons[where a = "x # a" and y = x and b = b] missing_left[where x = x and a = a and b = b] by linarith
  consider "take 2 a = take 2 b" | "take 2 a \<noteq> take 2 b" "take 1 a = take 1 b" | "take 1 a \<noteq> take 1 b"
    by blast
  then show ?case
  proof cases
    case 1
    then have "missing (x # a) (x # b) \<le> missing a b"
      by (intro card_mono windows3_shared) simp_all
    moreover have "pending (x # a) (x # b) = 0"
      using 1 by (cases a; cases b) (simp_all add: pending_def numeral_2_eq_2)
    ultimately show ?thesis using edit_keep.IH by linarith
  next
    case 2
    then have "pending (x # a) (x # b) = 0" "pending a b = 1" by (simp_all add: pending_def numeral_2_eq_2)
    then show ?thesis using edit_keep.IH miss by linarith
  next
    case 3
    then have "take 2 a \<noteq> take 2 b" by (cases a; cases b) (simp_all add: numeral_2_eq_2)
    then have "pending a b = 2" "pending (x # a) (x # b) \<le> 1" using 3 by (simp_all add: pending_def)
    then show ?thesis using edit_keep.IH miss by linarith
  qed
next
  case (edit_subst n a b x y)
  then show ?case
    using missing_Cons[where a = "x # a" and y = y and b = b] missing_left[where x = x and a = a and b = b] pending_le[of "x # a" "y # b"] unfolding mult_Suc_right by linarith
next
  case (edit_delete n a b x)
  then show ?case using missing_left[where x = x and a = a and b = b] pending_le[of "x # a" b] unfolding mult_Suc_right by linarith
next
  case (edit_insert n a b y)
  then show ?case using missing_Cons[where a = a and y = y and b = b] pending_le[of a "y # b"] unfolding mult_Suc_right by linarith
qed (simp add: pending_def)

end
