(* ===== verification/Findex.thy ===== *)
theory Findex
  imports EditDistance "HOL-Library.Product_Lexorder"
begin

text \<open>
  The opt-in filter index (\<^verbatim>\<open>src/src/findex/mod.rs\<close>, \<^verbatim>\<open>tokens.rs\<close>, \<^verbatim>\<open>trigram.rs\<close>, \<^verbatim>\<open>literal.rs\<close>,
  \<^verbatim>\<open>schema.rs\<close>) and the walk of a whole filter through it (\<^verbatim>\<open>src/src/filter/narrow.rs\<close>). The index
  only narrows: what it returns contains every matching document. Document numbers
  (\<^verbatim>\<open>u32\<close>) are \<^typ>\<open>nat\<close>; a field index is taken to hold fewer than \<open>2 ^ 32\<close> of them. The \<^verbatim>\<open>regex-syntax\<close>
  parser is an argument, its parse trees are a datatype.
\<close>

section \<open>Postings\<close>

type_synonym 'k postings = "('k, nat list) amap"

definition posting_get :: "'k \<Rightarrow> 'k postings \<Rightarrow> nat list" where
  "posting_get k p = (case aget p k of None \<Rightarrow> [] | Some l \<Rightarrow> l)"

definition posting_push :: "nat \<Rightarrow> 'k::linorder \<Rightarrow> 'k postings \<Rightarrow> 'k postings" where
  "posting_push docnum k p =
     (let l = posting_get k p in
      aput k (if l \<noteq> [] \<and> last l = docnum then l else l @ [docnum]) p)"

definition token_index :: "text_env \<Rightarrow> nat \<Rightarrow> string \<Rightarrow> uchar list postings \<Rightarrow> uchar list postings" where
  "token_index env docnum s p = fold (\<lambda>t. posting_push docnum (fold_token t)) (tokens env s) p"

definition token_get :: "uchar list \<Rightarrow> uchar list postings \<Rightarrow> nat list" where
  "token_get t p = posting_get (fold_token t) p"

definition distinct_windows :: "uchar list \<Rightarrow> trigram list" where
  "distinct_windows cs = remdups_adj (sort (windows3 (map to_ascii_lowercase cs)))"

definition distinct_trigrams :: "string \<Rightarrow> trigram list" where
  "distinct_trigrams s = distinct_windows (chars s)"

definition trigram_index :: "nat \<Rightarrow> string \<Rightarrow> trigram postings \<Rightarrow> trigram postings" where
  "trigram_index docnum s p = fold (posting_push docnum) (distinct_trigrams s) p"

definition at_least :: "trigram list \<Rightarrow> nat \<Rightarrow> trigram postings \<Rightarrow> nat list" where
  "at_least wanted threshold p =
     (let hits = concat (map (\<lambda>t. posting_get t p) wanted) in
      filter (\<lambda>d. count_list hits d \<ge> threshold) (sort (remdups hits)))"

definition fuzzy_threshold :: "string \<Rightarrow> nat \<Rightarrow> nat option" where
  "fuzzy_threshold needle max_edits =
     (let n = length (distinct_trigrams needle) in
      if 3 * max_edits \<le> n \<and> n - 3 * max_edits > 0 then Some (n - 3 * max_edits) else None)"

text \<open>Posting posts are ascending, so \<^verbatim>\<open>binary_search\<close> is membership.\<close>

definition intersect :: "nat list list \<Rightarrow> nat list option" where
  "intersect posts = (case posts of
     [] \<Rightarrow> None
   | l # ls \<Rightarrow> Some (fold (\<lambda>xs acc. filter (\<lambda>d. d \<in> set xs) acc) ls l))"

definition union_lists :: "nat list list \<Rightarrow> nat list" where
  "union_lists posts = remdups_adj (sort (concat posts))"

definition shortest :: "nat list list \<Rightarrow> nat option" where
  "shortest posts = (if posts = [] then None else Some (Min (length ` set posts)))"

definition longest :: "nat list list \<Rightarrow> nat option" where
  "longest posts = (if posts = [] then None else Some (Max (length ` set posts)))"

section \<open>Required literals\<close>

text \<open>
  The parse trees of \<^verbatim>\<open>regex-syntax\<close>; a literal is its characters when it is UTF-8. A repetition
  carries its least count.
\<close>

datatype hir =
    HEmpty
  | HLiteral "uchar list option"
  | HClass
  | HLook
  | HRepetition nat hir
  | HCapture hir
  | HConcat "hir list"
  | HAlternation "hir list"

fun literal_of :: "hir \<Rightarrow> uchar list option" where
  "literal_of (HLiteral l) = l"
| "literal_of _ = None"

definition flush_run :: "uchar list \<Rightarrow> uchar list list" where
  "flush_run run = (if run \<noteq> [] then [run] else [])"

text \<open>The concatenation loop over the parts with what each requires, and the alternation loop.\<close>

fun concat_loop :: "(uchar list option \<times> uchar list list) list \<Rightarrow> uchar list list \<Rightarrow> uchar list \<Rightarrow> uchar list list" where
  "concat_loop [] out run = out @ flush_run run"
| "concat_loop ((Some l, req) # ps) out run = concat_loop ps out (run @ l)"
| "concat_loop ((None, req) # ps) out run = concat_loop ps (out @ flush_run run @ req) []"

fun alt_loop :: "uchar list list list \<Rightarrow> uchar list list option \<Rightarrow> uchar list list" where
  "alt_loop [] common = (case common of None \<Rightarrow> [] | Some c \<Rightarrow> c)"
| "alt_loop (here # rest) common =
     (if here = [] then []
      else let c = (case common of None \<Rightarrow> here | Some prev \<Rightarrow> filter (\<lambda>l. l \<in> set here) prev)
           in if c = [] then [] else alt_loop rest (Some c))"

fun required :: "hir \<Rightarrow> uchar list list" where
  "required (HLiteral l) = (case l of Some s \<Rightarrow> [s] | None \<Rightarrow> [])"
| "required (HConcat ps) = concat_loop (map (\<lambda>p. (literal_of p, required p)) ps) [] []"
| "required (HAlternation bs) = alt_loop (map required bs) None"
| "required (HRepetition n sub) = (if n \<ge> 1 then required sub else [])"
| "required (HCapture sub) = required sub"
| "required _ = []"

definition required_literals :: "(string \<Rightarrow> hir option) \<Rightarrow> string \<Rightarrow> uchar list list" where
  "required_literals parse pattern = (case parse pattern of
     None \<Rightarrow> []
   | Some h \<Rightarrow> remdups_adj (sort (filter (\<lambda>l. l \<noteq> []) (required h))))"

section \<open>The field index\<close>

record field_index =
  ix_cfg_tokens :: bool
  ix_cfg_trigrams :: bool
  ix_tokens :: "uchar list postings"
  ix_trigrams :: "trigram postings"
  ix_docnum_to_id :: "string option list"
  ix_id_to_docnum :: "(string, nat) amap"

definition ix_new :: "filter_index_field \<Rightarrow> field_index" where
  "ix_new f = \<lparr>ix_cfg_tokens = fi_tokens f, ix_cfg_trigrams = fi_trigrams f, ix_tokens = [],
     ix_trigrams = [], ix_docnum_to_id = [], ix_id_to_docnum = []\<rparr>"

definition ix_tombstone :: "string \<Rightarrow> field_index \<Rightarrow> field_index" where
  "ix_tombstone did ix = (case aget (ix_id_to_docnum ix) did of
     None \<Rightarrow> ix
   | Some d \<Rightarrow> ix\<lparr>ix_id_to_docnum := adel did (ix_id_to_docnum ix),
                  ix_docnum_to_id := (ix_docnum_to_id ix)[d := None]\<rparr>)"

definition ix_index :: "text_env \<Rightarrow> string \<Rightarrow> string \<Rightarrow> field_index \<Rightarrow> field_index" where
  "ix_index env did s ix0 =
     (let ix = ix_tombstone did ix0; docnum = length (ix_docnum_to_id ix) in
      ix\<lparr>ix_tokens := (if ix_cfg_tokens ix then token_index env docnum s (ix_tokens ix) else ix_tokens ix),
         ix_trigrams := (if ix_cfg_trigrams ix then trigram_index docnum s (ix_trigrams ix) else ix_trigrams ix),
         ix_docnum_to_id := ix_docnum_to_id ix @ [Some did],
         ix_id_to_docnum := aput did docnum (ix_id_to_docnum ix)\<rparr>)"

definition ix_live_count :: "field_index \<Rightarrow> nat" where
  "ix_live_count ix = length (ix_id_to_docnum ix)"

definition ix_ids :: "nat list \<Rightarrow> field_index \<Rightarrow> string list" where
  "ix_ids docnums ix =
     List.map_filter (\<lambda>d. if d < length (ix_docnum_to_id ix) then ix_docnum_to_id ix ! d else None) docnums"

section \<open>The store's filter index\<close>

text \<open>The flattened text of an attribute.\<close>

fun join_space :: "string list \<Rightarrow> string" where
  "join_space [] = []"
| "join_space [s] = s"
| "join_space (s # t # ts) = s @ '' '' @ join_space (t # ts)"

definition field_text :: "attrs \<Rightarrow> string \<Rightarrow> string" where
  "field_text a field = (case aget a field of
     Some (VStr s) \<Rightarrow> s
   | Some (VList items) \<Rightarrow> join_space items
   | _ \<Rightarrow> [])"

record findex =
  fx_fields :: "(string \<times> string, field_index) amap"
  fx_schema :: "(string, filter_index_field list) amap"

definition findex_default :: findex where
  "findex_default = \<lparr>fx_fields = [], fx_schema = []\<rparr>"

definition fx_is_active :: "findex \<Rightarrow> bool" where
  "fx_is_active fx \<longleftrightarrow> fx_schema fx \<noteq> []"

definition fx_schema_for :: "string \<Rightarrow> findex \<Rightarrow> filter_index_field list option" where
  "fx_schema_for c fx = aget (fx_schema fx) c"

definition drop_fields :: "string \<Rightarrow> (string \<times> string, 'v) amap \<Rightarrow> (string \<times> string, 'v) amap" where
  "drop_fields c m = filter (\<lambda>e. fst (fst e) \<noteq> c) m"

definition fx_set_schema :: "string \<Rightarrow> filter_index_field list \<Rightarrow> findex \<Rightarrow> findex" where
  "fx_set_schema c decls fx =
     fx\<lparr>fx_fields := fold (\<lambda>f. aput (c, fi_field f) (ix_new f)) decls (drop_fields c (fx_fields fx)),
        fx_schema := (if decls = [] then adel c (fx_schema fx) else aput c decls (fx_schema fx))\<rparr>"

definition fx_index_field :: "text_env \<Rightarrow> string \<Rightarrow> string \<Rightarrow> attrs \<Rightarrow> filter_index_field \<Rightarrow>
    (string \<times> string, field_index) amap \<Rightarrow> (string \<times> string, field_index) amap" where
  "fx_index_field env c did a f m = (case aget m (c, fi_field f) of
     None \<Rightarrow> m
   | Some ix \<Rightarrow> aput (c, fi_field f) (ix_index env did (field_text a (fi_field f)) ix) m)"

definition fx_index_doc :: "text_env \<Rightarrow> string \<Rightarrow> string \<Rightarrow> attrs \<Rightarrow> findex \<Rightarrow> findex" where
  "fx_index_doc env c did a fx = (case aget (fx_schema fx) c of
     None \<Rightarrow> fx
   | Some decls \<Rightarrow> fx\<lparr>fx_fields := fold (fx_index_field env c did a) decls (fx_fields fx)\<rparr>)"

definition fx_remove_doc :: "string \<Rightarrow> string \<Rightarrow> findex \<Rightarrow> findex" where
  "fx_remove_doc c did fx =
     fx\<lparr>fx_fields := map (\<lambda>(k, ix). (k, if fst k = c then ix_tombstone did ix else ix)) (fx_fields fx)\<rparr>"

definition fx_drop_collection :: "string \<Rightarrow> findex \<Rightarrow> findex" where
  "fx_drop_collection c fx =
     fx\<lparr>fx_fields := drop_fields c (fx_fields fx), fx_schema := adel c (fx_schema fx)\<rparr>"

definition fx_clear_indexes :: "findex \<Rightarrow> findex" where
  "fx_clear_indexes fx =
     (fold (\<lambda>e. fx_set_schema (fst e) (snd e)) (fx_schema fx) \<lparr>fx_fields = [], fx_schema = []\<rparr>)
       \<lparr>fx_schema := fx_schema fx\<rparr>"

definition fx_index_for :: "string \<Rightarrow> string \<Rightarrow> findex \<Rightarrow> field_index option" where
  "fx_index_for c field fx = aget (fx_fields fx) (c, field)"

section \<open>Candidates\<close>

definition with_cfg :: "(field_index \<Rightarrow> bool) \<Rightarrow> field_index option \<Rightarrow> field_index option" where
  "with_cfg on i = Option.bind i (\<lambda>ix. if on ix then Some ix else None)"

text \<open>Postings of every wanted token, within the budget of the shortest list.\<close>

definition all_tokens_candidates :: "text_env \<Rightarrow> string \<Rightarrow> nat \<Rightarrow> field_index \<Rightarrow> nat list option" where
  "all_tokens_candidates env query limit ix =
     (let want = tokens env query; posts = map (\<lambda>t. token_get t (ix_tokens ix)) want in
      if want = [] then None
      else (case shortest posts of
              None \<Rightarrow> None
            | Some n \<Rightarrow> if n > limit then None else intersect posts))"

definition fx_candidates :: "text_env \<Rightarrow> (string \<Rightarrow> hir option) \<Rightarrow> string \<Rightarrow> predicate \<Rightarrow> nat \<Rightarrow> findex \<Rightarrow>
    (field_index \<times> nat list) option" where
  "fx_candidates env parse c pred limit fx = (case pred of
     PContainsAllTokens key query \<Rightarrow>
       Option.bind (with_cfg ix_cfg_tokens (fx_index_for c key fx)) (\<lambda>ix.
         map_option (Pair ix) (all_tokens_candidates env query limit ix))
   | PContainsTokenSequence key query \<Rightarrow>
       Option.bind (with_cfg ix_cfg_tokens (fx_index_for c key fx)) (\<lambda>ix.
         map_option (Pair ix) (all_tokens_candidates env query limit ix))
   | PContainsAnyToken key query \<Rightarrow>
       Option.bind (with_cfg ix_cfg_tokens (fx_index_for c key fx)) (\<lambda>ix.
         let want = tokens env query; posts = map (\<lambda>t. token_get t (ix_tokens ix)) want in
         if want = [] then Some (ix, [])
         else (case longest posts of
                 None \<Rightarrow> None
               | Some n \<Rightarrow> if n > limit then None else Some (ix, union_lists posts)))
   | PFuzzy key needle max_edits \<Rightarrow>
       Option.bind (with_cfg ix_cfg_trigrams (fx_index_for c key fx)) (\<lambda>ix.
       Option.bind (fuzzy_threshold needle max_edits) (\<lambda>threshold.
         Some (ix, at_least (distinct_trigrams needle) threshold (ix_trigrams ix))))
   | PRegex key pattern \<Rightarrow>
       Option.bind (with_cfg ix_cfg_trigrams (fx_index_for c key fx)) (\<lambda>ix.
         let want = remdups_adj (sort (concat
               (map distinct_windows (required_literals parse pattern))));
             posts = map (\<lambda>t. posting_get t (ix_trigrams ix)) want
         in if want = [] then None
            else (case shortest posts of
                    None \<Rightarrow> None
                  | Some n \<Rightarrow> if n > limit then None
                      else Some (ix, at_least want (length want) (ix_trigrams ix))))
   | _ \<Rightarrow> None)"

definition fx_candidate_ids :: "text_env \<Rightarrow> (string \<Rightarrow> hir option) \<Rightarrow> string \<Rightarrow> predicate \<Rightarrow> nat \<Rightarrow> findex \<Rightarrow>
    string list option" where
  "fx_candidate_ids env parse c pred limit fx =
     Option.bind (fx_candidates env parse c pred limit fx) (\<lambda>(ix, docnums).
       if length docnums > limit then None else Some (ix_ids docnums ix))"

text \<open>Any one field index of the collection counts its live documents.\<close>

definition fx_live_docs :: "string \<Rightarrow> findex \<Rightarrow> nat option" where
  "fx_live_docs c fx = map_option (\<lambda>e. ix_live_count (snd e)) (List.find (\<lambda>e. fst (fst e) = c) (fx_fields fx))"

section \<open>Walking a filter\<close>

text \<open>The id sets are strictly sorted posts; \<^const>\<open>None\<close> is every document.\<close>

definition meet :: "string list option \<Rightarrow> string list option \<Rightarrow> string list option" where
  "meet acc here = (case here of
     None \<Rightarrow> acc
   | Some h \<Rightarrow> (case acc of None \<Rightarrow> Some h | Some prev \<Rightarrow> Some (filter (\<lambda>x. x \<in> set h) prev)))"

fun conjunction :: "string list option list \<Rightarrow> string list option \<Rightarrow> string list option" where
  "conjunction [] acc = acc"
| "conjunction (here # rest) acc =
     (let acc' = meet acc here in
      if here \<noteq> None \<and> acc' = Some [] then acc' else conjunction rest acc')"

fun disjunction :: "string list option list \<Rightarrow> string list \<Rightarrow> string list option" where
  "disjunction [] acc = Some acc"
| "disjunction (None # rest) acc = None"
| "disjunction (Some h # rest) acc = disjunction rest (remdups_adj (sort (acc @ h)))"

fun narrow_one :: "text_env \<Rightarrow> (string \<Rightarrow> hir option) \<Rightarrow> findex \<Rightarrow> string \<Rightarrow> nat \<Rightarrow> predicate \<Rightarrow> string list option" where
  "narrow_one env parse fx c limit (PAll ps) = conjunction (map (narrow_one env parse fx c limit) ps) None"
| "narrow_one env parse fx c limit (PAny ps) = disjunction (map (narrow_one env parse fx c limit) ps) []"
| "narrow_one env parse fx c limit (PNot p) = None"
| "narrow_one env parse fx c limit p =
     map_option (\<lambda>ids. remdups_adj (sort ids)) (fx_candidate_ids env parse c p limit fx)"

definition narrow_candidate_ids :: "text_env \<Rightarrow> (string \<Rightarrow> hir option) \<Rightarrow> findex \<Rightarrow> string \<Rightarrow> filter_t \<Rightarrow>
    string list option" where
  "narrow_candidate_ids env parse fx c f =
     (if \<not> fx_is_active fx then None
      else Option.bind (fx_live_docs c fx) (\<lambda>live.
        let limit = live div 2 in
        Option.bind (conjunction (map (narrow_one env parse fx c limit) f) None) (\<lambda>ids.
          if length ids > limit then None else Some ids)))"

fun findex_validate_from :: "string list \<Rightarrow> filter_index_field list \<Rightarrow> bool" where
  "findex_validate_from seen [] = True"
| "findex_validate_from seen (f # fs) =
     (fi_field f \<noteq> [] \<and> (fi_tokens f \<or> fi_trigrams f) \<and> fi_field f \<notin> set seen \<and>
      findex_validate_from (fi_field f # seen) fs)"

definition findex_validate :: "filter_index_field list \<Rightarrow> bool" where
  "findex_validate decls = findex_validate_from [] decls"

end
