(* ===== verification/FindexSound.thy ===== *)
theory FindexSound
  imports Findex
begin

text \<open>
  The filter index never drops a match. A field index covers a document when its postings hold
  every folded token and every trigram of the document's text; the operations keep what is
  covered; and every candidate list computed for a predicate contains each covered document
  that satisfies it.
\<close>

section \<open>Strings\<close>

text \<open>A Rust \<^verbatim>\<open>String\<close> is well-formed UTF-8: no sequence is cut short.\<close>

fun utf8_ok :: "nat list \<Rightarrow> bool" where
  "utf8_ok [] = True"
| "utf8_ok (a # bs) =
     (if a < 128 then utf8_ok bs
      else if a < 224 then (case bs of b # r \<Rightarrow> utf8_ok r | _ \<Rightarrow> False)
      else if a < 240 then (case bs of b # c # r \<Rightarrow> utf8_ok r | _ \<Rightarrow> False)
      else (case bs of b # c # d # r \<Rightarrow> utf8_ok r | _ \<Rightarrow> False))"

definition str_ok :: "string \<Rightarrow> bool" where
  "str_ok s = utf8_ok (map of_char s)"

lemma utf8_chars_append: "utf8_ok xs \<Longrightarrow> utf8_chars (xs @ ys) = utf8_chars xs @ utf8_chars ys"
proof (induction xs rule: utf8_ok.induct)
  case (2 a bs)
  consider "a < 128" | "\<not> a < 128" "a < 224" | "\<not> a < 224" "a < 240" | "\<not> a < 240" by linarith
  then show ?case
  proof cases
    case 1
    then show ?thesis using 2 by simp
  next
    case two: 2
    then obtain b r where "bs = b # r" using "2.prems" by (cases bs) simp_all
    then show ?thesis using two 2 by simp
  next
    case three: 3
    then obtain b c r where "bs = b # c # r"
      using "2.prems" by (cases bs rule: windows3.cases) auto
    then show ?thesis using three 2 by simp
  next
    case four: 4
    then obtain b c d r where "bs = b # c # d # r"
      using "2.prems" by (cases bs rule: windows3.cases) auto
    then show ?thesis using four 2 by simp
  qed
qed simp

lemma chars_append: "str_ok s \<Longrightarrow> chars (s @ t) = chars s @ chars t"
  by (simp add: str_ok_def chars_def utf8_chars_append)

lemma chars_space: "chars (CHR '' '' # t) = 32 # chars t"
  by (simp add: chars_def)

definition value_ok :: "attr_value \<Rightarrow> bool" where
  "value_ok v = (case v of VStr s \<Rightarrow> str_ok s | VList items \<Rightarrow> list_all str_ok items | _ \<Rightarrow> True)"

section \<open>The joined text of a list\<close>

lemma chars_join:
  "list_all str_ok items \<Longrightarrow> s \<in> set items \<Longrightarrow>
     \<exists>pre post. chars (join_space items) = pre @ chars s @ post \<and>
       (pre = [] \<or> last pre = 32) \<and> (post = [] \<or> hd post = 32)"
proof (induction items rule: join_space.induct)
  case (2 s')
  then show ?case by (intro exI[of _ "[]"]) simp
next
  case (3 s' t ts)
  have split: "chars (join_space (s' # t # ts)) = chars s' @ 32 # chars (join_space (t # ts))"
    using "3.prems" chars_append[of s' "'' '' @ join_space (t # ts)"] by (simp add: chars_space)
  show ?case
  proof (cases "s = s'")
    case True
    show ?thesis unfolding split True
      by (rule exI[of _ "[]"], rule exI[of _ "32 # chars (join_space (t # ts))"]) simp
  next
    case False
    then obtain pre post where ih: "chars (join_space (t # ts)) = pre @ chars s @ post"
      "pre = [] \<or> last pre = 32" "post = [] \<or> hd post = 32"
      using 3 by auto
    show ?thesis unfolding split ih(1)
      by (rule exI[of _ "chars s' @ 32 # pre"], rule exI[of _ post]) (use ih in auto)
  qed
qed auto

lemma windows3_append1: "set (windows3 ys) \<subseteq> set (windows3 (xs @ ys))"
proof (induction xs)
  case (Cons x xs)
  then show ?case using windows3_Cons[of "xs @ ys" x] by auto
qed simp

lemma windows3_append2: "set (windows3 xs) \<subseteq> set (windows3 (xs @ ys))"
  by (induction xs rule: windows3.induct) auto

lemma windows3_infix: "set (windows3 xs) \<subseteq> set (windows3 (pre @ xs @ post))"
  using windows3_append1[of "xs @ post" pre] windows3_append2[of xs post] by blast

lemma split_on_ne: "split_on sep cs \<noteq> []"
  by (induction cs) (auto split: list.splits)

lemma split_on_append_sep: "sep c \<Longrightarrow> split_on sep (xs @ c # ys) = split_on sep xs @ split_on sep ys"
proof (induction xs)
  case (Cons x xs)
  then show ?case using split_on_ne[of sep xs] by (auto split: list.splits)
qed simp

lemma tokens_of_append_sep:
  "\<not> te_alnum env c \<Longrightarrow> tokens_of env (xs @ c # ys) = tokens_of env xs @ tokens_of env ys"
  by (simp add: tokens_of_def split_on_append_sep)

lemma tokens_of_infix:
  assumes "\<not> te_alnum env 32" "pre = [] \<or> last pre = 32" "post = [] \<or> hd post = 32"
  shows "set (tokens_of env xs) \<subseteq> set (tokens_of env (pre @ xs @ post))"
proof -
  have right: "set (tokens_of env xs) \<subseteq> set (tokens_of env (xs @ post))"
  proof (cases post)
    case (Cons c r)
    then show ?thesis using assms tokens_of_append_sep[of env c xs r] by auto
  qed simp
  show ?thesis
  proof (cases pre rule: rev_cases)
    case (snoc p c)
    then show ?thesis using assms right tokens_of_append_sep[of env c p "xs @ post"] by auto
  qed (use right in simp)
qed

text \<open>What a text element of an attribute has, the flattened text of the attribute has too.\<close>

lemma element_in_text:
  assumes "any_text (aget a key) pred" "\<forall>v. aget a key = Some v \<longrightarrow> value_ok v" "\<not> te_alnum env 32"
  obtains t where "pred t" "set (tokens env t) \<subseteq> set (tokens env (field_text a key))"
    "set (windows3 (lower_chars t)) \<subseteq> set (windows3 (lower_chars (field_text a key)))"
proof -
  from assms(1) consider s where "aget a key = Some (VStr s)" "pred s"
    | items s where "aget a key = Some (VList items)" "s \<in> set items" "pred s"
    by (auto simp: any_text_def list_ex_iff split: option.splits attr_value.splits)
  then show ?thesis
  proof cases
    case 1
    then show ?thesis by (intro that[of s]) (simp_all add: field_text_def)
  next
    case 2
    then have ft: "field_text a key = join_space items" "list_all str_ok items"
      using assms(2) by (simp_all add: field_text_def value_ok_def)
    from chars_join[OF ft(2) 2(2)] obtain pre post where
      j: "chars (join_space items) = pre @ chars s @ post" "pre = [] \<or> last pre = 32" "post = [] \<or> hd post = 32"
      by blast
    show ?thesis
    proof (rule that[of s])
      show "set (tokens env s) \<subseteq> set (tokens env (field_text a key))"
        unfolding tokens_def ft(1) j(1) by (rule tokens_of_infix[OF assms(3) j(2,3)])
      show "set (windows3 (lower_chars s)) \<subseteq> set (windows3 (lower_chars (field_text a key)))"
        unfolding lower_chars_def ft(1) j(1) map_append by (rule windows3_infix)
    qed (rule 2(3))
  qed
qed

section \<open>Required literals\<close>

text \<open>
  The strings a parse tree may match, as \<^verbatim>\<open>regex-syntax\<close> documents its nodes; classes and look-around
  assertions are over-approximated.
\<close>

inductive hir_may :: "hir \<Rightarrow> uchar list \<Rightarrow> bool" where
  may_empty: "hir_may HEmpty []"
| may_literal: "hir_may (HLiteral (Some l)) l"
| may_bytes: "hir_may (HLiteral None) w"
| may_class: "hir_may HClass w"
| may_look: "hir_may HLook []"
| may_repeat: "n \<le> length ws \<Longrightarrow> (\<And>w. w \<in> set ws \<Longrightarrow> hir_may h w) \<Longrightarrow> hir_may (HRepetition n h) (concat ws)"
| may_capture: "hir_may h w \<Longrightarrow> hir_may (HCapture h) w"
| may_concat_nil: "hir_may (HConcat []) []"
| may_concat: "hir_may h w \<Longrightarrow> hir_may (HConcat hs) v \<Longrightarrow> hir_may (HConcat (h # hs)) (w @ v)"
| may_alternate: "h \<in> set hs \<Longrightarrow> hir_may h w \<Longrightarrow> hir_may (HAlternation hs) w"

inductive_cases may_literalE: "hir_may (HLiteral (Some l)) w"
inductive_cases may_concatE: "hir_may (HConcat (h # hs)) w"

abbreviation has_all :: "uchar list list \<Rightarrow> uchar list \<Rightarrow> bool" where
  "has_all ls w \<equiv> \<forall>l \<in> set ls. sublist l w"

lemma sublist_widen: "sublist l w \<Longrightarrow> sublist l (u @ w @ v)"
  by (metis sublist_def append.assoc)

lemma concat_loop_accumulates: "concat_loop ps out run = out @ concat_loop ps [] run"
proof (induction ps arbitrary: out run)
  case (Cons p ps)
  obtain l req where p: "p = (l, req)" by fastforce
  show ?case
  proof (cases l)
    case None
    show ?thesis
      using Cons.IH[of "out @ flush_run run @ req" "[]"] Cons.IH[of "flush_run run @ req" "[]"]
      by (simp add: p None)
  next
    case (Some s)
    show ?thesis using Cons.IH[of out "run @ s"] by (simp add: p Some)
  qed
qed simp

lemma alt_loop_common:
  "l \<in> set (alt_loop bs common) \<Longrightarrow>
     (case common of None \<Rightarrow> True | Some c \<Rightarrow> l \<in> set c) \<and> (\<forall>b \<in> set bs. l \<in> set b)"
proof (induction bs common rule: alt_loop.induct)
  case (1 common)
  then show ?case by (cases common) simp_all
next
  case (2 here rest common)
  define c where "c = (case common of None \<Rightarrow> here | Some prev \<Rightarrow> filter (\<lambda>l. l \<in> set here) prev)"
  have "here \<noteq> []" "c \<noteq> []" "l \<in> set (alt_loop rest (Some c))"
    using "2.prems" by (auto simp: c_def Let_def split: if_splits)
  then have "l \<in> set c" "\<forall>b \<in> set rest. l \<in> set b"
    using "2.IH"[OF _ c_def] by simp_all
  then show ?case by (cases common) (auto simp: c_def)
qed

text \<open>A run of literals in a concatenation is matched contiguously.\<close>

lemma concat_loop_sound:
  assumes "\<And>h w. h \<in> set hs \<Longrightarrow> hir_may h w \<Longrightarrow> has_all (required h) w"
    and "hir_may (HConcat hs) v" "suffix run u"
  shows "has_all (concat_loop (map (\<lambda>p. (literal_of p, required p)) hs) [] run) (u @ v)"
  using assms
proof (induction hs arbitrary: u v run)
  case Nil
  then show ?case by (auto simp: flush_run_def suffix_def sublist_def) blast
next
  case (Cons h hs)
  from Cons.prems(2) obtain w v' where split: "v = w @ v'" "hir_may h w" "hir_may (HConcat hs) v'"
    by (rule may_concatE) blast
  have req: "has_all (required p) x" if "p \<in> set hs" "hir_may p x" for p x
    using Cons.prems(1)[of p x] that by simp
  show ?case
  proof (cases "literal_of h")
    case (Some l)
    then have "h = HLiteral (Some l)" by (cases h) auto
    then have "w = l" using split(2) by (auto elim: may_literalE)
    then have "suffix (run @ l) (u @ w)" using Cons.prems(3) by (auto simp: suffix_def)
    from Cons.IH[OF req split(3) this] show ?thesis using split(1) Some by simp
  next
    case None
    have later: "has_all (concat_loop (map (\<lambda>p. (literal_of p, required p)) hs) [] []) ((u @ w) @ v')"
      using Cons.IH[OF req split(3), of "[]" "u @ w"] by simp
    have "has_all (required h) w" using Cons.prems(1)[of h w] split(2) by simp
    then have here: "has_all (required h) ((u @ w) @ v')"
      using sublist_widen[of _ w u v'] by (simp add: append.assoc)
    have "has_all (flush_run run) ((u @ w) @ v')"
      using Cons.prems(3) by (auto simp: flush_run_def suffix_def)
    then show ?thesis
      using later here split(1) None concat_loop_accumulates[of _ "flush_run run @ required h" "[]"]
      by (auto simp: append.assoc)
  qed
qed

lemma required_sound: "hir_may h w \<Longrightarrow> has_all (required h) w"
proof (induction h arbitrary: w)
  case (HLiteral x)
  then show ?case by (cases x) (auto elim: may_literalE)
next
  case (HRepetition n h)
  from HRepetition.prems obtain ws where ws: "w = concat ws" "n \<le> length ws" "\<forall>v \<in> set ws. hir_may h v"
    by (cases rule: hir_may.cases) auto
  show ?case
  proof (cases ws)
    case (Cons v vs)
    then show ?thesis using HRepetition.IH[of v] ws sublist_widen[of _ v "[]" "concat vs"] by auto
  qed (use ws in simp)
next
  case (HCapture h)
  then show ?case by (auto elim: hir_may.cases)
next
  case (HConcat hs)
  then show ?case using concat_loop_sound[of hs w "[]" "[]"] by simp
next
  case (HAlternation hs)
  from HAlternation.prems obtain h where "h \<in> set hs" "hir_may h w" by (auto elim: hir_may.cases)
  then show ?case using HAlternation.IH alt_loop_common[of _ "map required hs" None] by auto
qed simp_all

section \<open>Coverage of one field\<close>

definition ix_covers :: "text_env \<Rightarrow> string \<Rightarrow> string \<Rightarrow> field_index \<Rightarrow> bool" where
  "ix_covers env did s ix \<longleftrightarrow> (\<exists>n < length (ix_docnum_to_id ix).
     ix_docnum_to_id ix ! n = Some did \<and>
     (ix_cfg_tokens ix \<longrightarrow> (\<forall>t \<in> set (tokens env s). n \<in> set (token_get t (ix_tokens ix)))) \<and>
     (ix_cfg_trigrams ix \<longrightarrow> (\<forall>w \<in> set (windows3 (lower_chars s)). n \<in> set (posting_get w (ix_trigrams ix)))))"

definition ix_wf :: "field_index \<Rightarrow> bool" where
  "ix_wf ix \<longleftrightarrow> (\<forall>i n. aget (ix_id_to_docnum ix) i = Some n \<longrightarrow>
     n < length (ix_docnum_to_id ix) \<and> ix_docnum_to_id ix ! n = Some i)"

lemma posting_get_push:
  "set (posting_get k (posting_push d k' p)) = set (posting_get k p) \<union> (if k = k' then {d} else {})"
  by (auto simp: posting_get_def posting_push_def Let_def split: option.splits if_splits)

lemma posting_get_fold:
  "set (posting_get k (fold (\<lambda>t. posting_push d (f t)) ts p)) =
     set (posting_get k p) \<union> (if k \<in> f ` set ts then {d} else {})"
  by (induction ts arbitrary: p) (auto simp: posting_get_push)

lemma token_index_get:
  "set (token_get t (token_index env d s p)) =
     set (token_get t p) \<union> (if fold_token t \<in> fold_token ` set (tokens env s) then {d} else {})"
  by (simp add: token_get_def token_index_def posting_get_fold)

lemma set_distinct_trigrams [simp]: "set (distinct_trigrams s) = set (windows3 (lower_chars s))"
  by (simp add: distinct_trigrams_def distinct_windows_def lower_chars_def)

lemma trigram_index_get:
  "set (posting_get w (trigram_index d s p)) =
     set (posting_get w p) \<union> (if w \<in> set (windows3 (lower_chars s)) then {d} else {})"
  using posting_get_fold[where f = "\<lambda>w. w" and ts = "distinct_trigrams s"] by (simp add: trigram_index_def)

lemma tombstone_simps [simp]:
  "ix_cfg_tokens (ix_tombstone i ix) = ix_cfg_tokens ix"
  "ix_cfg_trigrams (ix_tombstone i ix) = ix_cfg_trigrams ix"
  "ix_tokens (ix_tombstone i ix) = ix_tokens ix"
  "ix_trigrams (ix_tombstone i ix) = ix_trigrams ix"
  "length (ix_docnum_to_id (ix_tombstone i ix)) = length (ix_docnum_to_id ix)"
  by (simp_all add: ix_tombstone_def split: option.splits)

lemma tombstone_other:
  "ix_wf ix \<Longrightarrow> i \<noteq> did \<Longrightarrow> n < length (ix_docnum_to_id ix) \<Longrightarrow> ix_docnum_to_id ix ! n = Some did \<Longrightarrow>
     ix_docnum_to_id (ix_tombstone i ix) ! n = Some did"
  by (auto simp: ix_tombstone_def ix_wf_def nth_list_update split: option.splits)

lemma ix_tombstone_wf: "ix_wf ix \<Longrightarrow> ix_wf (ix_tombstone i ix)"
  unfolding ix_wf_def[of "ix_tombstone i ix"]
proof (intro allI impI)
  fix j n
  assume wf: "ix_wf ix" and get: "aget (ix_id_to_docnum (ix_tombstone i ix)) j = Some n"
  then have "aget (ix_id_to_docnum ix) j = Some n" "j \<noteq> i"
    by (auto simp: ix_tombstone_def split: option.splits if_splits)
  then show "n < length (ix_docnum_to_id (ix_tombstone i ix)) \<and> ix_docnum_to_id (ix_tombstone i ix) ! n = Some j"
    using wf tombstone_other[OF wf, of i j n] by (auto simp: ix_wf_def)
qed

lemma ix_tombstone_keeps:
  "ix_wf ix \<Longrightarrow> i \<noteq> did \<Longrightarrow> ix_covers env did s ix \<Longrightarrow> ix_covers env did s (ix_tombstone i ix)"
  using tombstone_other[of ix i did] by (auto simp: ix_covers_def)

text \<open>Pushing a document at a fresh number keeps what the other numbers carry.\<close>

definition ix_push :: "text_env \<Rightarrow> string \<Rightarrow> string \<Rightarrow> field_index \<Rightarrow> field_index" where
  "ix_push env did s ix = (let docnum = length (ix_docnum_to_id ix) in
     ix\<lparr>ix_tokens := (if ix_cfg_tokens ix then token_index env docnum s (ix_tokens ix) else ix_tokens ix),
        ix_trigrams := (if ix_cfg_trigrams ix then trigram_index docnum s (ix_trigrams ix) else ix_trigrams ix),
        ix_docnum_to_id := ix_docnum_to_id ix @ [Some did],
        ix_id_to_docnum := aput did docnum (ix_id_to_docnum ix)\<rparr>)"

lemma ix_index_push: "ix_index env did s ix = ix_push env did s (ix_tombstone did ix)"
  by (simp add: ix_index_def ix_push_def Let_def)

lemma ix_push_covers: "ix_covers env did s (ix_push env did s ix)"
  unfolding ix_covers_def
  by (intro exI[of _ "length (ix_docnum_to_id ix)"])
    (auto simp: ix_push_def Let_def token_index_get trigram_index_get)

lemma ix_push_keeps: "ix_covers env did s ix \<Longrightarrow> ix_covers env did s (ix_push env i t ix)"
  unfolding ix_covers_def
  by (elim exE conjE, rule_tac x = n in exI)
    (auto simp: ix_push_def Let_def token_index_get trigram_index_get nth_append)

lemma ix_push_wf:
  "ix_wf ix \<Longrightarrow> ix_wf (ix_push env i t ix)"
  by (auto simp: ix_wf_def ix_push_def Let_def nth_append intro: less_SucI split: if_splits)

lemma ix_index_wf: "ix_wf ix \<Longrightarrow> ix_wf (ix_index env i t ix)"
  by (simp add: ix_index_push ix_push_wf ix_tombstone_wf)

lemma ix_index_covers: "ix_covers env did s (ix_index env did s ix)"
  by (simp add: ix_index_push ix_push_covers)

lemma ix_index_keeps:
  "ix_wf ix \<Longrightarrow> i \<noteq> did \<Longrightarrow> ix_covers env did s ix \<Longrightarrow> ix_covers env did s (ix_index env i t ix)"
  by (simp add: ix_index_push ix_push_keeps ix_tombstone_keeps)

lemma ix_new_wf: "ix_wf (ix_new f)"
  by (simp add: ix_wf_def ix_new_def)

section \<open>Candidates of one predicate\<close>

text \<open>
  What the index relies on of the code outside: a space is not alphanumeric, and the \<^verbatim>\<open>regex\<close>
  engine accepts only strings that the parse tree of the same pattern may match.
\<close>

definition env_ok :: "text_env \<Rightarrow> (string \<Rightarrow> hir option) \<Rightarrow> bool" where
  "env_ok env parse \<longleftrightarrow> \<not> te_alnum env 32 \<and>
     (\<forall>p re h s. regex_compile env p = Some re \<longrightarrow> parse p = Some h \<longrightarrow> re s \<longrightarrow> hir_may h (chars s))"

definition attrs_ok :: "attrs \<Rightarrow> bool" where
  "attrs_ok a \<longleftrightarrow> (\<forall>k v. aget a k = Some v \<longrightarrow> value_ok v)"

definition fx_covers :: "text_env \<Rightarrow> string \<Rightarrow> string \<Rightarrow> attrs \<Rightarrow> findex \<Rightarrow> bool" where
  "fx_covers env c did a fx \<longleftrightarrow>
     (\<forall>key ix. fx_index_for c key fx = Some ix \<longrightarrow> ix_covers env did (field_text a key) ix)"

lemma ix_ids_mem:
  "n < length (ix_docnum_to_id ix) \<Longrightarrow> ix_docnum_to_id ix ! n = Some did \<Longrightarrow> n \<in> set ds \<Longrightarrow>
     did \<in> set (ix_ids ds ix)"
  by (force simp: ix_ids_def List.map_filter_def)

lemma intersect_mem: "intersect posts = Some ds \<Longrightarrow> \<forall>l \<in> set posts. n \<in> set l \<Longrightarrow> n \<in> set ds"
proof -
  have "n \<in> set (fold (\<lambda>xs acc. filter (\<lambda>d. d \<in> set xs) acc) ls l)"
    if "n \<in> set l" "\<forall>x \<in> set ls. n \<in> set x" for ls l
    using that by (induction ls arbitrary: l) auto
  then show "intersect posts = Some ds \<Longrightarrow> \<forall>l \<in> set posts. n \<in> set l \<Longrightarrow> n \<in> set ds"
    by (auto simp: intersect_def split: list.splits)
qed

lemma count_list_concat:
  "length (filter (\<lambda>t. n \<in> set (g t)) ts) \<le> count_list (concat (map g ts)) n"
proof (induction ts)
  case (Cons t ts)
  have "n \<in> set (g t) \<Longrightarrow> 1 \<le> count_list (g t) n"
    by (metis One_nat_def Suc_leI count_list_0_iff neq0_conv)
  then show ?case using Cons by (auto simp: count_list_append)
qed simp

lemma at_least_mem:
  assumes "distinct wanted" "threshold \<le> card {t \<in> set wanted. n \<in> set (posting_get t p)}" "0 < threshold"
  shows "n \<in> set (at_least wanted threshold p)"
proof -
  let ?hits = "concat (map (\<lambda>t. posting_get t p) wanted)"
  have "card {t \<in> set wanted. n \<in> set (posting_get t p)} =
      length (filter (\<lambda>t. n \<in> set (posting_get t p)) wanted)"
    using distinct_card[OF distinct_filter[OF assms(1)], of "\<lambda>t. n \<in> set (posting_get t p)"] by simp
  then have "threshold \<le> count_list ?hits n"
    using assms(2) count_list_concat[of n "\<lambda>t. posting_get t p" wanted] by linarith
  moreover from this have "n \<in> set ?hits"
    using assms(3) count_notin[of n ?hits] by (metis le_zero_eq less_numeral_extra(3))
  ultimately show ?thesis unfolding at_least_def Let_def by (simp del: set_concat)
qed

lemma at_least_all:
  assumes "distinct wanted" "wanted \<noteq> []" "\<forall>t \<in> set wanted. n \<in> set (posting_get t p)"
  shows "n \<in> set (at_least wanted (length wanted) p)"
proof (rule at_least_mem[OF assms(1)])
  have "{t \<in> set wanted. n \<in> set (posting_get t p)} = set wanted" using assms(3) by blast
  then show "length wanted \<le> card {t \<in> set wanted. n \<in> set (posting_get t p)}"
    using assms(1) by (simp add: distinct_card)
qed (use assms(2) in simp)

lemma distinct_remdups_adj_sort: "distinct (remdups_adj (sort (xs :: 'a::linorder list)))"
proof -
  have "sorted ys \<Longrightarrow> distinct (remdups_adj ys)" for ys :: "'a list"
    by (induction ys rule: remdups_adj.induct) (auto simp: order.antisym)
  then show ?thesis by simp
qed

text \<open>The document's number sits in the posting list of each of its tokens and trigrams.\<close>

lemma all_tokens_sound:
  assumes "all_tokens_candidates env query limit ix = Some ds"
    and "\<forall>q \<in> set (tokens env query). \<exists>h \<in> T. eq_ignore_ascii_case h q"
    and "\<forall>t \<in> T. n \<in> set (token_get t (ix_tokens ix))"
  shows "n \<in> set ds"
proof -
  let ?posts = "map (\<lambda>t. token_get t (ix_tokens ix)) (tokens env query)"
  have "intersect ?posts = Some ds"
    using assms(1) by (auto simp: all_tokens_candidates_def Let_def split: if_splits option.splits)
  moreover have "\<forall>l \<in> set ?posts. n \<in> set l"
    using assms(2,3) by (fastforce simp: eq_ignore_ascii_case_def token_get_def)
  ultimately show ?thesis by (rule intersect_mem)
qed

lemma sequence_from_all:
  "sequence_from ts query \<Longrightarrow> \<forall>q \<in> set query. \<exists>h \<in> set ts. eq_ignore_ascii_case h q"
proof (induction ts query rule: sequence_from.induct)
  case (1 query)
  then show ?case by (cases query) simp_all
next
  case (2 h hs query)
  have "starts_with_tokens ts qs \<Longrightarrow> \<forall>q \<in> set qs. \<exists>h \<in> set ts. eq_ignore_ascii_case h q" for ts qs
    by (induction ts qs rule: starts_with_tokens.induct) auto
  then show ?case using 2 by force
qed

lemma fuzzy_sound:
  assumes "fuzzy_threshold needle max_edits = Some threshold"
    and "levenshtein_ascii_ci t needle \<le> max_edits"
    and "\<forall>w \<in> set (windows3 (lower_chars t)). n \<in> set (posting_get w p)"
  shows "n \<in> set (at_least (distinct_trigrams needle) threshold p)"
proof -
  let ?N = "set (windows3 (lower_chars needle))" and ?T = "set (windows3 (lower_chars t))"
  have len: "length (distinct_trigrams needle) = card ?N"
    using distinct_card[OF distinct_remdups_adj_sort, of "windows3 (lower_chars needle)"]
    by (simp add: distinct_trigrams_def distinct_windows_def lower_chars_def)
  have "card (?N - ?T) \<le> 3 * levenshtein_ascii_ci t needle"
    using missing_bound[OF edit_levr, of "rev (lower_chars needle)" "rev (lower_chars t)"]
    by (simp add: levenshtein_ascii_ci_def levenshtein_levr)
  then have "card (?N - ?T) \<le> 3 * max_edits" using assms(2) by linarith
  moreover have "card ?N = card (?N \<inter> ?T) + card (?N - ?T)"
    by (metis List.finite_set add.commute card_Diff_subset_Int card_mono diff_add finite_Int inf_le1)
  moreover have "threshold = card ?N - 3 * max_edits" "0 < threshold"
    using assms(1) by (auto simp: fuzzy_threshold_def Let_def len split: if_splits)
  moreover have "card (?N \<inter> ?T) \<le> card {w \<in> set (distinct_trigrams needle). n \<in> set (posting_get w p)}"
    by (rule card_mono) (use assms(3) in auto)
  moreover have "distinct (distinct_trigrams needle)"
    by (simp add: distinct_trigrams_def distinct_windows_def distinct_remdups_adj_sort)
  ultimately show ?thesis by (intro at_least_mem) linarith+
qed

lemma literal_windows:
  "hir_may h w \<Longrightarrow> l \<in> set (required h) \<Longrightarrow>
     set (distinct_windows l) \<subseteq> set (windows3 (map to_ascii_lowercase w))"
  using required_sound[of h w] windows3_infix
  by (force simp: distinct_windows_def sublist_def)

lemma regex_windows:
  assumes "env_ok env parse" "regex_compile env p = Some re" "re t"
  shows "set (concat (map distinct_windows (required_literals parse p))) \<subseteq> set (windows3 (lower_chars t))"
proof (cases "parse p")
  case (Some h)
  then have "hir_may h (chars t)" using assms by (simp add: env_ok_def)
  then show ?thesis
    using literal_windows by (fastforce simp: required_literals_def Some lower_chars_def)
qed (simp add: required_literals_def)

lemma leaf_sound:
  assumes ok: "env_ok env parse" "attrs_ok a" and cov: "fx_covers env c did a fx"
    and m: "matches_one env a pred" and cand: "fx_candidates env parse c pred limit fx = Some (ix, ds)"
  shows "did \<in> set (ix_ids ds ix)"
proof -
  have space: "\<not> te_alnum env 32" using ok(1) by (simp add: env_ok_def)
  have val: "\<forall>v. aget a key = Some v \<longrightarrow> value_ok v" for key using ok(2) by (auto simp: attrs_ok_def)
  note elem = element_in_text[OF _ val space]
  have resolve: "did \<in> set (ix_ids ds ix)"
    if "fx_index_for c key fx = Some ix"
      "\<And>n. (ix_cfg_tokens ix \<Longrightarrow> \<forall>t \<in> set (tokens env (field_text a key)). n \<in> set (token_get t (ix_tokens ix))) \<Longrightarrow>
         (ix_cfg_trigrams ix \<Longrightarrow> \<forall>w \<in> set (windows3 (lower_chars (field_text a key))). n \<in> set (posting_get w (ix_trigrams ix))) \<Longrightarrow>
         n \<in> set ds" for key
    using that cov ix_ids_mem[of _ ix did ds] unfolding fx_covers_def ix_covers_def by metis
  show ?thesis
  proof (cases pred)
    case (PContainsAllTokens key query)
    then have ix: "fx_index_for c key fx = Some ix" "ix_cfg_tokens ix" "all_tokens_candidates env query limit ix = Some ds"
      using cand by (auto simp: fx_candidates_def with_cfg_def bind_eq_Some_conv split: if_splits)
    from m PContainsAllTokens obtain t where t:
      "list_all (\<lambda>w. list_ex (\<lambda>h. eq_ignore_ascii_case h w) (tokens env t)) (tokens env query)"
      "set (tokens env t) \<subseteq> set (tokens env (field_text a key))"
      by (auto simp: contains_all_tokens_def elim: elem)
    show ?thesis
      by (rule resolve[OF ix(1)], rule all_tokens_sound[OF ix(3), where T = "set (tokens env t)"])
        (use t ix(2) in \<open>auto simp: list_all_iff list_ex_iff\<close>)
  next
    case (PContainsTokenSequence key query)
    then have ix: "fx_index_for c key fx = Some ix" "ix_cfg_tokens ix" "all_tokens_candidates env query limit ix = Some ds"
      using cand by (auto simp: fx_candidates_def with_cfg_def bind_eq_Some_conv split: if_splits)
    from m PContainsTokenSequence obtain t where t: "sequence_from (tokens env t) (tokens env query)"
      "set (tokens env t) \<subseteq> set (tokens env (field_text a key))"
      by (auto simp: contains_token_sequence_def elim: elem)
    show ?thesis
      by (rule resolve[OF ix(1)], rule all_tokens_sound[OF ix(3), where T = "set (tokens env t)"])
        (use t ix(2) sequence_from_all[OF t(1)] in auto)
  next
    case (PContainsAnyToken key query)
    from m PContainsAnyToken obtain t q h where t: "q \<in> set (tokens env query)" "h \<in> set (tokens env t)"
      "eq_ignore_ascii_case h q" "set (tokens env t) \<subseteq> set (tokens env (field_text a key))"
      by (auto simp: contains_any_token_def list_ex_iff elim: elem)
    then have "tokens env query \<noteq> []" by auto
    then have ix: "fx_index_for c key fx = Some ix" "ix_cfg_tokens ix"
      "ds = union_lists (map (\<lambda>t. token_get t (ix_tokens ix)) (tokens env query))"
      using cand PContainsAnyToken
      by (auto simp: fx_candidates_def with_cfg_def bind_eq_Some_conv Let_def split: if_splits option.splits)
    have same: "token_get q p = token_get h p" for p
      using t(3) by (simp add: token_get_def eq_ignore_ascii_case_def)
    show ?thesis
      by (rule resolve[OF ix(1)]) (use t ix(2) in \<open>force simp: ix(3) union_lists_def simp flip: same\<close>)
  next
    case (PFuzzy key needle max_edits)
    then obtain threshold where ix: "fx_index_for c key fx = Some ix" "ix_cfg_trigrams ix"
      "fuzzy_threshold needle max_edits = Some threshold"
      "ds = at_least (distinct_trigrams needle) threshold (ix_trigrams ix)"
      using cand by (auto simp: fx_candidates_def with_cfg_def bind_eq_Some_conv split: if_splits)
    from m PFuzzy obtain t where t: "levenshtein_ascii_ci t needle \<le> max_edits"
      "set (windows3 (lower_chars t)) \<subseteq> set (windows3 (lower_chars (field_text a key)))"
      by (auto simp: fuzzy_def elim: elem)
    show ?thesis
      by (rule resolve[OF ix(1)], unfold ix(4), rule fuzzy_sound[OF ix(3) t(1)]) (use t ix(2) in auto)
  next
    case (PRegex key p)
    let ?want = "remdups_adj (sort (concat (map distinct_windows (required_literals parse p))))"
    from cand PRegex have ix: "fx_index_for c key fx = Some ix" "ix_cfg_trigrams ix" "?want \<noteq> []"
      "ds = at_least ?want (length ?want) (ix_trigrams ix)"
      by (auto simp: fx_candidates_def with_cfg_def bind_eq_Some_conv Let_def split: if_splits option.splits)
    from m PRegex obtain re t where t: "regex_compile env p = Some re" "re t"
      "set (windows3 (lower_chars t)) \<subseteq> set (windows3 (lower_chars (field_text a key)))"
      by (auto simp: regex_matches_def split: option.splits elim: elem)
    have "set ?want \<subseteq> set (windows3 (lower_chars t))" using regex_windows[OF ok(1) t(1,2)] by simp
    then show ?thesis
      by (intro resolve[OF ix(1)], unfold ix(4), intro at_least_all distinct_remdups_adj_sort ix(3))
        (use t ix(2) in blast)
  qed (use cand in \<open>simp_all add: fx_candidates_def\<close>)
qed

section \<open>The walk of a filter\<close>

abbreviation admits :: "string list option \<Rightarrow> string \<Rightarrow> bool" where
  "admits r did \<equiv> (case r of None \<Rightarrow> True | Some ids \<Rightarrow> did \<in> set ids)"

lemma conjunction_admits:
  "admits acc did \<Longrightarrow> \<forall>r \<in> set rs. admits r did \<Longrightarrow> admits (conjunction rs acc) did"
proof (induction rs acc rule: conjunction.induct)
  case (2 here rest acc)
  have "admits (meet acc here) did" using 2(2,3) by (auto simp: meet_def split: option.splits)
  then show ?case using 2 by (auto simp: Let_def)
qed simp

lemma disjunction_admits:
  "did \<in> set acc \<or> (\<exists>r \<in> set rs. admits r did) \<Longrightarrow> admits (disjunction rs acc) did"
  by (induction rs acc rule: disjunction.induct) auto

lemma narrow_one_admits:
  assumes "env_ok env parse" "attrs_ok a" "fx_covers env c did a fx"
  shows "matches_one env a p \<Longrightarrow> admits (narrow_one env parse fx c limit p) did"
proof (induction p)
  case (PAll ps)
  then show ?case by (auto simp: list_all_iff intro!: conjunction_admits)
next
  case (PAny ps)
  then show ?case by (auto simp: list_ex_iff intro!: disjunction_admits)
qed (auto simp: fx_candidate_ids_def bind_eq_Some_conv split: option.splits if_splits
    dest!: leaf_sound[OF assms, rotated])

lemma narrow_sound:
  assumes "env_ok env parse" "attrs_ok a" "fx_covers env c did a fx" "matches env f a"
    and "narrow_candidate_ids env parse fx c f = Some ids"
  shows "did \<in> set ids"
proof -
  obtain limit where "conjunction (map (narrow_one env parse fx c limit) f) None = Some ids"
    using assms(5) by (auto simp: narrow_candidate_ids_def Let_def bind_eq_Some_conv split: if_splits)
  moreover have "admits (conjunction (map (narrow_one env parse fx c limit) f) None) did"
    using narrow_one_admits[OF assms(1-3)] assms(4)
    by (intro conjunction_admits) (auto simp: matches_def list_all_iff)
  ultimately show ?thesis by simp
qed

section \<open>Coverage of the whole index\<close>

text \<open>Every field index of a collection is declared in the collection's schema.\<close>

definition fx_wf :: "findex \<Rightarrow> bool" where
  "fx_wf fx \<longleftrightarrow> (\<forall>c f ix. aget (fx_fields fx) (c, f) = Some ix \<longrightarrow>
     ix_wf ix \<and> (\<exists>ds. aget (fx_schema fx) c = Some ds \<and> f \<in> fi_field ` set ds))"

lemma fx_wf_field: "fx_wf fx \<Longrightarrow> aget (fx_fields fx) (c, f) = Some ix \<Longrightarrow> ix_wf ix"
  unfolding fx_wf_def by blast

lemma fx_wf_declared:
  "fx_wf fx \<Longrightarrow> aget (fx_fields fx) (c, f) = Some ix \<Longrightarrow>
     \<exists>ds. aget (fx_schema fx) c = Some ds \<and> f \<in> fi_field ` set ds"
  unfolding fx_wf_def by blast

lemma fx_index_field_get:
  "aget (fx_index_field env c i a d m) (c', f) =
     (if c' = c \<and> f = fi_field d then map_option (ix_index env i (field_text a f)) (aget m (c, f)) else aget m (c', f))"
  by (auto simp: fx_index_field_def split: option.splits)

text \<open>One pass over the declared fields: a field not yet indexed is as it was or indexed.\<close>

lemma fold_index_fields:
  assumes "\<And>f ix. aget m (c, f) = Some ix \<Longrightarrow> Q f ix"
    and "\<And>f ix. Q f ix \<Longrightarrow> Q f (ix_index env i (field_text a f) ix)"
    and "aget (fold (fx_index_field env c i a) ds m) (c, f) = Some ix"
  shows "Q f ix"
  using assms(1,3)
proof (induction ds arbitrary: m)
  case (Cons d ds)
  show ?case
    by (rule Cons.IH[of "fx_index_field env c i a d m"])
      (use Cons.prems assms(2) in \<open>auto simp: fx_index_field_get split: if_splits\<close>)
qed simp

lemma fold_index_other:
  "c' \<noteq> c \<Longrightarrow> aget (fold (fx_index_field env c i a) ds m) (c', f) = aget m (c', f)"
  by (induction ds arbitrary: m) (simp_all add: fx_index_field_get)

lemma fold_index_none:
  "aget (fold (fx_index_field env c i a) ds m) (c, f) = None \<longleftrightarrow> aget m (c, f) = None"
  by (induction ds arbitrary: m) (simp_all add: fx_index_field_get)

lemma fold_index_covers:
  "f \<in> fi_field ` set ds \<Longrightarrow> aget (fold (fx_index_field env c i a) ds m) (c, f) = Some ix \<Longrightarrow>
     ix_covers env i (field_text a f) ix"
proof (induction ds arbitrary: m)
  case (Cons d ds)
  let ?m = "fx_index_field env c i a d m"
  show ?case
  proof (cases "f = fi_field d")
    case True
    have "\<And>g x. aget ?m (c, g) = Some x \<Longrightarrow> g = f \<longrightarrow> ix_covers env i (field_text a g) x"
      by (auto simp: fx_index_field_get True ix_index_covers)
    from fold_index_fields[of ?m c "\<lambda>g x. g = f \<longrightarrow> ix_covers env i (field_text a g) x", OF this _ Cons.prems(2)[simplified]]
    show ?thesis by (simp add: ix_index_covers)
  next
    case False
    then show ?thesis using Cons by simp
  qed
qed simp

lemma fx_index_doc_get:
  "aget (fx_fields (fx_index_doc env c i a fx)) =
     (case aget (fx_schema fx) c of
        None \<Rightarrow> aget (fx_fields fx)
      | Some ds \<Rightarrow> aget (fold (fx_index_field env c i a) ds (fx_fields fx)))"
  "fx_schema (fx_index_doc env c i a fx) = fx_schema fx"
  by (simp_all add: fx_index_doc_def split: option.splits)

lemma fx_index_doc_wf: "fx_wf fx \<Longrightarrow> fx_wf (fx_index_doc env c i a fx)"
  unfolding fx_wf_def[of "fx_index_doc env c i a fx"]
proof (intro allI impI)
  fix c' f ix
  assume wf: "fx_wf fx" and get: "aget (fx_fields (fx_index_doc env c i a fx)) (c', f) = Some ix"
  show "ix_wf ix \<and> (\<exists>ds. aget (fx_schema (fx_index_doc env c i a fx)) c' = Some ds \<and> f \<in> fi_field ` set ds)"
  proof (cases "c' = c \<and> aget (fx_schema fx) c \<noteq> None")
    case False
    then have "aget (fx_fields fx) (c', f) = Some ix"
      using get fold_index_other[of c' c] by (auto simp: fx_index_doc_get split: option.splits)
    then show ?thesis using wf by (auto simp: fx_wf_def fx_index_doc_get)
  next
    case True
    then obtain ds where ds: "aget (fx_schema fx) c = Some ds" by auto
    have "ix_wf ix"
      by (rule fold_index_fields[of "fx_fields fx" c "\<lambda>_ x. ix_wf x"])
        (use wf get True ds in \<open>auto simp: fx_wf_def fx_index_doc_get intro: ix_index_wf\<close>)
    moreover have "aget (fx_fields fx) (c, f) \<noteq> None"
      using get True ds fold_index_none[of env c i a ds "fx_fields fx" f] by (simp add: fx_index_doc_get)
    then have "f \<in> fi_field ` set ds" using fx_wf_declared[OF wf] ds by fastforce
    ultimately show ?thesis using True ds by (simp add: fx_index_doc_get)
  qed
qed

lemma fx_index_doc_covers: "fx_wf fx \<Longrightarrow> fx_covers env c i a (fx_index_doc env c i a fx)"
  unfolding fx_covers_def fx_index_for_def
proof (intro allI impI)
  fix f ix
  assume wf: "fx_wf fx" and get: "aget (fx_fields (fx_index_doc env c i a fx)) (c, f) = Some ix"
  from get fx_index_doc_wf[OF wf, of env c i a] obtain ds where "aget (fx_schema fx) c = Some ds" "f \<in> fi_field ` set ds"
    using fx_wf_declared by (metis fx_index_doc_get(2))
  then show "ix_covers env i (field_text a f) ix"
    using get fold_index_covers[of f ds] by (simp add: fx_index_doc_get)
qed

lemma fx_index_doc_keeps:
  assumes "fx_wf fx" "(c', j) \<noteq> (c, i)" "fx_covers env c' j b fx"
  shows "fx_covers env c' j b (fx_index_doc env c i a fx)"
  unfolding fx_covers_def fx_index_for_def
proof (intro allI impI)
  fix f ix
  assume get: "aget (fx_fields (fx_index_doc env c i a fx)) (c', f) = Some ix"
  show "ix_covers env j (field_text b f) ix"
  proof (cases "c' = c \<and> aget (fx_schema fx) c \<noteq> None")
    case False
    then have "aget (fx_fields fx) (c', f) = Some ix"
      using get fold_index_other[of c' c] by (auto simp: fx_index_doc_get split: option.splits)
    then show ?thesis using assms(3) by (simp add: fx_covers_def fx_index_for_def)
  next
    case True
    then obtain ds where ds: "aget (fx_schema fx) c = Some ds" and "i \<noteq> j" using assms(2) by auto
    have "ix_wf ix \<and> ix_covers env j (field_text b f) ix"
    proof (rule fold_index_fields[of "fx_fields fx" c "\<lambda>f x. ix_wf x \<and> ix_covers env j (field_text b f) x"])
      show "aget (fold (fx_index_field env c i a) ds (fx_fields fx)) (c, f) = Some ix"
        using get True ds by (simp add: fx_index_doc_get)
      show "ix_wf x \<and> ix_covers env j (field_text b g) x" if "aget (fx_fields fx) (c, g) = Some x" for g x
        using that fx_wf_field[OF assms(1)] assms(3) True by (auto simp: fx_covers_def fx_index_for_def)
    qed (use \<open>i \<noteq> j\<close> in \<open>auto intro: ix_index_wf ix_index_keeps\<close>)
    then show ?thesis ..
  qed
qed

lemma fx_remove_doc_get:
  "aget (fx_fields (fx_remove_doc c i fx)) (c', f) =
     map_option (\<lambda>ix. if c' = c then ix_tombstone i ix else ix) (aget (fx_fields fx) (c', f))"
  "fx_schema (fx_remove_doc c i fx) = fx_schema fx"
proof -
  have "aget (map (\<lambda>(k, ix). (k, if fst k = c then g ix else ix)) m) (c', f) =
      map_option (\<lambda>ix. if c' = c then g ix else ix) (aget m (c', f))" for g :: "field_index \<Rightarrow> field_index" and m
    by (induction m) auto
  then show "aget (fx_fields (fx_remove_doc c i fx)) (c', f) =
      map_option (\<lambda>ix. if c' = c then ix_tombstone i ix else ix) (aget (fx_fields fx) (c', f))"
    by (simp add: fx_remove_doc_def)
qed (simp add: fx_remove_doc_def)

lemma fx_remove_doc_wf: "fx_wf fx \<Longrightarrow> fx_wf (fx_remove_doc c i fx)"
  by (auto simp: fx_wf_def fx_remove_doc_get ix_tombstone_wf)

lemma fx_remove_doc_keeps:
  "fx_wf fx \<Longrightarrow> (c', j) \<noteq> (c, i) \<Longrightarrow> fx_covers env c' j b fx \<Longrightarrow> fx_covers env c' j b (fx_remove_doc c i fx)"
  by (auto simp: fx_covers_def fx_index_for_def fx_remove_doc_get fx_wf_def intro: ix_tombstone_keeps)

lemma drop_fields_get: "aget (drop_fields c m) (c', f) = (if c' = c then None else aget m (c', f))"
  by (induction m) (auto simp: drop_fields_def)

lemma fold_new_fields:
  "aget (fold (\<lambda>d. aput (c, fi_field d) (ix_new d)) ds m) (c', f) = Some ix \<Longrightarrow>
     (c' = c \<and> f \<in> fi_field ` set ds \<and> ix_wf ix) \<or> aget m (c', f) = Some ix"
  by (induction ds arbitrary: m) (fastforce simp: ix_new_wf split: if_splits)+

lemma fx_set_schema_get:
  "aget (fx_fields (fx_set_schema c ds fx)) (c', f) = Some ix \<Longrightarrow>
     (c' = c \<and> f \<in> fi_field ` set ds \<and> ix_wf ix) \<or> (c' \<noteq> c \<and> aget (fx_fields fx) (c', f) = Some ix)"
  using fold_new_fields[of c ds "drop_fields c (fx_fields fx)" c' f ix]
  by (auto simp: fx_set_schema_def drop_fields_get split: if_splits)

lemma fx_set_schema_schema:
  "aget (fx_schema (fx_set_schema c ds fx)) = (aget (fx_schema fx))(c := if ds = [] then None else Some ds)"
  by (simp add: fx_set_schema_def)

lemma fx_set_schema_wf: "fx_wf fx \<Longrightarrow> fx_wf (fx_set_schema c ds fx)"
  unfolding fx_wf_def[of "fx_set_schema c ds fx"] fx_set_schema_schema
proof (intro allI impI)
  fix c' f ix
  assume "fx_wf fx" "aget (fx_fields (fx_set_schema c ds fx)) (c', f) = Some ix"
  then show "ix_wf ix \<and> (\<exists>es. ((aget (fx_schema fx))(c := if ds = [] then None else Some ds)) c' = Some es \<and> f \<in> fi_field ` set es)"
    using fx_set_schema_get[of c ds fx c' f ix] fx_wf_field[of fx c' f ix] fx_wf_declared[of fx c' f ix] by auto
qed

lemma fx_set_schema_keeps:
  "c' \<noteq> c \<Longrightarrow> fx_covers env c' j b fx \<Longrightarrow> fx_covers env c' j b (fx_set_schema c ds fx)"
  by (auto simp: fx_covers_def fx_index_for_def dest: fx_set_schema_get)

text \<open>Declaring a list of schemas anew: what a collection declares is its entry.\<close>

abbreviation declare_all :: "(string, filter_index_field list) amap \<Rightarrow> findex \<Rightarrow> findex" where
  "declare_all es fx \<equiv> fold (\<lambda>e. fx_set_schema (fst e) (snd e)) es fx"

lemma declare_all_wf: "fx_wf fx \<Longrightarrow> fx_wf (declare_all es fx)"
  by (induction es arbitrary: fx) (simp_all add: fx_set_schema_wf)

lemma declare_all_schema:
  "distinct (akeys es) \<Longrightarrow> aget (fx_schema (declare_all es fx)) c = Some ds \<Longrightarrow>
     aget es c = Some ds \<or> (aget es c = None \<and> aget (fx_schema fx) c = Some ds)"
proof (induction es arbitrary: fx)
  case (Cons e es)
  obtain k v where e: "e = (k, v)" by fastforce
  have "aget es k = None" using Cons.prems(1) by (simp add: e map_of_eq_None_iff)
  with Cons.IH[of "fx_set_schema k v fx"] Cons.prems show ?case
    by (auto simp: e fx_set_schema_schema split: if_splits)
qed simp

lemma fx_clear_indexes_wf:
  assumes "amap_wf (fx_schema fx)"
  shows "fx_wf (fx_clear_indexes fx)"
proof -
  let ?d = "declare_all (fx_schema fx) \<lparr>fx_fields = [], fx_schema = []\<rparr>"
  have wf: "fx_wf ?d" by (rule declare_all_wf) (simp add: fx_wf_def)
  have same: "aget (fx_schema fx) c = Some ds" if "aget (fx_schema ?d) c = Some ds" for c ds
    using declare_all_schema[OF amap_wf_distinct[OF assms] that] by simp
  have sel: "fx_fields (fx_clear_indexes fx) = fx_fields ?d" "fx_schema (fx_clear_indexes fx) = fx_schema fx"
    by (simp_all add: fx_clear_indexes_def)
  show ?thesis
    unfolding fx_wf_def[of "fx_clear_indexes fx"] sel
  proof (intro allI impI)
    fix c f ix
    assume "aget (fx_fields ?d) (c, f) = Some ix"
    from fx_wf_field[OF wf this] fx_wf_declared[OF wf this]
    show "ix_wf ix \<and> (\<exists>ds. aget (fx_schema fx) c = Some ds \<and> f \<in> fi_field ` set ds)"
      by (auto dest: same)
  qed
qed

section \<open>Every run of the index\<close>

text \<open>
  The index beside the documents indexed since their collection was last declared: every
  operation of \<^verbatim>\<open>Findex\<close> that changes it is a step.
\<close>

inductive fx_run :: "text_env \<Rightarrow> findex \<Rightarrow> (string \<times> string \<rightharpoonup> attrs) \<Rightarrow> bool" for env where
  run_default: "fx_run env findex_default Map.empty"
| run_schema: "fx_run env fx docs \<Longrightarrow>
    fx_run env (fx_set_schema c ds fx) (\<lambda>k. if fst k = c then None else docs k)"
| run_index: "fx_run env fx docs \<Longrightarrow> fx_run env (fx_index_doc env c i a fx) (docs((c, i) \<mapsto> a))"
| run_remove: "fx_run env fx docs \<Longrightarrow> fx_run env (fx_remove_doc c i fx) (docs((c, i) := None))"
| run_drop: "fx_run env fx docs \<Longrightarrow>
    fx_run env (fx_drop_collection c fx) (\<lambda>k. if fst k = c then None else docs k)"
| run_clear: "fx_run env fx docs \<Longrightarrow> fx_run env (fx_clear_indexes fx) Map.empty"

lemma fx_drop_collection_get:
  "aget (fx_fields (fx_drop_collection c fx)) (c', f) = (if c' = c then None else aget (fx_fields fx) (c', f))"
  "fx_schema (fx_drop_collection c fx) = adel c (fx_schema fx)"
  by (simp_all add: fx_drop_collection_def drop_fields_get)

lemma fx_run_invariant:
  "fx_run env fx docs \<Longrightarrow> fx_wf fx \<and> amap_wf (fx_schema fx) \<and>
     (\<forall>c i a. docs (c, i) = Some a \<longrightarrow> fx_covers env c i a fx)"
proof (induction rule: fx_run.induct)
  case run_default
  then show ?case by (simp add: findex_default_def fx_wf_def)
next
  case (run_schema fx docs c ds)
  then show ?case by (auto simp: fx_set_schema_wf fx_set_schema_keeps) (simp add: fx_set_schema_def)
next
  case (run_index fx docs c i a)
  then show ?case
    by (auto simp: fx_index_doc_wf fx_index_doc_get(2) intro: fx_index_doc_covers fx_index_doc_keeps)
next
  case (run_remove fx docs c i)
  then show ?case
    by (auto simp: fx_remove_doc_wf fx_remove_doc_get(2) intro: fx_remove_doc_keeps)
next
  case (run_drop fx docs c)
  then have "fx_wf (fx_drop_collection c fx)"
    unfolding fx_wf_def[of "fx_drop_collection c fx"] fx_drop_collection_get
    by (auto dest: fx_wf_field fx_wf_declared)
  then show ?case
    using run_drop by (auto simp: fx_drop_collection_get fx_covers_def fx_index_for_def)
next
  case (run_clear fx docs)
  then show ?case using fx_clear_indexes_wf by (simp add: fx_clear_indexes_def)
qed

text \<open>
  C28 (the index narrows, it never answers). After any run of the filter index, a document indexed
  with some attributes is among the candidates of every filter those attributes satisfy, whenever
  the index offers candidates at all. It relies on a space not being alphanumeric and on
  the regex engine agreeing with the parser of the same crate.
\<close>
theorem findex_never_drops_a_match:
  assumes "env_ok env parse" "fx_run env fx docs"
    and "docs (c, i) = Some a" "attrs_ok a" "matches env f a"
    and "narrow_candidate_ids env parse fx c f = Some ids"
  shows "i \<in> set ids"
  using narrow_sound[OF assms(1,4) _ assms(5,6)] fx_run_invariant[OF assms(2)] assms(3) by blast

text \<open>A literal regex engine, and an index over two documents.\<close>

definition demo_env :: text_env where
  "demo_env = \<lparr>te_alnum = (\<lambda>c. 65 \<le> c \<and> c \<le> 90 \<or> 97 \<le> c \<and> c \<le> 122),
     te_regex = (\<lambda>p. Some (\<lambda>s. p = anchored s))\<rparr>"

definition demo_parse :: "string \<Rightarrow> hir option" where
  "demo_parse p = Some (HLiteral (Some (chars p)))"

definition demo_findex :: findex where
  "demo_findex = fx_index_doc demo_env ''c'' ''2'' [(''t'', VStr ''hen'')]
     (fx_index_doc demo_env ''c'' ''1'' [(''t'', VList [''red fox'', ''owl''])]
        (fx_set_schema ''c'' [\<lparr>fi_field = ''t'', fi_tokens = True, fi_trigrams = True\<rparr>] findex_default))"

lemma demo_env_ok: "env_ok demo_env demo_parse"
  by (auto simp: env_ok_def demo_env_def demo_parse_def regex_compile_def anchored_def intro: may_literal)

lemma demo_findex_run:
  "fx_run demo_env demo_findex
     (Map.empty((''c'', ''1'') \<mapsto> [(''t'', VList [''red fox'', ''owl''])],
       (''c'', ''2'') \<mapsto> [(''t'', VStr ''hen'')]))"
  unfolding demo_findex_def
  by (intro run_index) (use run_schema[OF run_default] in simp)

theorem findex_never_drops_a_match_witness:
  "narrow_candidate_ids demo_env demo_parse demo_findex ''c'' [PContainsAllTokens ''t'' ''FOX''] = Some [''1''] \<and>
   ''1'' \<in> set [''1'']"
proof -
  have ids: "narrow_candidate_ids demo_env demo_parse demo_findex ''c'' [PContainsAllTokens ''t'' ''FOX''] = Some [''1'']"
    by code_simp
  have m: "matches demo_env [PContainsAllTokens ''t'' ''FOX''] [(''t'', VList [''red fox'', ''owl''])]" by code_simp
  have ok: "attrs_ok [(''t'', VList [''red fox'', ''owl''])]"
    by (auto simp: attrs_ok_def value_ok_def str_ok_def)
  show ?thesis
    using ids findex_never_drops_a_match[OF demo_env_ok demo_findex_run _ ok m ids] by simp
qed

end
