(* ===== verification/Backend.thy ===== *)
theory Backend
  imports Prelude
begin

text \<open>
  The append streams of \<^verbatim>\<open>src/src/backend\<close>: the in-RAM appender of \<^verbatim>\<open>ram.rs\<close>, the file
  appender of \<^verbatim>\<open>local.rs\<close>, and the contract of the \<^verbatim>\<open>Appender\<close> trait of \<^verbatim>\<open>mod.rs\<close> as a
  locale, which both appenders and their \<^verbatim>\<open>Box<dyn Appender>\<close> sum interpret.

  A file is its bytes, the bytes a completed fsync has made durable, and the outcomes the
  operating system gives to the coming system calls. A failing write has put some of its
  bytes on the file before it fails. When the script is used up every call succeeds.
\<close>

section \<open>System calls\<close>

datatype outcome = Done | Failed nat

fun next_outcome :: "outcome list \<Rightarrow> outcome \<times> outcome list" where
  "next_outcome [] = (Done, [])"
| "next_outcome (x # xs) = (x, xs)"

section \<open>The file appender\<close>

record file_appender =
  fa_bytes :: "byte list"
  fa_durable :: "byte list"
  fa_script :: "outcome list"

text \<open>One system call: its outcome, with the script advanced.\<close>

definition syscall :: "(file_appender, outcome) act" where
  "syscall a = (case next_outcome (fa_script a) of (x, xs) \<Rightarrow> (Inr x, a\<lparr>fa_script := xs\<rparr>))"

definition checked_call :: "(file_appender, unit) act" where
  "checked_call = andThen syscall (\<lambda>x. case x of Done \<Rightarrow> ret () | Failed _ \<Rightarrow> fail (Backend IoFailed))"

definition set_bytes :: "byte list \<Rightarrow> (file_appender, unit) act" where
  "set_bytes bs a = (Inr (), a\<lparr>fa_bytes := bs\<rparr>)"

text \<open>\<^verbatim>\<open>File::set_len\<close> cuts, or extends with zero bytes.\<close>

definition resize_bytes :: "nat \<Rightarrow> byte list \<Rightarrow> byte list" where
  "resize_bytes n bs = take n bs @ replicate (n - length bs) 0"

definition file_len :: "(file_appender, nat) act" where
  "file_len = andThen checked_call (\<lambda>_ a. (Inr (length (fa_bytes a)), a))"

definition file_read_exact_at :: "nat \<Rightarrow> nat \<Rightarrow> (file_appender, byte list) act" where
  "file_read_exact_at offset n =
     andThen checked_call (\<lambda>_. andThen checked_call (\<lambda>_ a.
       if offset + n \<le> length (fa_bytes a)
       then (Inr (take n (drop offset (fa_bytes a))), a)
       else (Inl (Backend ReadPastEnd), a)))"

text \<open>
  A partial write is rolled back by \<^verbatim>\<open>set_len\<close>, whose own result the code ignores: when it
  fails too, the torn bytes stay.
\<close>

definition file_append :: "byte list \<Rightarrow> (file_appender, unit) act" where
  "file_append bytes =
     andThen checked_call (\<lambda>_ a.
       let start = length (fa_bytes a) in
       (andThen syscall (\<lambda>x. case x of
          Done \<Rightarrow> set_bytes (fa_bytes a @ bytes)
        | Failed n \<Rightarrow>
            andThen (set_bytes (fa_bytes a @ take n bytes)) (\<lambda>_.
            andThen syscall (\<lambda>cut.
            andThen (case cut of
                Done \<Rightarrow> (\<lambda>b. set_bytes (resize_bytes start (fa_bytes b)) b)
              | Failed _ \<Rightarrow> ret ()) (\<lambda>_.
            andThen syscall (\<lambda>_. fail (Backend IoFailed))))))) a)"

definition file_truncate_to :: "nat \<Rightarrow> (file_appender, unit) act" where
  "file_truncate_to offset =
     andThen checked_call (\<lambda>_. andThen (\<lambda>a. set_bytes (resize_bytes offset (fa_bytes a)) a)
       (\<lambda>_. checked_call))"

definition file_sync :: "(file_appender, unit) act" where
  "file_sync = andThen checked_call (\<lambda>_ a. (Inr (), a\<lparr>fa_durable := fa_bytes a\<rparr>))"

text \<open>
  Create, write and fsync a sibling, rename it over the file, then reopen and seek: the
  first four calls may fail without a trace in the file. A rename that has returned is taken
  as durable. The handle is replaced last, so when the reopen or the seek fails the path holds the
  new bytes and the appender goes on with the old, now unlinked file.
\<close>

definition file_rewrite :: "byte list \<Rightarrow> (file_appender, unit) act" where
  "file_rewrite bytes =
     andThen checked_call (\<lambda>_. andThen checked_call (\<lambda>_.
     andThen checked_call (\<lambda>_. andThen checked_call (\<lambda>_.
     andThen (\<lambda>a. (Inr (), a\<lparr>fa_durable := bytes\<rparr>)) (\<lambda>_.
     andThen checked_call (\<lambda>_. andThen checked_call (\<lambda>_. set_bytes bytes)))))))"

section \<open>The in-RAM appender\<close>

record mem_appender =
  ma_buf :: "byte list"

definition mem_len :: "(mem_appender, nat) act" where
  "mem_len a = (Inr (length (ma_buf a)), a)"

definition mem_read_exact_at :: "nat \<Rightarrow> nat \<Rightarrow> (mem_appender, byte list) act" where
  "mem_read_exact_at offset n a =
     (if offset + n \<le> length (ma_buf a) then (Inr (take n (drop offset (ma_buf a))), a)
      else (Inl (Backend ReadPastEnd), a))"

definition mem_append :: "byte list \<Rightarrow> (mem_appender, unit) act" where
  "mem_append bytes a = (Inr (), a\<lparr>ma_buf := ma_buf a @ bytes\<rparr>)"

definition mem_truncate_to :: "nat \<Rightarrow> (mem_appender, unit) act" where
  "mem_truncate_to offset a =
     (if offset > length (ma_buf a)
      then (Inl (Backend (TruncatePastEnd offset (length (ma_buf a)))), a)
      else (Inr (), a\<lparr>ma_buf := take offset (ma_buf a)\<rparr>))"

definition mem_sync :: "(mem_appender, unit) act" where
  "mem_sync a = (Inr (), a)"

definition mem_rewrite :: "byte list \<Rightarrow> (mem_appender, unit) act" where
  "mem_rewrite bytes a = (Inr (), a\<lparr>ma_buf := bytes\<rparr>)"

section \<open>The boxed appender\<close>

datatype appender = FileAp file_appender | MemAp mem_appender

definition on_file :: "(file_appender, 'a) act \<Rightarrow> (mem_appender, 'a) act \<Rightarrow> (appender, 'a) act" where
  "on_file f m ap = (case ap of
     FileAp a \<Rightarrow> (case f a of (r, b) \<Rightarrow> (r, FileAp b))
   | MemAp a \<Rightarrow> (case m a of (r, b) \<Rightarrow> (r, MemAp b)))"

definition ap_len :: "(appender, nat) act" where
  "ap_len = on_file file_len mem_len"

definition ap_read_exact_at :: "nat \<Rightarrow> nat \<Rightarrow> (appender, byte list) act" where
  "ap_read_exact_at offset n = on_file (file_read_exact_at offset n) (mem_read_exact_at offset n)"

definition ap_append :: "byte list \<Rightarrow> (appender, unit) act" where
  "ap_append bytes = on_file (file_append bytes) (mem_append bytes)"

definition ap_truncate_to :: "nat \<Rightarrow> (appender, unit) act" where
  "ap_truncate_to offset = on_file (file_truncate_to offset) (mem_truncate_to offset)"

definition ap_sync :: "(appender, unit) act" where
  "ap_sync = on_file file_sync mem_sync"

definition ap_rewrite :: "byte list \<Rightarrow> (appender, unit) act" where
  "ap_rewrite bytes = on_file (file_rewrite bytes) (mem_rewrite bytes)"

text \<open>The trait's provided \<^verbatim>\<open>read_to_end\<close>, over its own \<^verbatim>\<open>len\<close> and \<^verbatim>\<open>read_exact_at\<close>.\<close>

definition ap_read_to_end :: "byte list \<Rightarrow> (appender, byte list) act" where
  "ap_read_to_end out =
     andThen ap_len (\<lambda>n. andThen (ap_read_exact_at 0 n) (\<lambda>bs. ret (out @ bs)))"

primrec ap_bytes :: "appender \<Rightarrow> byte list" where
  "ap_bytes (FileAp a) = fa_bytes a"
| "ap_bytes (MemAp a) = ma_buf a"

text \<open>What a crash cannot take away. RAM holds nothing across a crash.\<close>

primrec ap_durable :: "appender \<Rightarrow> byte list" where
  "ap_durable (FileAp a) = fa_durable a"
| "ap_durable (MemAp a) = []"

section \<open>The appender contract\<close>

text \<open>
  What \<^verbatim>\<open>Appender\<close> promises its clients: a successful append extends, a failed one leaves at
  most a torn suffix, a truncation to a length the stream has reached cuts there, reading and
  syncing change nothing.
\<close>

locale append_stream =
  fixes contents :: "'a \<Rightarrow> byte list"
    and len :: "('a, nat) act"
    and read_exact_at :: "nat \<Rightarrow> nat \<Rightarrow> ('a, byte list) act"
    and append :: "byte list \<Rightarrow> ('a, unit) act"
    and truncate_to :: "nat \<Rightarrow> ('a, unit) act"
    and sync :: "('a, unit) act"
    and rewrite :: "byte list \<Rightarrow> ('a, unit) act"
  assumes len_ok: "len a = (Inr n, b) \<Longrightarrow> n = length (contents a)"
    and len_keeps: "len a = (r, b) \<Longrightarrow> contents b = contents a"
    and read_ok: "read_exact_at off n a = (Inr bs, b) \<Longrightarrow>
      off + n \<le> length (contents a) \<and> bs = take n (drop off (contents a))"
    and read_keeps: "read_exact_at off n a = (r', b) \<Longrightarrow> contents b = contents a"
    and append_ok: "append bs a = (Inr u, b) \<Longrightarrow> contents b = contents a @ bs"
    and append_err: "append bs a = (Inl e, b) \<Longrightarrow> prefix (contents a) (contents b)"
    and truncate_ok: "truncate_to n a = (Inr u, b) \<Longrightarrow> n \<le> length (contents a) \<Longrightarrow>
      contents b = take n (contents a)"
    and sync_keeps: "sync a = (r'', b) \<Longrightarrow> contents b = contents a"
    and rewrite_ok: "rewrite bs a = (Inr u, b) \<Longrightarrow> contents b = bs"
    and rewrite_err: "rewrite bs a = (Inl e, b) \<Longrightarrow> contents b = contents a"
begin

lemma append_prefix: "append bs a = (r, b) \<Longrightarrow> prefix (contents a) (contents b)"
  by (cases r) (auto dest: append_ok append_err)

text \<open>Rolling back to a mark undoes everything appended after it, torn bytes included.\<close>

lemma rollback_to_mark:
  assumes "prefix c (contents a)" and "truncate_to (length c) a = (Inr u, b)"
  shows "contents b = c"
  using assms truncate_ok[OF assms(2)] prefix_length_le[OF assms(1)]
  by (auto simp: prefix_def)

lemma append_then_rollback:
  assumes "append bs a = (r, b)" and "truncate_to (length (contents a)) b = (Inr u, c)"
  shows "contents c = contents a"
  using rollback_to_mark[OF append_prefix[OF assms(1)] assms(2)] .

lemma read_back:
  assumes "append bs a = (Inr u, b)" and "read_exact_at (length (contents a)) (length bs) b = (Inr out, c)"
  shows "out = bs"
  using append_ok[OF assms(1)] read_ok[OF assms(2)] by simp

end

section \<open>Both appenders keep the contract\<close>

lemmas act_defs = andThen_def ret_def fail_def

lemma syscall_keeps: "syscall a = (r, b) \<Longrightarrow> fa_bytes b = fa_bytes a \<and> fa_durable b = fa_durable a"
  by (auto simp: syscall_def split: prod.splits)

lemma syscall_Inl [simp]: "syscall a \<noteq> (Inl e, b)"
  by (auto simp: syscall_def split: prod.splits)

lemma checked_call_keeps:
  "checked_call a = (r, b) \<Longrightarrow> fa_bytes b = fa_bytes a \<and> fa_durable b = fa_durable a"
  by (auto simp: checked_call_def act_defs dest: syscall_keeps split: prod.splits sum.splits outcome.splits)

lemma resize_bytes_take [simp]: "n \<le> length bs \<Longrightarrow> resize_bytes n bs = take n bs"
  by (simp add: resize_bytes_def)

lemma file_append_cases:
  assumes "file_append bs a = (r, b)"
  shows "(r = Inr () \<and> fa_bytes b = fa_bytes a @ bs) \<or>
         (\<exists>n. r = Inl (Backend IoFailed) \<and> fa_bytes b = fa_bytes a @ take n bs)"
proof (cases "checked_call a")
  case (Pair s a1)
  note keep1 = checked_call_keeps[OF this]
  show ?thesis
  proof (cases s)
    case (Inl e)
    then have "r = Inl e" "b = a1" using assms Pair by (simp_all add: file_append_def)
    moreover have "e = Backend IoFailed"
      using Pair Inl by (auto simp: checked_call_def act_defs split: prod.splits sum.splits outcome.splits)
    ultimately show ?thesis using keep1 by (auto intro: exI[of _ 0])
  next
    case (Inr u)
    obtain x a2 where s2: "syscall a1 = (Inr x, a2)" by (cases "syscall a1") (metis syscall_Inl sum.exhaust)
    note keep2 = syscall_keeps[OF s2]
    show ?thesis
    proof (cases x)
      case Done
      then show ?thesis using assms Pair Inr s2 keep1 keep2
        by (auto simp: file_append_def set_bytes_def Let_def)
    next
      case (Failed n)
      let ?a3 = "a2\<lparr>fa_bytes := fa_bytes a1 @ take n bs\<rparr>"
      obtain c a4 where s3: "syscall ?a3 = (Inr c, a4)" by (cases "syscall ?a3") (metis syscall_Inl sum.exhaust)
      let ?a5 = "case c of Done \<Rightarrow> a4\<lparr>fa_bytes := resize_bytes (length (fa_bytes a1)) (fa_bytes a4)\<rparr>
                           | Failed _ \<Rightarrow> a4"
      obtain d a6 where s4: "syscall ?a5 = (Inr d, a6)" by (cases "syscall ?a5") (metis syscall_Inl sum.exhaust)
      have "r = Inl (Backend IoFailed) \<and> b = a6"
        using assms Pair Inr s2 Failed s3 s4
        by (cases c) (simp_all add: file_append_def set_bytes_def Let_def andThen_def)
      moreover have "fa_bytes a6 = fa_bytes a1 @ take n bs \<or> fa_bytes a6 = fa_bytes a1 @ take 0 bs"
        using syscall_keeps[OF s4] syscall_keeps[OF s3] by (cases c) auto
      ultimately show ?thesis using keep1 by auto
    qed
  qed
qed

interpretation file_stream: append_stream fa_bytes file_len file_read_exact_at file_append
    file_truncate_to file_sync file_rewrite
proof unfold_locales
  show "file_append bs a = (Inr u, b) \<Longrightarrow> fa_bytes b = fa_bytes a @ bs" for bs a u b
    by (auto dest: file_append_cases)
  show "file_append bs a = (Inl e, b) \<Longrightarrow> prefix (fa_bytes a) (fa_bytes b)" for bs a e b
    by (auto dest: file_append_cases)
qed (auto simp: file_len_def file_read_exact_at_def file_truncate_to_def file_sync_def
      file_rewrite_def set_bytes_def andThen_def dest!: checked_call_keeps
      split: prod.splits sum.splits if_splits)

interpretation mem_stream: append_stream ma_buf mem_len mem_read_exact_at mem_append
    mem_truncate_to mem_sync mem_rewrite
  by unfold_locales (auto simp: mem_len_def mem_read_exact_at_def mem_append_def
      mem_truncate_to_def mem_sync_def mem_rewrite_def split: if_splits)

lemma on_file_cases:
  assumes "on_file f m ap = (r, bp)"
  obtains a b where "ap = FileAp a" "bp = FileAp b" "f a = (r, b)"
    | a b where "ap = MemAp a" "bp = MemAp b" "m a = (r, b)"
  using assms by (cases ap) (auto simp: on_file_def split: prod.splits)

lemmas ap_defs = ap_len_def ap_read_exact_at_def ap_append_def ap_truncate_to_def ap_sync_def
  ap_rewrite_def

interpretation ap_stream: append_stream ap_bytes ap_len ap_read_exact_at ap_append
    ap_truncate_to ap_sync ap_rewrite
  unfolding ap_defs
  by unfold_locales (auto elim!: on_file_cases
      dest: file_stream.len_ok mem_stream.len_ok file_stream.len_keeps mem_stream.len_keeps
        file_stream.read_ok mem_stream.read_ok file_stream.read_keeps mem_stream.read_keeps
        file_stream.append_ok mem_stream.append_ok file_stream.append_err mem_stream.append_err
        file_stream.truncate_ok mem_stream.truncate_ok
        file_stream.sync_keeps mem_stream.sync_keeps
        file_stream.rewrite_ok mem_stream.rewrite_ok file_stream.rewrite_err mem_stream.rewrite_err)

end
