(* ===== verification/OpLog.thy ===== *)
theory OpLog
  imports Model Backend
begin

text \<open>
  The op log of \<^verbatim>\<open>src/src/log/mod.rs\<close>: the frame codec over bytes, the replay loop with its
  recovery of a torn tail, and the log handle over an appender. The payload codec (the
  \<^verbatim>\<open>bincode\<close> crate) and the checksum (\<^verbatim>\<open>crc32fast\<close>) are arguments of the model; what is
  assumed of them is that decoding an encoded operation gives it back.
\<close>

section \<open>Frames\<close>

record codec =
  enc :: "op \<Rightarrow> byte list option"
  dec :: "byte list \<Rightarrow> op option"
  crc :: "byte list \<Rightarrow> u32"

definition frame :: "codec \<Rightarrow> op \<Rightarrow> byte list \<Rightarrow> nidus_error + byte list" where
  "frame cd x buf =
     (case enc cd x of
        None \<Rightarrow> Inl (Log SerializeFailed)
      | Some payload \<Rightarrow>
          if length payload \<ge> 2 ^ 32 then Inl (Log (PayloadTooLarge (length payload)))
          else Inr (buf @ u32_to_le (word_of_nat (length payload)) @ payload
                        @ u32_to_le (crc cd payload)))"

datatype parse_result = Good op nat | TornTail | Eof | Corruption nat

definition parse_frame :: "codec \<Rightarrow> byte list \<Rightarrow> nat \<Rightarrow> parse_result" where
  "parse_frame cd data pos =
     (if pos \<ge> length data then Eof
      else
        let remaining = drop pos data in
        if length remaining < 4 then TornTail
        else
          let len = unat (u32_from_le (take 4 remaining));
              frame_size = 4 + len + 4
          in if length remaining < frame_size then TornTail
             else
               let payload = take len (drop 4 remaining);
                   stored_crc = u32_from_le (take 4 (drop (4 + len) remaining));
                   computed_crc = crc cd payload
               in if computed_crc \<noteq> stored_crc
                  then (if length remaining > frame_size then Corruption pos else TornTail)
                  else (case dec cd payload of
                          Some x \<Rightarrow> Good x (pos + frame_size)
                        | None \<Rightarrow> if length remaining > frame_size then Corruption pos
                                  else TornTail))"

text \<open>The shape of an accepted frame, with its length field named once.\<close>

definition frame_at :: "codec \<Rightarrow> byte list \<Rightarrow> nat \<Rightarrow> op \<Rightarrow> bool" where
  "frame_at cd r len x \<longleftrightarrow>
     4 + len + 4 \<le> length r \<and> len = unat (u32_from_le (take 4 r)) \<and>
     crc cd (take len (drop 4 r)) = u32_from_le (take 4 (drop (4 + len) r)) \<and>
     dec cd (take len (drop 4 r)) = Some x"

lemma parse_frame_Good_iff:
  "parse_frame cd data pos = Good x nxt \<longleftrightarrow>
     (\<exists>len. frame_at cd (drop pos data) len x \<and> nxt = pos + (4 + len + 4))"
proof -
  define r where "r = drop pos data"
  define len where "len = unat (u32_from_le (take 4 r))"
  have E: "parse_frame cd data pos =
     (if pos \<ge> length data then Eof else if length r < 4 then TornTail
      else if length r < 4 + len + 4 then TornTail
      else if crc cd (take len (drop 4 r)) \<noteq> u32_from_le (take 4 (drop (4 + len) r))
      then (if length r > 4 + len + 4 then Corruption pos else TornTail)
      else (case dec cd (take len (drop 4 r)) of Some x \<Rightarrow> Good x (pos + (4 + len + 4))
            | None \<Rightarrow> if length r > 4 + len + 4 then Corruption pos else TornTail))"
    unfolding parse_frame_def Let_def r_def len_def by (rule refl)
  have "(\<exists>l. frame_at cd r l x \<and> nxt = pos + (4 + l + 4)) \<longleftrightarrow>
      frame_at cd r len x \<and> nxt = pos + (4 + len + 4)"
    unfolding frame_at_def len_def by blast
  moreover have "pos < length data" if "4 + len + 4 \<le> length r"
    using that by (simp add: r_def)
  ultimately show ?thesis
    unfolding E r_def[symmetric] frame_at_def len_def[symmetric]
    by (auto split: option.splits)
qed

lemma parse_frame_Good_bounds:
  "parse_frame cd data pos = Good x nxt \<Longrightarrow> pos + 8 \<le> nxt \<and> nxt \<le> length data"
  by (auto simp: parse_frame_Good_iff frame_at_def)

text \<open>The replay loop. Every frame it accepts is at least eight bytes long, so it ends.\<close>

function parse_loop ::
  "codec \<Rightarrow> byte list \<Rightarrow> op list \<Rightarrow> nat \<Rightarrow> nat \<Rightarrow> nidus_error + op list \<times> nat" where
  "parse_loop cd data ops pos last_good =
     (case parse_frame cd data pos of
        Good x nxt \<Rightarrow> parse_loop cd data (ops @ [x]) nxt nxt
      | Eof \<Rightarrow> Inr (ops, last_good)
      | TornTail \<Rightarrow> Inr (ops, last_good)
      | Corruption off \<Rightarrow> Inl (Log (LogCorruption off)))"
  by pat_completeness auto
termination
  by (relation "measure (\<lambda>(cd, data, ops, pos, g). length data - pos)")
    (auto dest: parse_frame_Good_bounds)

declare parse_loop.simps [simp del]

definition parse_all_frames :: "codec \<Rightarrow> byte list \<Rightarrow> nidus_error + op list \<times> nat" where
  "parse_all_frames cd data = parse_loop cd data [] 0 0"

section \<open>The log handle\<close>

type_synonym oplog = appender

definition of_result :: "nidus_error + 'a \<Rightarrow> ('s, 'a) act" where
  "of_result r = (\<lambda>s. (r, s))"

definition log_open_with :: "codec \<Rightarrow> (oplog, op list) act" where
  "log_open_with cd =
     andThen (ap_read_to_end []) (\<lambda>data.
     andThen (of_result (parse_all_frames cd data)) (\<lambda>(ops, good_len).
     andThen (if good_len < length data then ap_truncate_to good_len else ret ()) (\<lambda>_.
     ret ops)))"

definition log_open_bounded :: "codec \<Rightarrow> nat \<Rightarrow> (oplog, op list) act" where
  "log_open_bounded cd limit =
     andThen (ap_read_to_end []) (\<lambda>data.
       if length data < limit then fail (Log (PinnedOffset limit (length data)))
       else let bound = take limit data in
         andThen (of_result (parse_all_frames cd bound)) (\<lambda>(ops, good_len).
           if good_len \<noteq> length bound then fail (Log (PinnedTorn limit)) else ret ops))"

definition log_in_memory :: oplog where
  "log_in_memory = MemAp \<lparr>ma_buf = []\<rparr>"

definition log_append :: "codec \<Rightarrow> op \<Rightarrow> (oplog, unit) act" where
  "log_append cd x = andThen (of_result (frame cd x [])) ap_append"

definition log_offset :: "(oplog, nat) act" where
  "log_offset = ap_len"

definition log_truncate_to :: "nat \<Rightarrow> (oplog, unit) act" where
  "log_truncate_to offset = ap_truncate_to offset"

definition log_sync :: "(oplog, unit) act" where
  "log_sync = ap_sync"

fun frame_all :: "codec \<Rightarrow> op list \<Rightarrow> byte list \<Rightarrow> nidus_error + byte list" where
  "frame_all cd [] buf = Inr buf"
| "frame_all cd (x # xs) buf =
     (case frame cd x buf of Inl e \<Rightarrow> Inl e | Inr buf' \<Rightarrow> frame_all cd xs buf')"

definition log_rewrite :: "codec \<Rightarrow> op list \<Rightarrow> (oplog, unit) act" where
  "log_rewrite cd ops = andThen (of_result (frame_all cd ops [])) ap_rewrite"

section \<open>What the frames of a list of operations look like\<close>

text \<open>An operation the codec carries: it encodes, within the length field, and decodes back.\<close>

definition encodable :: "codec \<Rightarrow> op \<Rightarrow> bool" where
  "encodable cd x \<longleftrightarrow>
     (case enc cd x of None \<Rightarrow> False | Some p \<Rightarrow> length p < 2 ^ 32 \<and> dec cd p = Some x)"

definition frame_of :: "codec \<Rightarrow> op \<Rightarrow> byte list" where
  "frame_of cd x = (case enc cd x of None \<Rightarrow> [] | Some p \<Rightarrow>
     u32_to_le (word_of_nat (length p)) @ p @ u32_to_le (crc cd p))"

definition frames :: "codec \<Rightarrow> op list \<Rightarrow> byte list" where
  "frames cd ops = concat (map (frame_of cd) ops)"

text \<open>How many whole frames the first \<open>n\<close> bytes hold.\<close>

fun whole_frames :: "codec \<Rightarrow> op list \<Rightarrow> nat \<Rightarrow> nat" where
  "whole_frames cd [] n = 0"
| "whole_frames cd (x # xs) n =
     (if length (frame_of cd x) \<le> n then Suc (whole_frames cd xs (n - length (frame_of cd x))) else 0)"

lemma encodableE:
  assumes "encodable cd x"
  obtains p where "enc cd x = Some p" "length p < 2 ^ 32" "dec cd p = Some x"
    "frame_of cd x = u32_to_le (word_of_nat (length p)) @ p @ u32_to_le (crc cd p)"
  using assms by (auto simp: encodable_def frame_of_def split: option.splits)

lemma frame_encodable: "encodable cd x \<Longrightarrow> frame cd x buf = Inr (buf @ frame_of cd x)"
  by (auto elim!: encodableE simp: frame_def)

lemma frame_Inr: "frame cd x buf = Inr bs \<Longrightarrow> bs = buf @ frame_of cd x"
  by (auto simp: frame_def frame_of_def split: option.splits if_splits)

lemma frame_all_Inr: "frame_all cd ops buf = Inr bs \<Longrightarrow> bs = buf @ frames cd ops"
  by (induction ops arbitrary: buf)
    (fastforce simp: frames_def dest!: frame_Inr split: sum.splits)+

lemma frame_all_encodable: "list_all (encodable cd) ops \<Longrightarrow> frame_all cd ops buf = Inr (buf @ frames cd ops)"
  by (induction ops arbitrary: buf) (auto simp: frames_def frame_encodable)

lemma unat_word_of_length: "n < 2 ^ 32 \<Longrightarrow> unat (word_of_nat n :: u32) = n"
  by (simp add: unat_of_nat)

lemma frames_simps [simp]:
  "frames cd [] = []" "frames cd (x # xs) = frame_of cd x @ frames cd xs"
  "frames cd (xs @ ys) = frames cd xs @ frames cd ys"
  by (simp_all add: frames_def)

lemma length_frame_of: "encodable cd x \<Longrightarrow> 8 \<le> length (frame_of cd x)"
  by (auto elim!: encodableE)

section \<open>Parsing what was written\<close>

lemma parse_frame_of:
  assumes "encodable cd x" and "drop pos data = frame_of cd x @ rest" 
  shows "parse_frame cd data pos = Good x (pos + length (frame_of cd x))"
proof -
  from assms(1) obtain p where p: "enc cd x = Some p" "length p < 2 ^ 32" "dec cd p = Some x"
    "frame_of cd x = u32_to_le (word_of_nat (length p)) @ p @ u32_to_le (crc cd p)"
    by (rule encodableE)
  have "pos < length data"
    using assms length_frame_of[OF assms(1)] by (metis append_is_Nil_conv drop_eq_Nil
        list.size(3) not_less not_numeral_le_zero)
  then show ?thesis
    using assms(2) p by (simp add: parse_frame_def Let_def unat_word_of_length)
qed

lemma parse_frame_torn:
  assumes "encodable cd x" and "drop pos data = take n (frame_of cd x)"
    and "0 < n" "n < length (frame_of cd x)"
  shows "parse_frame cd data pos = TornTail"
proof -
  from assms(1) obtain p where p: "enc cd x = Some p" "length p < 2 ^ 32" "dec cd p = Some x"
    "frame_of cd x = u32_to_le (word_of_nat (length p)) @ p @ u32_to_le (crc cd p)"
    by (rule encodableE)
  have n: "length (drop pos data) = n" using assms(2,4) by simp
  then have pos: "pos < length data" using assms(3) by simp
  show ?thesis
  proof (cases "n < 4")
    case True
    then show ?thesis using n pos by (simp add: parse_frame_def Let_def)
  next
    case False
    have "take 4 (drop pos data) = u32_to_le (word_of_nat (length p))"
      using False assms(2) p(4) by simp
    moreover have "n < 4 + length p + 4" using assms(4) p(4) by simp
    ultimately show ?thesis
      using n pos False p(2) by (simp add: parse_frame_def Let_def unat_word_of_length)
  qed
qed

lemma parse_frame_Eof: "length data \<le> pos \<Longrightarrow> parse_frame cd data pos = Eof"
  by (simp add: parse_frame_def)

lemma parse_loop_prefix:
  assumes "list_all (encodable cd) ops" and "drop pos data = take n (frames cd ops)"
  shows "parse_loop cd data acc pos pos =
     Inr (acc @ take (whole_frames cd ops n) ops,
          pos + length (frames cd (take (whole_frames cd ops n) ops)))"
  using assms
proof (induction ops arbitrary: acc pos n)
  case Nil
  then show ?case
    by (simp add: parse_loop.simps[of cd data acc pos] parse_frame_Eof)
next
  case (Cons x xs)
  then have x: "encodable cd x" and xs: "list_all (encodable cd) xs" by simp_all
  let ?m = "length (frame_of cd x)"
  show ?case
  proof (cases "?m \<le> n")
    case True
    then have d: "drop pos data = frame_of cd x @ take (n - ?m) (frames cd xs)"
      using Cons.prems(2) by simp
    then have d': "drop (pos + ?m) data = take (n - ?m) (frames cd xs)"
      by (metis append_eq_conv_conj drop_drop add.commute)
    show ?thesis
      using Cons.IH[OF xs d', of "acc @ [x]"] True parse_frame_of[OF x d]
      by (simp add: parse_loop.simps[of cd data acc pos] add.assoc)
  next
    case False
    then have d: "drop pos data = take n (frame_of cd x)" using Cons.prems(2) by simp
    show ?thesis
    proof (cases "n = 0")
      case True
      then show ?thesis using d False
        by (simp add: parse_loop.simps[of cd data acc pos] parse_frame_Eof)
    next
      case n0: False
      then show ?thesis using False parse_frame_torn[OF x d]
        by (simp add: parse_loop.simps[of cd data acc pos])
    qed
  qed
qed

lemma whole_frames_all: "whole_frames cd ops (length (frames cd ops)) = length ops"
  by (induction ops) auto

lemma whole_frames_le: "whole_frames cd ops n \<le> length ops"
  by (induction ops arbitrary: n) auto

lemma parse_all_frames_frames:
  "list_all (encodable cd) ops \<Longrightarrow> parse_all_frames cd (frames cd ops) = Inr (ops, length (frames cd ops))"
  using parse_loop_prefix[where pos = 0 and data = "frames cd ops" and n = "length (frames cd ops)"
      and acc = "[]" and ops = ops and cd = cd]
  by (simp add: parse_all_frames_def whole_frames_all)

section \<open>Recovery is stable\<close>

text \<open>A frame accepted from some bytes is accepted from any bytes that agree up to its end.\<close>

lemma frame_at_take:
  assumes "frame_at cd r len x" and "4 + len + 4 \<le> n"
  shows "frame_at cd (take n r) len x"
proof -
  have "take 4 (take n r) = take 4 r" "take len (drop 4 (take n r)) = take len (drop 4 r)"
    "take 4 (drop (4 + len) (take n r)) = take 4 (drop (4 + len) r)"
    using assms(2) by (simp_all add: drop_take min_absorb1)
  then show ?thesis using assms unfolding frame_at_def by auto
qed

lemma parse_frame_take:
  "parse_frame cd data pos = Good x nxt \<Longrightarrow> nxt \<le> g \<Longrightarrow>
     parse_frame cd (take g data) pos = Good x nxt"
  unfolding parse_frame_Good_iff drop_take by (force intro: frame_at_take)

lemma parse_loop_good_bounds:
  "parse_loop cd data acc pos lg = Inr (ops, g) \<Longrightarrow> lg = pos \<Longrightarrow> pos \<le> length data \<Longrightarrow>
     pos \<le> g \<and> g \<le> length data"
proof (induction cd data acc pos lg rule: parse_loop.induct)
  case (1 cd data acc pos lg)
  show ?case
  proof (cases "parse_frame cd data pos")
    case (Good x nxt)
    with "1.prems"(1) have "parse_loop cd data (acc @ [x]) nxt nxt = Inr (ops, g)"
      by (simp add: parse_loop.simps[of cd data acc pos])
    with "1.IH"[OF Good] parse_frame_Good_bounds[OF Good] show ?thesis by simp
  qed (use "1.prems" in \<open>simp_all add: parse_loop.simps[of cd data acc pos]\<close>)
qed

lemma parse_loop_take:
  "parse_loop cd data acc pos lg = Inr (ops, g) \<Longrightarrow> lg = pos \<Longrightarrow> pos \<le> length data \<Longrightarrow>
     parse_loop cd (take g data) acc pos lg = Inr (ops, g)"
proof (induction cd data acc pos lg rule: parse_loop.induct)
  case (1 cd data acc pos lg)
  show ?case
  proof (cases "parse_frame cd data pos")
    case (Good x nxt)
    from Good "1.prems"(1) have l: "parse_loop cd data (acc @ [x]) nxt nxt = Inr (ops, g)"
      by (simp add: parse_loop.simps[of cd data acc pos])
    have nxt: "nxt \<le> length data" using Good by (auto dest: parse_frame_Good_bounds)
    have "nxt \<le> g" using parse_loop_good_bounds[OF l refl nxt] by simp
    then show ?thesis
      using "1.IH"[OF Good l refl nxt] parse_frame_take[OF Good]
      by (simp add: parse_loop.simps[of cd "take g data" acc pos])
  next
    case TornTail
    then have "acc = ops" "pos = g" "lg = g" using "1.prems"
      by (auto simp: parse_loop.simps[of cd data acc pos])
    then show ?thesis by (simp add: parse_loop.simps[of cd "take g data" ops g] parse_frame_Eof)
  next
    case Eof
    then have "acc = ops" "pos = g" "lg = g" using "1.prems"
      by (auto simp: parse_loop.simps[of cd data acc pos])
    then show ?thesis by (simp add: parse_loop.simps[of cd "take g data" ops g] parse_frame_Eof)
  next
    case (Corruption off)
    then show ?thesis using "1.prems"(1) by (simp add: parse_loop.simps[of cd data acc pos])
  qed
qed

section \<open>Reading and recovering through an appender\<close>

lemma ap_read_to_end_ok:
  assumes "ap_read_to_end out a = (Inr bs, b)"
  shows "bs = out @ ap_bytes a \<and> ap_bytes b = ap_bytes a"
proof -
  from assms obtain n a1 out' where
    1: "ap_len a = (Inr n, a1)" and 2: "ap_read_exact_at 0 n a1 = (Inr out', b)" and 3: "bs = out @ out'"
    by (auto simp: ap_read_to_end_def andThen_Inr_iff)
  show ?thesis
    using ap_stream.len_ok[OF 1] ap_stream.len_keeps[OF 1] ap_stream.read_ok[OF 2]
      ap_stream.read_keeps[OF 2] 3 by simp
qed

lemma ap_read_to_end_keeps:
  "ap_read_to_end out a = (r, b) \<Longrightarrow> ap_bytes b = ap_bytes a"
  by (auto simp: ap_read_to_end_def andThen_def split: prod.splits sum.splits
      dest!: ap_stream.len_keeps ap_stream.read_keeps)

lemma log_open_with_ok:
  assumes "log_open_with cd a = (Inr ops, b)"
  shows "\<exists>g. parse_all_frames cd (ap_bytes a) = Inr (ops, g) \<and> ap_bytes b = take g (ap_bytes a)"
proof -
  from assms obtain data a1 g where
    1: "ap_read_to_end [] a = (Inr data, a1)" and 2: "parse_all_frames cd data = Inr (ops, g)" and
    3: "(if g < length data then ap_truncate_to g else ret ()) a1 = (Inr (), b)"
    by (auto simp: log_open_with_def andThen_Inr_iff of_result_def)
  have d: "data = ap_bytes a" "ap_bytes a1 = ap_bytes a" using ap_read_to_end_ok[OF 1] by simp_all
  have "g \<le> length data" using 2 parse_loop_good_bounds by (fastforce simp: parse_all_frames_def)
  then show ?thesis using 2 3 d
    by (auto split: if_splits dest: ap_stream.truncate_ok)
qed

section \<open>Appending a batch\<close>

text \<open>The loop over a batch's operations (\<^verbatim>\<open>for op in log_ops { log.append(&op)? }\<close>).\<close>

fun log_append_all :: "codec \<Rightarrow> op list \<Rightarrow> (oplog, unit) act" where
  "log_append_all cd [] = ret ()"
| "log_append_all cd (x # xs) = andThen (log_append cd x) (\<lambda>_. log_append_all cd xs)"

lemma log_append_ok: "log_append cd x a = (Inr u, b) \<Longrightarrow> ap_bytes b = ap_bytes a @ frame_of cd x"
  by (auto simp: log_append_def of_result_def andThen_Inr_iff dest!: frame_Inr ap_stream.append_ok)

lemma log_append_prefix: "log_append cd x a = (r, b) \<Longrightarrow> prefix (ap_bytes a) (ap_bytes b)"
  by (auto simp: log_append_def of_result_def andThen_def split: sum.splits dest: ap_stream.append_prefix)

lemma log_append_all_ok:
  "log_append_all cd xs a = (Inr u, b) \<Longrightarrow> ap_bytes b = ap_bytes a @ frames cd xs"
  by (induction xs arbitrary: a) (auto simp: andThen_Inr_iff dest!: log_append_ok)

lemma log_append_all_prefix:
  "log_append_all cd xs a = (r, b) \<Longrightarrow> prefix (ap_bytes a) (ap_bytes b)"
proof (induction xs arbitrary: a)
  case (Cons x xs)
  obtain s c where c: "log_append cd x a = (s, c)" by (cases "log_append cd x a")
  note p = log_append_prefix[OF c]
  show ?case
  proof (cases s)
    case (Inl e)
    then show ?thesis using Cons.prems c p by simp
  next
    case (Inr u)
    then have "log_append_all cd xs c = (r, b)" using Cons.prems c by simp
    then show ?thesis using Cons.IH p by (blast intro: prefix_order.trans)
  qed
qed simp

lemma log_rewrite_ok: "log_rewrite cd ops a = (Inr u, b) \<Longrightarrow> ap_bytes b = frames cd ops"
  by (auto simp: log_rewrite_def of_result_def andThen_Inr_iff
      dest!: frame_all_Inr ap_stream.rewrite_ok)

lemma log_offset_ok: "log_offset a = (Inr n, b) \<Longrightarrow> n = length (ap_bytes a) \<and> ap_bytes b = ap_bytes a"
  by (auto simp: log_offset_def dest: ap_stream.len_ok ap_stream.len_keeps)

section \<open>Properties of the log\<close>

text \<open>A file on which every system call succeeds.\<close>

abbreviation quiet_file :: "byte list \<Rightarrow> appender" where
  "quiet_file bs \<equiv> FileAp \<lparr>fa_bytes = bs, fa_durable = bs, fa_script = []\<rparr>"

lemma quiet_checked_call [simp]:
  "fa_script a = [] \<Longrightarrow> checked_call a = (Inr (), a)"
  by (simp add: checked_call_def syscall_def andThen_def)

lemma quiet_read_to_end: "ap_read_to_end [] (quiet_file bs) = (Inr bs, quiet_file bs)"
  by (simp add: ap_read_to_end_def ap_len_def ap_read_exact_at_def on_file_def file_len_def
      file_read_exact_at_def andThen_def)

lemma quiet_truncate: "n \<le> length bs \<Longrightarrow>
  ap_truncate_to n (quiet_file bs) =
    (Inr (), FileAp \<lparr>fa_bytes = take n bs, fa_durable = bs, fa_script = []\<rparr>)"
  by (simp add: ap_truncate_to_def on_file_def file_truncate_to_def set_bytes_def andThen_def)

lemma quiet_open:
  assumes "parse_all_frames cd bs = Inr (ops, g)" and "g \<le> length bs"
  shows "log_open_with cd (quiet_file bs) =
    (Inr ops, FileAp \<lparr>fa_bytes = take g bs, fa_durable = bs, fa_script = []\<rparr>)"
proof (cases "g < length bs")
  case True
  then show ?thesis using assms
    by (simp add: log_open_with_def of_result_def quiet_read_to_end quiet_truncate andThen_def)
next
  case False
  then show ?thesis using assms
    by (simp add: log_open_with_def of_result_def quiet_read_to_end andThen_def)
qed

text \<open>
  A concrete payload codec for the witnesses: it carries the operations that create, drop and
  clear by name, tagged with one byte, and sums the payload for a checksum.
\<close>

definition demo_codec :: codec where
  "demo_codec = \<lparr>
     enc = (\<lambda>x. case x of
        CreateCollection c \<Rightarrow> Some (0 # map of_char c)
      | DropCollection c \<Rightarrow> Some (1 # map of_char c)
      | UpsertText c i [] \<Rightarrow> Some (2 # of_nat (length c) # map of_char (c @ i))
      | Delete c i \<Rightarrow> Some (3 # of_nat (length c) # map of_char (c @ i))
      | _ \<Rightarrow> None),
     dec = (\<lambda>bs. case bs of
        [] \<Rightarrow> None
      | t # r \<Rightarrow> if t = 0 then Some (CreateCollection (map (char_of \<circ> unat) r))
          else if t = 1 then Some (DropCollection (map (char_of \<circ> unat) r))
          else (case r of [] \<Rightarrow> None | n # q \<Rightarrow>
            let c = map (char_of \<circ> unat) (take (unat n) q); i = map (char_of \<circ> unat) (drop (unat n) q)
            in if t = 2 then Some (UpsertText c i []) else Some (Delete c i))),
     crc = (\<lambda>bs. word_of_nat (sum_list (map unat bs)))\<rparr>"

abbreviation demo_ops :: "op list" where
  "demo_ops \<equiv> [CreateCollection ''a'', Delete ''a'' ''x'']"

lemma demo_encodable: "list_all (encodable demo_codec) demo_ops"
proof -
  have "char_of (97 :: nat) = CHR ''a''" "char_of (120 :: nat) = CHR ''x''" by code_simp+
  then show ?thesis by (simp add: encodable_def demo_codec_def)
qed

lemma demo_crc: "crc demo_codec [0, 98] = 98"
  by (simp add: demo_codec_def)

lemma demo_frames: "frames demo_codec [CreateCollection ''a''] = [2, 0, 0, 0, 0, 97, 97, 0, 0, 0]"
    "frames demo_codec [Delete ''a'' ''x''] = [4, 0, 0, 0, 3, 1, 97, 120, 221, 0, 0, 0]"
  by (simp_all add: frame_of_def demo_codec_def u32_to_le_def nat_to_le_numeral)

text \<open>
  C19 (torn-tail recovery). Whatever prefix of a written log a crash leaves behind, opening it
  returns exactly the operations whose frames are complete, in order, and leaves the file cut
  at the end of the last of them.
\<close>
theorem log_open_recovers_torn_tail:
  assumes "list_all (encodable cd) ops"
  shows "log_open_with cd (quiet_file (take n (frames cd ops))) =
    (let k = whole_frames cd ops n in
     (Inr (take k ops), FileAp \<lparr>fa_bytes = frames cd (take k ops),
        fa_durable = take n (frames cd ops), fa_script = []\<rparr>))"
proof -
  let ?data = "take n (frames cd ops)"
  let ?ks = "take (whole_frames cd ops n) ops"
  let ?g = "length (frames cd ?ks)"
  have p: "parse_all_frames cd ?data = Inr (?ks, ?g)"
    using parse_loop_prefix[OF assms, of 0 ?data n "[]"] by (simp add: parse_all_frames_def)
  have g: "?g \<le> length ?data"
    using p parse_loop_good_bounds by (fastforce simp: parse_all_frames_def)
  have "frames cd ops = frames cd ?ks @ frames cd (drop (whole_frames cd ops n) ops)"
    by (simp flip: frames_simps(3))
  then have cut: "take ?g ?data = frames cd ?ks"
    using g by (metis append_eq_conv_conj length_take min.bounded_iff min_absorb1 take_take)
  have open_eq: "log_open_with cd (quiet_file ?data) =
      (Inr ?ks, FileAp \<lparr>fa_bytes = take ?g ?data, fa_durable = ?data, fa_script = []\<rparr>)"
    by (rule quiet_open[OF p g])
  show ?thesis unfolding Let_def open_eq cut by (rule refl)
qed

theorem log_open_recovers_torn_tail_witness:
  "list_all (encodable demo_codec) demo_ops \<and>
   log_open_with demo_codec (quiet_file (take 15 (frames demo_codec demo_ops))) =
     (Inr [CreateCollection ''a''], FileAp \<lparr>fa_bytes = frames demo_codec [CreateCollection ''a''],
        fa_durable = take 15 (frames demo_codec demo_ops), fa_script = []\<rparr>)"
proof -
  have "whole_frames demo_codec demo_ops 15 = 1"
    using demo_frames by simp
  then show ?thesis
    using log_open_recovers_torn_tail[OF demo_encodable, of 15] demo_encodable by simp
qed

text \<open>
  Recovery is stable. On any bytes at all, what recovery keeps is itself a log that opens
  to the same operations with nothing more to cut.
\<close>
theorem log_recovery_stable:
  assumes "parse_all_frames cd data = Inr (ops, good)"
  shows "good \<le> length data \<and> parse_all_frames cd (take good data) = Inr (ops, good)"
  using assms parse_loop_good_bounds[of cd data "[]" 0 0] parse_loop_take[of cd data "[]" 0 0]
  by (simp add: parse_all_frames_def)

theorem log_recovery_stable_witness:
  "parse_all_frames demo_codec (frames demo_codec demo_ops) =
     Inr (demo_ops, length (frames demo_codec demo_ops)) \<and>
   parse_all_frames demo_codec (take (length (frames demo_codec demo_ops)) (frames demo_codec demo_ops)) =
     Inr (demo_ops, length (frames demo_codec demo_ops))"
  using log_recovery_stable[OF parse_all_frames_frames[OF demo_encodable]]
    parse_all_frames_frames[OF demo_encodable] by simp

text \<open>A frame whose checksum disagrees with its payload, with bytes after it, stops the parser.\<close>

lemma parse_corrupt_frame:
  assumes "list_all (encodable cd) ops" and "length payload < 2 ^ 32"
    and "c \<noteq> crc cd payload" and "rest \<noteq> []"
  shows "parse_all_frames cd
      (frames cd ops @ u32_to_le (word_of_nat (length payload)) @ payload @ u32_to_le c @ rest) =
    Inl (Log (LogCorruption (length (frames cd ops))))"
proof -
  define bad where "bad = u32_to_le (word_of_nat (length payload)) @ payload @ u32_to_le c @ rest"
  have stop: "parse_loop cd data acc pos g = Inl (Log (LogCorruption pos))"
    if "drop pos data = bad" for data acc pos g
  proof -
    have "pos < length data" using that by (simp add: bad_def) (metis drop_eq_Nil append_is_Nil_conv
          length_0_conv length_u_to_le(2) not_less zero_neq_numeral)
    then have "parse_frame cd data pos = Corruption pos"
      using that assms(2-4)
      by (simp add: bad_def parse_frame_def Let_def unat_word_of_length)
    then show ?thesis by (simp add: parse_loop.simps[of cd data acc pos])
  qed
  have "parse_loop cd data acc pos pos = Inl (Log (LogCorruption (pos + length (frames cd ops))))"
    if "drop pos data = frames cd ops @ bad" for data acc pos
    using that assms(1)
  proof (induction ops arbitrary: acc pos)
    case Nil
    then show ?case using stop by simp
  next
    case (Cons x xs)
    then have x: "encodable cd x" and d: "drop pos data = frame_of cd x @ (frames cd xs @ bad)"
      by simp_all
    then have "drop (pos + length (frame_of cd x)) data = frames cd xs @ bad"
      by (metis append_eq_conv_conj drop_drop add.commute)
    with Cons parse_frame_of[OF x d] show ?case
      by (simp add: parse_loop.simps[of cd data acc pos] add.assoc)
  qed
  then show ?thesis by (simp add: parse_all_frames_def bad_def)
qed

lemma read_to_end_keeps:
  assumes "ap_read_to_end [] a = (r, b)"
  shows "ap_bytes b = ap_bytes a \<and> ap_durable b = ap_durable a \<and> (\<forall>data. r = Inr data \<longrightarrow> data = ap_bytes a)"
proof (cases a)
  case (FileAp f)
  then show ?thesis using assms
    by (auto simp: ap_read_to_end_def ap_len_def ap_read_exact_at_def on_file_def file_len_def file_read_exact_at_def andThen_def
        dest!: checked_call_keeps split: prod.splits sum.splits if_splits)
next
  case (MemAp m)
  then show ?thesis using assms
    by (auto simp: ap_read_to_end_def ap_len_def ap_read_exact_at_def on_file_def mem_len_def mem_read_exact_at_def andThen_def)
qed

text \<open>
  C20 (corruption is not skipped). Opening a log in which a frame disagrees with its checksum and
  has bytes after it fails with an error naming the offset of that frame, unless reading the file
  already failed, and leaves the file as it was: later records are neither replayed over the hole
  nor cut away.
\<close>
theorem log_corruption_detected:
  assumes "list_all (encodable cd) ops" and "length payload < 2 ^ 32"
    and "c \<noteq> crc cd payload" and "rest \<noteq> []"
    and "ap_bytes a = frames cd ops @ u32_to_le (word_of_nat (length payload)) @ payload @ u32_to_le c @ rest"
    and "log_open_with cd a = (r, b)"
  shows "ap_bytes b = ap_bytes a \<and> ap_durable b = ap_durable a \<and>
    r = (case fst (ap_read_to_end [] a) of Inl e \<Rightarrow> Inl e | Inr _ \<Rightarrow> Inl (Log (LogCorruption (length (frames cd ops)))))"
proof -
  obtain x a1 where x: "ap_read_to_end [] a = (x, a1)" by fastforce
  note keep = read_to_end_keeps[OF x]
  have "parse_all_frames cd (ap_bytes a) = Inl (Log (LogCorruption (length (frames cd ops))))"
    unfolding assms(5) by (rule parse_corrupt_frame[OF assms(1-4)])
  then show ?thesis using assms(6) x keep by (cases x) (auto simp: log_open_with_def of_result_def)
qed

theorem log_corruption_detected_witness:
  "let bs = frames demo_codec demo_ops @ u32_to_le (word_of_nat (length [0, 98 :: byte])) @ [0, 98] @ u32_to_le 7 @ [1] in
   \<exists>b. log_open_with demo_codec (quiet_file bs) = (Inl (Log (LogCorruption (length (frames demo_codec demo_ops)))), b) \<and>
     ap_bytes b = bs"
proof -
  let ?bs = "frames demo_codec demo_ops @ u32_to_le (word_of_nat (length [0, 98 :: byte])) @ [0, 98] @ u32_to_le 7 @ [1]"
  obtain r b where o: "log_open_with demo_codec (quiet_file ?bs) = (r, b)" by fastforce
  show ?thesis using log_corruption_detected[OF demo_encodable _ _ _ _ o, of "[0, 98]" 7 "[1]"] o
    by (simp add: demo_crc quiet_read_to_end del: frames_simps)
qed

text \<open>
  (batch rollback). However many records of a batch were appended, and whichever system
  call failed on the way, truncating the log back to the length it had before the batch leaves
  exactly the bytes it had before the batch.
\<close>
theorem log_batch_rollback:
  assumes "log_append_all cd batch a = (r, b)"
    and "log_truncate_to (length (ap_bytes a)) b = (Inr (), c)"
  shows "ap_bytes c = ap_bytes a"
  using ap_stream.rollback_to_mark[OF log_append_all_prefix[OF assms(1)]] assms(2)
  by (simp add: log_truncate_to_def)

theorem log_batch_rollback_witness:
  "\<exists>r b c. log_append_all demo_codec demo_ops
       (FileAp \<lparr>fa_bytes = [1], fa_durable = [1], fa_script = [Done, Done, Done, Failed 3, Failed 0]\<rparr>) = (r, b)
     \<and> r \<noteq> Inr () \<and> ap_bytes b \<noteq> [1] \<and>
     log_truncate_to 1 b = (Inr (), c) \<and> ap_bytes c = [1]"
proof -
  let ?a = "FileAp \<lparr>fa_bytes = [1], fa_durable = [1], fa_script = [Done, Done, Done, Failed 3, Failed 0]\<rparr>"
  obtain r b where b: "log_append_all demo_codec demo_ops ?a = (r, b)"
    by (cases "log_append_all demo_codec demo_ops ?a")
  obtain u c where c: "log_truncate_to 1 b = (u, c)" by (cases "log_truncate_to 1 b")
  have r: "r \<noteq> Inr () \<and> ap_bytes b \<noteq> [1] \<and> u = Inr ()"
    using b c
    by (auto simp: log_append_def frame_def demo_codec_def of_result_def ap_append_def on_file_def
        file_append_def checked_call_def syscall_def set_bytes_def log_truncate_to_def
        ap_truncate_to_def file_truncate_to_def act_defs Let_def)
  then show ?thesis using b c log_batch_rollback[OF b, of c] by auto
qed

text \<open>
  The log is the list of its operations. A batch appended without error to a log that
  holds some operations is replayed by the next open as those operations followed by the
  batch, and nothing is cut.
\<close>
theorem log_append_reopen:
  assumes "list_all (encodable cd) (ops @ batch)" and "ap_bytes a = frames cd ops"
    and "log_append_all cd batch a = (Inr (), b)" and "log_open_with cd b = (Inr ops', c)"
  shows "ops' = ops @ batch \<and> ap_bytes c = ap_bytes b"
proof -
  have b: "ap_bytes b = frames cd (ops @ batch)"
    using log_append_all_ok[OF assms(3)] assms(2) by simp
  then show ?thesis
    using log_open_with_ok[OF assms(4)] parse_all_frames_frames[OF assms(1)] by auto
qed

theorem log_append_reopen_witness:
  "\<exists>b c. log_append_all demo_codec [Delete ''a'' ''x''] (quiet_file (frames demo_codec [CreateCollection ''a'']))
       = (Inr (), b)
     \<and> log_open_with demo_codec b = (Inr demo_ops, c)"
proof -
  let ?a = "quiet_file (frames demo_codec [CreateCollection ''a''])"
  let ?b = "FileAp \<lparr>fa_bytes = frames demo_codec demo_ops,
      fa_durable = frames demo_codec [CreateCollection ''a''], fa_script = []\<rparr>"
  have enc: "list_all (encodable demo_codec) ([CreateCollection ''a''] @ [Delete ''a'' ''x''])"
    using demo_encodable by simp
  have b: "log_append_all demo_codec [Delete ''a'' ''x''] ?a = (Inr (), ?b)"
    using demo_encodable
    by (simp add: log_append_def frame_encodable of_result_def ap_append_def on_file_def file_append_def
        syscall_def set_bytes_def andThen_def)
  have "\<exists>ops c. log_open_with demo_codec ?b = (Inr ops, c)"
    using parse_all_frames_frames[OF demo_encodable]
    by (simp add: log_open_with_def of_result_def ap_read_to_end_def ap_len_def ap_read_exact_at_def
        on_file_def file_len_def file_read_exact_at_def andThen_def)
  then obtain ops c where c: "log_open_with demo_codec ?b = (Inr ops, c)" by blast
  show ?thesis using b c log_append_reopen[OF enc _ b c] by auto
qed

text \<open>
  C21 (pinned snapshot). Opening a log bounded to the length it had at an earlier commit
  returns the operations of that commit, whatever was appended since, and writes nothing to
  the file; a bound inside a frame is refused.
\<close>
theorem log_open_bounded_snapshot:
  assumes "list_all (encodable cd) ops" and "prefix (frames cd ops) bs" and "limit \<le> length (frames cd ops)"
  shows "log_open_bounded cd limit (quiet_file bs) =
    (let k = whole_frames cd ops limit in
     if length (frames cd (take k ops)) = limit then (Inr (take k ops), quiet_file bs)
     else (Inl (Log (PinnedTorn limit)), quiet_file bs))"
proof -
  have lim: "limit \<le> length bs" using assms(2,3) prefix_length_le by (meson le_trans)
  have bound: "take limit bs = take limit (frames cd ops)"
    using assms(2,3) by (auto simp: prefix_def)
  have p: "parse_all_frames cd (take limit (frames cd ops)) =
     Inr (take (whole_frames cd ops limit) ops, length (frames cd (take (whole_frames cd ops limit) ops)))"
    using parse_loop_prefix[OF assms(1), of 0 "take limit (frames cd ops)" limit "[]"]
    by (simp add: parse_all_frames_def)
  show ?thesis using lim p assms(3)
    by (simp add: log_open_bounded_def of_result_def quiet_read_to_end bound Let_def andThen_def)
qed

theorem log_open_bounded_snapshot_witness:
  "prefix (frames demo_codec demo_ops) (frames demo_codec demo_ops @ [9]) \<and>
   log_open_bounded demo_codec 10 (quiet_file (frames demo_codec demo_ops @ [9])) =
     (Inr [CreateCollection ''a''], quiet_file (frames demo_codec demo_ops @ [9])) \<and>
   log_open_bounded demo_codec 12 (quiet_file (frames demo_codec demo_ops @ [9])) =
     (Inl (Log (PinnedTorn 12)), quiet_file (frames demo_codec demo_ops @ [9]))"
proof -
  have l: "length (frame_of demo_codec (CreateCollection ''a'')) = 10"
      "length (frame_of demo_codec (Delete ''a'' ''x'')) = 12"
    using demo_frames by simp_all
  have p: "prefix (frames demo_codec demo_ops) (frames demo_codec demo_ops @ [9])" by simp
  show ?thesis
    using p log_open_bounded_snapshot[OF demo_encodable p, of 10]
      log_open_bounded_snapshot[OF demo_encodable p, of 12] l by simp
qed

end
