(* ===== verification/Persist.thy ===== *)
theory Persist
  imports Backend
begin

text \<open>
  Whole named objects (\<^verbatim>\<open>Persistence\<close> of \<^verbatim>\<open>src/src/backend/mod.rs\<close>) and the local directory that
  implements them (\<^verbatim>\<open>LocalFs\<close> of \<^verbatim>\<open>src/src/backend/local.rs\<close>). A directory is its files, the
  outcomes of the coming system calls on it, and for every append handle still to be opened
  the outcomes of the calls on that handle. Object stores have the same contract, stated as a
  locale; the manifest, the history and the sidecars are its clients.
\<close>

section \<open>Keys\<close>

fun split_seps :: "string \<Rightarrow> string list" where
  "split_seps [] = [[]]"
| "split_seps (c # cs) =
     (if c = CHR ''/'' \<or> c = CHR 0x5C then [] # split_seps cs
      else (case split_seps cs of [] \<Rightarrow> [[c]] | w # ws \<Rightarrow> (c # w) # ws))"

definition validate_key :: "string \<Rightarrow> nidus_error + unit" where
  "validate_key key =
     (if key = [] then Inl (Backend (BadKey key))
      else if CHR ''/'' \<in> set key \<or> CHR 0x5C \<in> set key \<or> ''..'' \<in> set (split_seps key)
      then Inl (Backend (BadKey key))
      else Inr ())"

text \<open>\<^verbatim>\<open>Path::with_extension("tmp")\<close>: what follows the last dot is replaced, unless the dot leads the name.\<close>

definition file_stem :: "string \<Rightarrow> string" where
  "file_stem key =
     (let front = dropWhile (\<lambda>c. c \<noteq> CHR ''.'') (rev key) in
      if front = [] \<or> tl front = [] then key else rev (tl front))"

definition tmp_key :: "string \<Rightarrow> string" where
  "tmp_key key = file_stem key @ ''.tmp''"

definition is_tmp :: "string \<Rightarrow> bool" where
  "is_tmp key \<longleftrightarrow> suffix ''.tmp'' key"

lemma is_tmp_tmp_key [simp]: "is_tmp (tmp_key key)"
  by (simp add: is_tmp_def tmp_key_def suffix_def)

section \<open>The directory\<close>

record local_fs =
  fs_objects :: "(string, byte list) amap"
  fs_script :: "outcome list"
  fs_handles :: "outcome list list"

definition fs_syscall :: "(local_fs, outcome) act" where
  "fs_syscall p = (case next_outcome (fs_script p) of (x, xs) \<Rightarrow> (Inr x, p\<lparr>fs_script := xs\<rparr>))"

definition fs_checked :: "(local_fs, unit) act" where
  "fs_checked = andThen fs_syscall (\<lambda>x. case x of Done \<Rightarrow> ret () | Failed _ \<Rightarrow> fail (Backend IoFailed))"

definition object_path :: "string \<Rightarrow> (local_fs, string) act" where
  "object_path key = (case validate_key key of Inl e \<Rightarrow> fail e | Inr _ \<Rightarrow> ret key)"

definition fs_set :: "string \<Rightarrow> byte list \<Rightarrow> (local_fs, unit) act" where
  "fs_set key bytes p = (Inr (), p\<lparr>fs_objects := aput key bytes (fs_objects p)\<rparr>)"

definition fs_local_path :: "string \<Rightarrow> string option" where
  "fs_local_path key = (case validate_key key of Inl _ \<Rightarrow> None | Inr _ \<Rightarrow> Some key)"

definition fs_get :: "string \<Rightarrow> (local_fs, byte list option) act" where
  "fs_get key = andThen (object_path key) (\<lambda>path.
     andThen fs_checked (\<lambda>_ p. (Inr (aget (fs_objects p) path), p)))"

text \<open>
  A write leaves the temporary file behind when it fails: created empty, then partly written,
  then whole but not renamed.
\<close>

definition fs_put :: "string \<Rightarrow> byte list \<Rightarrow> (local_fs, unit) act" where
  "fs_put key bytes = andThen (object_path key) (\<lambda>path.
     let tmp = tmp_key path in
     andThen fs_checked (\<lambda>_.
     andThen (fs_set tmp []) (\<lambda>_.
     andThen fs_syscall (\<lambda>w. case w of
         Failed n \<Rightarrow> andThen (fs_set tmp (take n bytes)) (\<lambda>_. fail (Backend IoFailed))
       | Done \<Rightarrow>
           andThen (fs_set tmp bytes) (\<lambda>_.
           andThen fs_checked (\<lambda>_.
           andThen fs_checked (\<lambda>_.
             (\<lambda>p. (Inr (), p\<lparr>fs_objects := aput path bytes (adel tmp (fs_objects p))\<rparr>)))))))))"

definition fs_delete :: "string \<Rightarrow> (local_fs, unit) act" where
  "fs_delete key = andThen (object_path key) (\<lambda>path.
     andThen fs_checked (\<lambda>_ p. (Inr (), p\<lparr>fs_objects := adel path (fs_objects p)\<rparr>)))"

definition fs_list :: "(local_fs, string list) act" where
  "fs_list = andThen fs_checked (\<lambda>_ p. (Inr (sort (akeys (fs_objects p))), p))"

text \<open>
  \<^verbatim>\<open>FileAppender::open\<close> creates the file when it is absent. The handle then holds the file's
  bytes; the directory keeps the bytes from before it was opened.
\<close>

definition fs_appender :: "string \<Rightarrow> (local_fs, appender) act" where
  "fs_appender key = andThen (object_path key) (\<lambda>path.
     andThen fs_checked (\<lambda>_ p.
       let bytes = (case aget (fs_objects p) path of None \<Rightarrow> [] | Some b \<Rightarrow> b);
           script = (case fs_handles p of [] \<Rightarrow> [] | s # _ \<Rightarrow> s);
           q = p\<lparr>fs_objects := aput path bytes (fs_objects p), fs_handles := tl (fs_handles p)\<rparr>
       in andThen fs_checked (\<lambda>_.
            ret (FileAp \<lparr>fa_bytes = bytes, fa_durable = bytes, fa_script = script\<rparr>)) q))"

text \<open>\<^verbatim>\<open>appender_for\<close>: a local directory always has the native appender.\<close>

definition appender_for :: "string \<Rightarrow> (local_fs, appender) act" where
  "appender_for key = fs_appender key"

section \<open>The object contract\<close>

text \<open>
  What the clients of \<^verbatim>\<open>Persistence\<close> rely on. The \<^verbatim>\<open>stable\<close> keys are those no other key uses as
  its temporary name.
\<close>

locale object_store =
  fixes obj :: "'s \<Rightarrow> string \<Rightarrow> byte list option"
    and stable :: "string \<Rightarrow> bool"
    and get :: "string \<Rightarrow> ('s, byte list option) act"
    and put :: "string \<Rightarrow> byte list \<Rightarrow> ('s, unit) act"
    and del :: "string \<Rightarrow> ('s, unit) act"
  assumes get_ok: "get k s = (Inr r, t) \<Longrightarrow> r = obj s k"
    and get_keeps: "get k s = (x, t) \<Longrightarrow> obj t = obj s"
    and put_ok: "put k b s = (Inr u, t) \<Longrightarrow> obj t k = Some b"
    and put_err: "put k b s = (Inl e, t) \<Longrightarrow> stable k \<Longrightarrow> obj t k = obj s k"
    and put_other: "put k b s = (y, t) \<Longrightarrow> stable j \<Longrightarrow> j \<noteq> k \<Longrightarrow> obj t j = obj s j"
    and del_ok: "del k s = (Inr u, t) \<Longrightarrow> obj t = (obj s)(k := None)"
    and del_err: "del k s = (Inl e, t) \<Longrightarrow> obj t = obj s"
begin

lemma get_after_put: "put k b s = (Inr u, t) \<Longrightarrow> get k t = (Inr r, v) \<Longrightarrow> r = Some b"
  using put_ok get_ok by metis

lemma get_after_delete: "del k s = (Inr u, t) \<Longrightarrow> get k t = (Inr r, v) \<Longrightarrow> r = None"
  using del_ok get_ok by fastforce

text \<open>A writer that fails, or that crashes before it returns, leaves the old object whole.\<close>

lemma put_atomic: "put k b s = (y, t) \<Longrightarrow> stable k \<Longrightarrow> obj t k = obj s k \<or> obj t k = Some b"
  by (cases y) (auto dest: put_ok put_err)

end

text \<open>
  An object holding an encoded value under a checked frame: what a publication followed by a
  load returns, and that a failed publication keeps what was published before.
\<close>

locale framed_object = object_store obj stable get put del
  for obj :: "'s \<Rightarrow> string \<Rightarrow> byte list option"
    and stable :: "string \<Rightarrow> bool"
    and get :: "string \<Rightarrow> ('s, byte list option) act"
    and put :: "string \<Rightarrow> byte list \<Rightarrow> ('s, unit) act"
    and del :: "string \<Rightarrow> ('s, unit) act" +
  fixes encode :: "'v \<Rightarrow> nidus_error + byte list"
    and decode :: "byte list \<Rightarrow> nidus_error + 'v"
    and ident :: "'v \<Rightarrow> 'i"
    and key_of :: "'i \<Rightarrow> string"
    and publish :: "'v \<Rightarrow> ('s, unit) act"
    and load :: "'i \<Rightarrow> ('s, 'v option) act"
  assumes key_stable: "stable (key_of i)"
    and publish_put: "publish v s = (x, t) \<Longrightarrow>
      (\<exists>e. encode v = Inl e \<and> x = Inl e \<and> t = s) \<or>
      (\<exists>b. encode v = Inr b \<and> put (key_of (ident v)) b s = (x, t))"
    and load_get: "load i s = (Inr y, t) \<Longrightarrow>
      \<exists>r. get (key_of i) s = (Inr r, t) \<and>
        (case r of None \<Rightarrow> y = None | Some b \<Rightarrow> (\<exists>v. decode b = Inr v \<and> y = Some v))"
begin

lemma publish_then_load:
  assumes "publish v s = (Inr u, t)" and "load (ident v) t = (Inr y, w)"
    and "\<And>b. encode v = Inr b \<Longrightarrow> decode b = Inr v'"
  shows "y = Some v'"
proof -
  obtain b where b: "encode v = Inr b" "put (key_of (ident v)) b s = (Inr u, t)"
    using publish_put[OF assms(1)] by auto
  obtain r where r: "get (key_of (ident v)) t = (Inr r, w)"
    "case r of None \<Rightarrow> y = None | Some b \<Rightarrow> (\<exists>v. decode b = Inr v \<and> y = Some v)"
    using load_get[OF assms(2)] by blast
  have "r = Some b" by (rule get_after_put[OF b(2) r(1)])
  then show ?thesis using r(2) assms(3)[OF b(1)] by simp
qed

lemma publish_failed_keeps:
  assumes "publish v s = (Inl e, t)"
  shows "obj t (key_of (ident v)) = obj s (key_of (ident v))"
  using publish_put[OF assms] key_stable put_err by auto

lemma publish_keeps_others:
  assumes "publish v s = (x, t)" and "stable j" and "j \<noteq> key_of (ident v)"
  shows "obj t j = obj s j"
  using publish_put[OF assms(1)] assms(2,3) put_other by auto

end

section \<open>The directory keeps the contract\<close>

abbreviation fs_obj :: "local_fs \<Rightarrow> string \<Rightarrow> byte list option" where
  "fs_obj p \<equiv> aget (fs_objects p)"

abbreviation fs_stable :: "string \<Rightarrow> bool" where
  "fs_stable k \<equiv> \<not> is_tmp k"

lemma fs_checked_keeps: "fs_checked p = (r, q) \<Longrightarrow> fs_objects q = fs_objects p \<and> fs_handles q = fs_handles p"
  by (auto simp: fs_checked_def fs_syscall_def act_defs split: prod.splits sum.splits outcome.splits)

lemma fs_syscall_keeps: "fs_syscall p = (r, q) \<Longrightarrow> fs_objects q = fs_objects p \<and> fs_handles q = fs_handles p"
  by (auto simp: fs_syscall_def split: prod.splits)

lemma fs_syscall_Inl [simp]: "fs_syscall p \<noteq> (Inl e, q)"
  by (auto simp: fs_syscall_def split: prod.splits)

lemma object_path_cases: "object_path key p = (r, q) \<Longrightarrow> q = p \<and> (\<forall>k. r = Inr k \<longrightarrow> k = key)"
  by (auto simp: object_path_def split: sum.splits)

lemma fs_put_result:
  assumes "fs_put key bytes p = (r, q)"
  shows "(r = Inr () \<and> fs_objects q = aput key bytes (adel (tmp_key key) (aput (tmp_key key) bytes (fs_objects p)))) \<or>
         ((\<exists>e. r = Inl e) \<and> (fs_objects q = fs_objects p \<or>
            (\<exists>b. fs_objects q = aput (tmp_key key) b (fs_objects p))))"
proof (cases "validate_key key")
  case (Inl e)
  then have "r = Inl e \<and> q = p" using assms by (simp add: fs_put_def object_path_def andThen_def)
  then show ?thesis by simp
next
  case (Inr u)
  let ?tmp = "tmp_key key"
  obtain x p1 where 1: "fs_checked p = (x, p1)" by fastforce
  note k1 = fs_checked_keeps[OF 1]
  let ?p2 = "p1\<lparr>fs_objects := aput ?tmp [] (fs_objects p1)\<rparr>"
  obtain w p3 where 3: "fs_syscall ?p2 = (Inr w, p3)"
    by (cases "fs_syscall ?p2") (metis fs_syscall_Inl sum.exhaust)
  note k3 = fs_syscall_keeps[OF 3]
  let ?p4 = "p3\<lparr>fs_objects := aput ?tmp bytes (fs_objects p3)\<rparr>"
  obtain y p5 where 5: "fs_checked ?p4 = (y, p5)" by fastforce
  note k5 = fs_checked_keeps[OF 5]
  obtain z p6 where 6: "fs_checked p5 = (z, p6)" by fastforce
  note k6 = fs_checked_keeps[OF 6]
  have run: "fs_put key bytes p =
     (case x of Inl e \<Rightarrow> (Inl e, p1) | Inr _ \<Rightarrow>
       (case w of
          Failed n \<Rightarrow> (Inl (Backend IoFailed), p3\<lparr>fs_objects := aput ?tmp (take n bytes) (fs_objects p3)\<rparr>)
        | Done \<Rightarrow> (case y of Inl e \<Rightarrow> (Inl e, p5) | Inr _ \<Rightarrow>
            (case z of Inl e \<Rightarrow> (Inl e, p6) | Inr _ \<Rightarrow>
              (Inr (), p6\<lparr>fs_objects := aput key bytes (adel ?tmp (fs_objects p6))\<rparr>)))))"
    unfolding fs_put_def object_path_def using Inr 1 3 5 6
    by (cases x; cases w; cases y; cases z) (simp_all add: fs_set_def andThen_def Let_def)
  show ?thesis using assms k1 k3 k5 k6 unfolding run
    by (cases x; cases w; cases y; cases z) (simp_all, auto)
qed

lemma fs_put_keeps_stable:
  assumes "fs_put key bytes p = (r, q)" and "fs_stable j" and "j \<noteq> key \<or> (\<exists>e. r = Inl e)"
  shows "fs_obj q j = fs_obj p j"
proof -
  have "j \<noteq> tmp_key key" using assms(2) by auto
  then show ?thesis using fs_put_result[OF assms(1)] assms(3) by auto
qed

lemma fs_get_result:
  assumes "fs_get k p = (r, q)"
  shows "fs_objects q = fs_objects p \<and> (\<forall>b. r = Inr b \<longrightarrow> b = fs_obj p k)"
proof -
  obtain x p1 where 1: "fs_checked p = (x, p1)" by fastforce
  have run: "fs_get k p = (case validate_key k of Inl e \<Rightarrow> (Inl e, p) | Inr _ \<Rightarrow>
      (case x of Inl e \<Rightarrow> (Inl e, p1) | Inr _ \<Rightarrow> (Inr (fs_obj p1 k), p1)))"
    using 1 by (simp add: fs_get_def object_path_def andThen_def split: sum.splits)
  show ?thesis using assms fs_checked_keeps[OF 1] unfolding run
    by (cases r) (auto split: sum.splits)
qed

lemma fs_delete_result:
  assumes "fs_delete k p = (r, q)"
  shows "(r = Inr () \<and> fs_objects q = adel k (fs_objects p)) \<or> (\<exists>e. r = Inl e \<and> fs_objects q = fs_objects p)"
proof -
  obtain x p1 where 1: "fs_checked p = (x, p1)" by fastforce
  have run: "fs_delete k p = (case validate_key k of Inl e \<Rightarrow> (Inl e, p) | Inr _ \<Rightarrow>
      (case x of Inl e \<Rightarrow> (Inl e, p1) | Inr _ \<Rightarrow> (Inr (), p1\<lparr>fs_objects := adel k (fs_objects p1)\<rparr>)))"
    using 1 by (simp add: fs_delete_def object_path_def andThen_def split: sum.splits)
  show ?thesis using assms fs_checked_keeps[OF 1] unfolding run
    by (cases r) (auto split: sum.splits)
qed

interpretation local_objects: object_store fs_obj fs_stable fs_get fs_put fs_delete
proof unfold_locales
  fix k b s u t
  assume "fs_put k b s = (Inr u, t)"
  from fs_put_result[OF this] show "fs_obj t k = Some b" by auto
next
  fix k b s e t
  assume "fs_put k b s = (Inl e, t)" "fs_stable k"
  from fs_put_keeps_stable[OF this] show "fs_obj t k = fs_obj s k" by simp
next
  fix k b s y t j
  assume "fs_put k b s = (y, t)" "fs_stable j" "j \<noteq> k"
  from fs_put_keeps_stable[OF this(1,2)] this(3) show "fs_obj t j = fs_obj s j" by simp
next
  fix k s r t
  assume "fs_get k s = (Inr r, t)"
  from fs_get_result[OF this] show "r = fs_obj s k" by simp
next
  fix k s x t
  assume "fs_get k s = (x, t)"
  from fs_get_result[OF this] show "fs_obj t = fs_obj s" by simp
next
  fix k s u t
  assume "fs_delete k s = (Inr u, t)"
  from fs_delete_result[OF this] show "fs_obj t = (fs_obj s)(k := None)" by auto
next
  fix k s e t
  assume "fs_delete k s = (Inl e, t)"
  from fs_delete_result[OF this] show "fs_obj t = fs_obj s" by auto
qed

lemma fs_put_wf: "amap_wf (fs_objects p) \<Longrightarrow> fs_put key bytes p = (r, q) \<Longrightarrow> amap_wf (fs_objects q)"
  by (drule fs_put_result) auto

end
