(* ===== verification/DataSeg.thy ===== *)
theory DataSeg
  imports OpLog
begin

text \<open>
  The vector segment of \<^verbatim>\<open>src/src/data/mod.rs\<close>: the 64-byte header, the row matrix in RAM or
  served from a map of an immutable file, and the operations that grow, cut, sync and rewrite
  it. A row is a list of bit patterns; the segment never computes with them.
\<close>

section \<open>Header\<close>

definition MAGIC :: "byte list" where
  "MAGIC = [78, 73, 68, 85, 83, 0]"

definition VERSION :: u16 where
  "VERSION = 1"

definition HEADER_LEN :: nat where
  "HEADER_LEN = 64"

fun distance_to_byte :: "distance \<Rightarrow> byte" where
  "distance_to_byte Cosine = 0"
| "distance_to_byte Euclidean = 1"
| "distance_to_byte DotProduct = 2"

definition byte_to_distance :: "byte \<Rightarrow> nidus_error + distance" where
  "byte_to_distance b =
     (if b = 0 then Inr Cosine else if b = 1 then Inr Euclidean else if b = 2 then Inr DotProduct
      else Inl (Data (BadDistance b)))"

text \<open>The dimension is cut to 32 bits (\<^verbatim>\<open>dimension as u32\<close>); the rest of the header is zero.\<close>

definition encode_header :: "nat \<Rightarrow> distance \<Rightarrow> byte list" where
  "encode_header dimension d =
     MAGIC @ u16_to_le VERSION @ u32_to_le (word_of_nat dimension) @ [distance_to_byte d]
     @ replicate (HEADER_LEN - 13) 0"

definition decode_header :: "byte list \<Rightarrow> nidus_error + nat \<times> distance" where
  "decode_header buf =
     (if take 6 buf \<noteq> MAGIC then Inl (Data BadMagic)
      else let version = u16_from_le (take 2 (drop 6 buf)) in
        if version \<noteq> VERSION then Inl (Data (BadVersion version))
        else let dim = unat (u32_from_le (take 4 (drop 8 buf))) in
          (case byte_to_distance (buf ! 12) of Inl e \<Rightarrow> Inl e | Inr d \<Rightarrow> Inr (dim, d)))"

text \<open>The header of an object already in memory, and of a file that may be absent.\<close>

definition header_from_bytes :: "byte list \<Rightarrow> nidus_error + nat \<times> distance" where
  "header_from_bytes bytes =
     (if length bytes < HEADER_LEN then Inl (Data (HeaderTruncated (length bytes)))
      else decode_header (take HEADER_LEN bytes))"

definition peek_header :: "byte list option \<Rightarrow> nidus_error + (nat \<times> distance) option" where
  "peek_header file =
     (case file of
        None \<Rightarrow> Inr None
      | Some bytes \<Rightarrow>
          if length bytes = 0 then Inr None
          else if length bytes < HEADER_LEN then Inl (Data (HeaderTruncated (length bytes)))
          else (case decode_header (take HEADER_LEN bytes) of
                  Inl e \<Rightarrow> Inl e | Inr h \<Rightarrow> Inr (Some h)))"

lemma length_encode_header [simp]: "length (encode_header dim d) = 64"
  by (simp add: encode_header_def MAGIC_def HEADER_LEN_def)

lemma byte_to_distance_inverse [simp]: "byte_to_distance (distance_to_byte d) = Inr d"
  by (cases d) (simp_all add: byte_to_distance_def)

lemma decode_encode_header:
  assumes "dim < 2 ^ 32"
  shows "decode_header (encode_header dim d) = Inr (dim, d)"
proof -
  let ?t = "[distance_to_byte d] @ replicate (HEADER_LEN - 13) 0"
  have "take 6 (encode_header dim d) = MAGIC"
    "take 2 (drop 6 (encode_header dim d)) = u16_to_le VERSION"
    "take 4 (drop 8 (encode_header dim d)) = u32_to_le (word_of_nat dim)"
    by (simp_all add: encode_header_def MAGIC_def)
  moreover have "encode_header dim d ! 12 = distance_to_byte d"
    by (simp add: encode_header_def MAGIC_def nth_append)
  ultimately show ?thesis
    using assms by (simp add: decode_header_def Let_def unat_word_of_length)
qed

section \<open>Vector codec\<close>

definition floats_to_bytes :: "f32 list \<Rightarrow> byte list" where
  "floats_to_bytes floats = concat (map u32_to_le floats)"

text \<open>The complete four-byte chunks of a buffer, decoded.\<close>

fun decode_chunks :: "byte list \<Rightarrow> f32 list" where
  "decode_chunks (a # b # c # d # r) = u32_from_le [a, b, c, d] # decode_chunks r"
| "decode_chunks _ = []"

lemma floats_to_bytes_simps [simp]:
  "floats_to_bytes [] = []" "floats_to_bytes (x # xs) = u32_to_le x @ floats_to_bytes xs"
  "floats_to_bytes (xs @ ys) = floats_to_bytes xs @ floats_to_bytes ys"
  by (simp_all add: floats_to_bytes_def)

lemma length_floats_to_bytes [simp]: "length (floats_to_bytes xs) = 4 * length xs"
  by (induction xs) simp_all

lemma decode_chunks_u32 [simp]: "decode_chunks (u32_to_le x @ r) = x # decode_chunks r"
proof -
  obtain a b c d where e: "u32_to_le x = [a, b, c, d]"
    by (simp add: u32_to_le_def nat_to_le_numeral)
  then show ?thesis using u32_from_to_le[of x] by simp
qed

lemma decode_floats [simp]: "decode_chunks (floats_to_bytes xs) = xs"
  by (induction xs) simp_all

lemma decode_chunks_append:
  "4 dvd length xs \<Longrightarrow> decode_chunks (xs @ ys) = decode_chunks xs @ decode_chunks ys"
proof (induction xs rule: decode_chunks.induct)
  case (1 a b c d r)
  have "4 dvd length r" using "1.prems" by (simp add: dvd_eq_mod_eq_0)
  then show ?case using "1.IH" by simp
qed (auto simp: dvd_eq_mod_eq_0)

section \<open>The segment\<close>

datatype backing =
    Ram "f32 list"
  | Mmap "byte list" nat

record data_segment =
  ds_dimension :: nat
  ds_distance :: distance
  ds_backing :: backing
  ds_appender :: "appender option"

text \<open>
  Rows are read from the appender in chunks of 8192 bytes and decoded as they arrive.
\<close>

function read_rows :: "nat \<Rightarrow> nat \<Rightarrow> f32 list \<Rightarrow> (appender, f32 list) act" where
  "read_rows offset remaining v ap =
     (if remaining > 0 then
        let n = min remaining 8192 in
        (case ap_read_exact_at offset n ap of
           (Inl e, ap') \<Rightarrow> (Inl e, ap')
         | (Inr buf, ap') \<Rightarrow> read_rows (offset + n) (remaining - n) (v @ decode_chunks buf) ap')
      else (Inr v, ap))"
  by pat_completeness auto
termination
  by (relation "measure (\<lambda>(offset, remaining, v, ap). remaining)") auto

declare read_rows.simps [simp del]

definition seg_open_with :: "nat \<Rightarrow> distance \<Rightarrow> (appender, data_segment) act" where
  "seg_open_with dimension d =
     andThen ap_len (\<lambda>file_len.
       if file_len = 0 then
         andThen (ap_append (encode_header dimension d)) (\<lambda>_ ap.
           (Inr \<lparr>ds_dimension = dimension, ds_distance = d, ds_backing = Ram [],
                 ds_appender = Some ap\<rparr>, ap))
       else if file_len < HEADER_LEN then fail (Data (HeaderTruncated file_len))
       else
         andThen (ap_read_exact_at 0 HEADER_LEN) (\<lambda>header_buf.
         andThen (of_result (decode_header header_buf)) (\<lambda>(stored_dim, stored_distance).
           if stored_dim \<noteq> dimension then fail (Data (DimMismatch stored_dim dimension))
           else if stored_distance \<noteq> d then fail (Data DistanceMismatch)
           else
             let row_stride = dimension * 4;
                 data_bytes = file_len - HEADER_LEN;
                 row_count = (if row_stride = 0 then 0 else data_bytes div row_stride);
                 whole_data_bytes = row_count * row_stride;
                 total_floats = row_count * dimension;
                 good_end = HEADER_LEN + whole_data_bytes
             in andThen (if total_floats = 0 then ret []
                         else read_rows HEADER_LEN whole_data_bytes []) (\<lambda>vectors.
                andThen (if file_len > good_end then ap_truncate_to good_end else ret ()) (\<lambda>_ ap.
                  (Inr \<lparr>ds_dimension = dimension, ds_distance = d, ds_backing = Ram vectors,
                        ds_appender = Some ap\<rparr>, ap))))))"

definition seg_open_mmap :: "byte list \<Rightarrow> nat \<Rightarrow> distance \<Rightarrow> nidus_error + data_segment" where
  "seg_open_mmap bytes dimension d =
     (if length bytes < HEADER_LEN then Inl (Data (HeaderTruncated (length bytes)))
      else (case decode_header (take HEADER_LEN bytes) of
              Inl e \<Rightarrow> Inl e
            | Inr (stored_dim, stored_distance) \<Rightarrow>
                if stored_dim \<noteq> dimension then Inl (Data (DimMismatch stored_dim dimension))
                else if stored_distance \<noteq> d then Inl (Data DistanceMismatch)
                else
                  let row_stride = dimension * 4;
                      data_bytes = length bytes - HEADER_LEN;
                      rows = (if row_stride = 0 then 0 else data_bytes div row_stride)
                  in Inr \<lparr>ds_dimension = dimension, ds_distance = d, ds_backing = Mmap bytes rows,
                          ds_appender = None\<rparr>))"

definition seg_in_memory_with :: "nat \<Rightarrow> distance \<Rightarrow> data_segment" where
  "seg_in_memory_with dimension d =
     \<lparr>ds_dimension = dimension, ds_distance = d, ds_backing = Ram [], ds_appender = None\<rparr>"

definition seg_rewrite_target :: "appender \<Rightarrow> nat \<Rightarrow> distance \<Rightarrow> data_segment" where
  "seg_rewrite_target ap dimension d =
     \<lparr>ds_dimension = dimension, ds_distance = d, ds_backing = Ram [], ds_appender = Some ap\<rparr>"

fun is_mmap_backing :: "backing \<Rightarrow> bool" where
  "is_mmap_backing (Ram _) = False"
| "is_mmap_backing (Mmap _ _) = True"

definition seg_is_mmap :: "data_segment \<Rightarrow> bool" where
  "seg_is_mmap s = is_mmap_backing (ds_backing s)"

definition seg_row_count :: "data_segment \<Rightarrow> nat" where
  "seg_row_count s = (case ds_backing s of
     Ram v \<Rightarrow> length v div max (ds_dimension s) 1
   | Mmap _ rows \<Rightarrow> rows)"

definition mmap_rows :: "byte list \<Rightarrow> nat \<Rightarrow> nat \<Rightarrow> f32 list" where
  "mmap_rows bytes rows dimension =
     decode_chunks (take (rows * dimension * 4) (drop HEADER_LEN bytes))"

definition seg_vectors :: "data_segment \<Rightarrow> f32 list" where
  "seg_vectors s = (case ds_backing s of
     Ram v \<Rightarrow> v
   | Mmap bytes rows \<Rightarrow> mmap_rows bytes rows (ds_dimension s))"

text \<open>A row past the end is a slice out of range: the panic is \<^const>\<open>None\<close>.\<close>

definition seg_row :: "data_segment \<Rightarrow> nat \<Rightarrow> f32 list option" where
  "seg_row s i =
     (let dim = ds_dimension s; start = i * dim in
      if start + dim \<le> length (seg_vectors s)
      then Some (take dim (drop start (seg_vectors s))) else None)"

text \<open>Running an appender operation on the segment's own appender, if it has one.\<close>

definition on_appender :: "(appender, unit) act \<Rightarrow> (data_segment, unit) act" where
  "on_appender f s = (case ds_appender s of
     None \<Rightarrow> (Inr (), s)
   | Some ap \<Rightarrow> (case f ap of (r, ap') \<Rightarrow> (r, s\<lparr>ds_appender := Some ap'\<rparr>)))"

definition seg_append :: "f32 list \<Rightarrow> (data_segment, nat) act" where
  "seg_append vector s =
     (if length vector \<noteq> ds_dimension s
      then (Inl (Data (VectorLength (length vector) (ds_dimension s))), s)
      else (case ds_backing s of
        Mmap _ _ \<Rightarrow> (Inl (Data ImmutableSegment), s)
      | Ram vectors \<Rightarrow>
          andThen (on_appender (ap_append (floats_to_bytes vector))) (\<lambda>_ t.
            (Inr (seg_row_count s), t\<lparr>ds_backing := Ram (vectors @ vector)\<rparr>)) s))"

definition seg_truncate_to :: "nat \<Rightarrow> (data_segment, unit) act" where
  "seg_truncate_to rows s =
     (case ds_backing s of
        Mmap _ _ \<Rightarrow> (Inl (Data ImmutableSegment), s)
      | Ram vectors \<Rightarrow>
          let keep_floats = rows * ds_dimension s in
          if keep_floats > length vectors
          then (Inl (Data (TruncateRows rows (seg_row_count s))), s)
          else andThen (on_appender (ap_truncate_to (HEADER_LEN + rows * ds_dimension s * 4)))
            (\<lambda>_ t. (Inr (), t\<lparr>ds_backing := Ram (take keep_floats vectors)\<rparr>)) s)"

definition seg_sync :: "(data_segment, unit) act" where
  "seg_sync = on_appender ap_sync"

definition seg_rewrite :: "f32 list \<Rightarrow> (data_segment, unit) act" where
  "seg_rewrite rows s =
     (let dim = ds_dimension s in
      if dim > 0 \<and> length rows mod dim \<noteq> 0 then (Inl (Data (RowsNotMultiple (length rows) dim)), s)
      else andThen
        (on_appender (ap_rewrite (encode_header dim (ds_distance s)
            @ (if rows \<noteq> [] then floats_to_bytes rows else []))))
        (\<lambda>_ t. (Inr (), t\<lparr>ds_backing := Ram rows\<rparr>)) s)"

section \<open>Invariant\<close>

text \<open>
  A segment holds whole rows, and a writable file behind it is its header followed by exactly
  the rows in RAM.
\<close>

definition seg_wf :: "data_segment \<Rightarrow> bool" where
  "seg_wf s \<longleftrightarrow> 0 < ds_dimension s \<and> ds_dimension s < 2 ^ 32 \<and>
     (case ds_backing s of
        Ram v \<Rightarrow> ds_dimension s dvd length v
      | Mmap bytes rows \<Rightarrow> HEADER_LEN + rows * ds_dimension s * 4 \<le> length bytes)"

definition seg_image :: "data_segment \<Rightarrow> f32 list \<Rightarrow> byte list" where
  "seg_image s v = encode_header (ds_dimension s) (ds_distance s) @ floats_to_bytes v"

definition seg_inv :: "data_segment \<Rightarrow> bool" where
  "seg_inv s \<longleftrightarrow> seg_wf s \<and>
     (\<forall>ap. ds_appender s = Some ap \<longrightarrow>
        (\<exists>v. ds_backing s = Ram v \<and> ap_bytes ap = seg_image s v))"

lemma length_decode_chunks: "length (decode_chunks bs) = length bs div 4"
  by (induction bs rule: decode_chunks.induct) auto

lemma length_seg_vectors: "seg_wf s \<Longrightarrow> length (seg_vectors s) = seg_row_count s * ds_dimension s"
  by (auto simp: seg_wf_def seg_vectors_def seg_row_count_def mmap_rows_def length_decode_chunks
      max_def split: backing.splits)

lemma seg_row_Some_iff:
  assumes "seg_wf s"
  shows "seg_row s i \<noteq> None \<longleftrightarrow> i < seg_row_count s"
proof -
  have d: "0 < ds_dimension s" using assms by (simp add: seg_wf_def)
  have "i * ds_dimension s + ds_dimension s = Suc i * ds_dimension s" by simp
  then have "i * ds_dimension s + ds_dimension s \<le> seg_row_count s * ds_dimension s
      \<longleftrightarrow> Suc i \<le> seg_row_count s"
    using d by (simp only: mult_le_cancel2 simp_thms)
  then show ?thesis using length_seg_vectors[OF assms] by (simp add: seg_row_def Let_def)
qed

lemma length_seg_row: "seg_row s i = Some v \<Longrightarrow> length v = ds_dimension s"
  by (auto simp: seg_row_def Let_def split: if_splits)

section \<open>Growing and rolling back\<close>

text \<open>What any run of appends, failing or not, can have done to a segment.\<close>

definition seg_extends :: "data_segment \<Rightarrow> data_segment \<Rightarrow> bool" where
  "seg_extends s t \<longleftrightarrow> ds_dimension t = ds_dimension s \<and> ds_distance t = ds_distance s \<and>
     (\<exists>v w. ds_backing s = Ram v \<and> ds_backing t = Ram w \<and> prefix v w \<and> ds_dimension s dvd length w) \<and>
     (case ds_appender s of
        None \<Rightarrow> ds_appender t = None
      | Some ap \<Rightarrow> \<exists>bp. ds_appender t = Some bp \<and> prefix (ap_bytes ap) (ap_bytes bp))"

lemma seg_extends_refl: "seg_wf s \<Longrightarrow> \<not> seg_is_mmap s \<Longrightarrow> seg_extends s s"
  by (cases "ds_backing s")
    (auto simp: seg_extends_def seg_wf_def seg_is_mmap_def split: option.splits)

lemma seg_extends_trans: "seg_extends s t \<Longrightarrow> seg_extends t u \<Longrightarrow> seg_extends s u"
  by (auto simp: seg_extends_def split: option.splits intro: prefix_order.trans)

lemma on_appender_result:
  "on_appender f s = (r, t) \<Longrightarrow>
     (ds_appender s = None \<and> r = Inr () \<and> t = s) \<or>
     (\<exists>ap bp. ds_appender s = Some ap \<and> f ap = (r, bp) \<and> t = s\<lparr>ds_appender := Some bp\<rparr>)"
  by (auto simp: on_appender_def split: option.splits prod.splits)

lemma seg_append_Inr:
  assumes "seg_append v s = (Inr i, t)"
  obtains w u where "ds_backing s = Ram w" "length v = ds_dimension s" "i = seg_row_count s"
    "on_appender (ap_append (floats_to_bytes v)) s = (Inr (), u)" "t = u\<lparr>ds_backing := Ram (w @ v)\<rparr>"
  using assms by (auto simp: seg_append_def andThen_Inr_iff split: if_splits backing.splits)

lemma seg_append_extends:
  assumes "seg_wf s" "\<not> seg_is_mmap s" "seg_append v s = (r, t)"
  shows "seg_extends s t"
proof (cases r)
  case (Inl e)
  have "t = s \<or> (\<exists>u. on_appender (ap_append (floats_to_bytes v)) s = (Inl e, t))"
    using assms(3) Inl by (auto simp: seg_append_def andThen_Inl_iff split: if_splits backing.splits)
  then show ?thesis
    using seg_extends_refl[OF assms(1,2)]
    by (fastforce dest!: on_appender_result ap_stream.append_prefix simp: seg_extends_def)
next
  case (Inr i)
  then obtain w u where a: "ds_backing s = Ram w" "length v = ds_dimension s"
    "on_appender (ap_append (floats_to_bytes v)) s = (Inr (), u)" "t = u\<lparr>ds_backing := Ram (w @ v)\<rparr>"
    using assms(3) by (auto elim: seg_append_Inr)
  then show ?thesis using assms(1)
    by (auto dest!: on_appender_result ap_stream.append_prefix simp: seg_extends_def seg_wf_def
        split: option.splits)
qed

lemma seg_append_inv:
  assumes "seg_inv s" "seg_append v s = (Inr i, t)"
  shows "seg_inv t"
proof -
  from assms(2) obtain w u where a: "ds_backing s = Ram w" "length v = ds_dimension s"
    "on_appender (ap_append (floats_to_bytes v)) s = (Inr (), u)" "t = u\<lparr>ds_backing := Ram (w @ v)\<rparr>"
    by (auto elim: seg_append_Inr)
  then show ?thesis using assms(1)
    by (auto dest!: on_appender_result ap_stream.append_ok
        simp: seg_inv_def seg_wf_def seg_image_def)
qed

lemma take_row: "i * d + d \<le> length w \<Longrightarrow> take d (drop (i * d) (w @ v)) = take d (drop (i * d) w)"
  for w :: "'a list"
  by simp

lemma seg_append_effect:
  assumes "seg_inv s" and "seg_append v s = (Inr i, t)"
  shows "seg_inv t \<and> i = seg_row_count s \<and> seg_row_count t = Suc (seg_row_count s) \<and>
    seg_row t i = Some v \<and> (\<forall>j < seg_row_count s. seg_row t j = seg_row s j)"
proof -
  from assms(2) obtain w u where a: "ds_backing s = Ram w" "length v = ds_dimension s" "i = seg_row_count s"
    "on_appender (ap_append (floats_to_bytes v)) s = (Inr (), u)" "t = u\<lparr>ds_backing := Ram (w @ v)\<rparr>"
    by (rule seg_append_Inr)
  have wf: "seg_wf s" and d: "0 < ds_dimension s" using assms(1) by (auto simp: seg_inv_def seg_wf_def)
  have t: "ds_dimension t = ds_dimension s" "seg_vectors t = w @ v" "seg_vectors s = w"
    using a on_appender_result[OF a(4)] by (auto simp: seg_vectors_def)
  have n: "length w = seg_row_count s * ds_dimension s" using length_seg_vectors[OF wf] t(3) by simp
  have "max (ds_dimension s) 1 = ds_dimension s" using d by simp
  moreover have "ds_backing t = Ram (w @ v)" using a(5) by simp
  ultimately have "seg_row_count t = (seg_row_count s * ds_dimension s + ds_dimension s) div ds_dimension s"
    unfolding seg_row_count_def[of t] t(1) using n a(2) by (simp del: div_mult_self1 div_mult_self2)
  then have rc: "seg_row_count t = Suc (seg_row_count s)" using d by simp
  have "seg_row t j = seg_row s j" if "j < seg_row_count s" for j
  proof -
    have "Suc j * ds_dimension s \<le> seg_row_count s * ds_dimension s"
      using that by (intro mult_le_mono1) simp
    then have le: "j * ds_dimension s + ds_dimension s \<le> length w" using n by simp
    then show ?thesis unfolding seg_row_def t Let_def using take_row[OF le] by simp
  qed
  moreover have "seg_row t i = Some v" using a(2,3) t n by (simp add: seg_row_def Let_def)
  ultimately show ?thesis using seg_append_inv[OF assms] a(3) rc by blast
qed

text \<open>
  (append). A successful append returns the next row number, which then reads back as the
  vector given; every earlier row is unchanged, and the segment's file is again its header
  followed by its rows.
\<close>
theorem seg_append_row:
  assumes "seg_inv s" and "seg_append v s = (Inr i, t)"
  shows "seg_inv t \<and> i = seg_row_count s \<and> seg_row_count t = Suc (seg_row_count s) \<and>
    seg_row t i = Some v \<and> (\<forall>j < seg_row_count s. seg_row t j = seg_row s j)"
  using seg_append_effect[OF assms] .

text \<open>The loop of appends in a batch: it stops at the first that fails.\<close>

definition seg_append_all :: "f32 list list \<Rightarrow> (data_segment, unit) act" where
  "seg_append_all = for_each seg_append"

lemma seg_append_all_simps [simp]:
  "seg_append_all [] = ret ()"
  "seg_append_all (v # vs) = andThen (seg_append v) (\<lambda>_. seg_append_all vs)"
  by (simp_all add: seg_append_all_def)

lemma seg_extends_wf: "seg_wf s \<Longrightarrow> seg_extends s t \<Longrightarrow> seg_wf t \<and> \<not> seg_is_mmap t"
  by (auto simp: seg_extends_def seg_wf_def seg_is_mmap_def)

lemma seg_append_all_extends:
  "seg_wf s \<Longrightarrow> \<not> seg_is_mmap s \<Longrightarrow> seg_append_all vs s = (r, t) \<Longrightarrow> seg_extends s t"
proof (induction vs arbitrary: s)
  case (Cons v vs)
  obtain q u where u: "seg_append v s = (q, u)" by fastforce
  have ext: "seg_extends s u" by (rule seg_append_extends[OF Cons.prems(1,2) u])
  show ?case
  proof (cases q)
    case (Inr i)
    then have "seg_extends u t" using Cons u seg_extends_wf[OF Cons.prems(1) ext] by auto
    then show ?thesis by (rule seg_extends_trans[OF ext])
  qed (use u ext Cons.prems(3) in auto)
qed (auto intro: seg_extends_refl)

lemma seg_extends_rollback:
  assumes "seg_inv s" and "seg_extends s t" and "seg_truncate_to (seg_row_count s) t = (Inr (), u)"
  shows "ds_backing u = ds_backing s \<and> seg_inv u \<and>
    map_option ap_bytes (ds_appender u) = map_option ap_bytes (ds_appender s)"
proof -

  from assms(2) obtain v w where vw: "ds_backing s = Ram v" "ds_backing t = Ram w" "prefix v w"
    and dim: "ds_dimension t = ds_dimension s" "ds_distance t = ds_distance s"
    by (auto simp: seg_extends_def)
  have wf: "seg_wf s" using assms(1) by (simp add: seg_inv_def)
  have n: "seg_row_count s * ds_dimension s = length v"
    using length_seg_vectors[OF wf] vw(1) by (simp add: seg_vectors_def)
  have tk: "take (length v) w = v" using vw(3) by (auto simp: prefix_def)
  obtain x where x: "on_appender (ap_truncate_to (HEADER_LEN + length v * 4)) t = (Inr (), x)"
    and u: "u = x\<lparr>ds_backing := Ram v\<rparr>"
    using assms(3) vw dim n tk
    by (auto simp: seg_truncate_to_def Let_def andThen_Inr_iff mult.assoc split: if_splits)
  show ?thesis
  proof (cases "ds_appender s")
    case None
    then have "x = t" using x assms(2) on_appender_result[OF x] by (auto simp: seg_extends_def)
    then show ?thesis using None u vw dim assms(1,2)
      by (auto simp: seg_inv_def seg_wf_def seg_extends_def)
  next
    case (Some ap)
    then obtain bp where bp: "ds_appender t = Some bp" "prefix (ap_bytes ap) (ap_bytes bp)"
      using assms(2) by (auto simp: seg_extends_def)
    have im: "ap_bytes ap = seg_image s v" using assms(1) Some vw(1) by (auto simp: seg_inv_def)
    have len: "HEADER_LEN + length v * 4 = length (ap_bytes ap)"
      by (simp add: im seg_image_def HEADER_LEN_def)
    obtain cp where cp: "ap_truncate_to (length (ap_bytes ap)) bp = (Inr (), cp)"
      "x = t\<lparr>ds_appender := Some cp\<rparr>"
      using on_appender_result[OF x] bp(1) len by auto
    have "ap_bytes cp = ap_bytes ap" by (rule ap_stream.rollback_to_mark[OF bp(2) cp(1)])
    then show ?thesis using u cp(2) Some vw dim assms(1) im
      by (auto simp: seg_inv_def seg_wf_def seg_image_def)
  qed
qed

text \<open>
  (segment rollback). After any run of appends, whichever of them failed and however far it
  got, truncating to the earlier row count gives back the rows and the file bytes from before.
\<close>
theorem seg_rollback:
  assumes "seg_inv s" and "\<not> seg_is_mmap s" and "seg_append_all vs s = (r, t)"
    and "seg_truncate_to (seg_row_count s) t = (Inr (), u)"
  shows "ds_backing u = ds_backing s \<and> seg_inv u \<and>
    map_option ap_bytes (ds_appender u) = map_option ap_bytes (ds_appender s)"
proof -
  have ext: "seg_extends s t" using assms(1-3) seg_append_all_extends by (auto simp: seg_inv_def)
  show ?thesis by (rule seg_extends_rollback[OF assms(1) ext assms(4)])
qed

text \<open>A one-row segment on a file whose coming calls are scripted.\<close>

abbreviation demo_seg :: "outcome list \<Rightarrow> data_segment" where
  "demo_seg script \<equiv> \<lparr>ds_dimension = 2, ds_distance = Cosine, ds_backing = Ram [1, 2],
     ds_appender = Some (FileAp \<lparr>fa_bytes = encode_header 2 Cosine @ floats_to_bytes [1, 2],
       fa_durable = [], fa_script = script\<rparr>)\<rparr>"

lemma demo_seg_inv: "seg_inv (demo_seg script)"
  by (simp add: seg_inv_def seg_wf_def seg_image_def)

lemmas run_file_defs = ap_append_def ap_truncate_to_def on_file_def file_append_def file_truncate_to_def
  checked_call_def syscall_def set_bytes_def act_defs

theorem seg_append_row_witness:
  "\<exists>t. seg_append [7, 8] (demo_seg []) = (Inr 1, t) \<and> seg_inv t \<and> seg_row t 1 = Some [7, 8] \<and>
     seg_row t 0 = Some [1, 2]"
proof -
  have "\<exists>t. seg_append [7, 8] (demo_seg []) = (Inr 1, t)"
    by (simp add: seg_append_def on_appender_def run_file_defs seg_row_count_def Let_def)
  then obtain t where t: "seg_append [7, 8] (demo_seg []) = (Inr 1, t)" ..
  have "seg_row (demo_seg []) 0 = Some [1, 2]" "seg_row_count (demo_seg []) = 1"
    by (simp_all add: seg_row_def seg_vectors_def seg_row_count_def)
  then show ?thesis using t seg_append_row[OF demo_seg_inv t] by auto
qed

theorem seg_rollback_witness:
  "\<exists>r t u. seg_append_all [[3, 4], [5, 6]] (demo_seg [Done, Done, Done, Failed 5, Failed 0]) = (r, t) \<and>
     r \<noteq> Inr () \<and> ds_backing t = Ram [1, 2, 3, 4] \<and>
     seg_truncate_to 1 t = (Inr (), u) \<and> ds_backing u = Ram [1, 2] \<and> seg_inv u"
proof -
  let ?s = "demo_seg [Done, Done, Done, Failed 5, Failed 0]"
  obtain r t where t: "seg_append_all [[3, 4], [5, 6]] ?s = (r, t)"
    by (cases "seg_append_all [[3, 4], [5, 6]] ?s")
  obtain q u where u: "seg_truncate_to 1 t = (q, u)" by (cases "seg_truncate_to 1 t")
  have r: "r \<noteq> Inr () \<and> ds_backing t = Ram [1, 2, 3, 4] \<and> q = Inr ()"
    using t u by (auto simp: seg_append_def seg_truncate_to_def on_appender_def run_file_defs
        seg_row_count_def Let_def)
  moreover have "\<not> seg_is_mmap ?s" "seg_row_count ?s = 1"
    by (simp_all add: seg_is_mmap_def seg_row_count_def)
  ultimately show ?thesis using t u seg_rollback[OF demo_seg_inv _ t, of u] by auto
qed

lemma seg_truncate_dim:
  assumes "seg_truncate_to n t = (Inr (), u)"
  shows "ds_dimension u = ds_dimension t \<and> ds_distance u = ds_distance t"
  using assms
  by (auto simp: seg_truncate_to_def andThen_Inr_iff Let_def dest!: on_appender_result
      split: backing.splits if_splits)

section \<open>Opening\<close>

lemma take_split: "take r (drop o' bs) = take (min r m) (drop o' bs) @ take (r - min r m) (drop (o' + min r m) bs)"
  for bs :: "'a list"
proof -
  have "take (min r m + (r - min r m)) (drop o' bs) =
      take (min r m) (drop o' bs) @ take (r - min r m) (drop (min r m) (drop o' bs))"
    by (rule take_add)
  then show ?thesis by (simp add: add.commute)
qed

lemma quiet_read_exact: "off + n \<le> length (fa_bytes a) \<Longrightarrow> fa_script a = [] \<Longrightarrow>
   ap_read_exact_at off n (FileAp a) = (Inr (take n (drop off (fa_bytes a))), FileAp a)"
  by (simp add: ap_read_exact_at_def on_file_def file_read_exact_at_def andThen_def)

lemma quiet_read_rows:
  assumes "fa_script a = []" and "4 dvd remaining" and "offset + remaining \<le> length (fa_bytes a)"
  shows "read_rows offset remaining v (FileAp a) =
    (Inr (v @ decode_chunks (take remaining (drop offset (fa_bytes a)))), FileAp a)"
  using assms
proof (induction offset remaining v "FileAp a" rule: read_rows.induct)
  case (1 offset remaining v)
  show ?case
  proof (cases "remaining > 0")
    case True
    let ?n = "min remaining 8192"
    let ?buf = "take ?n (drop offset (fa_bytes a))"
    let ?rest = "take (remaining - ?n) (drop (offset + ?n) (fa_bytes a))"
    have rd: "ap_read_exact_at offset ?n (FileAp a) = (Inr ?buf, FileAp a)"
      using "1.prems" by (intro quiet_read_exact) auto
    have n4: "4 dvd ?n" "4 dvd remaining - ?n"
      using "1.prems"(2) by (auto simp: min_def dvd_diff_nat)
    have le: "offset + ?n + (remaining - ?n) \<le> length (fa_bytes a)"
      using "1.prems"(3) by linarith
    have IH: "read_rows (offset + ?n) (remaining - ?n) (v @ decode_chunks ?buf) (FileAp a) =
       (Inr ((v @ decode_chunks ?buf) @ decode_chunks ?rest), FileAp a)"
      using "1.hyps"[OF True refl rd[symmetric] refl "1.prems"(1) n4(2) le] .
    have "length ?buf = ?n" using "1.prems"(3) by simp
    then have "4 dvd length ?buf" using n4(1) by simp
    then have "decode_chunks (take remaining (drop offset (fa_bytes a))) =
       decode_chunks ?buf @ decode_chunks ?rest"
      unfolding take_split[of remaining _ _ 8192] by (rule decode_chunks_append)
    then have "(Inr ((v @ decode_chunks ?buf) @ decode_chunks ?rest), FileAp a) =
       (Inr (v @ decode_chunks (take remaining (drop offset (fa_bytes a)))), FileAp a)"
      by (simp only: append_assoc)
    moreover have "read_rows offset remaining v (FileAp a) =
       read_rows (offset + ?n) (remaining - ?n) (v @ decode_chunks ?buf) (FileAp a)"
      by (subst read_rows.simps) (simp only: True rd Let_def if_True prod.case sum.case)
    ultimately show ?thesis using IH by (simp only:)
  qed (subst read_rows.simps, simp)
qed

lemma quiet_len: "ap_len (quiet_file bytes) = (Inr (length bytes), quiet_file bytes)"
  by (simp add: ap_len_def on_file_def file_len_def andThen_def)

lemma seg_open_mmap_cases:
  assumes "seg_open_mmap bytes dim d = Inr m"
  shows "\<not> length bytes < HEADER_LEN \<and> decode_header (take HEADER_LEN bytes) = Inr (dim, d) \<and>
    m = \<lparr>ds_dimension = dim, ds_distance = d,
         ds_backing = Mmap bytes (if dim * 4 = 0 then 0 else (length bytes - HEADER_LEN) div (dim * 4)),
         ds_appender = None\<rparr>"
  using assms by (auto simp: seg_open_mmap_def Let_def split: if_splits sum.splits prod.splits)

lemma mmap_rows_fit:
  assumes "\<not> length bytes < HEADER_LEN"
  shows "HEADER_LEN + (if dim * 4 = 0 then 0 else (length bytes - HEADER_LEN) div (dim * 4)) * (dim * 4)
    \<le> length bytes"
proof -
  have "(length bytes - HEADER_LEN) div (dim * 4) * (dim * 4) \<le> length bytes - HEADER_LEN"
    by (rule div_times_less_eq_dividend)
  then have "HEADER_LEN + (length bytes - HEADER_LEN) div (dim * 4) * (dim * 4) \<le> length bytes"
    using assms by linarith
  then show ?thesis using assms by (cases "dim * 4 = 0") simp_all
qed

text \<open>The load into RAM and the map take the same decisions on the same bytes.\<close>

lemma seg_open_existing:
  assumes "bytes \<noteq> []"
  shows "(\<exists>e. seg_open_mmap bytes dim d = Inl e \<and> fst (seg_open_with dim d (quiet_file bytes)) = Inl e) \<or>
    (\<exists>m rows a. seg_open_mmap bytes dim d = Inr m \<and> ds_backing m = Mmap bytes rows \<and>
       ds_dimension m = dim \<and> HEADER_LEN + rows * (dim * 4) \<le> length bytes \<and>
       (0 < dim \<longrightarrow> rows = (length bytes - HEADER_LEN) div (dim * 4)) \<and>
       ap_bytes a = take (HEADER_LEN + rows * (dim * 4)) bytes \<and>
       seg_open_with dim d (quiet_file bytes) =
         (Inr \<lparr>ds_dimension = dim, ds_distance = d, ds_backing = Ram (mmap_rows bytes rows dim),
               ds_appender = Some a\<rparr>, a))"
proof (cases "length bytes < HEADER_LEN")
  case True
  then show ?thesis using assms quiet_len[of bytes] by (simp add: seg_open_with_def seg_open_mmap_def)
next
  case False
  let ?f = "\<lparr>fa_bytes = bytes, fa_durable = bytes, fa_script = []\<rparr>"
  have hd: "ap_read_exact_at 0 HEADER_LEN (quiet_file bytes) = (Inr (take HEADER_LEN bytes), quiet_file bytes)"
    using quiet_read_exact[of 0 HEADER_LEN ?f] False by simp
  define opened where "opened =
     (\<lambda>(stored_dim, stored_distance).
        if stored_dim \<noteq> dim then fail (Data (DimMismatch stored_dim dim))
        else if stored_distance \<noteq> d then fail (Data DistanceMismatch)
        else
          let row_stride = dim * 4;
              data_bytes = length bytes - HEADER_LEN;
              row_count = (if row_stride = 0 then 0 else data_bytes div row_stride);
              whole_data_bytes = row_count * row_stride;
              total_floats = row_count * dim;
              good_end = HEADER_LEN + whole_data_bytes
          in andThen (if total_floats = 0 then ret []
                      else read_rows HEADER_LEN whole_data_bytes []) (\<lambda>vectors.
             andThen (if length bytes > good_end then ap_truncate_to good_end else ret ()) (\<lambda>_ ap.
               (Inr \<lparr>ds_dimension = dim, ds_distance = d, ds_backing = Ram vectors,
                     ds_appender = Some ap\<rparr>, ap))))"
  have open_eq: "seg_open_with dim d (quiet_file bytes) =
      andThen (of_result (decode_header (take HEADER_LEN bytes))) opened (quiet_file bytes)"
    unfolding seg_open_with_def opened_def andThen_ok[where m = ap_len, OF quiet_len] using assms False
    by (simp only: andThen_ok[where m = "ap_read_exact_at 0 HEADER_LEN", OF hd] length_0_conv if_False)
  show ?thesis
  proof (cases "decode_header (take HEADER_LEN bytes)")
    case (Inl e)
    then show ?thesis using False open_eq by (simp add: seg_open_mmap_def of_result_def)
  next
    case (Inr h)
    obtain sd sm where h: "h = (sd, sm)" by fastforce
    have open2: "seg_open_with dim d (quiet_file bytes) = opened (sd, sm) (quiet_file bytes)"
      using open_eq Inr h by (simp add: of_result_def)
    show ?thesis
    proof (cases "sd = dim \<and> sm = d")
      case False
      then show ?thesis using \<open>\<not> length bytes < HEADER_LEN\<close> Inr h open2
        by (auto simp: seg_open_mmap_def opened_def)
    next
      case True
      define rows where "rows = (if dim * 4 = 0 then 0 else (length bytes - HEADER_LEN) div (dim * 4))"
      have fit: "HEADER_LEN + rows * (dim * 4) \<le> length bytes"
        unfolding rows_def using False by (rule mmap_rows_fit)
      have rd: "(if rows * dim = 0 then ret [] else read_rows HEADER_LEN (rows * (dim * 4)) []) (quiet_file bytes)
         = (Inr (mmap_rows bytes rows dim), quiet_file bytes)"
        using quiet_read_rows[of ?f "rows * (dim * 4)" HEADER_LEN "[]"] fit
        by (auto simp: mmap_rows_def mult.assoc)
      obtain a where tr: "(if length bytes > HEADER_LEN + rows * (dim * 4)
          then ap_truncate_to (HEADER_LEN + rows * (dim * 4)) else ret ()) (quiet_file bytes) = (Inr (), a)"
        and a: "ap_bytes a = take (HEADER_LEN + rows * (dim * 4)) bytes"
        using fit quiet_truncate[OF fit] by (cases "length bytes > HEADER_LEN + rows * (dim * 4)") auto
      have "opened (sd, sm) (quiet_file bytes) =
         (Inr \<lparr>ds_dimension = dim, ds_distance = d, ds_backing = Ram (mmap_rows bytes rows dim),
               ds_appender = Some a\<rparr>, a)"
        unfolding opened_def prod.case Let_def rows_def[symmetric]
        using True by (simp only: simp_thms if_False
              andThen_ok[where m = "if rows * dim = 0 then ret [] else read_rows HEADER_LEN (rows * (dim * 4)) []", OF rd]
              andThen_ok[where m = "if length bytes > HEADER_LEN + rows * (dim * 4)
                then ap_truncate_to (HEADER_LEN + rows * (dim * 4)) else ret ()", OF tr])
      moreover have "seg_open_mmap bytes dim d =
         Inr \<lparr>ds_dimension = dim, ds_distance = d, ds_backing = Mmap bytes rows, ds_appender = None\<rparr>"
        using False Inr h True by (simp add: seg_open_mmap_def rows_def)
      ultimately show ?thesis using open2 fit a by (auto simp: rows_def)
    qed
  qed
qed

text \<open>
  C22 (segment reopen). A file holding a header, whole rows and the start of one more row opens,
  at the dimension and metric it was written with, to exactly those rows, and is cut back to
  them so that the next append stays aligned.
\<close>
theorem seg_open_recovers_rows:
  assumes "0 < dim" "dim < 2 ^ 32" and "dim dvd length v" and "length torn < dim * 4"
  shows "\<exists>s a. seg_open_with dim d (quiet_file (encode_header dim d @ floats_to_bytes v @ torn)) = (Inr s, a) \<and>
     ds_backing s = Ram v \<and> ds_appender s = Some a \<and> seg_inv s \<and>
     ap_bytes a = encode_header dim d @ floats_to_bytes v"
proof -
  let ?bs = "encode_header dim d @ floats_to_bytes v @ torn"
  obtain k where k: "length v = k * dim" using assms(3) by (metis dvd_def mult.commute)
  have "length ?bs - HEADER_LEN = k * (dim * 4) + length torn" using k by (simp add: HEADER_LEN_def)
  then have rows: "(length ?bs - HEADER_LEN) div (dim * 4) = k" using assms(1,4) by simp
  have hd: "decode_header (take HEADER_LEN ?bs) = Inr (dim, d)"
    using decode_encode_header[OF assms(2)] by (simp add: HEADER_LEN_def)
  have len: "4 * length v = k * (dim * 4)" using k by simp
  have cut: "take (HEADER_LEN + k * (dim * 4)) ?bs = encode_header dim d @ floats_to_bytes v"
    unfolding len[symmetric] by (simp add: HEADER_LEN_def)
  have vec: "mmap_rows ?bs k dim = v"
    unfolding mmap_rows_def using len by (simp add: HEADER_LEN_def mult.assoc)
  have "seg_open_mmap ?bs dim d \<noteq> Inl e" for e
    using hd by (auto simp: seg_open_mmap_def Let_def HEADER_LEN_def)
  then obtain a where "ap_bytes a = take (HEADER_LEN + k * (dim * 4)) ?bs"
    "seg_open_with dim d (quiet_file ?bs) =
       (Inr \<lparr>ds_dimension = dim, ds_distance = d, ds_backing = Ram (mmap_rows ?bs k dim),
             ds_appender = Some a\<rparr>, a)"
    using seg_open_existing[of ?bs dim d] rows assms(1) by (auto simp: encode_header_def MAGIC_def)
  then show ?thesis using assms cut vec by (auto simp: seg_inv_def seg_wf_def seg_image_def)
qed

text \<open>
  Mapped and loaded segments agree. For any bytes an immutable segment file holds, the
  zero-copy map and the load into RAM both open or both refuse, with the same error, and serve
  the same rows.
\<close>
theorem seg_mmap_equals_ram:
  assumes "bytes \<noteq> []" and "0 < dim"
  shows "case seg_open_mmap bytes dim d of
      Inl e \<Rightarrow> fst (seg_open_with dim d (quiet_file bytes)) = Inl e
    | Inr m \<Rightarrow> (\<exists>s. fst (seg_open_with dim d (quiet_file bytes)) = Inr s \<and> seg_vectors s = seg_vectors m \<and>
        seg_row_count s = seg_row_count m \<and> (\<forall>i. seg_row s i = seg_row m i))"
proof -
  have "length (mmap_rows bytes rows dim) div max dim 1 = rows"
    if "HEADER_LEN + rows * (dim * 4) \<le> length bytes" for rows
  proof -
    have "length (take (rows * dim * 4) (drop HEADER_LEN bytes)) = rows * dim * 4"
      using that by (simp add: mult.assoc)
    then show ?thesis using assms(2) by (simp add: mmap_rows_def length_decode_chunks max_def)
  qed
  then show ?thesis
    using seg_open_existing[OF assms(1), of dim d]
    by (auto simp: seg_vectors_def seg_row_count_def seg_row_def Let_def)
qed

theorem seg_open_recovers_rows_witness:
  "\<exists>s a. seg_open_with 2 Cosine (quiet_file (encode_header 2 Cosine @ floats_to_bytes [1, 2] @ [9, 9, 9])) =
      (Inr s, a) \<and> ds_backing s = Ram [1, 2] \<and> ap_bytes a = encode_header 2 Cosine @ floats_to_bytes [1, 2]"
  using seg_open_recovers_rows[of 2 "[1, 2]" "[9, 9, 9]" Cosine] by auto

theorem seg_mmap_equals_ram_witness:
  "\<exists>m s. seg_open_mmap (encode_header 2 Cosine @ floats_to_bytes [1, 2]) 2 Cosine = Inr m \<and>
     fst (seg_open_with 2 Cosine (quiet_file (encode_header 2 Cosine @ floats_to_bytes [1, 2]))) = Inr s \<and>
     seg_row m 0 = Some [1, 2] \<and> seg_row s 0 = seg_row m 0"
proof -
  let ?bs = "encode_header 2 Cosine @ floats_to_bytes [1, 2]"
  have hd: "decode_header (take HEADER_LEN ?bs) = Inr (2, Cosine)"
    using decode_encode_header[of 2 Cosine] by (simp add: HEADER_LEN_def)
  then obtain m where m: "seg_open_mmap ?bs 2 Cosine = Inr m"
    "m = \<lparr>ds_dimension = 2, ds_distance = Cosine, ds_backing = Mmap ?bs 1, ds_appender = None\<rparr>"
    by (simp add: seg_open_mmap_def HEADER_LEN_def)
  have "seg_row m 0 = Some [1, 2]"
    using decode_floats[of "[1, 2]"] m(2) by (simp add: seg_row_def seg_vectors_def mmap_rows_def HEADER_LEN_def)
  then show ?thesis using m(1) seg_mmap_equals_ram[of ?bs 2 Cosine]
    by (auto simp: encode_header_def MAGIC_def)
qed

end
