(* ===== verification/IndexCache.thy ===== *)
theory IndexCache
  imports Persist DataSeg
begin

text \<open>
  The frame of the derived index caches and of the checksum sidecars
  (\<^verbatim>\<open>src/src/index_cache.rs\<close>), and the per-segment checksum (\<^verbatim>\<open>src/src/data/checksum.rs\<close>).
  \<^verbatim>\<open>bincode\<close> and \<^verbatim>\<open>crc32fast\<close> are parameters: the serializer and deserializer of the payload
  type, and the hash of a byte string.
\<close>

record 'a bincode =
  serialize :: "'a \<Rightarrow> byte list option"
  deserialize :: "byte list \<Rightarrow> 'a option"

type_synonym crc32 = "byte list \<Rightarrow> u32"

section \<open>Cache frames\<close>

definition CACHE_VERSION :: u16 where
  "CACHE_VERSION = 1"

definition FIXED :: nat where
  "FIXED = 18"

definition cache_frame ::
  "'a bincode \<Rightarrow> crc32 \<Rightarrow> byte list \<Rightarrow> u64 \<Rightarrow> 'a \<Rightarrow> nidus_error + byte list" where
  "cache_frame bc hash key watermark payload =
     (case serialize bc payload of
        None \<Rightarrow> Inl (Cache CacheSerialize)
      | Some bytes \<Rightarrow>
          if length key \<ge> 2 ^ 16 then Inl (Cache (CacheKeyTooLong (length key)))
          else Inr (MAGIC @ u16_to_le CACHE_VERSION @ u64_to_le watermark
            @ u16_to_le (word_of_nat (length key)) @ key @ bytes @ u32_to_le (hash bytes)))"

text \<open>\<^verbatim>\<open>bytes[a..b]\<close>.\<close>

definition subslice :: "nat \<Rightarrow> nat \<Rightarrow> 'a list \<Rightarrow> 'a list" where
  "subslice a b xs = take (b - a) (drop a xs)"

definition cache_decode :: "'a bincode \<Rightarrow> crc32 \<Rightarrow> byte list \<Rightarrow> byte list \<Rightarrow> ('a \<times> u64) option" where
  "cache_decode bc hash bytes key =
     (if length bytes < FIXED then None
      else if subslice 0 6 bytes \<noteq> MAGIC \<or> subslice 6 8 bytes \<noteq> u16_to_le CACHE_VERSION then None
      else
        let watermark = u64_from_le (subslice 8 16 bytes);
            key_len = unat (u16_from_le (subslice 16 18 bytes));
            header_len = FIXED + key_len
        in if length bytes < header_len + 4 then None
           else if subslice FIXED header_len bytes \<noteq> key then None
           else
             let payload = subslice header_len (length bytes - 4) bytes;
                 stored_crc = u32_from_le (drop (length bytes - 4) bytes)
             in if hash payload \<noteq> stored_crc then None
                else map_option (\<lambda>p. (p, watermark)) (deserialize bc payload))"

definition cache_save ::
  "'a bincode \<Rightarrow> crc32 \<Rightarrow> string \<Rightarrow> byte list \<Rightarrow> u64 \<Rightarrow> 'a \<Rightarrow> (local_fs, unit) act" where
  "cache_save bc hash object key watermark payload =
     (case cache_frame bc hash key watermark payload of
        Inl e \<Rightarrow> fail e | Inr buf \<Rightarrow> fs_put object buf)"

definition cache_load ::
  "'a bincode \<Rightarrow> crc32 \<Rightarrow> string \<Rightarrow> byte list \<Rightarrow> (local_fs, ('a \<times> u64) option) act" where
  "cache_load bc hash object key =
     andThen (fs_get object) (\<lambda>r. case r of
         Some bytes \<Rightarrow> ret (cache_decode bc hash bytes key)
       | None \<Rightarrow> ret None)"

lemma subslice_app:
  "subslice a b (xs @ ys) = (if b \<le> length xs then subslice a b xs
     else if length xs \<le> a then subslice (a - length xs) (b - length xs) ys
     else drop a xs @ take (b - length xs) ys)"
  by (auto simp: subslice_def not_le)

lemma subslice_empty [simp]: "b \<le> a \<Longrightarrow> subslice a b xs = []"
  by (simp add: subslice_def)

lemma subslice_whole: "b = length xs \<Longrightarrow> subslice 0 b xs = xs"
  by (simp add: subslice_def)

lemma length_MAGIC [simp]: "length MAGIC = 6"
  by (simp add: MAGIC_def)

lemma cache_decode_frame:
  assumes "cache_frame bc hash key wm v = Inr buf" and "serialize bc v = Some bytes"
    and "deserialize bc bytes = Some v'"
  shows "cache_decode bc hash buf key = Some (v', wm)"
proof -
  have k: "length key < 2 ^ 16"
    and buf: "buf = MAGIC @ u16_to_le CACHE_VERSION @ u64_to_le wm @ u16_to_le (word_of_nat (length key))
      @ key @ bytes @ u32_to_le (hash bytes)"
    using assms(1,2) by (auto simp: cache_frame_def split: if_splits)
  have kl: "unat (u16_from_le (subslice 16 18 buf)) = length key"
    using k by (simp add: buf subslice_app subslice_whole unat_of_nat)
  have parts: "subslice 0 6 buf = MAGIC" "subslice 6 8 buf = u16_to_le CACHE_VERSION"
    "u64_from_le (subslice 8 16 buf) = wm" "subslice FIXED (FIXED + length key) buf = key"
    "subslice (FIXED + length key) (length buf - 4) buf = bytes"
    "u32_from_le (drop (length buf - 4) buf) = hash bytes"
    by (simp_all add: buf subslice_app subslice_whole FIXED_def)
  have len: "\<not> length buf < FIXED" "\<not> length buf < FIXED + length key + 4"
    by (simp_all add: buf FIXED_def)
  show ?thesis
    unfolding cache_decode_def Let_def kl parts using len assms(3) by simp
qed

text \<open>A frame is accepted only under the key it was written for.\<close>

lemma cache_decode_key:
  assumes "cache_frame bc hash key wm v = Inr buf" and "cache_decode bc hash buf key' = Some r"
  shows "key' = key"
proof -
  obtain bytes where k: "length key < 2 ^ 16"
    and buf: "buf = MAGIC @ u16_to_le CACHE_VERSION @ u64_to_le wm @ u16_to_le (word_of_nat (length key))
      @ key @ bytes @ u32_to_le (hash bytes)"
    using assms(1) by (auto simp: cache_frame_def split: if_splits option.splits)
  have kl: "unat (u16_from_le (subslice 16 18 buf)) = length key"
    using k by (simp add: buf subslice_app subslice_whole unat_of_nat)
  have "subslice FIXED (FIXED + length key) buf = key"
    by (simp add: buf subslice_app subslice_whole FIXED_def)
  then show ?thesis using assms(2) kl by (auto simp: cache_decode_def Let_def split: if_splits)
qed

section \<open>Segment checksums\<close>

definition crc_object_name :: "string \<Rightarrow> string" where
  "crc_object_name segment = segment @ ''.crc''"

text \<open>A string is its UTF-8 bytes.\<close>

definition str_bytes :: "string \<Rightarrow> byte list" where
  "str_bytes s = map (\<lambda>c. word_of_nat (of_char c)) s"

definition checksum_key :: "string \<Rightarrow> nat \<Rightarrow> distance \<Rightarrow> byte list" where
  "checksum_key segment dim d = u32_to_le (word_of_nat dim) @ [distance_to_byte d] @ str_bytes segment"

text \<open>The streaming hasher: what it has been fed so far.\<close>

function hash_rows :: "nat \<Rightarrow> nat \<Rightarrow> byte list \<Rightarrow> (appender, byte list) act" where
  "hash_rows offset remaining fed ap =
     (if remaining > 0 then
        let n = min remaining 8192 in
        (case ap_read_exact_at offset n ap of
           (Inl e, ap') \<Rightarrow> (Inl e, ap')
         | (Inr buf, ap') \<Rightarrow> hash_rows (offset + n) (remaining - n) (fed @ buf) ap')
      else (Inr fed, ap))"
  by pat_completeness auto
termination
  by (relation "measure (\<lambda>(offset, remaining, fed, ap). remaining)") auto

declare hash_rows.simps [simp del]

definition checksum_compute :: "crc32 \<Rightarrow> nat \<Rightarrow> (data_segment, u32) act" where
  "checksum_compute hash rows s =
     (let stride = ds_dimension s * 4; total = rows * stride in
      case ds_backing s of
        Mmap bytes mapped_rows \<Rightarrow>
          if rows > mapped_rows then (Inl (Data (ChecksumRows rows mapped_rows)), s)
          else (Inr (hash (subslice HEADER_LEN (HEADER_LEN + total) bytes)), s)
      | Ram _ \<Rightarrow>
          (case ds_appender s of
             None \<Rightarrow> (Inl (Data NoBacking), s)
           | Some ap \<Rightarrow>
               (case hash_rows HEADER_LEN total [] ap of
                  (Inl e, ap') \<Rightarrow> (Inl e, s\<lparr>ds_appender := Some ap'\<rparr>)
                | (Inr fed, ap') \<Rightarrow> (Inr (hash fed), s\<lparr>ds_appender := Some ap'\<rparr>))))"

definition checksum_save ::
  "u32 bincode \<Rightarrow> crc32 \<Rightarrow> string \<Rightarrow> byte list \<Rightarrow> nat \<Rightarrow> u32 \<Rightarrow> (local_fs, unit) act" where
  "checksum_save bc hash segment key rows c =
     cache_save bc hash (crc_object_name segment) key (word_of_nat rows) c"

definition checksum_load ::
  "u32 bincode \<Rightarrow> crc32 \<Rightarrow> string \<Rightarrow> byte list \<Rightarrow> (local_fs, (u32 \<times> nat) option) act" where
  "checksum_load bc hash segment key =
     andThen (cache_load bc hash (crc_object_name segment) key)
       (\<lambda>r. ret (map_option (\<lambda>(c, w). (c, unat w)) r))"

datatype segment_integrity =
    IntegrityOk nat nat          \<comment> \<open>rows covered, rows in total\<close>
  | IntegrityMismatch nat u32 u32
  | NoChecksum nat

definition checksum_verify ::
  "u32 bincode \<Rightarrow> crc32 \<Rightarrow> string \<Rightarrow> byte list \<Rightarrow> (data_segment \<times> local_fs, segment_integrity) act" where
  "checksum_verify bc hash segment key = (\<lambda>(s, p).
     let rows_total = seg_row_count s in
     case checksum_load bc hash segment key p of
       (Inl e, p') \<Rightarrow> (Inl e, (s, p'))
     | (Inr None, p') \<Rightarrow> (Inr (NoChecksum rows_total), (s, p'))
     | (Inr (Some (expected, rows_covered)), p') \<Rightarrow>
         if rows_covered > rows_total
         then (Inl (Data (ChecksumRows rows_covered rows_total)), (s, p'))
         else (case checksum_compute hash rows_covered s of
             (Inl e, s') \<Rightarrow> (Inl e, (s', p'))
           | (Inr actual, s') \<Rightarrow>
               if actual = expected then (Inr (IntegrityOk rows_covered rows_total), (s', p'))
               else (Inr (IntegrityMismatch rows_covered expected actual), (s', p'))))"

lemma hash_rows_Inr:
  "hash_rows offset remaining fed ap = (Inr out, ap') \<Longrightarrow>
     out = fed @ take remaining (drop offset (ap_bytes ap)) \<and> ap_bytes ap' = ap_bytes ap"
proof (induction offset remaining fed ap rule: hash_rows.induct)
  case (1 offset remaining fed ap)
  show ?case
  proof (cases "remaining > 0")
    case True
    let ?n = "min remaining 8192"
    obtain x bp where rd: "ap_read_exact_at offset ?n ap = (x, bp)" by fastforce
    then obtain buf where x: "x = Inr buf"
      and rest: "hash_rows (offset + ?n) (remaining - ?n) (fed @ buf) bp = (Inr out, ap')"
      using "1.prems" True by (subst (asm) hash_rows.simps) (cases x; simp add: Let_def)
    have b: "buf = take ?n (drop offset (ap_bytes ap))" "ap_bytes bp = ap_bytes ap"
      using ap_stream.read_ok[of offset ?n ap buf bp] ap_stream.read_keeps[OF rd] rd x by simp_all
    have "out = (fed @ buf) @ take (remaining - ?n) (drop (offset + ?n) (ap_bytes bp)) \<and>
        ap_bytes ap' = ap_bytes bp"
      using "1.IH"[OF True refl rd[symmetric] x rest] .
    then show ?thesis
      unfolding take_split[of remaining offset "ap_bytes ap" 8192] b(2) using b(1)
      by (simp only: append_assoc simp_thms)
  next
    case False
    then show ?thesis using "1.prems" by (subst (asm) hash_rows.simps) simp
  qed
qed

text \<open>The bytes a checksum over the first \<^term>\<open>rows\<close> rows covers.\<close>

definition row_bytes :: "data_segment \<Rightarrow> nat \<Rightarrow> byte list" where
  "row_bytes s rows = floats_to_bytes (take (rows * ds_dimension s) (seg_vectors s))"

lemma floats_decode: "4 dvd length bs \<Longrightarrow> floats_to_bytes (decode_chunks bs) = bs"
proof (induction bs rule: decode_chunks.induct)
  case (1 a b c d r)
  have "4 dvd length r" using "1.prems" by (simp add: dvd_eq_mod_eq_0)
  then show ?case using "1.IH" u32_to_from_le[of "[a, b, c, d]"] by simp
qed (auto simp: dvd_eq_mod_eq_0)

lemma floats_to_bytes_take: "floats_to_bytes (take n v) = take (4 * n) (floats_to_bytes v)"
proof (induction v arbitrary: n)
  case (Cons x v)
  then show ?case by (cases n) (simp_all add: take_append)
qed simp

lemma decode_chunks_take: "take n (decode_chunks bs) = decode_chunks (take (4 * n) bs)"
proof (induction bs arbitrary: n rule: decode_chunks.induct)
  case (1 a b c d r)
  show ?case
  proof (cases n)
    case (Suc m)
    then have "4 * n = Suc (Suc (Suc (Suc (4 * m))))" by simp
    then have "take (4 * n) (a # b # c # d # r) = a # b # c # d # take (4 * m) r" by (simp only: take_Suc_Cons)
    then show ?thesis using "1.IH"[of m] Suc by simp
  qed simp
next
  case "2_3"
  then show ?case by (cases n) simp_all
next
  case "2_4"
  then show ?case by (cases n) simp_all
qed (simp_all add: take_Cons')

lemma checksum_compute_Inr:
  assumes "seg_inv s" and "rows \<le> seg_row_count s" and "checksum_compute hash rows s = (Inr c, t)"
  shows "c = hash (row_bytes s rows)"
proof (cases "ds_backing s")
  case (Ram v)
  obtain ap where ap: "ds_appender s = Some ap"
    using assms(3) Ram by (cases "ds_appender s") (auto simp: checksum_compute_def Let_def)
  obtain x ap' where h: "hash_rows HEADER_LEN (rows * (ds_dimension s * 4)) [] ap = (x, ap')" by fastforce
  obtain fed where fed: "x = Inr fed" "c = hash fed"
    using assms(3) Ram ap h by (cases x) (auto simp: checksum_compute_def Let_def)
  have im: "ap_bytes ap = seg_image s v" using assms(1) ap Ram by (auto simp: seg_inv_def)
  have "fed = take (rows * (ds_dimension s * 4)) (drop HEADER_LEN (seg_image s v))"
    using hash_rows_Inr[of HEADER_LEN _ "[]" ap fed ap'] h fed(1) im by simp
  also have "\<dots> = take (4 * (rows * ds_dimension s)) (floats_to_bytes v)"
    by (simp add: seg_image_def HEADER_LEN_def ac_simps)
  finally show ?thesis using fed(2) Ram by (simp add: row_bytes_def seg_vectors_def floats_to_bytes_take)
next
  case (Mmap bytes n)
  let ?k = "rows * ds_dimension s"
  have le: "rows \<le> n" "c = hash (subslice HEADER_LEN (HEADER_LEN + rows * (ds_dimension s * 4)) bytes)"
    using assms(3) Mmap by (auto simp: checksum_compute_def Let_def split: if_splits)
  have fit: "HEADER_LEN + n * ds_dimension s * 4 \<le> length bytes"
    using assms(1) Mmap by (auto simp: seg_inv_def seg_wf_def)
  have k: "?k \<le> n * ds_dimension s" using le(1) by simp
  then have k4: "4 * ?k \<le> n * ds_dimension s * 4" by simp
  have "subslice HEADER_LEN (HEADER_LEN + rows * (ds_dimension s * 4)) bytes =
      take (4 * ?k) (drop HEADER_LEN bytes)"
    by (simp add: subslice_def ac_simps)
  moreover have "4 * ?k \<le> length (drop HEADER_LEN bytes)" using fit k4 unfolding length_drop by linarith
  then have "4 dvd length (take (4 * ?k) (drop HEADER_LEN bytes))" by (simp add: min_absorb2)
  then have "take (4 * ?k) (drop HEADER_LEN bytes) =
      floats_to_bytes (decode_chunks (take (4 * ?k) (drop HEADER_LEN bytes)))"
    by (simp only: floats_decode)
  moreover have "row_bytes s rows = floats_to_bytes (decode_chunks (take (4 * ?k) (drop HEADER_LEN bytes)))"
    using Mmap k4 by (simp add: row_bytes_def seg_vectors_def mmap_rows_def decode_chunks_take min_absorb1)
  ultimately show ?thesis using le(2) by simp
qed

lemma checksum_key_stable [simp]: "fs_stable (crc_object_name segment)"
  by (auto simp: crc_object_name_def is_tmp_def suffix_def)

text \<open>
  C23 (checksum verdict). A sidecar stamped over the rows of a sealed segment is later judged
  against the row bytes the segment then holds: the verdict is Ok, for exactly the rows
  stamped, when their hash is the stamped one, and a mismatch naming both hashes when it is
  not. Rows appended since are counted but not vouched for.
\<close>
theorem checksum_verdict:
  assumes "seg_inv s" and "checksum_compute hash (seg_row_count s) s = (Inr c, s1)"
    and "checksum_save bc hash name key (seg_row_count s) c p = (Inr (), p1)"
    and "Option.bind (serialize bc c) (deserialize bc) = Some c" and "seg_row_count s < 2 ^ 64"
    and "seg_inv t" and "seg_row_count s \<le> seg_row_count t"
    and "checksum_verify bc hash name key (t, p1) = (Inr verdict, u)"
  shows "let rows = seg_row_count s; now = hash (row_bytes t rows) in
    verdict = (if now = hash (row_bytes s rows) then IntegrityOk rows (seg_row_count t)
               else IntegrityMismatch rows (hash (row_bytes s rows)) now)"
proof -
  let ?rows = "seg_row_count s"
  have c: "c = hash (row_bytes s ?rows)" by (rule checksum_compute_Inr[OF assms(1) order_refl assms(2)])
  obtain bytes where ser: "serialize bc c = Some bytes" "deserialize bc bytes = Some c"
    using assms(4) by (auto simp: bind_eq_Some_conv)
  obtain buf where buf: "cache_frame bc hash key (word_of_nat ?rows) c = Inr buf"
    "fs_put (crc_object_name name) buf p = (Inr (), p1)"
    using assms(3) by (auto simp: checksum_save_def cache_save_def split: sum.splits)
  have dec: "cache_decode bc hash buf key = Some (c, word_of_nat ?rows)"
    by (rule cache_decode_frame[OF buf(1) ser])
  obtain g p2 where g: "fs_get (crc_object_name name) p1 = (g, p2)" by fastforce
  have ld: "checksum_load bc hash name key p1 = (Inr (Some (c, ?rows)), p2)" if "g = Inr r" for r
  proof -
    have "r = Some buf" using local_objects.get_after_put[OF buf(2)] g that by simp
    then show ?thesis using g that dec assms(5)
      by (simp add: checksum_load_def cache_load_def unat_of_nat)
  qed
  have "\<exists>r. g = Inr r"
    using assms(8) g by (cases g) (simp_all add: checksum_verify_def checksum_load_def cache_load_def)
  then have run: "checksum_load bc hash name key p1 = (Inr (Some (c, ?rows)), p2)" using ld by blast
  obtain actual t' where act: "checksum_compute hash ?rows t = (Inr actual, t')"
    and v: "verdict = (if actual = c then IntegrityOk ?rows (seg_row_count t) else IntegrityMismatch ?rows c actual)"
    using assms(7,8) run
    by (cases "checksum_compute hash ?rows t"; cases "fst (checksum_compute hash ?rows t)")
      (auto simp: checksum_verify_def Let_def split: if_splits)
  have "actual = hash (row_bytes t ?rows)" by (rule checksum_compute_Inr[OF assms(6,7) act])
  then show ?thesis using v c by (simp add: Let_def)
qed

text \<open>Concrete stand-ins for the two library codecs.\<close>

definition demo_hash :: crc32 where
  "demo_hash bs = word_of_nat (sum_list (map unat bs))"

definition demo_u32 :: "u32 bincode" where
  "demo_u32 = \<lparr>serialize = \<lambda>w. Some (u32_to_le w), deserialize = \<lambda>bs. Some (u32_from_le bs)\<rparr>"

definition demo_map :: "f32 list \<Rightarrow> data_segment" where
  "demo_map v = \<lparr>ds_dimension = 2, ds_distance = Cosine,
     ds_backing = Mmap (encode_header 2 Cosine @ floats_to_bytes v) 1, ds_appender = None\<rparr>"

lemma demo_map_compute:
  "checksum_compute demo_hash 1 (demo_map [a, b]) = (Inr (demo_hash (floats_to_bytes [a, b])), demo_map [a, b])"
  by (simp add: demo_map_def checksum_compute_def Let_def subslice_app subslice_whole HEADER_LEN_def)

lemma demo_hash_rows: "demo_hash (floats_to_bytes [1, 2]) = 3" "demo_hash (floats_to_bytes [1, 3]) = 4"
  by (simp_all add: demo_hash_def u32_to_le_def nat_to_le_numeral)

theorem checksum_verdict_witness:
  "\<exists>p1 u v. checksum_save demo_u32 demo_hash ''data'' [1] 1 3 \<lparr>fs_objects = [], fs_script = [], fs_handles = []\<rparr>
       = (Inr (), p1) \<and>
     checksum_verify demo_u32 demo_hash ''data'' [1] (demo_map [1, 2], p1) = (Inr (IntegrityOk 1 1), u) \<and>
     checksum_verify demo_u32 demo_hash ''data'' [1] (demo_map [1, 3], p1) = (Inr (IntegrityMismatch 1 3 4), v)"
proof -
  let ?p = "\<lparr>fs_objects = [], fs_script = [], fs_handles = []\<rparr>"
  have inv: "seg_inv (demo_map [a, b])" and rows: "seg_row_count (demo_map [a, b]) = 1" for a b
    by (simp_all add: demo_map_def seg_inv_def seg_wf_def HEADER_LEN_def seg_row_count_def)
  have rb: "row_bytes (demo_map [a, b]) 1 = floats_to_bytes [a, b]" for a b
    using decode_floats[of "[a, b]"]
    by (simp add: demo_map_def row_bytes_def seg_vectors_def mmap_rows_def HEADER_LEN_def)
  have key: "validate_key ''data.crc'' = Inr ()" by code_simp
  obtain buf where buf: "cache_frame demo_u32 demo_hash [1] (word_of_nat 1) 3 = Inr buf"
    by (simp add: cache_frame_def demo_u32_def)
  have ser: "serialize demo_u32 3 = Some (u32_to_le 3)" "deserialize demo_u32 (u32_to_le 3) = Some 3"
    by (simp_all add: demo_u32_def)
  have dec: "cache_decode demo_u32 demo_hash buf [1] = Some (3, 1)"
    using cache_decode_frame[OF buf ser] by simp
  obtain p1 where p1: "checksum_save demo_u32 demo_hash ''data'' [1] 1 3 ?p = (Inr (), p1)"
    and got: "fs_get ''data.crc'' p1 = (Inr (Some buf), p1)"
    using key buf by (simp add: checksum_save_def cache_save_def crc_object_name_def
        fs_put_def fs_get_def object_path_def fs_checked_def fs_syscall_def fs_set_def andThen_def Let_def)
  have run: "\<exists>r u. checksum_verify demo_u32 demo_hash ''data'' [1] (demo_map [a, b], p1) = (Inr r, u)" for a b
    using demo_map_compute[of a b] got dec rows[of a b]
    by (simp add: checksum_verify_def checksum_load_def cache_load_def crc_object_name_def Let_def)
  obtain r u where u: "checksum_verify demo_u32 demo_hash ''data'' [1] (demo_map [1, 2], p1) = (Inr r, u)"
    using run by blast
  obtain r' v where v: "checksum_verify demo_u32 demo_hash ''data'' [1] (demo_map [1, 3], p1) = (Inr r', v)"
    using run by blast
  note stamp = checksum_verdict[of "demo_map [1, 2]" demo_hash 3 _ demo_u32 "''data''" "[1]" ?p p1]
  have cmp: "checksum_compute demo_hash (seg_row_count (demo_map [1, 2])) (demo_map [1, 2]) = (Inr 3, demo_map [1, 2])"
    unfolding rows demo_map_compute demo_hash_rows ..
  have "r = IntegrityOk 1 1"
    using stamp[OF inv cmp _ _ _ inv _ u] p1 ser by (simp add: rows rb[unfolded One_nat_def] demo_hash_rows[unfolded floats_to_bytes_simps append_Nil2] Let_def)
  moreover have "r' = IntegrityMismatch 1 3 4"
    using stamp[OF inv cmp _ _ _ inv _ v] p1 ser by (simp add: rows rb[unfolded One_nat_def] demo_hash_rows[unfolded floats_to_bytes_simps append_Nil2] Let_def)
  ultimately show ?thesis using p1 u v by blast
qed

end
