(* ===== verification/Manifest.thy ===== *)
theory Manifest
  imports IndexCache
begin

text \<open>
  The manifest, the atomic commit point naming the live segments
  (\<^verbatim>\<open>src/src/manifest/mod.rs\<close>), and the bounded history of past commit points
  (\<^verbatim>\<open>src/src/manifest/history.rs\<close>): their frames with the version dispatch, their objects, and
  the alias rules. The positional encodings of the frozen record shapes are parameters.
\<close>

section \<open>Decimal names\<close>

definition digit :: "nat \<Rightarrow> char" where
  "digit n = char_of (48 + n)"

fun show_nat :: "nat \<Rightarrow> string" where
  "show_nat n = (if n < 10 then [digit n] else show_nat (n div 10) @ [digit (n mod 10)])"

declare show_nat.simps [simp del]

text \<open>\<^verbatim>\<open>format!("{n:0w}")\<close>.\<close>

definition pad_nat :: "nat \<Rightarrow> nat \<Rightarrow> string" where
  "pad_nat w n = (let ds = show_nat n in replicate (w - length ds) (CHR ''0'') @ ds)"

definition is_digit :: "char \<Rightarrow> bool" where
  "is_digit c \<longleftrightarrow> 48 \<le> (of_char c :: nat) \<and> (of_char c :: nat) \<le> 57"

definition parse_nat :: "string \<Rightarrow> nat" where
  "parse_nat ds = foldl (\<lambda>a c. a * 10 + (of_char c - 48)) 0 ds"

lemma of_char_digit [simp]: "n < 10 \<Longrightarrow> of_char (digit n) = 48 + n"
  by (simp add: digit_def)

lemma is_digit_digit [simp]: "n < 10 \<Longrightarrow> is_digit (digit n)"
  by (simp add: is_digit_def)

lemma show_nat_digits: "list_all is_digit (show_nat n)"
proof (induction n rule: show_nat.induct)
  case (1 n)
  then show ?case by (subst show_nat.simps) simp
qed

lemma parse_show_nat: "parse_nat (show_nat n) = n"
proof (induction n rule: show_nat.induct)
  case (1 n)
  then show ?case by (subst show_nat.simps) (simp add: parse_nat_def)
qed

lemma parse_nat_zeros: "parse_nat (replicate k (CHR ''0'') @ ds) = parse_nat ds"
  by (induction k) (simp_all add: parse_nat_def)

lemma parse_pad_nat: "parse_nat (pad_nat w n) = n"
  by (simp add: pad_nat_def Let_def parse_nat_zeros parse_show_nat)

lemma pad_nat_digits: "list_all is_digit (pad_nat w n)"
  using show_nat_digits[of n] by (auto simp: pad_nat_def Let_def is_digit_def list_all_iff)

lemma length_show_nat: "0 < k \<Longrightarrow> n < 10 ^ k \<Longrightarrow> length (show_nat n) \<le> k"
proof (induction n arbitrary: k rule: show_nat.induct)
  case (1 n)
  show ?case
  proof (cases "n < 10")
    case False
    then obtain j where j: "k = Suc j" "0 < j" using "1.prems" by (cases k; cases "k - 1") auto
    then have "n div 10 < 10 ^ j" using "1.prems"(2) by (simp add: div_less_iff_less_mult mult.commute)
    then show ?thesis using "1.IH"[of j] False j by (subst show_nat.simps) simp
  qed (use "1.prems" in \<open>subst show_nat.simps, simp\<close>)
qed

lemma length_pad_nat: "0 < w \<Longrightarrow> n < 10 ^ w \<Longrightarrow> length (pad_nat w n) = w"
  using length_show_nat[of w n] by (simp add: pad_nat_def Let_def)

lemma parse_nat_inj:
  "length a = length b \<Longrightarrow> list_all is_digit a \<Longrightarrow> list_all is_digit b \<Longrightarrow> parse_nat a = parse_nat b \<Longrightarrow> a = b"
proof (induction a arbitrary: b rule: rev_induct)
  case (snoc x xs)
  from snoc.prems(1) obtain ys y where b: "b = ys @ [y]" by (cases b rule: rev_cases) auto
  let ?d = "\<lambda>c :: char. of_char c - 48 :: nat"
  have eq: "parse_nat xs * 10 + ?d x = parse_nat ys * 10 + ?d y"
    using snoc.prems(4) b by (simp add: parse_nat_def)
  have d: "?d x < 10" "?d y < 10" and ge: "48 \<le> (of_char x :: nat)" "48 \<le> (of_char y :: nat)"
    using snoc.prems(2,3) b by (auto simp: is_digit_def)
  have p: "parse_nat xs = parse_nat ys" using eq d by linarith
  have "?d x = ?d y" using eq unfolding p by simp
  then have "(of_char x :: nat) = of_char y" using ge by linarith
  then show ?case using p snoc.IH[of ys] snoc.prems(1-3) b by simp
qed simp

section \<open>The manifest\<close>

definition MANIFEST_KEY :: string where "MANIFEST_KEY = ''manifest''"
definition BASE_SEGMENT :: string where "BASE_SEGMENT = ''data''"
definition FORMAT_VERSION :: u16 where "FORMAT_VERSION = 3"

record manifest =
  m_format_version :: u16
  m_dimension :: nat
  m_distance :: distance
  m_segments :: "string list"
  m_next_id :: nat
  m_version :: nat
  m_profile :: open_profile
  m_aliases :: "(string, string) amap"

record manifest_v1 =
  m1_format_version :: u16
  m1_dimension :: nat
  m1_distance :: distance
  m1_segments :: "string list"
  m1_next_id :: nat
  m1_version :: nat

record manifest_v2 =
  m2_format_version :: u16
  m2_dimension :: nat
  m2_distance :: distance
  m2_segments :: "string list"
  m2_next_id :: nat
  m2_version :: nat
  m2_profile :: open_profile

record manifest_codec =
  mc_v1 :: "manifest_v1 bincode"
  mc_v2 :: "manifest_v2 bincode"
  mc_v3 :: "manifest bincode"

definition manifest_fresh :: "nat \<Rightarrow> distance \<Rightarrow> manifest" where
  "manifest_fresh dimension d =
     \<lparr>m_format_version = FORMAT_VERSION, m_dimension = dimension, m_distance = d,
      m_segments = [BASE_SEGMENT], m_next_id = 1, m_version = 1, m_profile = profile_default,
      m_aliases = []\<rparr>"

definition manifest_new ::
  "nat \<Rightarrow> distance \<Rightarrow> string list \<Rightarrow> nat \<Rightarrow> nat \<Rightarrow> open_profile \<Rightarrow> manifest" where
  "manifest_new dimension d segments next_id version profile =
     \<lparr>m_format_version = FORMAT_VERSION, m_dimension = dimension, m_distance = d,
      m_segments = segments, m_next_id = next_id, m_version = version, m_profile = profile,
      m_aliases = []\<rparr>"

definition manifest_encode :: "manifest_codec \<Rightarrow> crc32 \<Rightarrow> manifest \<Rightarrow> nidus_error + byte list" where
  "manifest_encode mc hash m =
     (case serialize (mc_v3 mc) m of
        None \<Rightarrow> Inl (Mani ManifestSerialize)
      | Some payload \<Rightarrow> Inr (u32_to_le (hash payload) @ payload))"

definition manifest_decode :: "manifest_codec \<Rightarrow> crc32 \<Rightarrow> byte list \<Rightarrow> nidus_error + manifest" where
  "manifest_decode mc hash bytes =
     (if length bytes < 4 then Inl (Mani (ManifestTruncated (length bytes)))
      else
        let stored = u32_from_le (take 4 bytes); payload = drop 4 bytes in
        if hash payload \<noteq> stored then Inl (Mani ManifestCrc)
        else (case deserialize (mc_v1 mc) payload of
            None \<Rightarrow> Inl (Mani ManifestDecode)
          | Some v1 \<Rightarrow>
              if m1_format_version v1 = 1 then
                Inr \<lparr>m_format_version = m1_format_version v1, m_dimension = m1_dimension v1,
                     m_distance = m1_distance v1, m_segments = m1_segments v1,
                     m_next_id = m1_next_id v1, m_version = m1_version v1,
                     m_profile = profile_default, m_aliases = []\<rparr>
              else if m1_format_version v1 = 2 then
                (case deserialize (mc_v2 mc) payload of
                   None \<Rightarrow> Inl (Mani ManifestDecode)
                 | Some v2 \<Rightarrow>
                     Inr \<lparr>m_format_version = m2_format_version v2, m_dimension = m2_dimension v2,
                          m_distance = m2_distance v2, m_segments = m2_segments v2,
                          m_next_id = m2_next_id v2, m_version = m2_version v2,
                          m_profile = m2_profile v2, m_aliases = []\<rparr>)
              else if m1_format_version v1 = 3 then
                (case deserialize (mc_v3 mc) payload of
                   None \<Rightarrow> Inl (Mani ManifestDecode)
                 | Some m \<Rightarrow> Inr m)
              else Inl (Mani (ManifestVersion (m1_format_version v1)))))"

definition manifest_load :: "manifest_codec \<Rightarrow> crc32 \<Rightarrow> (local_fs, manifest option) act" where
  "manifest_load mc hash =
     andThen (fs_get MANIFEST_KEY) (\<lambda>r. case r of
         Some bytes \<Rightarrow> (case manifest_decode mc hash bytes of Inl e \<Rightarrow> fail e | Inr m \<Rightarrow> ret (Some m))
       | None \<Rightarrow> ret None)"

definition manifest_store :: "manifest_codec \<Rightarrow> crc32 \<Rightarrow> manifest \<Rightarrow> (local_fs, unit) act" where
  "manifest_store mc hash m =
     (case manifest_encode mc hash m of Inl e \<Rightarrow> fail e | Inr bytes \<Rightarrow> fs_put MANIFEST_KEY bytes)"

definition validate_alias :: "string \<Rightarrow> string \<Rightarrow> (string, string) amap \<Rightarrow> nidus_error + unit" where
  "validate_alias name target existing =
     (if name = [] then Inl (Mani AliasEmpty)
      else if name = target then Inl (Mani (AliasSelf name))
      else if aget existing target \<noteq> None then Inl (Mani (AliasChain name target))
      else Inr ())"

section \<open>History\<close>

definition HIST_FORMAT_VERSION :: u16 where "HIST_FORMAT_VERSION = 2"
definition HIST_PREFIX :: string where "HIST_PREFIX = ''hist-''"
definition FLOOR_KEY :: string where "FLOOR_KEY = ''hist-floor''"

record history_entry =
  he_format_version :: u16
  he_version :: nat
  he_dimension :: nat
  he_distance :: distance
  he_segments :: "string list"
  he_next_id :: nat
  he_row_count :: nat
  he_log_offset :: nat
  he_profile :: open_profile
  he_commit_millis :: nat
  he_aliases :: "(string, string) amap"

record history_entry_v1 =
  h1_format_version :: u16
  h1_version :: nat
  h1_dimension :: nat
  h1_distance :: distance
  h1_segments :: "string list"
  h1_next_id :: nat
  h1_row_count :: nat
  h1_log_offset :: nat
  h1_profile :: open_profile
  h1_commit_millis :: nat

record history_floor =
  hf_format_version :: u16
  hf_oldest_readable :: nat

record history_codec =
  hc_v1 :: "history_entry_v1 bincode"
  hc_v2 :: "history_entry bincode"
  hc_floor :: "history_floor bincode"

definition entry_manifest :: "history_entry \<Rightarrow> manifest" where
  "entry_manifest e =
     (manifest_new (he_dimension e) (he_distance e) (he_segments e) (he_next_id e) (he_version e)
        (he_profile e))\<lparr>m_aliases := he_aliases e\<rparr>"

definition encode_frame :: "'a bincode \<Rightarrow> crc32 \<Rightarrow> 'a \<Rightarrow> nidus_error + byte list" where
  "encode_frame bc hash v =
     (case serialize bc v of
        None \<Rightarrow> Inl (Mani ManifestSerialize)
      | Some payload \<Rightarrow> Inr (u32_to_le (hash payload) @ payload))"

definition checked_payload :: "crc32 \<Rightarrow> byte list \<Rightarrow> nidus_error + byte list" where
  "checked_payload hash bytes =
     (if length bytes < 4 then Inl (Mani (ManifestTruncated (length bytes)))
      else if hash (drop 4 bytes) \<noteq> u32_from_le (take 4 bytes) then Inl (Mani ManifestCrc)
      else Inr (drop 4 bytes))"

definition entry_encode :: "history_codec \<Rightarrow> crc32 \<Rightarrow> history_entry \<Rightarrow> nidus_error + byte list" where
  "entry_encode hc hash e = encode_frame (hc_v2 hc) hash e"

definition entry_decode :: "history_codec \<Rightarrow> crc32 \<Rightarrow> byte list \<Rightarrow> nidus_error + history_entry" where
  "entry_decode hc hash bytes =
     (case checked_payload hash bytes of
        Inl e \<Rightarrow> Inl e
      | Inr payload \<Rightarrow>
          (case deserialize (hc_v1 hc) payload of
             None \<Rightarrow> Inl (Mani ManifestDecode)
           | Some v1 \<Rightarrow>
               if h1_format_version v1 = 1 then
                 Inr \<lparr>he_format_version = h1_format_version v1, he_version = h1_version v1,
                      he_dimension = h1_dimension v1, he_distance = h1_distance v1,
                      he_segments = h1_segments v1, he_next_id = h1_next_id v1,
                      he_row_count = h1_row_count v1, he_log_offset = h1_log_offset v1,
                      he_profile = h1_profile v1, he_commit_millis = h1_commit_millis v1,
                      he_aliases = []\<rparr>
               else if h1_format_version v1 = 2 then
                 (case deserialize (hc_v2 hc) payload of
                    None \<Rightarrow> Inl (Mani ManifestDecode) | Some e \<Rightarrow> Inr e)
               else Inl (Mani (ManifestVersion (h1_format_version v1)))))"

definition floor_encode :: "history_codec \<Rightarrow> crc32 \<Rightarrow> history_floor \<Rightarrow> nidus_error + byte list" where
  "floor_encode hc hash f = encode_frame (hc_floor hc) hash f"

definition floor_decode :: "history_codec \<Rightarrow> crc32 \<Rightarrow> byte list \<Rightarrow> nidus_error + history_floor" where
  "floor_decode hc hash bytes =
     (case checked_payload hash bytes of
        Inl e \<Rightarrow> Inl e
      | Inr payload \<Rightarrow>
          (case deserialize (hc_floor hc) payload of
             None \<Rightarrow> Inl (Mani ManifestDecode)
           | Some f \<Rightarrow>
               if \<not> (1 \<le> hf_format_version f \<and> hf_format_version f \<le> HIST_FORMAT_VERSION)
               then Inl (Mani (ManifestVersion (hf_format_version f))) else Inr f))"

definition entry_key :: "nat \<Rightarrow> string" where
  "entry_key version = HIST_PREFIX @ pad_nat 20 version"

text \<open>\<^verbatim>\<open>digits.parse()\<close> refuses a value past \<^verbatim>\<open>u64::MAX\<close>.\<close>

definition version_from_key :: "string \<Rightarrow> nat option" where
  "version_from_key key =
     (if prefix HIST_PREFIX key then
        let digits = drop (length HIST_PREFIX) key in
        if length digits \<noteq> 20 \<or> \<not> list_all is_digit digits then None
        else if parse_nat digits < 2 ^ 64 then Some (parse_nat digits) else None
      else None)"

definition load_entry :: "history_codec \<Rightarrow> crc32 \<Rightarrow> nat \<Rightarrow> (local_fs, history_entry option) act" where
  "load_entry hc hash version =
     andThen (fs_get (entry_key version)) (\<lambda>r. case r of
         Some bytes \<Rightarrow> (case entry_decode hc hash bytes of Inl e \<Rightarrow> fail e | Inr x \<Rightarrow> ret (Some x))
       | None \<Rightarrow> ret None)"

definition load_floor :: "history_codec \<Rightarrow> crc32 \<Rightarrow> (local_fs, history_floor option) act" where
  "load_floor hc hash =
     andThen (fs_get FLOOR_KEY) (\<lambda>r. case r of
         Some bytes \<Rightarrow> (case floor_decode hc hash bytes of Inl e \<Rightarrow> fail e | Inr x \<Rightarrow> ret (Some x))
       | None \<Rightarrow> ret None)"

definition store_entry :: "history_codec \<Rightarrow> crc32 \<Rightarrow> history_entry \<Rightarrow> (local_fs, unit) act" where
  "store_entry hc hash e =
     (case entry_encode hc hash e of Inl x \<Rightarrow> fail x | Inr bytes \<Rightarrow> fs_put (entry_key (he_version e)) bytes)"

definition store_floor :: "history_codec \<Rightarrow> crc32 \<Rightarrow> history_floor \<Rightarrow> (local_fs, unit) act" where
  "store_floor hc hash f =
     (case floor_encode hc hash f of Inl x \<Rightarrow> fail x | Inr bytes \<Rightarrow> fs_put FLOOR_KEY bytes)"

definition delete_entry :: "nat \<Rightarrow> (local_fs, unit) act" where
  "delete_entry version = fs_delete (entry_key version)"

definition list_versions :: "(local_fs, nat list) act" where
  "list_versions = andThen fs_list (\<lambda>keys. ret (sort (List.map_filter version_from_key keys)))"

section \<open>The published objects\<close>

lemma checked_payload_frame: "checked_payload hash (u32_to_le (hash b) @ b) = Inr b"
  by (simp add: checked_payload_def)

lemma not_tmp_digit: "is_digit c \<Longrightarrow> fs_stable (xs @ [c])"
  by (auto simp: is_tmp_def suffix_def is_digit_def)

lemma entry_key_stable: "fs_stable (entry_key v)"
proof -
  obtain ds c where p: "pad_nat 20 v = ds @ [c]"
    by (cases "pad_nat 20 v" rule: rev_cases) (auto simp: pad_nat_def Let_def show_nat.simps[of v] split: if_splits)
  then have "is_digit c" using pad_nat_digits[of 20 v] by simp
  then show ?thesis using not_tmp_digit[of c "HIST_PREFIX @ ds"] p by (simp add: entry_key_def)
qed

text \<open>A load is a fetch and a decode; a publication is an encode and a whole-object put.\<close>

lemma framed_put:
  assumes "(case en of Inl e \<Rightarrow> fail e | Inr b \<Rightarrow> fs_put k b) s = (x, t)"
  shows "(\<exists>e. en = Inl e \<and> x = Inl e \<and> t = s) \<or> (\<exists>b. en = Inr b \<and> fs_put k b s = (x, t))"
  using assms by (cases en) auto

lemma framed_get:
  assumes "andThen (fs_get k) (\<lambda>r. case r of
         Some bytes \<Rightarrow> (case de bytes of Inl e \<Rightarrow> fail e | Inr m \<Rightarrow> ret (Some m))
       | None \<Rightarrow> ret None) s = (Inr y, t)"
  shows "\<exists>r. fs_get k s = (Inr r, t) \<and>
        (case r of None \<Rightarrow> y = None | Some b \<Rightarrow> (\<exists>v. de b = Inr v \<and> y = Some v))"
proof -
  obtain r u where g: "fs_get k s = (Inr r, u)"
    and f: "(case r of Some bytes \<Rightarrow> (case de bytes of Inl e \<Rightarrow> fail e | Inr m \<Rightarrow> ret (Some m))
       | None \<Rightarrow> ret None) u = (Inr y, t)"
    using assms by (auto simp: andThen_Inr_iff)
  show ?thesis
  proof (cases r)
    case None
    then show ?thesis using g f by auto
  next
    case (Some b)
    then show ?thesis using g f by (cases "de b") auto
  qed
qed

interpretation manifest_object: framed_object fs_obj fs_stable fs_get fs_put fs_delete
    "manifest_encode mc hash" "manifest_decode mc hash" "\<lambda>_. ()" "\<lambda>_. MANIFEST_KEY"
    "manifest_store mc hash" "\<lambda>_. manifest_load mc hash" for mc hash
proof unfold_locales
  show "fs_stable MANIFEST_KEY" by (auto simp: MANIFEST_KEY_def is_tmp_def suffix_def append_eq_Cons_conv)
qed (unfold manifest_store_def manifest_load_def, erule framed_put, erule framed_get)

interpretation entry_object: framed_object fs_obj fs_stable fs_get fs_put fs_delete
    "entry_encode hc hash" "entry_decode hc hash" he_version entry_key
    "store_entry hc hash" "load_entry hc hash" for hc hash
  by unfold_locales (rule entry_key_stable, unfold store_entry_def load_entry_def, erule framed_put, erule framed_get)

interpretation floor_object: framed_object fs_obj fs_stable fs_get fs_put fs_delete
    "floor_encode hc hash" "floor_decode hc hash" "\<lambda>_. ()" "\<lambda>_. FLOOR_KEY"
    "store_floor hc hash" "\<lambda>_. load_floor hc hash" for hc hash
proof unfold_locales
  show "fs_stable FLOOR_KEY" by (auto simp: FLOOR_KEY_def is_tmp_def suffix_def append_eq_Cons_conv)
qed (unfold store_floor_def load_floor_def, erule framed_put, erule framed_get)

lemma version_from_key_iff: "version_from_key k = Some v \<longleftrightarrow> v < 2 ^ 64 \<and> k = entry_key v"
proof
  assume a: "version_from_key k = Some v"
  then have "prefix HIST_PREFIX k" by (simp add: version_from_key_def split: if_splits)
  then obtain ds where k: "k = HIST_PREFIX @ ds" by (auto simp: prefix_def)
  have ds: "length ds = 20" "list_all is_digit ds" "parse_nat ds < 2 ^ 64" "v = parse_nat ds"
    using a unfolding version_from_key_def k Let_def by (simp_all split: if_splits)
  have "v < 10 ^ 20" using ds(3,4) by simp
  then have len: "length (pad_nat 20 v) = 20" by (simp add: length_pad_nat)
  have "ds = pad_nat 20 v"
    by (rule parse_nat_inj) (simp_all only: len ds(1,2) pad_nat_digits parse_pad_nat ds(4)[symmetric])
  then show "v < 2 ^ 64 \<and> k = entry_key v" using ds k by (simp add: entry_key_def)
next
  assume a: "v < 2 ^ 64 \<and> k = entry_key v"
  then have "length (pad_nat 20 v) = 20" by (simp add: length_pad_nat)
  then show "version_from_key k = Some v"
    using a pad_nat_digits[of 20 v] parse_pad_nat[of 20 v] by (simp add: version_from_key_def entry_key_def Let_def)
qed

text \<open>What a manifest's own positional encoding gives when read back as the frozen shapes.\<close>

definition manifest_v1_of :: "manifest \<Rightarrow> manifest_v1" where
  "manifest_v1_of m = \<lparr>m1_format_version = m_format_version m, m1_dimension = m_dimension m,
     m1_distance = m_distance m, m1_segments = m_segments m, m1_next_id = m_next_id m,
     m1_version = m_version m\<rparr>"

lemma manifest_decode_encode:
  assumes "manifest_encode mc hash m = Inr b" and "m_format_version m = FORMAT_VERSION"
    and "\<And>payload. serialize (mc_v3 mc) m = Some payload \<Longrightarrow>
      deserialize (mc_v1 mc) payload = Some (manifest_v1_of m) \<and> deserialize (mc_v3 mc) payload = Some m"
  shows "manifest_decode mc hash b = Inr m"
proof -
  obtain payload where p: "serialize (mc_v3 mc) m = Some payload" "b = u32_to_le (hash payload) @ payload"
    using assms(1) by (auto simp: manifest_encode_def split: option.splits)
  then show ?thesis
    using assms(2) assms(3)[OF p(1)] by (simp add: manifest_decode_def manifest_v1_of_def FORMAT_VERSION_def)
qed

text \<open>
  C24 (the manifest is a commit point). A publication either succeeds, and then a load returns
  the manifest published, or fails, and then a load finds the object that was there before;
  every other object of the directory is untouched either way.
\<close>
theorem manifest_commit_point:
  assumes "m_format_version m = FORMAT_VERSION"
    and "\<And>payload. serialize (mc_v3 mc) m = Some payload \<Longrightarrow>
      deserialize (mc_v1 mc) payload = Some (manifest_v1_of m) \<and> deserialize (mc_v3 mc) payload = Some m"
    and "manifest_store mc hash m p = (r, q)"
  shows "(case r of
      Inr _ \<Rightarrow> (\<forall>l q'. manifest_load mc hash q = (Inr l, q') \<longrightarrow> l = Some m)
    | Inl _ \<Rightarrow> fs_obj q MANIFEST_KEY = fs_obj p MANIFEST_KEY) \<and>
    (\<forall>k. fs_stable k \<and> k \<noteq> MANIFEST_KEY \<longrightarrow> fs_obj q k = fs_obj p k)"
proof -
  have "l = Some m" if "r = Inr u" "manifest_load mc hash q = (Inr l, q')" for u l q'
    using manifest_object.publish_then_load[of mc hash m p u q l q' m] assms(3) that
      manifest_decode_encode[OF _ assms(1,2)] by blast
  moreover have "fs_obj q MANIFEST_KEY = fs_obj p MANIFEST_KEY" if "r = Inl e" for e
    using manifest_object.publish_failed_keeps[of mc hash m p e q] assms(3) that by simp
  moreover have "fs_obj q k = fs_obj p k" if "fs_stable k" "k \<noteq> MANIFEST_KEY" for k
    using manifest_object.publish_keeps_others[OF assms(3)] that by simp
  ultimately show ?thesis by (simp split: sum.split)
qed

definition demo_mc :: manifest_codec where
  "demo_mc = \<lparr>
     mc_v1 = \<lparr>serialize = \<lambda>_. None, deserialize = \<lambda>_. Some (manifest_v1_of (manifest_fresh 2 Cosine))\<rparr>,
     mc_v2 = \<lparr>serialize = \<lambda>_. None, deserialize = \<lambda>_. None\<rparr>,
     mc_v3 = \<lparr>serialize = \<lambda>m. if m = manifest_fresh 2 Cosine then Some [5] else None,
              deserialize = \<lambda>_. Some (manifest_fresh 2 Cosine)\<rparr>\<rparr>"

abbreviation empty_fs :: "outcome list \<Rightarrow> local_fs" where
  "empty_fs script \<equiv> \<lparr>fs_objects = [], fs_script = script, fs_handles = []\<rparr>"

lemmas run_fs_defs = fs_put_def fs_get_def fs_list_def object_path_def fs_checked_def fs_syscall_def fs_set_def

theorem manifest_commit_point_witness:
  "(\<exists>q q'. manifest_store demo_mc demo_hash (manifest_fresh 2 Cosine) (empty_fs []) = (Inr (), q) \<and>
      manifest_load demo_mc demo_hash q = (Inr (Some (manifest_fresh 2 Cosine)), q')) \<and>
   (\<exists>e q. manifest_store demo_mc demo_hash (manifest_fresh 2 Cosine) (empty_fs [Done, Failed 3]) = (Inl e, q) \<and>
      fs_obj q MANIFEST_KEY = None)"
proof -
  let ?m = "manifest_fresh 2 Cosine"
  have fv: "m_format_version ?m = FORMAT_VERSION" by (simp add: manifest_fresh_def)
  have codec: "\<And>payload. serialize (mc_v3 demo_mc) ?m = Some payload \<Longrightarrow>
      deserialize (mc_v1 demo_mc) payload = Some (manifest_v1_of ?m) \<and> deserialize (mc_v3 demo_mc) payload = Some ?m"
    by (simp add: demo_mc_def)
  have key: "validate_key MANIFEST_KEY = Inr ()" by code_simp
  have enc: "manifest_encode demo_mc demo_hash ?m = Inr (u32_to_le 5 @ [5])"
    by (simp add: manifest_encode_def demo_mc_def demo_hash_def)
  obtain q where q: "manifest_store demo_mc demo_hash ?m (empty_fs []) = (Inr (), q)" "fs_script q = []"
    using key enc by (simp add: manifest_store_def run_fs_defs andThen_def Let_def)
  obtain e q2 where e: "manifest_store demo_mc demo_hash ?m (empty_fs [Done, Failed 3]) = (Inl e, q2)"
    using key enc by (simp add: manifest_store_def run_fs_defs andThen_def Let_def)
  have dec: "manifest_decode demo_mc demo_hash (u32_to_le 5 @ [5]) = Inr ?m"
    by (rule manifest_decode_encode[OF enc fv codec])
  have "fs_obj q MANIFEST_KEY = Some (u32_to_le 5 @ [5])"
    using q(1) enc local_objects.put_ok[of MANIFEST_KEY _ "empty_fs []" "()" q]
    by (auto simp: manifest_store_def)
  then obtain l q' where l: "manifest_load demo_mc demo_hash q = (Inr l, q')"
    using q(2) key dec by (simp add: manifest_load_def run_fs_defs andThen_def)
  show ?thesis
    using q(1) l e manifest_commit_point[OF fv codec q(1)] manifest_commit_point[OF fv codec e] by auto
qed

text \<open>
  History keys. The versions a listing finds are exactly those whose entry object exists,
  in ascending order: an entry's key parses back to its version, and no other object, the
  retention floor included, is taken for an entry.
\<close>
theorem list_versions_exact:
  assumes "list_versions p = (Inr vs, q)"
  shows "sorted vs \<and> (\<forall>v. v \<in> set vs \<longleftrightarrow> v < 2 ^ 64 \<and> fs_obj p (entry_key v) \<noteq> None)"
proof -
  obtain x p1 where 1: "fs_checked p = (x, p1)" by fastforce
  have vs: "vs = sort (List.map_filter version_from_key (sort (akeys (fs_objects p))))"
    using assms 1 fs_checked_keeps[OF 1]
    by (cases x) (simp_all add: list_versions_def fs_list_def andThen_def)
  have "v \<in> set vs \<longleftrightarrow> (\<exists>k \<in> fst ` set (fs_objects p). version_from_key k = Some v)" for v
    by (force simp: vs List.map_filter_def)
  moreover have "k \<in> fst ` set (fs_objects p) \<longleftrightarrow> fs_obj p k \<noteq> None" for k
    by (metis map_of_eq_None_iff)
  ultimately show ?thesis unfolding vs version_from_key_iff by auto
qed

theorem list_versions_exact_witness:
  "\<exists>vs q. list_versions \<lparr>fs_objects = [(''hist-00000000000000000007'', [1]), (''hist-floor'', [2])], fs_script = [],
      fs_handles = []\<rparr> = (Inr vs, q) \<and> 7 \<in> set vs \<and> 8 \<notin> set vs"
proof -
  let ?p = "\<lparr>fs_objects = [(''hist-00000000000000000007'', [1 :: byte]), (''hist-floor'', [2])], fs_script = [],
      fs_handles = []\<rparr>"
  have k: "entry_key 7 = ''hist-00000000000000000007''" "entry_key 8 = ''hist-00000000000000000008''"
    by code_simp+
  obtain vs q where q: "list_versions ?p = (Inr vs, q)"
    by (simp add: list_versions_def run_fs_defs andThen_def)
  then show ?thesis using list_versions_exact[OF q] k by auto
qed

end
