(* ===== verification/Segments.thy ===== *)
theory Segments
  imports Manifest
begin

text \<open>
  The live segment set as one row matrix (\<^verbatim>\<open>src/src/data/segments.rs\<close>): an ordered list of
  segments, the last of which is active, addressed by global row numbers. The shared
  persistence handle is kept in the segment set, whose fencing flag (\<^verbatim>\<open>cas\<close>) is off on a local
  directory. A panic on a row past the end is \<^const>\<open>None\<close>.
\<close>

section \<open>The interface of a row matrix\<close>

text \<open>
  What the store relies on: rows are appended at the end and read back, and whatever a run of
  appends did, truncating to the earlier count restores the earlier rows. \<^verbatim>\<open>ext s t\<close> says that
  \<^verbatim>\<open>t\<close> is what a run of appends, possibly failing, may have made of \<^verbatim>\<open>s\<close>.
\<close>

locale row_matrix =
  fixes inv :: "'s \<Rightarrow> bool"
    and ext :: "'s \<Rightarrow> 's \<Rightarrow> bool"
    and rows :: "'s \<Rightarrow> f32 list list"
    and row_count :: "'s \<Rightarrow> nat"
    and row :: "'s \<Rightarrow> nat \<Rightarrow> f32 list option"
    and append :: "f32 list \<Rightarrow> ('s, nat) act"
    and truncate_to :: "nat \<Rightarrow> ('s, unit) act"
  assumes count: "inv s \<Longrightarrow> row_count s = length (rows s)"
    and row_nth: "inv s \<Longrightarrow> row s i = (if i < length (rows s) then Some (rows s ! i) else None)"
    and ext_refl: "inv s \<Longrightarrow> ext s s"
    and append_ok: "inv s \<Longrightarrow> append v s = (Inr i, t) \<Longrightarrow> inv t \<and> i = length (rows s) \<and> rows t = rows s @ [v]"
    and append_ext: "inv s \<Longrightarrow> ext s t \<Longrightarrow> append v t = (r, u) \<Longrightarrow> ext s u"
    and truncate_ok: "inv s \<Longrightarrow> ext s t \<Longrightarrow> truncate_to (length (rows s)) t = (Inr (), u) \<Longrightarrow>
      inv u \<and> rows u = rows s"
begin

lemma append_all_ok:
  "inv s \<Longrightarrow> for_each append vs s = (Inr (), t) \<Longrightarrow> inv t \<and> rows t = rows s @ vs"
proof (induction vs arbitrary: s)
  case (Cons v vs)
  then obtain i u where u: "append v s = (Inr i, u)" "for_each append vs u = (Inr (), t)"
    by (auto simp: andThen_Inr_iff)
  then show ?case using Cons.IH[of u] append_ok[OF Cons.prems(1) u(1)] by simp
qed simp

lemma append_all_ext_gen:
  "inv s \<Longrightarrow> ext s t \<Longrightarrow> for_each append vs t = (r, u) \<Longrightarrow> ext s u"
proof (induction vs arbitrary: t)
  case (Cons v vs)
  obtain q w where w: "append v t = (q, w)" by fastforce
  have ext: "ext s w" by (rule append_ext[OF Cons.prems(1,2) w])
  show ?case
  proof (cases q)
    case (Inr i)
    then show ?thesis using Cons w ext by auto
  qed (use w ext Cons.prems(3) in auto)
qed simp

lemma batch_rollback:
  assumes "inv s" "for_each append vs s = (r, t)" "truncate_to (row_count s) t = (Inr (), u)"
  shows "inv u \<and> rows u = rows s"
  using assms truncate_ok[OF assms(1) append_all_ext_gen[OF assms(1) ext_refl[OF assms(1)] assms(2)]]
    count[OF assms(1)] by simp

end

text \<open>A row matrix with a barrier, which fails or not without touching a row.\<close>

locale durable_matrix = row_matrix +
  fixes sync :: "('a, unit) act"
  assumes sync_keeps: "inv s \<Longrightarrow> sync s = (q, t) \<Longrightarrow> inv t \<and> rows t = rows s"
    and sync_ext: "inv s \<Longrightarrow> ext s t \<Longrightarrow> sync t = (q, u) \<Longrightarrow> ext s u"
begin

lemma synced_batch_rollback:
  assumes "inv s" "for_each append vs s = (r, t)" "sync t = (q, u)" "truncate_to (row_count s) u = (Inr (), w)"
  shows "inv w \<and> rows w = rows s"
proof -
  have "ext s t" by (rule append_all_ext_gen[OF assms(1) ext_refl[OF assms(1)] assms(2)])
  then have "ext s u" by (rule sync_ext[OF assms(1) _ assms(3)])
  then show ?thesis using truncate_ok[OF assms(1)] assms(4) count[OF assms(1)] by simp
qed

end

section \<open>A writable segment is a row matrix\<close>

definition seg_rows :: "data_segment \<Rightarrow> f32 list list" where
  "seg_rows d = map (\<lambda>i. take (ds_dimension d) (drop (i * ds_dimension d) (seg_vectors d))) [0..<seg_row_count d]"

definition seg_live :: "data_segment \<Rightarrow> bool" where
  "seg_live d \<longleftrightarrow> seg_inv d \<and> \<not> seg_is_mmap d"

lemma length_seg_rows [simp]: "length (seg_rows d) = seg_row_count d"
  by (simp add: seg_rows_def)

lemma seg_row_nth: "seg_wf d \<Longrightarrow> seg_row d i = (if i < seg_row_count d then Some (seg_rows d ! i) else None)"
  using seg_row_Some_iff[of d i] by (auto simp: seg_row_def seg_rows_def Let_def split: if_splits)

lemma seg_rows_append:
  assumes "seg_live d" "seg_append v d = (Inr i, e)"
  shows "seg_live e \<and> i = seg_row_count d \<and> seg_rows e = seg_rows d @ [v] \<and> ds_dimension e = ds_dimension d \<and>
    ds_distance e = ds_distance d"
proof -
  have inv: "seg_inv d" "seg_wf d" using assms(1) by (auto simp: seg_live_def seg_inv_def)
  note a = seg_append_effect[OF inv(1) assms(2)]
  have e: "seg_wf e" using a by (simp add: seg_inv_def)
  have ext: "seg_extends d e" using seg_append_extends[OF inv(2) _ assms(2)] assms(1) by (simp add: seg_live_def)
  have "seg_rows e = seg_rows d @ [v]"
  proof (rule nth_equalityI)
    fix j assume j: "j < length (seg_rows e)"
    show "seg_rows e ! j = (seg_rows d @ [v]) ! j"
      using j a seg_row_nth[OF e, of j] seg_row_nth[OF inv(2), of j]
      by (cases "j < seg_row_count d") (auto simp: nth_append less_Suc_eq)
  qed (use a in simp)
  moreover have "\<not> seg_is_mmap e" "ds_dimension e = ds_dimension d" "ds_distance e = ds_distance d"
    using ext by (auto simp: seg_extends_def seg_is_mmap_def)
  ultimately show ?thesis using a by (simp add: seg_live_def)
qed

interpretation seg_matrix: row_matrix seg_live seg_extends seg_rows seg_row_count seg_row seg_append seg_truncate_to
proof unfold_locales
  fix s t u :: data_segment and v i
  show "seg_live s \<Longrightarrow> seg_row s i = (if i < length (seg_rows s) then Some (seg_rows s ! i) else None)"
    using seg_row_nth by (simp add: seg_live_def seg_inv_def)
  show "seg_live s \<Longrightarrow> seg_extends s s"
    by (intro seg_extends_refl) (auto simp: seg_live_def seg_inv_def)
  show "seg_live s \<Longrightarrow> seg_append v s = (Inr i, t) \<Longrightarrow>
      seg_live t \<and> i = length (seg_rows s) \<and> seg_rows t = seg_rows s @ [v]"
    using seg_rows_append[of s v i t] by simp
next
  fix s t u :: data_segment and v and r :: "nidus_error + nat"
  assume a: "seg_live s" "seg_extends s t" "seg_append v t = (r, u)"
  have "seg_wf t \<and> \<not> seg_is_mmap t" using a(1,2) seg_extends_wf by (auto simp: seg_live_def seg_inv_def)
  then show "seg_extends s u" using seg_append_extends[OF _ _ a(3)] seg_extends_trans[OF a(2)] by blast
next
  fix s t u :: data_segment
  assume a: "seg_live s" "seg_extends s t" "seg_truncate_to (length (seg_rows s)) t = (Inr (), u)"
  have inv: "seg_inv s" using a(1) by (simp add: seg_live_def)
  have tr: "seg_truncate_to (seg_row_count s) t = (Inr (), u)" using a(3) by simp
  note r = seg_extends_rollback[OF inv a(2) tr]
  have dim: "ds_dimension u = ds_dimension s"
    using seg_truncate_dim[OF tr] a(2) by (simp add: seg_extends_def)
  then show "seg_live u \<and> seg_rows u = seg_rows s"
    using r a(1) by (cases "ds_backing s")
      (simp_all add: seg_live_def seg_rows_def seg_vectors_def seg_row_count_def seg_is_mmap_def)
qed simp

section \<open>The segment set\<close>

record seg =
  sg_name :: string
  sg_data :: data_segment

record segments =
  ss_distance :: distance
  ss_persistence :: "local_fs option"
  ss_segs :: "seg list"
  ss_base :: "nat list"
  ss_next_id :: nat
  ss_version :: nat

record pending_active =
  pa_data :: data_segment
  pa_row_count :: nat

text \<open>The two library codecs a segment set uses for its checksum sidecars.\<close>

record sidecar_codec =
  sc_u32 :: "u32 bincode"
  sc_crc :: crc32

abbreviation u64_max :: nat where "u64_max \<equiv> 2 ^ 64 - 1"

definition u64_sat_add :: "nat \<Rightarrow> nat \<Rightarrow> nat" where
  "u64_sat_add a b = min (a + b) u64_max"

definition u64_sat_mul :: "nat \<Rightarrow> nat \<Rightarrow> nat" where
  "u64_sat_mul a b = min (a * b) u64_max"

text \<open>The cap over the vector bytes of every segment, checked as each is sized.\<close>

definition tally :: "nat option \<Rightarrow> nat \<Rightarrow> nat \<Rightarrow> nidus_error + nat" where
  "tally cap acc_bytes seg_bytes = (case cap of
     None \<Rightarrow> Inr acc_bytes
   | Some c \<Rightarrow>
       let acc = u64_sat_add acc_bytes seg_bytes in
       if acc > c then Inl (Segs (CapExceeded acc c)) else Inr acc)"

text \<open>One segment: mapped when it is immutable and mapping is on, loaded into RAM otherwise.\<close>

definition open_one ::
  "nat \<Rightarrow> distance \<Rightarrow> nat option \<Rightarrow> bool \<Rightarrow> bool \<Rightarrow> string \<Rightarrow> nat \<Rightarrow> (local_fs, data_segment \<times> nat) act" where
  "open_one dimension d cap mmap is_active name acc_bytes =
     (case (if mmap \<and> \<not> is_active then fs_local_path name else None) of
        Some path \<Rightarrow>
          andThen (fs_get path) (\<lambda>file. case file of
              None \<Rightarrow> fail (Backend IoFailed)
            | Some bytes \<Rightarrow>
                andThen (of_result (seg_open_mmap bytes dimension d)) (\<lambda>data.
                andThen (of_result (tally cap acc_bytes (seg_row_count data * dimension * 4))) (\<lambda>acc.
                  ret (data, acc))))
      | None \<Rightarrow>
          andThen (appender_for name) (\<lambda>ap p.
            case ap_len ap of
              (Inl e, _) \<Rightarrow> (Inl e, p)
            | (Inr len, ap1) \<Rightarrow>
                (case tally cap acc_bytes (len - HEADER_LEN) of
                   Inl e \<Rightarrow> (Inl e, p)
                 | Inr acc \<Rightarrow>
                     (case seg_open_with dimension d ap1 of
                        (Inl e, _) \<Rightarrow> (Inl e, p)
                      | (Inr data, _) \<Rightarrow> (Inr (data, acc), p)))))"

fun open_loop ::
  "nat \<Rightarrow> distance \<Rightarrow> nat option \<Rightarrow> bool \<Rightarrow> string list \<Rightarrow> seg list \<Rightarrow> nat list \<Rightarrow> nat \<Rightarrow> nat
   \<Rightarrow> (local_fs, seg list \<times> nat list) act" where
  "open_loop dimension d cap mmap [] segs base acc_rows acc_bytes = ret (segs, base)"
| "open_loop dimension d cap mmap (name # names) segs base acc_rows acc_bytes =
     andThen (open_one dimension d cap mmap (names = []) name acc_bytes) (\<lambda>(data, acc).
       open_loop dimension d cap mmap names (segs @ [\<lparr>sg_name = name, sg_data = data\<rparr>])
         (base @ [acc_rows]) (acc_rows + seg_row_count data) acc)"

definition segs_open :: "manifest \<Rightarrow> nat option \<Rightarrow> bool \<Rightarrow> (local_fs, segments) act" where
  "segs_open m cap mmap =
     (if m_segments m = [] then fail (Segs NoSegments)
      else andThen (open_loop (m_dimension m) (m_distance m) cap mmap (m_segments m) [] [] 0 0)
        (\<lambda>(segs, base) p.
          (Inr \<lparr>ss_distance = m_distance m, ss_persistence = Some p, ss_segs = segs, ss_base = base,
                ss_next_id = m_next_id m, ss_version = m_version m\<rparr>, p)))"

definition segs_in_memory_with :: "nat \<Rightarrow> distance \<Rightarrow> segments" where
  "segs_in_memory_with dimension d =
     \<lparr>ss_distance = d, ss_persistence = None,
      ss_segs = [\<lparr>sg_name = BASE_SEGMENT, sg_data = seg_in_memory_with dimension d\<rparr>],
      ss_base = [0], ss_next_id = 1, ss_version = 1\<rparr>"

definition active :: "segments \<Rightarrow> data_segment" where
  "active s = sg_data (last (ss_segs s))"

definition segs_dimension :: "segments \<Rightarrow> nat" where
  "segs_dimension s = ds_dimension (sg_data (hd (ss_segs s)))"

definition segs_row_count :: "segments \<Rightarrow> nat" where
  "segs_row_count s = last (ss_base s) + seg_row_count (active s)"

definition active_rows :: "segments \<Rightarrow> nat" where
  "active_rows s = seg_row_count (active s)"

definition bump_version :: "segments \<Rightarrow> nat \<times> segments" where
  "bump_version s = (Suc (ss_version s), s\<lparr>ss_version := Suc (ss_version s)\<rparr>)"

definition segment_ranges :: "segments \<Rightarrow> (nat \<times> nat) list" where
  "segment_ranges s = zip (ss_base s) (map (seg_row_count \<circ> sg_data) (ss_segs s))"

definition segment_names :: "segments \<Rightarrow> string list" where
  "segment_names s = map sg_name (ss_segs s)"

definition segment_names_match :: "string list \<Rightarrow> segments \<Rightarrow> bool" where
  "segment_names_match names s \<longleftrightarrow> length (ss_segs s) = length names \<and>
     list_all (\<lambda>(g, n). sg_name g = n) (zip (ss_segs s) names)"

text \<open>
  \<^verbatim>\<open>slice::binary_search\<close>: the position of a match, or where it would be inserted. The bases are
  strictly increasing, so the match is unique.
\<close>

definition binary_search :: "nat list \<Rightarrow> nat \<Rightarrow> nat + nat" where
  "binary_search xs x =
     (let i = length (takeWhile (\<lambda>y. y < x) xs) in
      if i < length xs \<and> xs ! i = x then Inr i else Inl i)"

definition segs_row :: "segments \<Rightarrow> nat \<Rightarrow> f32 list option" where
  "segs_row s global =
     (if length (ss_segs s) = 1 then seg_row (sg_data (hd (ss_segs s))) global
      else let i = (case binary_search (ss_base s) global of Inr i \<Rightarrow> i | Inl i \<Rightarrow> i - 1)
           in seg_row (sg_data (ss_segs s ! i)) (global - ss_base s ! i))"

text \<open>An operation of the active segment.\<close>

definition with_active :: "data_segment \<Rightarrow> segments \<Rightarrow> segments" where
  "with_active d s = s\<lparr>ss_segs := butlast (ss_segs s) @ [(last (ss_segs s))\<lparr>sg_data := d\<rparr>]\<rparr>"

definition on_active :: "(data_segment, 'a) act \<Rightarrow> (segments, 'a) act" where
  "on_active f s = (case f (active s) of (r, d) \<Rightarrow> (r, with_active d s))"

definition segs_append :: "f32 list \<Rightarrow> (segments, nat) act" where
  "segs_append vector s =
     (let base = last (ss_base s) in
      andThen (on_active (seg_append vector)) (\<lambda>local. ret (base + local)) s)"

definition segs_truncate_to :: "nat \<Rightarrow> (segments, unit) act" where
  "segs_truncate_to rows s =
     (let base = last (ss_base s) in
      if rows < base then (Inl (Segs (BelowActiveBase rows base)), s)
      else on_active (seg_truncate_to (rows - base)) s)"

definition segs_sync :: "(segments, unit) act" where
  "segs_sync = on_active seg_sync"

definition segs_vectors :: "segments \<Rightarrow> f32 list" where
  "segs_vectors s =
     (if length (ss_segs s) = 1 then seg_vectors (sg_data (hd (ss_segs s)))
      else concat (map (seg_vectors \<circ> sg_data) (ss_segs s)))"

text \<open>An operation on the shared persistence handle, which an in-memory set does not have.\<close>

definition on_fs :: "(local_fs, 'a) act \<Rightarrow> 'a \<Rightarrow> (segments, 'a) act" where
  "on_fs f absent s = (case ss_persistence s of
     None \<Rightarrow> (Inr absent, s)
   | Some p \<Rightarrow> (case f p of (r, p') \<Rightarrow> (r, s\<lparr>ss_persistence := Some p'\<rparr>)))"

definition fresh_segment :: "string \<Rightarrow> nat \<Rightarrow> distance \<Rightarrow> (segments, data_segment) act" where
  "fresh_segment name dimension d s = (case ss_persistence s of
     None \<Rightarrow> (Inr (seg_in_memory_with dimension d), s)
   | Some p \<Rightarrow>
       (case appender_for name p of
          (Inl e, p') \<Rightarrow> (Inl e, s\<lparr>ss_persistence := Some p'\<rparr>)
        | (Inr ap, p') \<Rightarrow>
            (case seg_open_with dimension d ap of
               (Inl e, _) \<Rightarrow> (Inl e, s\<lparr>ss_persistence := Some p'\<rparr>)
             | (Inr data, _) \<Rightarrow>
                 (case seg_sync data of
                    (Inl e, _) \<Rightarrow> (Inl e, s\<lparr>ss_persistence := Some p'\<rparr>)
                  | (Inr _, data') \<Rightarrow> (Inr data', s\<lparr>ss_persistence := Some p'\<rparr>)))))"

text \<open>Stamping the sidecar of the active segment, which a seal has just made immutable.\<close>

definition stamp_active :: "sidecar_codec \<Rightarrow> (segments, unit) act" where
  "stamp_active sc s = (case ss_persistence s of
     None \<Rightarrow> (Inr (), s)
   | Some _ \<Rightarrow>
       let dim = segs_dimension s; sealed_name = sg_name (last (ss_segs s)); rows = active_rows s;
           key = checksum_key sealed_name dim (ss_distance s)
       in andThen (on_active (checksum_compute (sc_crc sc) rows)) (\<lambda>c.
            on_fs (checksum_save (sc_u32 sc) (sc_crc sc) sealed_name key rows c) ()) s)"

definition segs_seal :: "sidecar_codec \<Rightarrow> (segments, bool) act" where
  "segs_seal sc s =
     (if active_rows s = 0 then (Inr False, s)
      else
        let new_base = segs_row_count s; name = ''seg-'' @ pad_nat 8 (ss_next_id s) in
        andThen (fresh_segment name (segs_dimension s) (ss_distance s)) (\<lambda>data.
        andThen (stamp_active sc) (\<lambda>_ t.
          (Inr True, t\<lparr>ss_next_id := Suc (ss_next_id t), ss_version := Suc (ss_version t),
             ss_base := ss_base t @ [new_base],
             ss_segs := ss_segs t @ [\<lparr>sg_name = name, sg_data = data\<rparr>]\<rparr>))) s)"

text \<open>An operation of the base segment.\<close>

definition on_base :: "(data_segment, 'a) act \<Rightarrow> (segments, 'a) act" where
  "on_base f s =
     (let g = hd (ss_segs s) in
      case f (sg_data g) of (r, d) \<Rightarrow> (r, s\<lparr>ss_segs := g\<lparr>sg_data := d\<rparr> # tl (ss_segs s)\<rparr>))"

definition set_base_segment :: "data_segment \<Rightarrow> (segments, unit) act" where
  "set_base_segment d s =
     (Inr (), s\<lparr>ss_segs := \<lparr>sg_name = BASE_SEGMENT, sg_data = d\<rparr> # tl (ss_segs s)\<rparr>)"

definition rewrite_base :: "f32 list \<Rightarrow> (segments, unit) act" where
  "rewrite_base rows s =
     (if seg_is_mmap (sg_data (hd (ss_segs s))) then
        (case ss_persistence s of
           None \<Rightarrow> (Inl (Segs NoSegments), s)
         | Some p \<Rightarrow>
             (case appender_for BASE_SEGMENT p of
                (Inl e, p') \<Rightarrow> (Inl e, s\<lparr>ss_persistence := Some p'\<rparr>)
              | (Inr ap, p') \<Rightarrow>
                  (case seg_rewrite rows (seg_rewrite_target ap (segs_dimension s) (ss_distance s)) of
                     (Inl e, _) \<Rightarrow> (Inl e, s\<lparr>ss_persistence := Some p'\<rparr>)
                   | (Inr _, data) \<Rightarrow> set_base_segment data (s\<lparr>ss_persistence := Some p'\<rparr>))))
      else andThen (on_base (seg_rewrite rows)) (\<lambda>_ t. set_base_segment (sg_data (hd (ss_segs t))) t) s)"

definition stamp_base :: "sidecar_codec \<Rightarrow> string list \<Rightarrow> (segments, unit) act" where
  "stamp_base sc dropped s = (case ss_persistence s of
     None \<Rightarrow> (Inr (), s)
   | Some _ \<Rightarrow>
       let dim = segs_dimension s; rows = seg_row_count (sg_data (hd (ss_segs s)));
           key = checksum_key BASE_SEGMENT dim (ss_distance s)
       in andThen (on_base (checksum_compute (sc_crc sc) rows)) (\<lambda>c.
          andThen (on_fs (checksum_save (sc_u32 sc) (sc_crc sc) BASE_SEGMENT key rows c) ()) (\<lambda>_.
            for_each (\<lambda>name. on_fs (fs_delete (crc_object_name name)) ()) dropped)) s)"

definition segs_rewrite :: "sidecar_codec \<Rightarrow> f32 list \<Rightarrow> (segments, string list) act" where
  "segs_rewrite sc rows s =
     (let dropped = map sg_name (tl (ss_segs s)) in
      andThen (rewrite_base rows) (\<lambda>_.
      andThen (stamp_base sc dropped) (\<lambda>_ t.
        (Inr dropped, t\<lparr>ss_segs := take 1 (ss_segs t), ss_base := [0],
           ss_version := Suc (ss_version t)\<rparr>))) s)"

text \<open>
  The staged re-read of the active segment by a reader, and its installation.
\<close>

definition reopen_active :: "nat option \<Rightarrow> (segments, pending_active) act" where
  "reopen_active cap s = (case ss_persistence s of
     None \<Rightarrow> (Inl (Segs NoSegments), s)
   | Some p \<Rightarrow>
       (case appender_for (sg_name (last (ss_segs s))) p of
          (Inl e, p') \<Rightarrow> (Inl e, s\<lparr>ss_persistence := Some p'\<rparr>)
        | (Inr ap, p') \<Rightarrow>
            let t = s\<lparr>ss_persistence := Some p'\<rparr> in
            (case seg_open_with (segs_dimension s) (ss_distance s) ap of
               (Inl e, _) \<Rightarrow> (Inl e, t)
             | (Inr data, _) \<Rightarrow>
                 let row_count = last (ss_base s) + seg_row_count data;
                     bytes = u64_sat_mul (u64_sat_mul row_count (segs_dimension s)) 4
                 in case cap of
                      None \<Rightarrow> (Inr \<lparr>pa_data = data, pa_row_count = row_count\<rparr>, t)
                    | Some c \<Rightarrow>
                        if bytes > c then (Inl (Segs (CapExceeded bytes c)), t)
                        else (Inr \<lparr>pa_data = data, pa_row_count = row_count\<rparr>, t))))"

definition install_active :: "pending_active \<Rightarrow> nat \<Rightarrow> segments \<Rightarrow> segments" where
  "install_active pending version s =
     (with_active (pa_data pending) s)\<lparr>ss_version := version\<rparr>"

text \<open>Verifying every sidecar, in segment order.\<close>

fun verify_loop ::
  "sidecar_codec \<Rightarrow> nat \<Rightarrow> distance \<Rightarrow> seg list \<Rightarrow> (seg list \<times> local_fs, segment_integrity list) act" where
  "verify_loop sc dim d [] (done_segs, p) = (Inr [], (done_segs, p))"
| "verify_loop sc dim d (g # gs) (done_segs, p) =
     (case checksum_verify (sc_u32 sc) (sc_crc sc) (sg_name g) (checksum_key (sg_name g) dim d) (sg_data g, p) of
        (Inl e, (data, p')) \<Rightarrow> (Inl e, (done_segs @ g\<lparr>sg_data := data\<rparr> # gs, p'))
      | (Inr r, (data, p')) \<Rightarrow>
          (case verify_loop sc dim d gs (done_segs @ [g\<lparr>sg_data := data\<rparr>], p') of
             (Inl e, t) \<Rightarrow> (Inl e, t)
           | (Inr rs, t) \<Rightarrow> (Inr (r # rs), t)))"

definition verify_checksums :: "sidecar_codec \<Rightarrow> (segments, segment_integrity list) act" where
  "verify_checksums sc s = (case ss_persistence s of
     None \<Rightarrow> (Inr (map (\<lambda>g. NoChecksum (seg_row_count (sg_data g))) (ss_segs s)), s)
   | Some p \<Rightarrow>
       (case verify_loop sc (segs_dimension s) (ss_distance s) (ss_segs s) ([], p) of
          (r, (gs, p')) \<Rightarrow> (r, s\<lparr>ss_segs := gs, ss_persistence := Some p'\<rparr>)))"

definition segs_manifest :: "open_profile \<Rightarrow> segments \<Rightarrow> manifest" where
  "segs_manifest profile s =
     manifest_new (segs_dimension s) (ss_distance s) (segment_names s) (ss_next_id s) (ss_version s) profile"

section \<open>The segment set is a row matrix\<close>

abbreviation rows_in :: "seg \<Rightarrow> nat" where
  "rows_in g \<equiv> seg_row_count (sg_data g)"

definition bases_of :: "seg list \<Rightarrow> nat list" where
  "bases_of gs = map (\<lambda>i. sum_list (map rows_in (take i gs))) [0..<length gs]"

definition segs_rows :: "segments \<Rightarrow> f32 list list" where
  "segs_rows s = concat (map (\<lambda>g. seg_rows (sg_data g)) (ss_segs s))"

text \<open>
  The bases are the running row counts, every segment is well formed at the shared dimension,
  the active one is writable, and no other one is empty.
\<close>

definition segs_inv :: "segments \<Rightarrow> bool" where
  "segs_inv s \<longleftrightarrow> ss_segs s \<noteq> [] \<and> ss_base s = bases_of (ss_segs s) \<and>
     (\<forall>g \<in> set (ss_segs s). seg_wf (sg_data g) \<and> ds_dimension (sg_data g) = segs_dimension s) \<and>
     seg_live (active s) \<and> (\<forall>g \<in> set (butlast (ss_segs s)). 0 < rows_in g)"

text \<open>A failing or succeeding run of appends touches the active segment only.\<close>

definition segs_ext :: "segments \<Rightarrow> segments \<Rightarrow> bool" where
  "segs_ext s t \<longleftrightarrow> (\<exists>d. seg_extends (active s) d \<and> t = with_active d s)"

lemma with_active_simps [simp]:
  "active (with_active d s) = d" "with_active e (with_active d s) = with_active e s"
  "ss_base (with_active d s) = ss_base s" "ss_persistence (with_active d s) = ss_persistence s"
  "ss_distance (with_active d s) = ss_distance s" "ss_next_id (with_active d s) = ss_next_id s"
  "ss_version (with_active d s) = ss_version s"
  by (simp_all add: with_active_def active_def)

lemma with_active_self: "ss_segs s \<noteq> [] \<Longrightarrow> with_active (active s) s = s"
  by (simp add: with_active_def active_def)

lemma length_bases_of [simp]: "length (bases_of gs) = length gs"
  by (simp add: bases_of_def)

lemma bases_of_nth: "i < length gs \<Longrightarrow> bases_of gs ! i = sum_list (map rows_in (take i gs))"
  by (simp add: bases_of_def)

lemma bases_of_snoc: "bases_of (gs @ [g]) = bases_of gs @ [sum_list (map rows_in gs)]"
  by (simp add: bases_of_def)

lemma bases_of_butlast: "bases_of (gs @ [g]) = bases_of (gs @ [h])"
  by (simp add: bases_of_snoc)

lemma length_concat_rows: "length (concat (map (\<lambda>g. seg_rows (sg_data g)) gs)) = sum_list (map rows_in gs)"
  by (simp add: length_concat comp_def)

lemma segs_split:
  assumes "segs_inv s"
  obtains gs g where "ss_segs s = gs @ [g]" "active s = sg_data g" "last (ss_base s) = sum_list (map rows_in gs)"
proof -
  from assms obtain gs g where "ss_segs s = gs @ [g]"
    by (cases "ss_segs s" rule: rev_cases) (auto simp: segs_inv_def)
  then show ?thesis using that assms by (simp add: active_def segs_inv_def bases_of_snoc)
qed

lemma segs_count: "segs_inv s \<Longrightarrow> segs_row_count s = length (segs_rows s)"
  by (erule segs_split) (simp add: segs_row_count_def segs_rows_def length_concat comp_def)

text \<open>Finding the segment that owns a row.\<close>

lemma concat_nth_base:
  assumes "i < length gs" "bases_of gs ! i \<le> k" "k < bases_of gs ! i + rows_in (gs ! i)"
  shows "concat (map (\<lambda>g. seg_rows (sg_data g)) gs) ! k = seg_rows (sg_data (gs ! i)) ! (k - bases_of gs ! i)"
proof -
  let ?r = "\<lambda>g. seg_rows (sg_data g)"
  have gs: "gs = take i gs @ gs ! i # drop (Suc i) gs" using assms(1) by (rule id_take_nth_drop)
  have b: "bases_of gs ! i = length (concat (map ?r (take i gs)))"
    using assms(1) by (simp add: bases_of_nth length_concat comp_def)
  have mid: "(xs @ ys @ zs) ! k = ys ! (k - length xs)"
    if "length xs \<le> k" "k < length xs + length ys" for xs ys zs :: "f32 list list"
    using that less_diff_conv2[of "length xs" k "length ys"] by (simp add: nth_append add.commute)
  have eq: "concat (map ?r gs) = concat (map ?r (take i gs)) @ ?r (gs ! i) @ concat (map ?r (drop (Suc i) gs))"
    by (subst gs) simp
  show ?thesis unfolding eq b by (rule mid) (use assms(2,3) b in \<open>simp_all only: length_seg_rows\<close>)
qed

lemma bases_of_Suc: "Suc i < length gs \<Longrightarrow> bases_of gs ! Suc i = bases_of gs ! i + rows_in (gs ! i)"
  by (simp add: bases_of_nth take_Suc_conv_app_nth)

lemma bases_of_strict:
  assumes "\<forall>g \<in> set (butlast gs). 0 < rows_in g" "i < j" "j < length gs"
  shows "bases_of gs ! i < bases_of gs ! j"
  using assms(2,3)
proof (induction j)
  case (Suc j)
  have j: "j < length (butlast gs)" using Suc.prems(2) by simp
  have "gs ! j \<in> set (butlast gs)" using nth_mem[OF j] nth_butlast[OF j] by simp
  then have "0 < rows_in (gs ! j)" using assms(1) by blast
  then have "bases_of gs ! j < bases_of gs ! Suc j" using bases_of_Suc[OF Suc.prems(2)] by simp
  then show ?case using Suc by (cases "i = j") auto
qed simp

lemma binary_search_owner:
  assumes "xs \<noteq> []" "hd xs \<le> x" and strict: "\<And>i j. i < j \<Longrightarrow> j < length xs \<Longrightarrow> xs ! i < xs ! j"
  defines "k \<equiv> (case binary_search xs x of Inr i \<Rightarrow> i | Inl i \<Rightarrow> i - 1)"
  shows "k < length xs \<and> xs ! k \<le> x \<and> (Suc k < length xs \<longrightarrow> x < xs ! Suc k)"
proof -
  let ?i = "length (takeWhile (\<lambda>y. y < x) xs)"
  have le: "?i \<le> length xs" by (rule length_takeWhile_le)
  have lt: "xs ! j < x" if "j < ?i" for j
    using that set_takeWhileD[of _ "\<lambda>y. y < x" xs] by (metis nth_mem takeWhile_nth)
  have ge: "x \<le> xs ! ?i" if "?i < length xs" using nth_length_takeWhile[OF that] by simp
  show ?thesis
  proof (cases "?i < length xs \<and> xs ! ?i = x")
    case True
    then have "k = ?i" by (simp add: k_def binary_search_def)
    then show ?thesis using True strict[of ?i "Suc ?i"] by auto
  next
    case False
    then have k: "k = ?i - 1" by (auto simp: k_def binary_search_def Let_def)
    have pos: "0 < ?i"
    proof (rule ccontr)
      assume "\<not> 0 < ?i"
      then have "?i = 0" by simp
      then have "x \<le> hd xs" using ge assms(1) by (cases xs) auto
      then show False using False assms(1,2) \<open>?i = 0\<close> by (cases xs) auto
    qed
    then have "xs ! k < x" "Suc k = ?i" using lt[of k] k by auto
    then show ?thesis using le ge False by fastforce
  qed
qed

lemma segs_row_nth:
  assumes "segs_inv s"
  shows "segs_row s k = (if k < length (segs_rows s) then Some (segs_rows s ! k) else None)"
proof -
  let ?gs = "ss_segs s" and ?b = "bases_of (ss_segs s)"
  have b: "ss_base s = ?b" and ne: "?gs \<noteq> []" and wf: "\<And>g. g \<in> set ?gs \<Longrightarrow> seg_wf (sg_data g)"
    using assms by (auto simp: segs_inv_def)
  show ?thesis
  proof (cases "length ?gs = 1")
    case True
    then obtain g where "?gs = [g]" by (cases ?gs) auto
    then show ?thesis using wf[of g] seg_row_nth[of "sg_data g" k] by (simp add: segs_row_def segs_rows_def)
  next
    case False
    let ?i = "case binary_search ?b k of Inr i \<Rightarrow> i | Inl i \<Rightarrow> i - 1"
    have hd0: "hd ?b = 0" using ne by (cases ?gs) (simp_all add: bases_of_def upt_conv_Cons del: upt_Suc)
    have bne: "?b \<noteq> []" using ne length_bases_of[of ?gs] by (metis list.size(3) length_0_conv)
    have o: "?i < length ?gs" "?b ! ?i \<le> k" "Suc ?i < length ?gs \<longrightarrow> k < ?b ! Suc ?i"
      using binary_search_owner[of ?b k] bases_of_strict[of ?gs] bne hd0 assms by (auto simp: segs_inv_def)
    have r: "segs_row s k = (if k - ?b ! ?i < rows_in (?gs ! ?i)
        then Some (seg_rows (sg_data (?gs ! ?i)) ! (k - ?b ! ?i)) else None)"
      using False b seg_row_nth[OF wf[of "?gs ! ?i"]] o(1) by (simp add: segs_row_def Let_def)
    show ?thesis
    proof (cases "Suc ?i < length ?gs")
      case True
      then have in_i: "k < ?b ! ?i + rows_in (?gs ! ?i)" using o bases_of_Suc[OF True] by simp
      have "k < length (segs_rows s)"
      proof -
        have "?b ! Suc ?i \<le> sum_list (map rows_in (take (Suc ?i) ?gs)) + sum_list (map rows_in (drop (Suc ?i) ?gs))"
          using True by (simp add: bases_of_nth)
        also have "\<dots> = sum_list (map rows_in ?gs)"
          by (simp only: map_append[symmetric] sum_list_append[symmetric] append_take_drop_id)
        finally show ?thesis using True o(3) by (simp add: segs_rows_def length_concat comp_def)
      qed
      then show ?thesis using r in_i o concat_nth_base[OF o(1,2) in_i] by (simp add: segs_rows_def less_diff_conv2)
    next
      case False
      then have i: "Suc ?i = length ?gs" using o(1) by simp
      have "take (Suc ?i) ?gs = take ?i ?gs @ [?gs ! ?i]" by (rule take_Suc_conv_app_nth[OF o(1)])
      then have "sum_list (map rows_in (take (Suc ?i) ?gs)) = ?b ! ?i + rows_in (?gs ! ?i)"
        by (simp only: bases_of_nth[OF o(1)] map_append sum_list_append list.map sum_list.Cons sum_list.Nil add_0_right)
      then have "sum_list (map rows_in ?gs) = ?b ! ?i + rows_in (?gs ! ?i)"
        by (simp only: i take_all[OF order_refl])
      then have len: "length (segs_rows s) = ?b ! ?i + rows_in (?gs ! ?i)"
        by (simp add: segs_rows_def length_concat comp_def)
      then show ?thesis using r o concat_nth_base[OF o(1,2)] by (auto simp: segs_rows_def less_diff_conv2)
    qed
  qed
qed

lemma with_active_dimension:
  assumes "segs_inv s" and "ds_dimension d = ds_dimension (active s)"
  shows "segs_dimension (with_active d s) = segs_dimension s"
proof -
  from assms(1) obtain gs g where gs: "ss_segs s = gs @ [g]" "active s = sg_data g"
    by (rule segs_split)
  show ?thesis using assms gs by (cases gs) (simp_all add: with_active_def segs_dimension_def)
qed

lemma segs_inv_with_active:
  assumes "segs_inv s" and "seg_live d" and "ds_dimension d = ds_dimension (active s)"
  shows "segs_inv (with_active d s)"
proof -
  from assms(1) obtain gs g where gs: "ss_segs s = gs @ [g]" "active s = sg_data g"
    by (rule segs_split)
  have dim: "ds_dimension d = segs_dimension s" using assms gs by (auto simp: segs_inv_def)
  have segs: "ss_segs (with_active d s) = gs @ [g\<lparr>sg_data := d\<rparr>]" using gs by (simp add: with_active_def)
  have wf: "\<forall>h \<in> set gs. seg_wf (sg_data h) \<and> ds_dimension (sg_data h) = segs_dimension s \<and> 0 < rows_in h"
    using assms(1) gs by (auto simp: segs_inv_def)
  have base: "ss_base s = bases_of (gs @ [g\<lparr>sg_data := d\<rparr>])"
    using assms(1) gs bases_of_butlast[of gs g] by (auto simp: segs_inv_def)
  show ?thesis
    unfolding segs_inv_def segs with_active_dimension[OF assms(1,3)] with_active_simps
    using wf base dim assms(2) by (auto simp: seg_live_def seg_inv_def)
qed

lemma segs_rows_with_active:
  assumes "segs_inv s"
  shows "segs_rows (with_active d s) = take (last (ss_base s)) (segs_rows s) @ seg_rows d"
    "segs_rows s = take (last (ss_base s)) (segs_rows s) @ seg_rows (active s)"
    "last (ss_base s) \<le> length (segs_rows s)"
proof -
  from assms obtain gs g where gs: "ss_segs s = gs @ [g]" "active s = sg_data g"
    "last (ss_base s) = sum_list (map rows_in gs)" by (rule segs_split)
  have "length (concat (map (\<lambda>g. seg_rows (sg_data g)) gs)) = last (ss_base s)"
    using gs(3) by (simp add: length_concat comp_def)
  then show "segs_rows (with_active d s) = take (last (ss_base s)) (segs_rows s) @ seg_rows d"
    "segs_rows s = take (last (ss_base s)) (segs_rows s) @ seg_rows (active s)"
    "last (ss_base s) \<le> length (segs_rows s)"
    using gs(1,2) by (simp_all add: segs_rows_def with_active_def)
qed

lemma on_active_result:
  assumes "on_active f s = (r, t)"
  obtains d where "f (active s) = (r, d)" "t = with_active d s"
  using assms by (auto simp: on_active_def split: prod.splits)

lemma segs_append_result:
  assumes "segs_append v s = (r, t)"
  obtains q d where "seg_append v (active s) = (q, d)" "t = with_active d s"
    "r = map_sum id ((+) (last (ss_base s))) q"
proof -
  obtain q u where u: "on_active (seg_append v) s = (q, u)" by fastforce
  from u obtain d where d: "seg_append v (active s) = (q, d)" "u = with_active d s"
    by (rule on_active_result)
  have "t = u \<and> r = map_sum id ((+) (last (ss_base s))) q"
    using assms u by (cases q) (auto simp: segs_append_def)
  then show ?thesis using that d by blast
qed

lemma segs_append_ok:
  assumes "segs_inv s" "segs_append v s = (Inr i, t)"
  shows "segs_inv t \<and> i = length (segs_rows s) \<and> segs_rows t = segs_rows s @ [v]"
proof -
  from assms(2) obtain q d where q: "seg_append v (active s) = (q, d)" "t = with_active d s"
    "Inr i = map_sum id ((+) (last (ss_base s))) q"
    by (rule segs_append_result)
  then obtain j where j: "q = Inr j" "i = last (ss_base s) + j" by (cases q) auto
  have live: "seg_live (active s)" using assms(1) by (simp add: segs_inv_def)
  have ap: "seg_append v (active s) = (Inr j, d)" using q(1) j(1) by simp
  note a = seg_rows_append[OF live ap]
  note r = segs_rows_with_active[OF assms(1)]
  have "segs_inv t" unfolding q(2) using a by (intro segs_inv_with_active[OF assms(1)]) auto
  moreover have "segs_rows t = segs_rows s @ [v]"
    using a r(1)[of d] r(2) q(2) by (metis append_assoc)
  moreover have "length (segs_rows s) = last (ss_base s) + seg_row_count (active s)"
    using arg_cong[OF r(2), of length] r(3) by simp
  ultimately show ?thesis using a j(2) by simp
qed

interpretation segs_matrix: row_matrix segs_inv segs_ext segs_rows segs_row_count segs_row segs_append segs_truncate_to
proof unfold_locales
  fix s t u :: segments and v i
  show "segs_inv s \<Longrightarrow> segs_row_count s = length (segs_rows s)" by (rule segs_count)
  show "segs_inv s \<Longrightarrow> segs_row s i = (if i < length (segs_rows s) then Some (segs_rows s ! i) else None)"
    by (rule segs_row_nth)
  show "segs_inv s \<Longrightarrow> segs_append v s = (Inr i, t) \<Longrightarrow>
      segs_inv t \<and> i = length (segs_rows s) \<and> segs_rows t = segs_rows s @ [v]" by (rule segs_append_ok)
  assume inv: "segs_inv s"
  have "seg_extends (active s) (active s)"
    using inv by (intro seg_matrix.ext_refl) (simp add: segs_inv_def)
  moreover have "with_active (active s) s = s" using inv by (simp add: with_active_self segs_inv_def)
  ultimately show "segs_ext s s" by (metis segs_ext_def)
next
  fix s t u :: segments and v and r :: "nidus_error + nat"
  assume a: "segs_inv s" "segs_ext s t" "segs_append v t = (r, u)"
  from a(2) obtain e where e: "seg_extends (active s) e" "t = with_active e s" by (auto simp: segs_ext_def)
  from a(3) obtain q d where q: "seg_append v (active t) = (q, d)" "u = with_active d t"
    by (rule segs_append_result)
  have "seg_live (active s)" using a(1) by (simp add: segs_inv_def)
  then have "seg_extends (active s) d" using q(1) e by (intro seg_matrix.append_ext[of "active s" e v q d]) simp_all
  then show "segs_ext s u" using q(2) e(2) by (auto simp: segs_ext_def)
next
  fix s t u :: segments
  assume a: "segs_inv s" "segs_ext s t" "segs_truncate_to (length (segs_rows s)) t = (Inr (), u)"
  from a(2) obtain e where e: "seg_extends (active s) e" "t = with_active e s" by (auto simp: segs_ext_def)
  note r = segs_rows_with_active[OF a(1)]
  have live: "seg_live (active s)" using a(1) by (simp add: segs_inv_def)
  have len: "length (segs_rows s) - last (ss_base s) = length (seg_rows (active s))"
    using arg_cong[OF r(2), of length] r(3) by simp
  have "on_active (seg_truncate_to (length (seg_rows (active s)))) t = (Inr (), u)"
    using a(3) len e(2) r(3) by (simp add: segs_truncate_to_def Let_def)
  then obtain d where d: "seg_truncate_to (length (seg_rows (active s))) (active t) = (Inr (), d)"
    "u = with_active d t" by (rule on_active_result)
  have k: "seg_live d \<and> seg_rows d = seg_rows (active s)"
    using d(1) e by (intro seg_matrix.truncate_ok[OF live e(1)]) simp
  have dim: "ds_dimension d = ds_dimension (active s)"
    using seg_truncate_dim[OF d(1)] e by (simp add: seg_extends_def)
  have u: "u = with_active d s" using d(2) e(2) by simp
  show "segs_inv u \<and> segs_rows u = segs_rows s"
    unfolding u using k dim segs_inv_with_active[OF a(1)] r(1)[of d] r(2) by metis
qed

section \<open>Sealing\<close>

lemma hash_rows_keeps: "hash_rows offset remaining fed ap = (r, ap') \<Longrightarrow> ap_bytes ap' = ap_bytes ap"
proof (induction offset remaining fed ap rule: hash_rows.induct)
  case (1 offset remaining fed ap)
  obtain x bp where rd: "ap_read_exact_at offset (min remaining 8192) ap = (x, bp)" by fastforce
  note k = ap_stream.read_keeps[OF rd]
  show ?case
  proof (cases "remaining > 0")
    case True
    then show ?thesis using "1.prems" rd k "1.IH"[OF True refl rd[symmetric]]
      by (subst (asm) (1) hash_rows.simps) (cases x; simp add: Let_def)
  next
    case False
    then show ?thesis using "1.prems" by (subst (asm) (1) hash_rows.simps) simp
  qed
qed

text \<open>Operations that leave a segment's contents alone, whatever the appender did.\<close>

definition seg_same :: "data_segment \<Rightarrow> data_segment \<Rightarrow> bool" where
  "seg_same d e \<longleftrightarrow> ds_dimension e = ds_dimension d \<and> ds_distance e = ds_distance d \<and>
     ds_backing e = ds_backing d \<and>
     map_option ap_bytes (ds_appender e) = map_option ap_bytes (ds_appender d)"

lemma seg_same_refl [simp]: "seg_same d d"
  by (simp add: seg_same_def)

lemma seg_same_live:
  assumes "seg_same d e"
  shows "seg_live e = seg_live d" "seg_rows e = seg_rows d" "seg_row_count e = seg_row_count d"
    "ds_dimension e = ds_dimension d"
proof -
  have b: "ds_dimension e = ds_dimension d" "ds_backing e = ds_backing d" "ds_distance e = ds_distance d"
    "map_option ap_bytes (ds_appender e) = map_option ap_bytes (ds_appender d)"
    using assms by (simp_all add: seg_same_def)
  have wf: "seg_wf e = seg_wf d" by (simp only: seg_wf_def b)
  have im: "seg_image e v = seg_image d v" for v by (simp only: seg_image_def b)
  have "(\<forall>ap. ds_appender e = Some ap \<longrightarrow> (\<exists>v. ds_backing e = Ram v \<and> ap_bytes ap = seg_image e v)) \<longleftrightarrow>
      (\<forall>ap. ds_appender d = Some ap \<longrightarrow> (\<exists>v. ds_backing d = Ram v \<and> ap_bytes ap = seg_image d v))"
    using b(4) unfolding b(2) im by (cases "ds_appender e"; cases "ds_appender d") auto
  then show "seg_live e = seg_live d" by (simp add: seg_live_def seg_inv_def wf seg_is_mmap_def b)
  show c: "seg_row_count e = seg_row_count d" by (simp only: seg_row_count_def b)
  show "seg_rows e = seg_rows d" by (simp only: seg_rows_def seg_vectors_def b c)
  show "ds_dimension e = ds_dimension d" by (rule b)
qed

lemma checksum_compute_same: "checksum_compute h n d = (r, e) \<Longrightarrow> seg_same d e"
  by (auto simp: checksum_compute_def seg_same_def Let_def dest!: hash_rows_keeps
      split: backing.splits if_splits option.splits prod.splits sum.splits)

lemma seg_sync_same: "seg_sync d = (r, e) \<Longrightarrow> seg_same d e"
  by (auto simp: seg_sync_def seg_same_def dest!: on_appender_result ap_stream.sync_keeps)

lemma segs_inv_same:
  assumes "segs_inv s" "seg_same (active s) d"
  shows "segs_inv (with_active d s) \<and> segs_rows (with_active d s) = segs_rows s"
  using segs_inv_with_active[OF assms(1), of d] segs_rows_with_active[OF assms(1)]
    seg_same_live[OF assms(2)] assms(1) by (metis segs_inv_def)

lemma seg_extends_same: "seg_extends s t \<Longrightarrow> seg_same t u \<Longrightarrow> seg_extends s u"
  by (auto simp: seg_extends_def seg_same_def split: option.splits)

lemma segs_sync_result:
  assumes "segs_sync s = (r, t)"
  obtains d where "seg_sync (active s) = (r, d)" "t = with_active d s" "seg_same (active s) d"
proof -
  from assms obtain d where d: "seg_sync (active s) = (r, d)" "t = with_active d s"
    unfolding segs_sync_def by (rule on_active_result)
  then show ?thesis using that seg_sync_same by blast
qed

interpretation segs_durable: durable_matrix segs_inv segs_ext segs_rows segs_row_count segs_row segs_append
  segs_truncate_to segs_sync
proof unfold_locales
  fix s t u :: segments and q
  show "segs_inv s \<Longrightarrow> segs_sync s = (q, t) \<Longrightarrow> segs_inv t \<and> segs_rows t = segs_rows s"
    by (elim segs_sync_result) (simp add: segs_inv_same)
  assume "segs_ext s t" "segs_sync t = (q, u)"
  then obtain e d where e: "seg_extends (active s) e" "t = with_active e s"
    "u = with_active d t" "seg_same (active t) d" by (auto simp: segs_ext_def elim: segs_sync_result)
  then have "seg_extends (active s) d" using seg_extends_same by simp
  then show "segs_ext s u" using e by (auto simp: segs_ext_def)
qed

text \<open>The persistence handle plays no part in the rows.\<close>

lemma persistence_irrelevant [simp]:
  "segs_inv (s\<lparr>ss_persistence := p\<rparr>) = segs_inv s" "segs_rows (s\<lparr>ss_persistence := p\<rparr>) = segs_rows s"
  "active (s\<lparr>ss_persistence := p\<rparr>) = active s" "segs_dimension (s\<lparr>ss_persistence := p\<rparr>) = segs_dimension s"
  "with_active d (s\<lparr>ss_persistence := p\<rparr>) = (with_active d s)\<lparr>ss_persistence := p\<rparr>"
  by (simp_all add: segs_inv_def segs_rows_def active_def segs_dimension_def with_active_def)

lemma persistence_self [simp]: "\<exists>q. s = s\<lparr>ss_persistence := q\<rparr>"
  by (rule exI[of _ "ss_persistence s"]) simp

lemma with_active_names:
  assumes "ss_segs s \<noteq> []"
  shows "map sg_name (ss_segs (with_active d s)) = map sg_name (ss_segs s)"
    "length (ss_segs (with_active d s)) = length (ss_segs s)"
proof -
  obtain gs g where "ss_segs s = gs @ [g]" using assms by (cases "ss_segs s" rule: rev_cases) auto
  then show "map sg_name (ss_segs (with_active d s)) = map sg_name (ss_segs s)"
    "length (ss_segs (with_active d s)) = length (ss_segs s)" by (simp_all add: with_active_def)
qed

text \<open>Starting a fresh segment after a non-empty active one.\<close>

definition push_segment :: "seg \<Rightarrow> segments \<Rightarrow> segments" where
  "push_segment g s = s\<lparr>ss_next_id := Suc (ss_next_id s), ss_version := Suc (ss_version s),
     ss_base := ss_base s @ [segs_row_count s], ss_segs := ss_segs s @ [g]\<rparr>"

lemma push_segment_inv:
  assumes "segs_inv s" and "active_rows s \<noteq> 0" and "seg_live (sg_data g)" and "rows_in g = 0"
    and "ds_dimension (sg_data g) = segs_dimension s"
  shows "segs_inv (push_segment g s) \<and> segs_rows (push_segment g s) = segs_rows s \<and>
    active_rows (push_segment g s) = 0"
proof -
  from assms(1) obtain gs h where gs: "ss_segs s = gs @ [h]" "active s = sg_data h"
    "last (ss_base s) = sum_list (map rows_in gs)" by (rule segs_split)
  have base: "ss_base s = bases_of (gs @ [h])" and wf: "\<forall>k \<in> set (gs @ [h]). seg_wf (sg_data k) \<and>
      ds_dimension (sg_data k) = segs_dimension s" and pos: "\<forall>k \<in> set gs. 0 < rows_in k"
    using assms(1) gs(1) by (auto simp: segs_inv_def)
  have count: "segs_row_count s = sum_list (map rows_in (gs @ [h]))"
    using gs by (simp add: segs_row_count_def)
  have dim: "segs_dimension (push_segment g s) = segs_dimension s"
    using gs(1) by (cases gs) (simp_all add: segs_dimension_def push_segment_def)
  have "segs_rows (push_segment g s) = segs_rows s"
    using assms(4) by (simp add: segs_rows_def push_segment_def seg_rows_def)
  moreover have "active (push_segment g s) = sg_data g" by (simp add: push_segment_def active_def)
  moreover have "ss_segs (push_segment g s) = (gs @ [h]) @ [g]" using gs(1) by (simp add: push_segment_def)
  moreover have "ss_base (push_segment g s) = bases_of (gs @ [h]) @ [segs_row_count s]"
    using base by (simp add: push_segment_def)
  then have "ss_base (push_segment g s) = bases_of ((gs @ [h]) @ [g])"
    by (simp only: bases_of_snoc[of "gs @ [h]" g] count)
  ultimately show ?thesis
    using wf pos assms gs(2) dim
    by (auto simp: segs_inv_def active_rows_def seg_live_def seg_inv_def butlast_append)
qed

lemma fs_appender_fresh:
  assumes "appender_for name p = (Inr ap, q)" and "fs_obj p name = None"
  shows "ap_bytes ap = []"
proof -
  obtain x p1 where 1: "fs_checked p = (x, p1)" by fastforce
  note k = fs_checked_keeps[OF 1]
  obtain u where x: "x = Inr u" and v: "validate_key name = Inr ()"
    using assms(1) 1 by (cases x; cases "validate_key name")
      (simp_all add: appender_for_def fs_appender_def object_path_def)
  then show ?thesis
    using assms 1 k by (auto simp: appender_for_def fs_appender_def object_path_def Let_def andThen_Inr_iff)
qed

lemma seg_open_with_empty:
  assumes "seg_open_with dim d ap = (Inr e, bp)" and "ap_bytes ap = []" and "0 < dim" "dim < 2 ^ 32"
  shows "seg_live e \<and> seg_row_count e = 0 \<and> ds_dimension e = dim \<and> ds_distance e = d"
proof -
  obtain n a1 where l: "ap_len ap = (Inr n, a1)"
    using assms(1) by (cases "ap_len ap"; cases "fst (ap_len ap)") (simp_all add: seg_open_with_def)
  have n: "n = 0" "ap_bytes a1 = []" using ap_stream.len_ok[OF l] ap_stream.len_keeps[OF l] assms(2) by simp_all
  obtain a2 where a: "ap_append (encode_header dim d) a1 = (Inr (), a2)"
    and e: "e = \<lparr>ds_dimension = dim, ds_distance = d, ds_backing = Ram [], ds_appender = Some a2\<rparr>"
    using assms(1) l n(1) by (auto simp: seg_open_with_def andThen_Inr_iff)
  have "ap_bytes a2 = encode_header dim d" using ap_stream.append_ok[OF a] n(2) by simp
  then show ?thesis using e assms(3,4)
    by (simp add: seg_live_def seg_inv_def seg_wf_def seg_image_def seg_is_mmap_def seg_row_count_def)
qed

lemma fresh_segment_result:
  assumes "segs_inv s" and "fresh_segment name (segs_dimension s) d s = (r, t)"
    and "\<And>p. ss_persistence s = Some p \<Longrightarrow> fs_obj p name = None"
  shows "(\<exists>q. t = s\<lparr>ss_persistence := q\<rparr>) \<and>
    (\<forall>e. r = Inr e \<longrightarrow> seg_live e \<and> seg_row_count e = 0 \<and> ds_dimension e = segs_dimension s)"
proof -
  have dim: "0 < segs_dimension s" "segs_dimension s < 2 ^ 32"
    using assms(1) unfolding segs_inv_def segs_dimension_def
    by (metis list.set_sel(1) seg_wf_def)+
  have keep: "s = s\<lparr>ss_persistence := ss_persistence s\<rparr>" by simp
  show ?thesis
  proof (cases "ss_persistence s")
    case None
    have "r = Inr (seg_in_memory_with (segs_dimension s) d)" "t = s"
      using assms(2) None by (auto simp: fresh_segment_def)
    then show ?thesis using dim keep
      by (auto simp: seg_in_memory_with_def seg_live_def seg_inv_def seg_wf_def
          seg_is_mmap_def seg_row_count_def)
  next
    case (Some p)
    obtain x p' where ap: "appender_for name p = (x, p')" by fastforce
    show ?thesis
    proof (cases x)
      case (Inl e)
      then show ?thesis using assms(2) Some ap by (auto simp: fresh_segment_def)
    next
      case (Inr a)
      have a0: "ap_bytes a = []" using fs_appender_fresh[of name p a p'] ap Inr assms(3)[OF Some] by simp
      obtain y b where op: "seg_open_with (segs_dimension s) d a = (y, b)" by fastforce
      have t: "\<exists>q. t = s\<lparr>ss_persistence := q\<rparr>"
        using assms(2) Some ap Inr op by (auto simp: fresh_segment_def split: sum.splits prod.splits)
      have "seg_live e \<and> seg_row_count e = 0 \<and> ds_dimension e = segs_dimension s" if r: "r = Inr e" for e
      proof -
        obtain e0 u where e0: "y = Inr e0" "seg_sync e0 = (Inr u, e)"
          using assms(2) Some ap Inr op r by (auto simp: fresh_segment_def split: sum.splits prod.splits)
        have "seg_live e0 \<and> seg_row_count e0 = 0 \<and> ds_dimension e0 = segs_dimension s \<and> ds_distance e0 = d"
          using seg_open_with_empty[OF _ a0 dim] op e0(1) by blast
        then show ?thesis using seg_same_live[OF seg_sync_same[OF e0(2)]] by simp
      qed
      then show ?thesis using t by blast
    qed
  qed
qed

lemma on_fs_result: "on_fs f a s = (r, t) \<Longrightarrow> \<exists>p. t = s\<lparr>ss_persistence := p\<rparr>"
proof (cases "ss_persistence s")
  case None
  moreover assume "on_fs f a s = (r, t)"
  ultimately have "t = s\<lparr>ss_persistence := ss_persistence s\<rparr>" by (simp add: on_fs_def)
  then show ?thesis by blast
qed (auto simp: on_fs_def split: prod.splits)

lemma stamp_active_result:
  assumes "segs_inv s" and "stamp_active sc s = (r, t)"
  shows "\<exists>d p. t = (with_active d s)\<lparr>ss_persistence := p\<rparr> \<and> seg_same (active s) d"
proof (cases "ss_persistence s")
  case None
  have "t = s" using assms(2) None by (simp add: stamp_active_def)
  then have "t = (with_active (active s) s)\<lparr>ss_persistence := ss_persistence s\<rparr>"
    using assms(1) by (simp add: with_active_self segs_inv_def)
  then show ?thesis using seg_same_refl by blast
next
  case (Some p)
  let ?rows = "active_rows s"
  obtain x u where u: "on_active (checksum_compute (sc_crc sc) ?rows) s = (x, u)" by fastforce
  from u obtain d where d: "checksum_compute (sc_crc sc) ?rows (active s) = (x, d)" "u = with_active d s"
    by (rule on_active_result)
  have same: "seg_same (active s) d" by (rule checksum_compute_same[OF d(1)])
  have u0: "u = u\<lparr>ss_persistence := ss_persistence u\<rparr>" by simp
  have "\<exists>q. t = u\<lparr>ss_persistence := q\<rparr>"
    using assms(2) Some u u0 by (cases x) (auto simp: stamp_active_def Let_def dest: on_fs_result)
  then show ?thesis using d(2) same by blast
qed

section \<open>Rewriting\<close>

definition chunk_rows :: "nat \<Rightarrow> f32 list \<Rightarrow> f32 list list" where
  "chunk_rows dim v = map (\<lambda>i. take dim (drop (i * dim) v)) [0..<length v div dim]"

lemma seg_rows_Ram: "ds_backing d = Ram v \<Longrightarrow> 0 < ds_dimension d \<Longrightarrow> seg_rows d = chunk_rows (ds_dimension d) v"
proof -
  assume a: "ds_backing d = Ram v" "0 < ds_dimension d"
  have "max (ds_dimension d) 1 = ds_dimension d" using a(2) by simp
  then show ?thesis using a(1) unfolding seg_rows_def chunk_rows_def seg_vectors_def seg_row_count_def
    by (simp only: backing.case)
qed

lemma seg_rewrite_ok:
  assumes "seg_rewrite rows d = (Inr u, e)" and "0 < ds_dimension d" "ds_dimension d < 2 ^ 32"
  shows "seg_live e \<and> seg_rows e = chunk_rows (ds_dimension d) rows \<and> ds_dimension e = ds_dimension d"
proof -
  let ?bs = "encode_header (ds_dimension d) (ds_distance d) @ (if rows \<noteq> [] then floats_to_bytes rows else [])"
  have m: "length rows mod ds_dimension d = 0"
    using assms(1,2) by (auto simp: seg_rewrite_def Let_def split: if_splits)
  obtain x where x: "on_appender (ap_rewrite ?bs) d = (Inr (), x)" and e: "e = x\<lparr>ds_backing := Ram rows\<rparr>"
    using assms(1) m by (auto simp: seg_rewrite_def Let_def andThen_Inr_iff)
  have dim: "ds_dimension e = ds_dimension d" "ds_distance e = ds_distance d"
    using on_appender_result[OF x] e by auto
  have bytes: "ap_bytes ap = encode_header (ds_dimension d) (ds_distance d) @ floats_to_bytes rows"
    if "ds_appender e = Some ap" for ap
    using on_appender_result[OF x] e that by (auto dest!: ap_stream.rewrite_ok split: if_splits)
  have "seg_inv e"
    using assms(2,3) m e dim bytes by (auto simp: seg_inv_def seg_wf_def seg_image_def)
  then show ?thesis
    using e dim assms(2) seg_rows_Ram[of e rows] by (simp add: seg_live_def seg_is_mmap_def)
qed

lemma rewrite_base_ok:
  assumes "segs_inv s" and "rewrite_base rows s = (Inr (), t)"
  shows "\<exists>d p. t = s\<lparr>ss_segs := \<lparr>sg_name = BASE_SEGMENT, sg_data = d\<rparr> # tl (ss_segs s), ss_persistence := p\<rparr> \<and>
    seg_live d \<and> seg_rows d = chunk_rows (segs_dimension s) rows \<and> ds_dimension d = segs_dimension s"
proof -
  have ne: "ss_segs s \<noteq> []" using assms(1) by (simp add: segs_inv_def)
  then have "hd (ss_segs s) \<in> set (ss_segs s)" by simp
  then have dim: "0 < segs_dimension s" "segs_dimension s < 2 ^ 32"
    using assms(1) unfolding segs_inv_def by (metis seg_wf_def)+
  show ?thesis
  proof (cases "seg_is_mmap (sg_data (hd (ss_segs s)))")
    case True
    then obtain p where p: "ss_persistence s = Some p"
      using assms(2) by (cases "ss_persistence s") (auto simp: rewrite_base_def)
    obtain x p' where ap: "appender_for BASE_SEGMENT p = (x, p')" by fastforce
    obtain a where a: "x = Inr a" using assms(2) True p ap by (cases x) (auto simp: rewrite_base_def)
    let ?d = "seg_rewrite_target a (segs_dimension s) (ss_distance s)"
    obtain y d where d: "seg_rewrite rows ?d = (y, d)" by fastforce
    obtain u where y: "y = Inr u" using assms(2) True p ap a d by (cases y) (auto simp: rewrite_base_def)
    have t: "t = s\<lparr>ss_segs := \<lparr>sg_name = BASE_SEGMENT, sg_data = d\<rparr> # tl (ss_segs s), ss_persistence := Some p'\<rparr>"
      using assms(2) True p ap a d y by (auto simp: rewrite_base_def set_base_segment_def)
    have "ds_dimension ?d = segs_dimension s" by (simp add: seg_rewrite_target_def)
    then have "seg_live d \<and> seg_rows d = chunk_rows (segs_dimension s) rows \<and> ds_dimension d = segs_dimension s"
      using seg_rewrite_ok[of rows ?d u d] d y dim by simp
    then show ?thesis using t by blast
  next
    case False
    let ?d = "sg_data (hd (ss_segs s))"
    obtain y d where d: "seg_rewrite rows ?d = (y, d)" by fastforce
    obtain u where y: "y = Inr u"
      using assms(2) False d by (cases y) (auto simp: rewrite_base_def on_base_def Let_def)
    have t: "t = s\<lparr>ss_segs := \<lparr>sg_name = BASE_SEGMENT, sg_data = d\<rparr> # tl (ss_segs s)\<rparr>"
      using assms(2) False d y by (auto simp: rewrite_base_def on_base_def set_base_segment_def Let_def)
    then have "t = s\<lparr>ss_segs := \<lparr>sg_name = BASE_SEGMENT, sg_data = d\<rparr> # tl (ss_segs s),
        ss_persistence := ss_persistence s\<rparr>" by simp
    moreover have "ds_dimension ?d = segs_dimension s" by (simp add: segs_dimension_def)
    ultimately show ?thesis using seg_rewrite_ok[of rows ?d u d] d y dim by metis
  qed
qed

lemma for_each_on_fs: "for_each (\<lambda>n. on_fs (f n) ()) ns s = (r, t) \<Longrightarrow> \<exists>p. t = s\<lparr>ss_persistence := p\<rparr>"
proof (induction ns arbitrary: s)
  case (Cons n ns)
  obtain x u where u: "on_fs (f n) () s = (x, u)" by fastforce
  obtain p where p: "u = s\<lparr>ss_persistence := p\<rparr>" using on_fs_result[OF u] by blast
  show ?case
  proof (cases x)
    case (Inr y)
    then obtain q where "t = u\<lparr>ss_persistence := q\<rparr>" using Cons u by fastforce
    then show ?thesis using p by auto
  qed (use Cons.prems u p in auto)
qed auto

lemma stamp_base_result:
  assumes "stamp_base sc dropped s = (r, t)"
  shows "\<exists>d p. seg_same (sg_data (hd (ss_segs s))) d \<and>
    t = s\<lparr>ss_segs := (if ss_persistence s = None then ss_segs s else (hd (ss_segs s))\<lparr>sg_data := d\<rparr> # tl (ss_segs s)),
      ss_persistence := p\<rparr>"
proof (cases "ss_persistence s")
  case None
  then have "t = s" using assms by (simp add: stamp_base_def)
  then show ?thesis using None by (intro exI[of _ "sg_data (hd (ss_segs s))"] exI[of _ None]) simp
next
  case (Some p)
  let ?rows = "seg_row_count (sg_data (hd (ss_segs s)))"
  obtain x d where d: "checksum_compute (sc_crc sc) ?rows (sg_data (hd (ss_segs s))) = (x, d)" by fastforce
  let ?u = "s\<lparr>ss_segs := (hd (ss_segs s))\<lparr>sg_data := d\<rparr> # tl (ss_segs s)\<rparr>"
  have u: "on_base (checksum_compute (sc_crc sc) ?rows) s = (x, ?u)" using d by (simp add: on_base_def Let_def)
  have "\<exists>q. t = ?u\<lparr>ss_persistence := q\<rparr>"
  proof (cases x)
    case (Inl e)
    then have "t = ?u" using assms Some u by (simp add: stamp_base_def Let_def)
    then show ?thesis by (metis persistence_self)
  next
    case (Inr c)
    let ?save = "on_fs (checksum_save (sc_u32 sc) (sc_crc sc) BASE_SEGMENT
        (checksum_key BASE_SEGMENT (segs_dimension s) (ss_distance s)) ?rows c) ()"
    obtain y v where v: "?save ?u = (y, v)" by fastforce
    obtain q where q: "v = ?u\<lparr>ss_persistence := q\<rparr>" using on_fs_result[OF v] by blast
    show ?thesis
    proof (cases y)
      case (Inr z)
      then have "for_each (\<lambda>name. on_fs (fs_delete (crc_object_name name)) ()) dropped v = (r, t)"
        using assms Some u \<open>x = Inr c\<close> v by (simp add: stamp_base_def Let_def)
      from for_each_on_fs[OF this] show ?thesis using q by auto
    qed (use assms Some u \<open>x = Inr c\<close> v q in \<open>auto simp: stamp_base_def Let_def\<close>)
  qed
  then show ?thesis using Some checksum_compute_same[OF d] by auto
qed

lemma segs_rewrite_ok:
  assumes "segs_inv s" and "segs_rewrite sc rows s = (Inr dropped, t)"
  shows "segs_inv t \<and> segs_rows t = chunk_rows (segs_dimension s) rows \<and> segs_dimension t = segs_dimension s \<and>
    dropped = map sg_name (tl (ss_segs s)) \<and> segment_names t = [BASE_SEGMENT] \<and> ss_version t = Suc (ss_version s)"
proof -
  obtain u where u: "rewrite_base rows s = (Inr (), u)"
    and rest: "andThen (stamp_base sc (map sg_name (tl (ss_segs s)))) (\<lambda>_ t.
        (Inr (map sg_name (tl (ss_segs s))), t\<lparr>ss_segs := take 1 (ss_segs t), ss_base := [0],
           ss_version := Suc (ss_version t)\<rparr>)) u = (Inr dropped, t)"
    using assms(2) by (auto simp: segs_rewrite_def Let_def andThen_Inr_iff)
  from rewrite_base_ok[OF assms(1) u] obtain d p where
    d: "u = s\<lparr>ss_segs := \<lparr>sg_name = BASE_SEGMENT, sg_data = d\<rparr> # tl (ss_segs s), ss_persistence := p\<rparr>"
    "seg_live d" "seg_rows d = chunk_rows (segs_dimension s) rows" "ds_dimension d = segs_dimension s" by blast
  obtain x w where w: "stamp_base sc (map sg_name (tl (ss_segs s))) u = (Inr x, w)"
    and t: "t = w\<lparr>ss_segs := take 1 (ss_segs w), ss_base := [0], ss_version := Suc (ss_version w)\<rparr>"
    and dr: "dropped = map sg_name (tl (ss_segs s))"
    using rest by (auto simp: andThen_Inr_iff)
  from stamp_base_result[OF w] obtain d' p' where d': "seg_same (sg_data (hd (ss_segs u))) d'"
    "w = u\<lparr>ss_segs := (if ss_persistence u = None then ss_segs u else (hd (ss_segs u))\<lparr>sg_data := d'\<rparr> # tl (ss_segs u)),
      ss_persistence := p'\<rparr>" by blast
  obtain e where e: "ss_segs t = [\<lparr>sg_name = BASE_SEGMENT, sg_data = e\<rparr>]" "seg_same d e"
    using t d'(1,2) d(1) by (cases "ss_persistence u = None") auto
  note same = seg_same_live[OF e(2)]
  have "ss_base t = [0]" "ss_version t = Suc (ss_version s)" using t d'(2) d(1) by simp_all
  then show ?thesis
    using e(1) same d(2-4) dr
    by (simp add: segs_inv_def bases_of_def segs_rows_def segs_dimension_def active_def segment_names_def
        seg_live_def seg_inv_def)
qed

text \<open>
  C25 (row dispatch). The row a global number resolves to through the binary search over the
  segment bases is the row at that position of the segments laid end to end, and a number past
  the last row resolves to none.
\<close>
theorem segs_row_dispatch:
  assumes "segs_inv s"
  shows "segs_row s k = (if k < segs_row_count s then Some (segs_rows s ! k) else None) \<and>
    segs_row_count s = length (concat (map (\<lambda>g. seg_rows (sg_data g)) (ss_segs s)))"
  using segs_row_nth[OF assms] segs_count[OF assms] by (simp add: segs_rows_def)

text \<open>
  (batch append and rollback). A batch appended whole extends the matrix by its vectors in
  order. A batch that failed at any point, once truncated to the row count it started from,
  leaves the rows it started from, also in the segment's file.
\<close>
theorem segs_batch_rollback:
  assumes "segs_inv s" and "for_each segs_append vs s = (r, t)"
  shows "(r = Inr () \<longrightarrow> segs_inv t \<and> segs_rows t = segs_rows s @ vs) \<and>
    (\<forall>u. segs_truncate_to (segs_row_count s) t = (Inr (), u) \<longrightarrow> segs_inv u \<and> segs_rows u = segs_rows s)"
  using segs_matrix.append_all_ok[OF assms(1)] segs_matrix.batch_rollback[OF assms] assms(2) by blast

text \<open>Sealing, failing or not, moves no row.\<close>

lemma segs_seal_effect:
  assumes "segs_inv s" and "segs_seal sc s = (r, t)"
    and "\<And>p. ss_persistence s = Some p \<Longrightarrow> fs_obj p (''seg-'' @ pad_nat 8 (ss_next_id s)) = None"
  shows "segs_inv t \<and> segs_rows t = segs_rows s \<and> segs_dimension t = segs_dimension s \<and>
    (case r of
       Inr True \<Rightarrow> active_rows t = 0 \<and> length (ss_segs t) = Suc (length (ss_segs s)) \<and>
         ss_version t = Suc (ss_version s) \<and> ss_next_id t = Suc (ss_next_id s)
     | _ \<Rightarrow> segment_names t = segment_names s \<and> ss_version t = ss_version s)"
proof (cases "active_rows s = 0")
  case True
  then have "r = Inr False" "t = s" using assms(2) by (auto simp: segs_seal_def)
  then show ?thesis using assms(1) by simp
next
  case False
  let ?name = "''seg-'' @ pad_nat 8 (ss_next_id s)"
  obtain x u where f: "fresh_segment ?name (segs_dimension s) (ss_distance s) s = (x, u)" by fastforce
  note fr = fresh_segment_result[OF assms(1) f assms(3)]
  then obtain q where u: "u = s\<lparr>ss_persistence := q\<rparr>" by blast
  show ?thesis
  proof (cases x)
    case (Inl e)
    then have "r = Inl e" "t = u" using assms(2) False f by (auto simp: segs_seal_def Let_def)
    then show ?thesis using u assms(1) by (simp add: segment_names_def)
  next
    case (Inr e)
    have inv: "segs_inv u" using u assms(1) by simp
    obtain y w where w: "stamp_active sc u = (y, w)" by fastforce
    from stamp_active_result[OF inv w] obtain d p where
      d: "w = (with_active d u)\<lparr>ss_persistence := p\<rparr>" "seg_same (active u) d" by blast
    have w': "segs_inv w" "segs_rows w = segs_rows s" "active_rows w = active_rows s"
      using d segs_inv_same[OF inv d(2)] seg_same_live[OF d(2)] u by (simp_all add: active_rows_def)
    have names: "segment_names w = segment_names s" "length (ss_segs w) = length (ss_segs s)"
      using with_active_names[of s d] d(1) u assms(1) by (simp_all add: segment_names_def segs_inv_def)
    have dw: "segs_dimension w = segs_dimension s"
      using with_active_dimension[OF inv, of d] seg_same_live(4)[OF d(2)] d(1) u by simp
    have keep: "ss_version w = ss_version s" "ss_next_id w = ss_next_id s" using d(1) u by simp_all
    show ?thesis
    proof (cases y)
      case (Inl e')
      then have "r = Inl e'" "t = w" using assms(2) False f Inr w by (auto simp: segs_seal_def Let_def)
      then show ?thesis using w' names keep dw by simp
    next
      case (Inr v)
      let ?g = "\<lparr>sg_name = ?name, sg_data = e\<rparr>"
      have count: "segs_row_count w = segs_row_count s"
        using segs_count[OF w'(1)] segs_count[OF assms(1)] w'(2) by simp
      have rt: "r = Inr True" "t = push_segment ?g w"
        using assms(2) False f \<open>x = Inr e\<close> w Inr by (auto simp: segs_seal_def Let_def push_segment_def count)
      have e: "seg_live e" "seg_row_count e = 0" "ds_dimension e = segs_dimension w"
        using fr \<open>x = Inr e\<close> d(1) u with_active_dimension[OF assms(1)] seg_same_live[OF d(2)] by auto
      have "segs_inv t" "segs_rows t = segs_rows s" "active_rows t = 0" "length (ss_segs t) = Suc (length (ss_segs s))"
        using push_segment_inv[OF w'(1), of ?g] w' e False names(2) rt(2) by (simp_all add: push_segment_def)
      moreover have "segs_dimension t = segs_dimension s"
        using dw w'(1) by (simp add: rt(2) segs_dimension_def push_segment_def segs_inv_def)
      ultimately show ?thesis using rt(1) keep by (simp add: rt(2) push_segment_def)
    qed
  qed
qed

text \<open>
  (seal). Sealing moves no row: the matrix is the same, a fresh empty segment is active and
  the bases stay strictly increasing; a seal that fails leaves the set as it was.
\<close>
theorem segs_seal_keeps_rows:
  assumes "segs_inv s" and "segs_seal sc s = (r, t)"
    and "\<And>p. ss_persistence s = Some p \<Longrightarrow> fs_obj p (''seg-'' @ pad_nat 8 (ss_next_id s)) = None"
  shows "segs_inv t \<and> segs_rows t = segs_rows s \<and>
    (case r of
       Inr True \<Rightarrow> active_rows t = 0 \<and> length (ss_segs t) = Suc (length (ss_segs s)) \<and>
         ss_version t = Suc (ss_version s) \<and> ss_next_id t = Suc (ss_next_id s)
     | _ \<Rightarrow> segment_names t = segment_names s \<and> ss_version t = ss_version s)"
  using segs_seal_effect[OF assms] by blast

text \<open>Two segments in memory, of one and two rows.\<close>

definition demo_segs :: segments where
  "demo_segs = \<lparr>ss_distance = Cosine, ss_persistence = None,
     ss_segs = [\<lparr>sg_name = BASE_SEGMENT, sg_data = (seg_in_memory_with 2 Cosine)\<lparr>ds_backing := Ram [1, 2]\<rparr>\<rparr>,
                \<lparr>sg_name = ''seg-00000001'', sg_data = (seg_in_memory_with 2 Cosine)\<lparr>ds_backing := Ram [3, 4, 5, 6]\<rparr>\<rparr>],
     ss_base = [0, 1], ss_next_id = 2, ss_version = 2\<rparr>"

lemma demo_segs_inv: "segs_inv demo_segs"
  by (simp add: demo_segs_def segs_inv_def bases_of_def seg_in_memory_with_def seg_row_count_def active_def
      seg_live_def seg_inv_def seg_wf_def seg_is_mmap_def segs_dimension_def)

lemma four_div_two: "Suc (Suc (Suc (Suc 0))) div Suc (Suc 0) = Suc (Suc 0)"
  by code_simp

lemma demo_segs_rows: "segs_rows demo_segs = [[1, 2], [3, 4], [5, 6]]"
  by (simp add: demo_segs_def segs_rows_def seg_rows_def seg_in_memory_with_def seg_row_count_def seg_vectors_def
      upt_rec[of 0] upt_rec[of "Suc 0"] four_div_two)

theorem segs_row_dispatch_witness:
  "segs_row demo_segs 2 = Some [5, 6] \<and> segs_row demo_segs 3 = None"
  using segs_row_dispatch[OF demo_segs_inv, of 2] segs_row_dispatch[OF demo_segs_inv, of 3]
    segs_count[OF demo_segs_inv] demo_segs_rows by simp

theorem segs_batch_rollback_witness:
  "\<exists>r t u. for_each segs_append [[7, 8], [9]] demo_segs = (r, t) \<and> r \<noteq> Inr () \<and>
     segs_truncate_to 3 t = (Inr (), u) \<and> segs_rows u = [[1, 2], [3, 4], [5, 6]]"
proof -
  obtain r t where t: "for_each segs_append [[7, 8], [9]] demo_segs = (r, t)" by fastforce
  obtain q u where u: "segs_truncate_to 3 t = (q, u)" by fastforce
  have "r \<noteq> Inr () \<and> q = Inr ()"
    using t u by (auto simp: demo_segs_def segs_append_def on_active_def with_active_def active_def seg_append_def
        on_appender_def seg_in_memory_with_def segs_truncate_to_def seg_truncate_to_def andThen_def Let_def)
  moreover have "segs_row_count demo_segs = 3" using segs_count[OF demo_segs_inv] demo_segs_rows by simp
  ultimately show ?thesis
    using t u segs_batch_rollback[OF demo_segs_inv t] demo_segs_rows by auto
qed

theorem segs_seal_keeps_rows_witness:
  "\<exists>t. segs_seal \<lparr>sc_u32 = demo_u32, sc_crc = demo_hash\<rparr> demo_segs = (Inr True, t) \<and>
     segs_rows t = [[1, 2], [3, 4], [5, 6]] \<and> active_rows t = 0 \<and> length (ss_segs t) = 3"
proof -
  let ?sc = "\<lparr>sc_u32 = demo_u32, sc_crc = demo_hash\<rparr>"
  have p: "ss_persistence demo_segs = None" "length (ss_segs demo_segs) = 2" by (simp_all add: demo_segs_def)
  have "active_rows demo_segs \<noteq> 0"
    by (simp add: demo_segs_def active_rows_def active_def seg_in_memory_with_def seg_row_count_def four_div_two)
  then obtain t where t: "segs_seal ?sc demo_segs = (Inr True, t)"
    using p by (simp add: segs_seal_def fresh_segment_def stamp_active_def Let_def)
  show ?thesis using t segs_seal_keeps_rows[OF demo_segs_inv t] p demo_segs_rows by simp
qed

end
