(* ===== verification/Analyzer.thy ===== *)
theory Analyzer
  imports Filters
begin

text \<open>
  The text analyzer of the full-text index (\<^verbatim>\<open>src/src/fts/analyzer.rs\<close>, \<^verbatim>\<open>src/src/fts/fold.rs\<close>):
  tokenising with byte spans, ASCII fold_on, stop words and the Porter stemmer. A term is the
  list of its characters, ordered as its UTF-8 bytes are. The Unicode tables of the standard
  library (\<^verbatim>\<open>char::is_alphanumeric\<close>, \<^verbatim>\<open>char::to_lowercase\<close>) are arguments.
\<close>

type_synonym term_t = "uchar list"

record unicode =
  uc_alnum :: "uchar \<Rightarrow> bool"
  uc_lower :: "uchar \<Rightarrow> uchar list"

definition ascii :: "string \<Rightarrow> term_t" where
  "ascii s = map of_char s"

definition char_len :: "uchar \<Rightarrow> nat" where
  "char_len c = (if c < 128 then 1 else if c < 2048 then 2 else if c < 65536 then 3 else 4)"

definition utf8_len :: "uchar list \<Rightarrow> nat" where
  "utf8_len cs = sum_list (map char_len cs)"

section \<open>Folding\<close>

definition LATIN1 :: "string list" where
  "LATIN1 = [
     ''a'', ''a'', ''a'', ''a'', ''a'', ''a'', ''ae'', ''c'', ''e'', ''e'', ''e'', ''e'', ''i'',
     ''i'', ''i'', ''i'', ''d'', ''n'', ''o'', ''o'', ''o'', ''o'', ''o'', '''', ''o'', ''u'',
     ''u'', ''u'', ''u'', ''y'', ''th'', ''ss'', ''a'', ''a'', ''a'', ''a'', ''a'', ''a'', ''ae'',
     ''c'', ''e'', ''e'', ''e'', ''e'', ''i'', ''i'', ''i'', ''i'', ''d'', ''n'', ''o'', ''o'',
     ''o'', ''o'', ''o'', '''', ''o'', ''u'', ''u'', ''u'', ''u'', ''y'', ''th'', ''y'']"

definition LATIN_A :: "string list" where
  "LATIN_A = [
     ''a'', ''a'', ''a'', ''a'', ''a'', ''a'', ''c'', ''c'', ''c'', ''c'', ''c'', ''c'', ''c'',
     ''c'', ''d'', ''d'', ''d'', ''d'', ''e'', ''e'', ''e'', ''e'', ''e'', ''e'', ''e'', ''e'',
     ''e'', ''e'', ''g'', ''g'', ''g'', ''g'', ''g'', ''g'', ''g'', ''g'', ''h'', ''h'', ''h'',
     ''h'', ''i'', ''i'', ''i'', ''i'', ''i'', ''i'', ''i'', ''i'', ''i'', ''i'', ''ij'', ''ij'',
     ''j'', ''j'', ''k'', ''k'', ''k'', ''l'', ''l'', ''l'', ''l'', ''l'', ''l'', ''l'', ''l'',
     ''l'', ''l'', ''n'', ''n'', ''n'', ''n'', ''n'', ''n'', ''n'', ''n'', ''n'', ''o'', ''o'',
     ''o'', ''o'', ''o'', ''o'', ''oe'', ''oe'', ''r'', ''r'', ''r'', ''r'', ''r'', ''r'', ''s'',
     ''s'', ''s'', ''s'', ''s'', ''s'', ''s'', ''s'', ''t'', ''t'', ''t'', ''t'', ''t'', ''t'',
     ''u'', ''u'', ''u'', ''u'', ''u'', ''u'', ''u'', ''u'', ''u'', ''u'', ''u'', ''u'', ''w'',
     ''w'', ''y'', ''y'', ''y'', ''z'', ''z'', ''z'', ''z'', ''z'', ''z'', ''s'']"

definition folded :: "uchar \<Rightarrow> term_t option" where
  "folded c =
     (if 192 \<le> c \<and> c \<le> 255 then
        (let s = LATIN1 ! (c - 192) in if s \<noteq> [] then Some (ascii s) else None)
      else if 256 \<le> c \<and> c \<le> 383 then Some (ascii (LATIN_A ! (c - 256)))
      else None)"

definition fold_ascii :: "term_t \<Rightarrow> term_t" where
  "fold_ascii t =
     (if list_all (\<lambda>c. c < 128) t then t
      else concat (map (\<lambda>c. case folded c of Some s \<Rightarrow> s | None \<Rightarrow> [c]) t))"

section \<open>Tokens\<close>

record term_span =
  ts_term :: term_t
  ts_start :: nat
  ts_end :: nat

definition push_token :: "bool \<Rightarrow> nat option \<Rightarrow> term_t \<Rightarrow> nat \<Rightarrow> nat \<Rightarrow> term_span list \<Rightarrow> term_span list" where
  "push_token fold_on max_len cur start stop out =
     (if (case max_len of Some m \<Rightarrow> length cur > m | None \<Rightarrow> False) then out
      else out @ [\<lparr>ts_term = (if fold_on then fold_ascii cur else cur), ts_start = start, ts_end = stop\<rparr>])"

text \<open>The loop over \<^verbatim>\<open>char_indices\<close>: \<^term>\<open>i\<close> is the byte offset of the next character.\<close>

fun tokenize_loop :: "unicode \<Rightarrow> bool \<Rightarrow> nat option \<Rightarrow> uchar list \<Rightarrow> nat \<Rightarrow> term_t \<Rightarrow> nat \<Rightarrow> term_span list \<Rightarrow> term_span list" where
  "tokenize_loop uc fold_on max_len [] i cur start out =
     (if cur \<noteq> [] then push_token fold_on max_len cur start i out else out)"
| "tokenize_loop uc fold_on max_len (c # cs) i cur start out =
     (if uc_alnum uc c then
        tokenize_loop uc fold_on max_len cs (i + char_len c) (cur @ uc_lower uc c)
          (if cur = [] then i else start) out
      else if cur \<noteq> [] then
        tokenize_loop uc fold_on max_len cs (i + char_len c) [] start
          (push_token fold_on max_len cur start i out)
      else tokenize_loop uc fold_on max_len cs (i + char_len c) cur start out)"

definition tokenize :: "unicode \<Rightarrow> bool \<Rightarrow> nat option \<Rightarrow> uchar list \<Rightarrow> term_span list" where
  "tokenize uc fold_on max_len cs = tokenize_loop uc fold_on max_len cs 0 [] 0 []"

definition STOPWORDS :: "string list" where
  "STOPWORDS = [
     ''a'', ''about'', ''above'', ''after'', ''again'', ''against'', ''all'', ''am'', ''an'',
     ''and'', ''any'', ''are'', ''aren'' @ CHR 0x27 # ''t'', ''as'', ''at'', ''be'', ''because'',
     ''been'', ''before'', ''being'', ''below'', ''between'', ''both'', ''but'', ''by'', ''can'',
     ''can'' @ CHR 0x27 # ''t'', ''cannot'', ''could'', ''couldn'' @ CHR 0x27 # ''t'', ''did'',
     ''didn'' @ CHR 0x27 # ''t'', ''do'', ''does'', ''doesn'' @ CHR 0x27 # ''t'', ''doing'',
     ''don'' @ CHR 0x27 # ''t'', ''down'', ''during'', ''each'', ''few'', ''for'', ''from'',
     ''further'', ''had'', ''hadn'' @ CHR 0x27 # ''t'', ''has'', ''hasn'' @ CHR 0x27 # ''t'',
     ''have'', ''haven'' @ CHR 0x27 # ''t'', ''having'', ''he'', ''her'', ''here'', ''hers'',
     ''herself'', ''him'', ''himself'', ''his'', ''how'', ''i'', ''if'', ''in'', ''into'', ''is'',
     ''isn'' @ CHR 0x27 # ''t'', ''it'', ''its'', ''itself'', ''just'', ''me'', ''more'', ''most'',
     ''my'', ''myself'', ''no'', ''nor'', ''not'', ''now'', ''of'', ''off'', ''on'', ''once'',
     ''only'', ''or'', ''other'', ''our'', ''ours'', ''ourselves'', ''out'', ''over'', ''own'',
     ''same'', ''shan'' @ CHR 0x27 # ''t'', ''she'', ''should'', ''shouldn'' @ CHR 0x27 # ''t'',
     ''so'', ''some'', ''such'', ''than'', ''that'', ''the'', ''their'', ''theirs'', ''them'',
     ''themselves'', ''then'', ''there'', ''these'', ''they'', ''this'', ''those'', ''through'',
     ''to'', ''too'', ''under'', ''until'', ''up'', ''very'', ''was'', ''wasn'' @ CHR 0x27 # ''t'',
     ''we'', ''were'', ''weren'' @ CHR 0x27 # ''t'', ''what'', ''when'', ''where'', ''which'',
     ''while'', ''who'', ''whom'', ''why'', ''will'', ''with'', ''won'' @ CHR 0x27 # ''t'',
     ''would'', ''wouldn'' @ CHR 0x27 # ''t'', ''you'', ''your'', ''yours'', ''yourself'',
     ''yourselves'']"

text \<open>The table is sorted, so the binary search is membership.\<close>

definition is_stopword :: "term_t \<Rightarrow> bool" where
  "is_stopword t \<longleftrightarrow> t \<in> set (map ascii STOPWORDS)"

section \<open>The Porter stemmer\<close>

definition is_vowel_letter :: "uchar \<Rightarrow> bool" where
  "is_vowel_letter c \<longleftrightarrow> c \<in> set (ascii ''aeiou'')"

fun is_consonant :: "term_t \<Rightarrow> nat \<Rightarrow> bool" where
  "is_consonant b 0 = (\<not> is_vowel_letter (b ! 0))"
| "is_consonant b (Suc i) =
     (if is_vowel_letter (b ! Suc i) then False
      else if b ! Suc i = of_char CHR ''y'' then \<not> is_consonant b i
      else True)"

function skip_while :: "(nat \<Rightarrow> bool) \<Rightarrow> nat \<Rightarrow> nat \<Rightarrow> nat" where
  "skip_while p e i = (if i < e \<and> p i then skip_while p e (Suc i) else i)"
  by pat_completeness auto
termination by (relation "measure (\<lambda>(p, e, i). e - i)") auto

declare skip_while.simps [simp del]

lemma skip_while_ge: "i \<le> skip_while p e i"
proof (induction p e i rule: skip_while.induct)
  case (1 p e i)
  then show ?case by (subst skip_while.simps) auto
qed

lemma skip_while_stops: "skip_while p e i < e \<Longrightarrow> \<not> p (skip_while p e i)"
proof (induction p e i rule: skip_while.induct)
  case (1 p e i)
  show ?case
  proof (cases "i < e \<and> p i")
    case True
    then have "skip_while p e i = skip_while p e (Suc i)" by (subst skip_while.simps) simp
    then show ?thesis using 1 True by simp
  next
    case False
    then have "skip_while p e i = i" by (subst skip_while.simps) auto
    then show ?thesis using 1 False by simp
  qed
qed

lemma skip_while_moves: "i < e \<Longrightarrow> p i \<Longrightarrow> i < skip_while p e i"
  using skip_while_ge[of "Suc i" p e] by (subst skip_while.simps) simp

function measure_loop :: "term_t \<Rightarrow> nat \<Rightarrow> nat \<Rightarrow> nat \<Rightarrow> nat" where
  "measure_loop b e i n =
     (let j = skip_while (\<lambda>k. \<not> is_consonant b k) e i in
      if j \<ge> e then n
      else let k = skip_while (is_consonant b) e j in
           if k \<ge> e then Suc n else measure_loop b e k (Suc n))"
  by pat_completeness auto
termination
proof (relation "measure (\<lambda>(b, e, i, n). e - i)", simp)
  fix b e i n and j k :: nat
  assume j: "j = skip_while (\<lambda>k. \<not> is_consonant b k) e i" "\<not> j \<ge> e"
    and k: "k = skip_while (is_consonant b) e j" "\<not> k \<ge> e"
  have "is_consonant b j" using j skip_while_stops[of "\<lambda>k. \<not> is_consonant b k" e i] by simp
  then have "j < k" using j(2) k(1) skip_while_moves[of j e "is_consonant b"] by simp
  moreover have "i \<le> j" using j(1) skip_while_ge by simp
  ultimately show "((b, e, k, Suc n), (b, e, i, n)) \<in> measure (\<lambda>(b, e, i, n). e - i)"
    using k(2) by simp
qed

declare measure_loop.simps [simp del]

definition porter_measure :: "term_t \<Rightarrow> nat \<Rightarrow> nat" where
  "porter_measure b e = measure_loop b e (skip_while (is_consonant b) e 0) 0"

definition has_vowel :: "term_t \<Rightarrow> nat \<Rightarrow> bool" where
  "has_vowel b e = list_ex (\<lambda>i. \<not> is_consonant b i) [0..<e]"

definition ends_double_consonant :: "term_t \<Rightarrow> nat \<Rightarrow> bool" where
  "ends_double_consonant b e \<longleftrightarrow> e \<ge> 2 \<and> b ! (e - 1) = b ! (e - 2) \<and> is_consonant b (e - 1)"

definition cvc :: "term_t \<Rightarrow> nat \<Rightarrow> bool" where
  "cvc b e \<longleftrightarrow> e \<ge> 3 \<and> is_consonant b (e - 1) \<and> \<not> is_consonant b (e - 2) \<and> is_consonant b (e - 3) \<and>
     b ! (e - 1) \<notin> set (ascii ''wxy'')"

definition ends_with :: "string \<Rightarrow> term_t \<Rightarrow> bool" where
  "ends_with s b \<longleftrightarrow> length s \<le> length b \<and> drop (length b - length s) b = ascii s"

definition chop :: "nat \<Rightarrow> term_t \<Rightarrow> term_t" where
  "chop n b = take (length b - n) b"

definition replace_if :: "string \<Rightarrow> string \<Rightarrow> nat \<Rightarrow> term_t \<Rightarrow> term_t option" where
  "replace_if suf repl min_measure b =
     (if \<not> ends_with suf b then None
      else if porter_measure b (length b - length suf) \<le> min_measure then None
      else Some (chop (length suf) b @ ascii repl))"

definition step1a :: "term_t \<Rightarrow> term_t" where
  "step1a b = (if ends_with ''sses'' b then chop 2 b
     else if ends_with ''ies'' b then chop 2 b
     else if ends_with ''s'' b \<and> \<not> ends_with ''ss'' b then chop 1 b
     else b)"

definition fixup :: "term_t \<Rightarrow> term_t" where
  "fixup b =
     (if ends_with ''at'' b \<or> ends_with ''bl'' b \<or> ends_with ''iz'' b then b @ ascii ''e''
      else if ends_double_consonant b (length b) \<and> \<not> (b \<noteq> [] \<and> last b \<in> set (ascii ''lsz'')) then chop 1 b
      else if porter_measure b (length b) = 1 \<and> cvc b (length b) then b @ ascii ''e''
      else b)"

definition step1b :: "term_t \<Rightarrow> term_t" where
  "step1b b =
     (if ends_with ''eed'' b then (case replace_if ''eed'' ''ee'' 0 b of Some c \<Rightarrow> c | None \<Rightarrow> b)
      else if ends_with ''ed'' b \<and> has_vowel b (length b - 2) then fixup (chop 2 b)
      else if ends_with ''ing'' b \<and> has_vowel b (length b - 3) then fixup (chop 3 b)
      else b)"

definition step1ab :: "term_t \<Rightarrow> term_t" where
  "step1ab b = step1b (step1a b)"

definition step1c :: "term_t \<Rightarrow> term_t" where
  "step1c b = (if ends_with ''y'' b \<and> has_vowel b (length b - 1) then b[length b - 1 := of_char CHR ''i''] else b)"

text \<open>The first pair whose suffix matches decides, fired or not.\<close>

fun first_match :: "(string \<times> string) list \<Rightarrow> term_t \<Rightarrow> term_t" where
  "first_match [] b = b"
| "first_match ((suf, repl) # ps) b =
     (if ends_with suf b then
        (if porter_measure b (length b - length suf) > 0 then chop (length suf) b @ ascii repl else b)
      else first_match ps b)"

definition STEP2_PAIRS :: "(string \<times> string) list" where
  "STEP2_PAIRS = [
     (''ational'', ''ate''), (''tional'', ''tion''), (''enci'', ''ence''), (''anci'', ''ance''),
     (''izer'', ''ize''), (''bli'', ''ble''), (''alli'', ''al''), (''entli'', ''ent''), (''eli'', ''e''),
     (''ousli'', ''ous''), (''ization'', ''ize''), (''ation'', ''ate''), (''ator'', ''ate''),
     (''alism'', ''al''), (''iveness'', ''ive''), (''fulness'', ''ful''), (''ousness'', ''ous''),
     (''aliti'', ''al''), (''iviti'', ''ive''), (''biliti'', ''ble''), (''logi'', ''log'')]"

definition step2 :: "term_t \<Rightarrow> term_t" where
  "step2 b = first_match STEP2_PAIRS b"

definition STEP3_PAIRS :: "(string \<times> string) list" where
  "STEP3_PAIRS = [(''icate'', ''ic''), (''ative'', ''''), (''alize'', ''al''), (''iciti'', ''ic''),
     (''ical'', ''ic''), (''ful'', ''''), (''ness'', '''')]"

definition step3 :: "term_t \<Rightarrow> term_t" where
  "step3 b = first_match STEP3_PAIRS b"

definition STEP4_SUFFIXES :: "string list" where
  "STEP4_SUFFIXES = [''al'', ''ance'', ''ence'', ''er'', ''ic'', ''able'', ''ible'', ''ant'', ''ement'',
     ''ment'', ''ent'', ''ou'', ''ism'', ''ate'', ''iti'', ''ous'', ''ive'', ''ize'']"

fun first_removed :: "string list \<Rightarrow> term_t \<Rightarrow> term_t option" where
  "first_removed [] b = None"
| "first_removed (s # ss) b = (case replace_if s '''' 1 b of Some c \<Rightarrow> Some c | None \<Rightarrow> first_removed ss b)"

definition step4 :: "term_t \<Rightarrow> term_t" where
  "step4 b = (case first_removed STEP4_SUFFIXES b of
     Some c \<Rightarrow> c
   | None \<Rightarrow>
       if ends_with ''ion'' b \<and> porter_measure b (length b - 3) > 1 \<and>
          b ! (length b - 4) \<in> set (ascii ''st'')
       then chop 3 b else b)"

definition step5a :: "term_t \<Rightarrow> term_t" where
  "step5a b =
     (let n = length b - 1; m = porter_measure b n in
      if ends_with ''e'' b \<and> (m > 1 \<or> (m = 1 \<and> \<not> cvc b n)) then chop 1 b else b)"

definition step5b :: "term_t \<Rightarrow> term_t" where
  "step5b b = (if ends_with ''ll'' b \<and> porter_measure b (length b) > 1 then chop 1 b else b)"

definition step5 :: "term_t \<Rightarrow> term_t" where
  "step5 b = step5b (step5a b)"

definition stem :: "term_t \<Rightarrow> term_t" where
  "stem w =
     (if utf8_len w < 3 \<or> \<not> list_all (\<lambda>c. 97 \<le> c \<and> c \<le> 122) w then w
      else step5 (step4 (step3 (step2 (step1c (step1ab w))))))"

section \<open>Analysis\<close>

definition analyze_spans :: "unicode \<Rightarrow> analyzer_cfg \<Rightarrow> string \<Rightarrow> term_span list" where
  "analyze_spans uc cfg s = (case an_language cfg of English \<Rightarrow>
     filter (\<lambda>t. ts_term t \<noteq> [])
       (map (\<lambda>t. t\<lparr>ts_term := stem (ts_term t)\<rparr>)
         (filter (\<lambda>t. \<not> is_stopword (ts_term t))
           (tokenize uc (an_ascii_folding cfg) (an_max_token_len cfg) (chars s)))))"

definition analyze :: "unicode \<Rightarrow> analyzer_cfg \<Rightarrow> string \<Rightarrow> term_t list" where
  "analyze uc cfg s = map ts_term (analyze_spans uc cfg s)"

definition analyze_surface :: "unicode \<Rightarrow> analyzer_cfg \<Rightarrow> string \<Rightarrow> (term_t \<times> term_t) list" where
  "analyze_surface uc cfg s = (case an_language cfg of English \<Rightarrow>
     List.map_filter (\<lambda>t. let stemmed = stem (ts_term t) in
         if stemmed \<noteq> [] then Some (ts_term t, stemmed) else None)
       (filter (\<lambda>t. \<not> is_stopword (ts_term t))
         (tokenize uc (an_ascii_folding cfg) (an_max_token_len cfg) (chars s))))"

definition analyze_with_prefix :: "unicode \<Rightarrow> analyzer_cfg \<Rightarrow> string \<Rightarrow> term_t list \<times> term_t option" where
  "analyze_with_prefix uc cfg s =
     (let toks = tokenize uc (an_ascii_folding cfg) (an_max_token_len cfg) (chars s) in
      if toks = [] then ([], None)
      else (case an_language cfg of English \<Rightarrow>
        (filter (\<lambda>t. t \<noteq> [])
           (map (\<lambda>t. stem (ts_term t)) (filter (\<lambda>t. \<not> is_stopword (ts_term t)) (butlast toks))),
         Some (ts_term (last toks)))))"

end
