(* ===== verification/Fts.thy ===== *)
theory Fts
  imports Analyzer Findex
begin

text \<open>
  The full-text index (\<^verbatim>\<open>src/src/fts/mod.rs\<close>, \<^verbatim>\<open>src/src/fts/schema.rs\<close>): one inverted index per declared
  collection and field, with lazy deletion by tombstones, and the prefix expansion that reads
  it. The floating-point BM25 scores are not modelled; document numbers and counters
  (\<^verbatim>\<open>u32\<close>, \<^verbatim>\<open>u64\<close>) are \<^typ>\<open>nat\<close>.
\<close>

section \<open>One field\<close>

record posting =
  po_docnum :: nat
  po_tf :: nat

record fts_index =
  fi_cfg :: fts_field
  fi_postings :: "(term_t, posting list) amap"
  fi_surface :: "(term_t, term_t) amap"
  fi_doc_len :: "nat list"
  fi_docnum_to_id :: "string option list"
  fi_id_to_docnum :: "(string, nat) amap"
  fi_doc_count :: nat
  fi_total_len :: nat
  fi_tombstones :: nat

definition fts_new :: "fts_field \<Rightarrow> fts_index" where
  "fts_new cfg = \<lparr>fi_cfg = cfg, fi_postings = [], fi_surface = [], fi_doc_len = [], fi_docnum_to_id = [],
     fi_id_to_docnum = [], fi_doc_count = 0, fi_total_len = 0, fi_tombstones = 0\<rparr>"

definition fts_tombstone :: "string \<Rightarrow> fts_index \<Rightarrow> fts_index" where
  "fts_tombstone did ix = (case aget (fi_id_to_docnum ix) did of
     None \<Rightarrow> ix
   | Some d \<Rightarrow> ix\<lparr>fi_id_to_docnum := adel did (fi_id_to_docnum ix),
        fi_docnum_to_id := (fi_docnum_to_id ix)[d := None],
        fi_total_len := fi_total_len ix - fi_doc_len ix ! d,
        fi_doc_len := (fi_doc_len ix)[d := 0],
        fi_doc_count := fi_doc_count ix - 1,
        fi_tombstones := fi_tombstones ix + 1\<rparr>)"

definition postings_of :: "term_t \<Rightarrow> fts_index \<Rightarrow> posting list" where
  "postings_of t ix = (case aget (fi_postings ix) t of None \<Rightarrow> [] | Some l \<Rightarrow> l)"

definition push_posting :: "nat \<Rightarrow> term_t list \<Rightarrow> term_t \<Rightarrow> (term_t, posting list) amap \<Rightarrow> (term_t, posting list) amap" where
  "push_posting docnum terms t p =
     aput t ((case aget p t of None \<Rightarrow> [] | Some l \<Rightarrow> l) @ [\<lparr>po_docnum = docnum, po_tf = count_list terms t\<rparr>]) p"

definition fts_index_text :: "unicode \<Rightarrow> string \<Rightarrow> string \<Rightarrow> fts_index \<Rightarrow> fts_index" where
  "fts_index_text uc did s ix0 =
     (let ix = fts_tombstone did ix0; an = ff_analyzer (fi_cfg ix);
          terms = analyze uc an s; docnum = length (fi_docnum_to_id ix) in
      ix\<lparr>fi_surface := fold (\<lambda>e. aput (fst e) (snd e)) (analyze_surface uc an s) (fi_surface ix),
         fi_postings := fold (push_posting docnum terms) (remdups terms) (fi_postings ix),
         fi_doc_len := fi_doc_len ix @ [length terms],
         fi_docnum_to_id := fi_docnum_to_id ix @ [Some did],
         fi_id_to_docnum := aput did docnum (fi_id_to_docnum ix),
         fi_doc_count := fi_doc_count ix + 1,
         fi_total_len := fi_total_len ix + length terms\<rparr>)"

text \<open>A posting counts when its document is live and, where a test is given, admitted.\<close>

definition is_live :: "fts_index \<Rightarrow> posting \<Rightarrow> bool" where
  "is_live ix p \<longleftrightarrow> fi_docnum_to_id ix ! po_docnum p \<noteq> None"

definition df_where :: "posting list \<Rightarrow> (nat \<Rightarrow> string \<Rightarrow> bool) option \<Rightarrow> fts_index \<Rightarrow> nat" where
  "df_where ps admit ix = (case admit of
     None \<Rightarrow> if fi_tombstones ix = 0 then length ps else length (filter (is_live ix) ps)
   | Some ok \<Rightarrow> length (filter (\<lambda>p. case fi_docnum_to_id ix ! po_docnum p of
       Some did \<Rightarrow> ok (po_docnum p) did | None \<Rightarrow> False) ps))"

text \<open>The range scan of an ordered map from a fragment while the keys carry it.\<close>

definition prefix_range :: "term_t \<Rightarrow> (term_t, 'v) amap \<Rightarrow> (term_t, 'v) amap" where
  "prefix_range fragment m = takeWhile (\<lambda>e. prefix fragment (fst e)) (dropWhile (\<lambda>e. fst e < fragment) m)"

definition MAX_PREFIX_EXPANSION :: nat where "MAX_PREFIX_EXPANSION = 256"

definition note_hit :: "fts_index \<Rightarrow> term_t \<Rightarrow> posting list \<Rightarrow> (term_t, nat) amap \<Rightarrow> (term_t, nat) amap" where
  "note_hit ix t ps hits = (let df = df_where ps None ix in if df > 0 then aput t df hits else hits)"

definition expand_hits :: "term_t \<Rightarrow> fts_index \<Rightarrow> (term_t, nat) amap" where
  "expand_hits fragment ix =
     fold (\<lambda>e hits. case aget (fi_postings ix) (snd e) of
             None \<Rightarrow> hits | Some ps \<Rightarrow> note_hit ix (snd e) ps hits)
       (prefix_range fragment (fi_surface ix))
       (fold (\<lambda>e. note_hit ix (fst e) (snd e)) (prefix_range fragment (fi_postings ix)) [])"

definition expand_prefix :: "term_t \<Rightarrow> fts_index \<Rightarrow> term_t list \<times> nat" where
  "expand_prefix fragment ix =
     (let hits = expand_hits fragment ix;
          ranked = sort_key (\<lambda>e. - int (snd e)) hits
      in (map fst (take MAX_PREFIX_EXPANSION ranked), length hits))"

text \<open>The rarest head first; a head with no postings empties the conjunction.\<close>

fun head_loop :: "fts_index \<Rightarrow> nat list \<Rightarrow> term_t list \<Rightarrow> nat list" where
  "head_loop ix acc [] = acc"
| "head_loop ix acc (t # ts) = (case aget (fi_postings ix) t of
     None \<Rightarrow> []
   | Some ps \<Rightarrow>
       (let acc' = filter (\<lambda>d. d \<in> set acc) (map po_docnum ps) in
        if acc' = [] then [] else head_loop ix acc' ts))"

definition head_docs :: "term_t list \<Rightarrow> fts_index \<Rightarrow> nat list option" where
  "head_docs heads ix =
     (if heads = [] then None
      else let order = sort_key (\<lambda>t. length (postings_of t ix)) heads in
        Some (case aget (fi_postings ix) (hd order) of
          None \<Rightarrow> []
        | Some ps \<Rightarrow> head_loop ix (map po_docnum (filter (is_live ix) ps)) (tl order)))"

definition suggest_scored :: "term_t \<Rightarrow> (nat \<Rightarrow> string \<Rightarrow> bool) option \<Rightarrow> fts_index \<Rightarrow> (term_t \<times> nat) list" where
  "suggest_scored fragment admit ix =
     List.map_filter (\<lambda>e. let df = (case aget (fi_postings ix) (snd e) of
           None \<Rightarrow> 0 | Some ps \<Rightarrow> df_where ps admit ix) in
         if df > 0 then Some (fst e, df) else None)
       (prefix_range fragment (fi_surface ix))"

section \<open>The store's index\<close>

record fts =
  ft_fields :: "(string \<times> string, fts_index) amap"
  ft_schema :: "(string, fts_field list) amap"

definition fts_default :: fts where
  "fts_default = \<lparr>ft_fields = [], ft_schema = []\<rparr>"

definition fts_is_active :: "fts \<Rightarrow> bool" where
  "fts_is_active ft \<longleftrightarrow> ft_schema ft \<noteq> []"

definition fts_schema_for :: "string \<Rightarrow> fts \<Rightarrow> fts_field list option" where
  "fts_schema_for c ft = aget (ft_schema ft) c"

definition fts_set_schema :: "string \<Rightarrow> fts_field list \<Rightarrow> fts \<Rightarrow> fts" where
  "fts_set_schema c decls ft =
     ft\<lparr>ft_fields := fold (\<lambda>f. aput (c, ff_field f) (fts_new f)) decls (drop_fields c (ft_fields ft)),
        ft_schema := aput c decls (ft_schema ft)\<rparr>"

definition fts_index_field :: "unicode \<Rightarrow> string \<Rightarrow> string \<Rightarrow> attrs \<Rightarrow> fts_field \<Rightarrow>
    (string \<times> string, fts_index) amap \<Rightarrow> (string \<times> string, fts_index) amap" where
  "fts_index_field uc c did a f m = (case aget m (c, ff_field f) of
     None \<Rightarrow> m
   | Some ix \<Rightarrow>
       (let s = field_text a (ff_field f) in
        aput (c, ff_field f) (if s = [] then fts_tombstone did ix else fts_index_text uc did s ix) m))"

definition fts_index_doc :: "unicode \<Rightarrow> string \<Rightarrow> string \<Rightarrow> attrs \<Rightarrow> fts \<Rightarrow> fts" where
  "fts_index_doc uc c did a ft = (case aget (ft_schema ft) c of
     None \<Rightarrow> ft
   | Some decls \<Rightarrow> ft\<lparr>ft_fields := fold (fts_index_field uc c did a) decls (ft_fields ft)\<rparr>)"

definition fts_remove_doc :: "string \<Rightarrow> string \<Rightarrow> fts \<Rightarrow> fts" where
  "fts_remove_doc c did ft = (case aget (ft_schema ft) c of
     None \<Rightarrow> ft
   | Some decls \<Rightarrow> ft\<lparr>ft_fields := fold (\<lambda>f m. case aget m (c, ff_field f) of
       None \<Rightarrow> m | Some ix \<Rightarrow> aput (c, ff_field f) (fts_tombstone did ix) m) decls (ft_fields ft)\<rparr>)"

definition fts_drop_collection :: "string \<Rightarrow> fts \<Rightarrow> fts" where
  "fts_drop_collection c ft =
     ft\<lparr>ft_fields := drop_fields c (ft_fields ft), ft_schema := adel c (ft_schema ft)\<rparr>"

definition fts_clear_indexes :: "fts \<Rightarrow> fts" where
  "fts_clear_indexes ft = ft\<lparr>ft_fields := map (\<lambda>(k, ix). (k, fts_new (fi_cfg ix))) (ft_fields ft)\<rparr>"

section \<open>Schema validation\<close>

text \<open>IEEE tests of the two BM25 parameters on their bit patterns: finite and not below zero, finite and within the unit interval.\<close>

definition f32_mag :: "f32 \<Rightarrow> nat" where
  "f32_mag x = unat x mod 2 ^ 31"

definition f32_finite :: "f32 \<Rightarrow> bool" where
  "f32_finite x \<longleftrightarrow> f32_mag x < 255 * 2 ^ 23"

definition f32_nonneg :: "f32 \<Rightarrow> bool" where
  "f32_nonneg x \<longleftrightarrow> unat x < 2 ^ 31 \<or> f32_mag x = 0"

definition f32_unit :: "f32 \<Rightarrow> bool" where
  "f32_unit x \<longleftrightarrow> f32_nonneg x \<and> f32_mag x \<le> 127 * 2 ^ 23"

definition fts_validate :: "fts_field list \<Rightarrow> bool" where
  "fts_validate decls = list_all (\<lambda>f. ff_field f \<noteq> [] \<and>
     f32_finite (ff_k1 f) \<and> f32_nonneg (ff_k1 f) \<and>
     f32_finite (ff_b f) \<and> f32_unit (ff_b f) \<and>
     an_max_token_len (ff_analyzer f) \<noteq> Some 0) decls"

end
