(* ===== verification/DocIndex.thy ===== *)
theory DocIndex
  imports Fts
begin

text \<open>
  The in-RAM document index of the store (\<^verbatim>\<open>src/src/store/mod.rs\<close>): collections of documents, each
  owning one data row per vector name, and the replay of the operation log that rebuilds it.
\<close>

section \<open>Documents and collections\<close>

record doc_entry =
  de_rows :: "(string, nat) amap"
  de_attrs :: attrs

record collection =
  co_meta :: "(string, string) amap"
  co_docs :: "(string, doc_entry) amap"
  co_vector_names :: "string list"

type_synonym collections = "(string, collection) amap"

definition collection_new :: collection where
  "collection_new = \<lparr>co_meta = [], co_docs = [], co_vector_names = []\<rparr>"

definition primary_row :: "doc_entry \<Rightarrow> nat option" where
  "primary_row e = (case aget (de_rows e) DEFAULT_VECTOR of
     Some r \<Rightarrow> Some r
   | None \<Rightarrow> (case de_rows e of [] \<Rightarrow> None | (_, r) # _ \<Rightarrow> Some r))"

text \<open>\<^verbatim>\<open>entry(name).or_insert_with(Collection::new)\<close>.\<close>

definition or_new :: "string \<Rightarrow> collections \<Rightarrow> collection" where
  "or_new c cols = (case aget cols c of Some col \<Rightarrow> col | None \<Rightarrow> collection_new)"

definition ensure_collection :: "string \<Rightarrow> collections \<Rightarrow> collections" where
  "ensure_collection c cols = (case aget cols c of Some _ \<Rightarrow> cols | None \<Rightarrow> aput c collection_new cols)"

definition on_collection :: "string \<Rightarrow> (collection \<Rightarrow> collection) \<Rightarrow> collections \<Rightarrow> collections" where
  "on_collection c f cols = aput c (f (or_new c cols)) cols"

text \<open>How many rows a document, and the documents of a collection, own.\<close>

definition entry_rows :: "doc_entry \<Rightarrow> nat" where
  "entry_rows e = length (de_rows e)"

definition owned_rows :: "doc_entry option \<Rightarrow> nat" where
  "owned_rows e = (case e of None \<Rightarrow> 0 | Some x \<Rightarrow> entry_rows x)"

definition collection_rows :: "collection \<Rightarrow> nat" where
  "collection_rows col = sum_list (map entry_rows (avals (co_docs col)))"

definition put_doc :: "string \<Rightarrow> doc_entry \<Rightarrow> collection \<Rightarrow> collection" where
  "put_doc did e col = col\<lparr>co_docs := aput did e (co_docs col)\<rparr>"

definition remove_doc :: "string \<Rightarrow> collection \<Rightarrow> collection" where
  "remove_doc did col = col\<lparr>co_docs := adel did (co_docs col)\<rparr>"

definition lookup_doc :: "collections \<Rightarrow> string \<Rightarrow> string \<Rightarrow> doc_entry option" where
  "lookup_doc cols c did = Option.bind (aget cols c) (\<lambda>col. aget (co_docs col) did)"

section \<open>Reinforcement stamps\<close>

definition META_EXPIRES_AT :: string where "META_EXPIRES_AT = ''nidus.expires_at''"
definition META_ACCESS_COUNT :: string where "META_ACCESS_COUNT = ''nidus.access_count''"
definition META_LAST_ACCESSED :: string where "META_LAST_ACCESSED = ''nidus.last_accessed''"

definition stamp_attrs :: "int \<Rightarrow> int \<Rightarrow> int option \<Rightarrow> attrs \<Rightarrow> attrs" where
  "stamp_attrs access_count last_accessed expires_at a =
     (let b = aput META_LAST_ACCESSED (VDateTime last_accessed)
            (aput META_ACCESS_COUNT (VInt access_count) a)
      in case expires_at of None \<Rightarrow> b | Some x \<Rightarrow> aput META_EXPIRES_AT (VDateTime x) b)"

definition stamp_doc :: "string \<Rightarrow> int \<Rightarrow> int \<Rightarrow> int option \<Rightarrow> collection \<Rightarrow> collection" where
  "stamp_doc did access_count last_accessed expires_at col = (case aget (co_docs col) did of
     None \<Rightarrow> col
   | Some e \<Rightarrow> put_doc did (e\<lparr>de_attrs := stamp_attrs access_count last_accessed expires_at (de_attrs e)\<rparr>) col)"

section \<open>Replay\<close>

record index_image =
  im_collections :: collections
  im_dead_rows :: nat
  im_fts :: fts
  im_findex :: findex

definition image_empty :: index_image where
  "image_empty = \<lparr>im_collections = [], im_dead_rows = 0, im_fts = fts_default, im_findex = findex_default\<rparr>"

text \<open>Inserting a document under an implicitly created collection: the rows it had are dead.\<close>

definition replay_put :: "string \<Rightarrow> string \<Rightarrow> doc_entry \<Rightarrow> index_image \<Rightarrow> index_image" where
  "replay_put c did e im =
     im\<lparr>im_dead_rows := im_dead_rows im + owned_rows (aget (co_docs (or_new c (im_collections im))) did),
        im_collections := on_collection c (put_doc did e) (im_collections im)\<rparr>"

definition default_field :: "string \<times> language \<Rightarrow> fts_field" where
  "default_field fl = \<lparr>ff_field = fst fl, ff_k1 = 0x3F99999A, ff_b = 0x3F400000,
     ff_analyzer = \<lparr>an_language = snd fl, an_ascii_folding = False, an_max_token_len = None\<rparr>\<rparr>"

fun replay_op :: "nat \<Rightarrow> op \<Rightarrow> index_image \<Rightarrow> index_image" where
  "replay_op row_count (CreateCollection c) im =
     im\<lparr>im_collections := ensure_collection c (im_collections im)\<rparr>"
| "replay_op row_count (DropCollection c) im = (case aget (im_collections im) c of
     None \<Rightarrow> im
   | Some col \<Rightarrow> im\<lparr>im_collections := adel c (im_collections im),
                     im_dead_rows := im_dead_rows im + collection_rows col\<rparr>)"
| "replay_op row_count (SetMeta c meta) im =
     im\<lparr>im_collections := on_collection c (\<lambda>col. col\<lparr>co_meta := meta\<rparr>) (im_collections im)\<rparr>"
| "replay_op row_count (Upsert c did row a) im =
     (if row \<ge> row_count then im
      else replay_put c did \<lparr>de_rows = [(DEFAULT_VECTOR, row)], de_attrs = a\<rparr> im)"
| "replay_op row_count (UpsertText c did a) im = replay_put c did \<lparr>de_rows = [], de_attrs = a\<rparr> im"
| "replay_op row_count (UpsertVectors c did rows a) im =
     (if list_ex (\<lambda>nr. snd nr \<ge> row_count) rows then im
      else replay_put c did \<lparr>de_rows = amap_of_list rows, de_attrs = a\<rparr> im)"
| "replay_op row_count (SetVectorNames c names) im =
     im\<lparr>im_collections := on_collection c (\<lambda>col. col\<lparr>co_vector_names := names\<rparr>) (im_collections im)\<rparr>"
| "replay_op row_count (Delete c did) im = (case aget (im_collections im) c of
     None \<Rightarrow> im
   | Some col \<Rightarrow> (case aget (co_docs col) did of
       None \<Rightarrow> im
     | Some old \<Rightarrow> im\<lparr>im_collections := aput c (remove_doc did col) (im_collections im),
                       im_dead_rows := im_dead_rows im + entry_rows old\<rparr>))"
| "replay_op row_count (SetFtsSchema c decls) im =
     im\<lparr>im_collections := ensure_collection c (im_collections im),
        im_fts := fts_set_schema c (map default_field decls) (im_fts im)\<rparr>"
| "replay_op row_count (SetFtsFields c decls) im =
     im\<lparr>im_collections := ensure_collection c (im_collections im),
        im_fts := fts_set_schema c decls (im_fts im)\<rparr>"
| "replay_op row_count (SetFilterIndex c decls) im =
     im\<lparr>im_collections := ensure_collection c (im_collections im),
        im_findex := fx_set_schema c decls (im_findex im)\<rparr>"
| "replay_op row_count (Reinforce c did access_count last_accessed expires_at) im =
     (case aget (im_collections im) c of
        None \<Rightarrow> im
      | Some col \<Rightarrow> im\<lparr>im_collections :=
          aput c (stamp_doc did access_count last_accessed expires_at col) (im_collections im)\<rparr>)"

definition replay_ops :: "op list \<Rightarrow> nat \<Rightarrow> index_image" where
  "replay_ops ops row_count = fold (replay_op row_count) ops image_empty"

end
