(* ===== verification/Store.thy ===== *)
theory Store
  imports OpLog Segments DocIndex
begin

text \<open>
  The store and its mutations (\<^verbatim>\<open>src/src/store/mod.rs\<close>, \<^verbatim>\<open>src/src/store/write.rs\<close>) over a local
  directory or in memory, outside cluster mode: the document index beside the segment set and
  the operation log. The segment set carries the directory, which the source shares between them.

  What the source computes from outside is an argument: the serialisers, the checksum, the
  Unicode tables, the regex engine, IEEE arithmetic, the clock, and the iteration order of a
  hash map. Derived state that never feeds back (metrics, the scan-order cache, quantised and
  nearest-neighbour indexes, the shared memory tier) is left out, as are allocation failures,
  which return before anything is changed.
\<close>

section \<open>Configuration and environment\<close>

record config =
  cf_dimension :: nat
  cf_distance :: distance
  cf_per_batch :: bool              \<comment> \<open>\<^verbatim>\<open>Fsync::PerBatch\<close>, otherwise \<^verbatim>\<open>OnFlush\<close>\<close>
  cf_read_only :: bool
  cf_max_vector_bytes :: "nat option"
  cf_quantization :: "quantization option"
  cf_ann :: "ann_config option"
  cf_query_threads :: nat
  cf_segment_max_rows :: "nat option"
  cf_segment_index_min_rows :: "nat option"
  cf_mmap :: bool
  cf_at_version :: "nat option"
  cf_history_versions :: "nat option"
  cf_explicit_quantization :: bool
  cf_explicit_ann :: bool
  cf_explicit_query_threads :: bool
  cf_explicit_mmap :: bool

definition apply_profile :: "open_profile \<Rightarrow> config \<Rightarrow> config" where
  "apply_profile p cf = cf\<lparr>
     cf_quantization := (if cf_explicit_quantization cf then cf_quantization cf
       else over (op_quantization p) (cf_quantization cf)),
     cf_ann := (if cf_explicit_ann cf then cf_ann cf else over (op_ann p) (cf_ann cf)),
     cf_query_threads := (if cf_explicit_query_threads cf then cf_query_threads cf
       else (case op_query_threads p of Some n \<Rightarrow> n | None \<Rightarrow> cf_query_threads cf)),
     cf_mmap := (if cf_explicit_mmap cf then cf_mmap cf
       else (case op_mmap p of Some b \<Rightarrow> b | None \<Rightarrow> cf_mmap cf))\<rparr>"

definition config_valid :: "config \<Rightarrow> bool" where
  "config_valid cf \<longleftrightarrow>
     \<not> (cf_quantization cf \<noteq> None \<and> cf_segment_max_rows cf \<noteq> None \<and> cf_segment_index_min_rows cf \<noteq> None) \<and>
     \<not> (cf_at_version cf \<noteq> None \<and> \<not> cf_read_only cf) \<and>
     cf_history_versions cf \<noteq> Some 0 \<and>
     \<not> (map_option qz_kind (cf_quantization cf) = Some Binary \<and> cf_distance cf \<noteq> Cosine)"

text \<open>IEEE single-precision arithmetic of the target.\<close>

record f32_ops =
  f_add :: "f32 \<Rightarrow> f32 \<Rightarrow> f32"
  f_mul :: "f32 \<Rightarrow> f32 \<Rightarrow> f32"
  f_div :: "f32 \<Rightarrow> f32 \<Rightarrow> f32"
  f_sqrt :: "f32 \<Rightarrow> f32"
  f_less :: "f32 \<Rightarrow> f32 \<Rightarrow> bool"

record store_env =
  se_codec :: codec
  se_sidecar :: sidecar_codec
  se_manifest :: manifest_codec
  se_history :: history_codec
  se_fts :: "fts bincode"
  se_findex :: "findex bincode"
  se_fts_key :: "fts \<Rightarrow> byte list"       \<comment> \<open>the serialised schema, behind its version byte\<close>
  se_findex_key :: "findex \<Rightarrow> byte list"
  se_text :: text_env
  se_unicode :: unicode
  se_f32 :: f32_ops
  se_now :: nat
  se_order :: "string list \<Rightarrow> string list"

text \<open>\<^verbatim>\<open>search::normalize\<close>, with \<^verbatim>\<open>1e-12\<close> and \<^verbatim>\<open>1.0\<close> as bit patterns.\<close>

definition normalize :: "f32_ops \<Rightarrow> f32 list \<Rightarrow> f32 list" where
  "normalize ops v =
     (let norm_sq = foldl (f_add ops) 0 (map (\<lambda>x. f_mul ops x x) v); norm = f_sqrt ops norm_sq in
      if f_less ops norm 0x2B8CBCCC \<or> \<not> f32_finite norm then v
      else let inv = f_div ops 0x3F800000 norm in map (\<lambda>x. f_mul ops x inv) v)"

section \<open>The store\<close>

record store =
  st_config :: config
  st_baseline :: config
  st_profile :: open_profile
  st_data :: segments
  st_log :: oplog
  st_collections :: collections
  st_aliases :: "(string, string) amap"
  st_dead_rows :: nat
  st_fts :: fts
  st_fts_dirty :: bool
  st_findex :: findex
  st_findex_dirty :: bool
  st_in_memory :: bool
  st_loaded_log_offset :: nat
  st_defer_barrier :: bool
  st_pending_barrier :: bool
  st_pinned :: "nat option"
  st_pruned_through :: nat

definition on_data :: "(segments, 'a) act \<Rightarrow> (store, 'a) act" where
  "on_data f s = (case f (st_data s) of (r, d) \<Rightarrow> (r, s\<lparr>st_data := d\<rparr>))"

definition on_log :: "(oplog, 'a) act \<Rightarrow> (store, 'a) act" where
  "on_log f s = (case f (st_log s) of (r, l) \<Rightarrow> (r, s\<lparr>st_log := l\<rparr>))"

text \<open>An operation on the store's directory; an in-memory store has none.\<close>

definition on_dir :: "(local_fs, 'a) act \<Rightarrow> 'a \<Rightarrow> (store, 'a) act" where
  "on_dir f absent = on_data (on_fs f absent)"

definition modify :: "(store \<Rightarrow> store) \<Rightarrow> (store, unit) act" where
  "modify f s = (Inr (), f s)"

text \<open>A best-effort step, and a step whose failure is undone before it is reported.\<close>

definition ignoring :: "(store, 'a) act \<Rightarrow> (store, unit) act" where
  "ignoring m s = (Inr (), snd (m s))"

definition recovering :: "(store, 'a) act \<Rightarrow> (store, 'b) act \<Rightarrow> (store, 'a) act" where
  "recovering m undo s = (case m s of
     (Inr x, t) \<Rightarrow> (Inr x, t)
   | (Inl e, t) \<Rightarrow> (case undo t of
       (Inr _, u) \<Rightarrow> (Inl e, u)
     | (Inl e', u) \<Rightarrow> (Inl (Rollback e'), u)))"

definition check_writable :: "(store, unit) act" where
  "check_writable s = (if cf_read_only (st_config s) then (Inl (Sto ReadOnlyStore), s) else (Inr (), s))"

section \<open>Commit points and history\<close>

definition HISTORY_PRUNE_BATCH :: nat where "HISTORY_PRUNE_BATCH = 32"

text \<open>Deleting the aged entries, each best-effort, advances the floor whatever happens.\<close>

fun prune_loop :: "store_env \<Rightarrow> nat list \<Rightarrow> (store, unit) act" where
  "prune_loop env [] = ret ()"
| "prune_loop env (v # vs) =
     andThen (ignoring (on_dir (delete_entry v) ())) (\<lambda>_.
     andThen (modify (\<lambda>s. s\<lparr>st_pruned_through := v\<rparr>)) (\<lambda>_. prune_loop env vs))"

definition prune_history :: "store_env \<Rightarrow> nat \<Rightarrow> nat \<Rightarrow> (store, unit) act" where
  "prune_history env version n s =
     (if version \<le> n then (Inr (), s)
      else let target = version - n in
        if target \<le> st_pruned_through s then (Inr (), s)
        else let start = st_pruned_through s + 1; stop = min target (start + HISTORY_PRUNE_BATCH - 1) in
          andThen (prune_loop env [start..<Suc stop]) (\<lambda>_ t.
            ignoring (on_dir (store_floor (se_history env) (sc_crc (se_sidecar env))
              \<lparr>hf_format_version = HIST_FORMAT_VERSION, hf_oldest_readable = st_pruned_through t + 1\<rparr>) ()) t) s)"

definition record_history_entry :: "store_env \<Rightarrow> manifest \<Rightarrow> (store, unit) act" where
  "record_history_entry env m s = (case cf_history_versions (st_config s) of
     None \<Rightarrow> (Inr (), s)
   | Some n \<Rightarrow>
       (case on_log log_offset s of
          (Inl _, t) \<Rightarrow> (Inr (), t)
        | (Inr off, t) \<Rightarrow>
            let entry = \<lparr>he_format_version = HIST_FORMAT_VERSION, he_version = m_version m,
                  he_dimension = m_dimension m, he_distance = m_distance m, he_segments = m_segments m,
                  he_next_id = m_next_id m, he_row_count = segs_row_count (st_data t),
                  he_log_offset = off, he_profile = m_profile m, he_commit_millis = se_now env,
                  he_aliases = m_aliases m\<rparr>
            in (case on_dir (store_entry (se_history env) (sc_crc (se_sidecar env)) entry) () t of
                  (Inl _, u) \<Rightarrow> (Inr (), u)
                | (Inr _, u) \<Rightarrow> prune_history env (m_version m) n u)))"

definition persist_manifest :: "store_env \<Rightarrow> (store, unit) act" where
  "persist_manifest env s =
     (if st_in_memory s \<or> cf_read_only (st_config s) \<or> ss_persistence (st_data s) = None then (Inr (), s)
      else
        let m = (segs_manifest (st_profile s) (st_data s))\<lparr>m_aliases := st_aliases s\<rparr> in
        andThen (on_dir (manifest_store (se_manifest env) (sc_crc (se_sidecar env)) m) ())
          (\<lambda>_. record_history_entry env m) s)"

definition bump :: "(store, unit) act" where
  "bump = modify (\<lambda>s. s\<lparr>st_data := snd (bump_version (st_data s))\<rparr>)"

definition note_commit_point :: "store_env \<Rightarrow> (store, unit) act" where
  "note_commit_point env s =
     (if st_in_memory s \<or> cf_read_only (st_config s) \<or> cf_history_versions (st_config s) = None
      then (Inr (), s)
      else andThen bump (\<lambda>_. persist_manifest env) s)"

section \<open>Barriers\<close>

definition barrier_now :: "store \<Rightarrow> bool" where
  "barrier_now s \<longleftrightarrow> cf_per_batch (st_config s) \<and> \<not> st_defer_barrier s"

definition set_pending :: "bool \<Rightarrow> (store, unit) act" where
  "set_pending b = modify (\<lambda>s. s\<lparr>st_pending_barrier := b\<rparr>)"

definition sync_both :: "(store, unit) act" where
  "sync_both = andThen (on_data segs_sync) (\<lambda>_. on_log log_sync)"

definition maybe_sync :: "store_env \<Rightarrow> (store, unit) act" where
  "maybe_sync env s =
     (if \<not> barrier_now s then set_pending True s
      else andThen sync_both (\<lambda>_. note_commit_point env) s)"

definition begin_deferred :: "(store, bool) act" where
  "begin_deferred s = (Inr (st_defer_barrier s), s\<lparr>st_defer_barrier := True\<rparr>)"

definition end_deferred :: "bool \<Rightarrow> (store, unit) act" where
  "end_deferred prev = modify (\<lambda>s. s\<lparr>st_defer_barrier := prev\<rparr>)"

definition commit :: "store_env \<Rightarrow> (store, unit) act" where
  "commit env s =
     (if \<not> st_pending_barrier s \<or> \<not> cf_per_batch (st_config s) then (Inr (), s)
      else andThen sync_both (\<lambda>_. andThen (note_commit_point env) (\<lambda>_. set_pending False)) s)"

definition maybe_seal :: "store_env \<Rightarrow> (store, unit) act" where
  "maybe_seal env s = (case cf_segment_max_rows (st_config s) of
     None \<Rightarrow> (Inr (), s)
   | Some m \<Rightarrow>
       if active_rows (st_data s) \<ge> m then
         andThen (on_data (segs_seal (se_sidecar env))) (\<lambda>sealed.
           if sealed then persist_manifest env else ret ()) s
       else (Inr (), s))"

section \<open>Profile and aliases\<close>

definition set_open_profile :: "store_env \<Rightarrow> open_profile \<Rightarrow> (store, unit) act" where
  "set_open_profile env p = andThen check_writable (\<lambda>_ s.
     if \<not> config_valid (apply_profile p (st_baseline s)) then (Inl (Sto ConfigInvalid), s)
     else andThen (modify (\<lambda>s. s\<lparr>st_profile := p\<rparr>)) (\<lambda>_.
          andThen bump (\<lambda>_. persist_manifest env)) s)"

definition clear_open_profile :: "store_env \<Rightarrow> (store, unit) act" where
  "clear_open_profile env = set_open_profile env profile_default"

definition reject_if_alias :: "string \<Rightarrow> string \<Rightarrow> (store, unit) act" where
  "reject_if_alias verb name s = (case aget (st_aliases s) name of
     Some target \<Rightarrow> (Inl (Sto (IsAlias verb name target)), s)
   | None \<Rightarrow> (Inr (), s))"

definition set_alias :: "store_env \<Rightarrow> string \<Rightarrow> string \<Rightarrow> (store, unit) act" where
  "set_alias env name target = andThen check_writable (\<lambda>_ s.
     case validate_alias name target (st_aliases s) of
       Inl e \<Rightarrow> (Inl e, s)
     | Inr _ \<Rightarrow>
         if aget (st_collections s) name \<noteq> None then (Inl (Sto (AliasIsCollection name)), s)
         else if aget (st_collections s) target = None then (Inl (Sto (AliasNoTarget name target)), s)
         else let prior = aget (st_aliases s) name in
           if prior = Some target then (Inr (), s)
           else
             (case andThen (modify (\<lambda>s. s\<lparr>st_aliases := aput name target (st_aliases s)\<rparr>)) (\<lambda>_.
                   andThen bump (\<lambda>_. persist_manifest env)) s of
                (Inr _, t) \<Rightarrow> (Inr (), t)
              | (Inl e, t) \<Rightarrow> (Inl e, t\<lparr>st_aliases := (case prior of
                    Some p \<Rightarrow> aput name p (st_aliases t) | None \<Rightarrow> adel name (st_aliases t))\<rparr>)))"

definition drop_alias :: "store_env \<Rightarrow> string \<Rightarrow> (store, bool) act" where
  "drop_alias env name = andThen check_writable (\<lambda>_ s.
     case aget (st_aliases s) name of
       None \<Rightarrow> (Inr False, s)
     | Some prior \<Rightarrow>
         (case andThen (modify (\<lambda>s. s\<lparr>st_aliases := adel name (st_aliases s)\<rparr>)) (\<lambda>_.
               andThen bump (\<lambda>_. persist_manifest env)) s of
            (Inr _, t) \<Rightarrow> (Inr True, t)
          | (Inl e, t) \<Rightarrow> (Inl e, t\<lparr>st_aliases := aput name prior (st_aliases t)\<rparr>)))"

section \<open>Collections\<close>

definition set_collections :: "(collections \<Rightarrow> collections) \<Rightarrow> (store, unit) act" where
  "set_collections f = modify (\<lambda>s. s\<lparr>st_collections := f (st_collections s)\<rparr>)"

definition append_op :: "store_env \<Rightarrow> op \<Rightarrow> (store, unit) act" where
  "append_op env x = on_log (log_append (se_codec env) x)"

definition create_collection :: "store_env \<Rightarrow> string \<Rightarrow> (store, unit) act" where
  "create_collection env name = andThen check_writable (\<lambda>_ s.
     if aget (st_aliases s) name \<noteq> None then (Inl (Sto (CollectionIsAlias name)), s)
     else if aget (st_collections s) name = None then
       andThen (set_collections (aput name collection_new)) (\<lambda>_.
       andThen (append_op env (CreateCollection name)) (\<lambda>_. maybe_sync env)) s
     else (Inr (), s))"

text \<open>The live indexes forget a dropped collection's schema.\<close>

definition drop_indexes :: "string \<Rightarrow> store \<Rightarrow> store" where
  "drop_indexes name s =
     (let t = (if fts_is_active (st_fts s)
               then s\<lparr>st_fts := fts_drop_collection name (st_fts s), st_fts_dirty := True\<rparr> else s)
      in if fx_is_active (st_findex t)
         then t\<lparr>st_findex := fx_drop_collection name (st_findex t), st_findex_dirty := True\<rparr> else t)"

definition drop_collection :: "store_env \<Rightarrow> string \<Rightarrow> (store, unit) act" where
  "drop_collection env name = andThen check_writable (\<lambda>_.
     andThen (reject_if_alias ''drop_collection'' name) (\<lambda>_ s.
       case List.find (\<lambda>e. snd e = name) (st_aliases s) of
         Some (alias, _) \<Rightarrow> (Inl (Sto (AliasedCollection name alias)), s)
       | None \<Rightarrow>
           (case aget (st_collections s) name of
              None \<Rightarrow> (Inr (), s)
            | Some col \<Rightarrow>
                andThen (modify (\<lambda>s. drop_indexes name
                    (s\<lparr>st_collections := adel name (st_collections s),
                       st_dead_rows := st_dead_rows s + collection_rows col\<rparr>))) (\<lambda>_.
                andThen (append_op env (DropCollection name)) (\<lambda>_. maybe_sync env)) s)))"

text \<open>Documents in id order, as the collections keep them.\<close>

definition fts_index_all :: "unicode \<Rightarrow> string \<Rightarrow> collection \<Rightarrow> fts \<Rightarrow> fts" where
  "fts_index_all uc c col ft = fold (\<lambda>(did, e). fts_index_doc uc c did (de_attrs e)) (co_docs col) ft"

definition fx_index_all :: "text_env \<Rightarrow> string \<Rightarrow> collection \<Rightarrow> findex \<Rightarrow> findex" where
  "fx_index_all te c col fx = fold (\<lambda>(did, e). fx_index_doc te c did (de_attrs e)) (co_docs col) fx"

definition set_fts_schema :: "store_env \<Rightarrow> string \<Rightarrow> fts_field list \<Rightarrow> (store, unit) act" where
  "set_fts_schema env c decls = andThen check_writable (\<lambda>_.
     andThen (reject_if_alias ''set_fts_schema'' c) (\<lambda>_.
     andThen (if fts_validate decls then ret () else fail (Sto SchemaInvalid)) (\<lambda>_.
     andThen (set_collections (ensure_collection c)) (\<lambda>_.
     andThen (append_op env (SetFtsFields c decls)) (\<lambda>_.
     andThen (maybe_sync env) (\<lambda>_.
       modify (\<lambda>s. s\<lparr>st_fts := fts_index_all (se_unicode env) c (or_new c (st_collections s))
                          (fts_set_schema c decls (st_fts s)), st_fts_dirty := True\<rparr>)))))))"

definition set_filter_index :: "store_env \<Rightarrow> string \<Rightarrow> filter_index_field list \<Rightarrow> (store, unit) act" where
  "set_filter_index env c decls = andThen check_writable (\<lambda>_.
     andThen (reject_if_alias ''set_filter_index'' c) (\<lambda>_.
     andThen (if findex_validate decls then ret () else fail (Sto SchemaInvalid)) (\<lambda>_.
     andThen (set_collections (ensure_collection c)) (\<lambda>_.
     andThen (append_op env (SetFilterIndex c decls)) (\<lambda>_.
     andThen (maybe_sync env) (\<lambda>_.
       modify (\<lambda>s. s\<lparr>st_findex := fx_index_all (se_text env) c (or_new c (st_collections s))
                          (fx_set_schema c decls (st_findex s)), st_findex_dirty := True\<rparr>)))))))"

fun validate_vector_names :: "string list \<Rightarrow> string list \<Rightarrow> nidus_error + unit" where
  "validate_vector_names seen [] = Inr ()"
| "validate_vector_names seen (n # ns) =
     (if n = [] then Inl (Rec NameEmpty)
      else if n = DEFAULT_VECTOR then Inl (Rec NameReserved)
      else if n \<in> set seen then Inl (Rec (NameTwice n))
      else validate_vector_names (n # seen) ns)"

definition set_vector_names :: "store_env \<Rightarrow> string \<Rightarrow> string list \<Rightarrow> (store, unit) act" where
  "set_vector_names env c names = andThen check_writable (\<lambda>_.
     andThen (reject_if_alias ''set_vector_names'' c) (\<lambda>_.
     andThen (of_result (validate_vector_names [] names)) (\<lambda>_.
     andThen (set_collections (ensure_collection c)) (\<lambda>_.
     andThen (append_op env (SetVectorNames c names)) (\<lambda>_.
     andThen (maybe_sync env) (\<lambda>_.
       set_collections (on_collection c (\<lambda>col. col\<lparr>co_vector_names := names\<rparr>))))))))"

definition create_collection_with_fts :: "store_env \<Rightarrow> string \<Rightarrow> fts_field list \<Rightarrow> (store, unit) act" where
  "create_collection_with_fts env name decls =
     andThen (create_collection env name) (\<lambda>_. set_fts_schema env name decls)"

definition set_meta :: "store_env \<Rightarrow> string \<Rightarrow> (string, string) amap \<Rightarrow> (store, unit) act" where
  "set_meta env c meta = andThen check_writable (\<lambda>_.
     andThen (set_collections (on_collection c (\<lambda>col. col\<lparr>co_meta := meta\<rparr>))) (\<lambda>_.
     andThen (append_op env (SetMeta c meta)) (\<lambda>_. maybe_sync env)))"

section \<open>Upsert\<close>

fun named_loop :: "nat \<Rightarrow> string list \<Rightarrow> string \<Rightarrow> (string \<times> f32 list) list \<Rightarrow> (string, f32 list) amap \<Rightarrow>
    nidus_error + (string, f32 list) amap" where
  "named_loop dim declared did [] acc = Inr acc"
| "named_loop dim declared did ((name, v) # rest) acc =
     (if length v \<noteq> dim then Inl (Rec (NamedVectorLength name (length v) dim))
      else if name \<notin> set declared then Inl (Rec (UndeclaredVector did name))
      else named_loop dim declared did rest (aput name v acc))"

definition named_vectors :: "nat \<Rightarrow> string list \<Rightarrow> doc_record \<Rightarrow> nidus_error + (string, f32 list) amap" where
  "named_vectors dim declared r =
     (if aget (rec_vectors r) DEFAULT_VECTOR \<noteq> None then Inl (Rec (ReservedVector (rec_id r)))
      else (case rec_vector r of
          None \<Rightarrow> named_loop dim declared (rec_id r) (rec_vectors r) []
        | Some v \<Rightarrow>
            if length v \<noteq> dim then Inl (Data (VectorLength (length v) dim))
            else named_loop dim declared (rec_id r) (rec_vectors r) (aput DEFAULT_VECTOR v [])))"

fun validate_batch :: "nat \<Rightarrow> string list \<Rightarrow> doc_record list \<Rightarrow> nidus_error + (string, f32 list) amap list" where
  "validate_batch dim declared [] = Inr []"
| "validate_batch dim declared (r # rs) = (case named_vectors dim declared r of
     Inl e \<Rightarrow> Inl e
   | Inr named \<Rightarrow> (case validate_batch dim declared rs of Inl e \<Rightarrow> Inl e | Inr rest \<Rightarrow> Inr (named # rest)))"

type_synonym staged_upsert = "string \<times> (string, nat) amap \<times> attrs"

definition rollback :: "nat \<Rightarrow> nat \<Rightarrow> (store, unit) act" where
  "rollback data_mark log_mark =
     andThen (on_log (log_truncate_to log_mark)) (\<lambda>_. on_data (segs_truncate_to data_mark))"

text \<open>Phase 1: one row per named vector, in name order.\<close>

fun append_named :: "store_env \<Rightarrow> nat \<Rightarrow> (string \<times> f32 list) list \<Rightarrow> (string, nat) amap \<Rightarrow> (store, (string, nat) amap) act" where
  "append_named env data_mark [] rows = ret rows"
| "append_named env data_mark ((name, v) # rest) rows = (\<lambda>s.
     let w = (if cf_distance (st_config s) = Cosine then normalize (se_f32 env) v else v) in
     andThen (recovering (on_data (segs_append w)) (on_data (segs_truncate_to data_mark)))
       (\<lambda>row. append_named env data_mark rest (aput name row rows)) s)"

fun append_batch :: "store_env \<Rightarrow> nat \<Rightarrow> (doc_record \<times> (string, f32 list) amap) list \<Rightarrow> (store, staged_upsert list) act" where
  "append_batch env data_mark [] = ret []"
| "append_batch env data_mark ((r, named) # rest) =
     andThen (append_named env data_mark named []) (\<lambda>rows.
     andThen (append_batch env data_mark rest) (\<lambda>staged. ret ((rec_id r, rows, rec_attrs r) # staged)))"

text \<open>Phase 3: the operations of the batch.\<close>

definition staged_op :: "string \<Rightarrow> staged_upsert \<Rightarrow> op" where
  "staged_op c st = (case st of (did, rows, a) \<Rightarrow>
     if rows = [] then UpsertText c did a else UpsertVectors c did rows a)"

definition batch_ops :: "string \<Rightarrow> bool \<Rightarrow> staged_upsert list \<Rightarrow> op list" where
  "batch_ops c need_create staged =
     (if need_create then [CreateCollection c] else []) @ map (staged_op c) staged"

definition append_ops :: "store_env \<Rightarrow> nat \<Rightarrow> nat \<Rightarrow> op list \<Rightarrow> (store, unit) act" where
  "append_ops env data_mark log_mark ops =
     for_each (\<lambda>x. recovering (append_op env x) (rollback data_mark log_mark)) ops"

text \<open>Phase 5: the in-RAM commit of one staged record.\<close>

definition commit_doc :: "store_env \<Rightarrow> string \<Rightarrow> staged_upsert \<Rightarrow> store \<Rightarrow> store" where
  "commit_doc env c st s = (case st of (did, rows, a) \<Rightarrow>
     let col = or_new c (st_collections s) in
     s\<lparr>st_fts := (if fts_is_active (st_fts s) then fts_index_doc (se_unicode env) c did a (st_fts s) else st_fts s),
       st_findex := (if fx_is_active (st_findex s) then fx_index_doc (se_text env) c did a (st_findex s) else st_findex s),
       st_dead_rows := st_dead_rows s + owned_rows (aget (co_docs col) did),
       st_collections := aput c (put_doc did \<lparr>de_rows = rows, de_attrs = a\<rparr> col) (st_collections s)\<rparr>)"

definition mark_dirty :: "store \<Rightarrow> store" where
  "mark_dirty s = s\<lparr>st_fts_dirty := (fts_is_active (st_fts s) \<or> st_fts_dirty s),
     st_findex_dirty := (fx_is_active (st_findex s) \<or> st_findex_dirty s)\<rparr>"

definition commit_batch :: "store_env \<Rightarrow> string \<Rightarrow> bool \<Rightarrow> staged_upsert list \<Rightarrow> store \<Rightarrow> store" where
  "commit_batch env c need_create staged s =
     (let t = (if need_create then s\<lparr>st_collections := aput c collection_new (st_collections s)\<rparr> else s)
      in mark_dirty (fold (commit_doc env c) staged t))"

definition check_cap :: "nat \<Rightarrow> (store, unit) act" where
  "check_cap vector_count s = (case cf_max_vector_bytes (st_config s) of
     None \<Rightarrow> (Inr (), s)
   | Some cap \<Rightarrow>
       let projected = (segs_row_count (st_data s) + vector_count) * segs_dimension (st_data s) * 4 in
       if projected > cap then (Inl (Rec (VectorCap projected cap)), s) else (Inr (), s))"

definition sync_data_phase :: "nat \<Rightarrow> (store, unit) act" where
  "sync_data_phase data_mark s =
     (if barrier_now s then recovering (on_data segs_sync) (on_data (segs_truncate_to data_mark)) s
      else (Inr (), s))"

definition sync_log_phase :: "nat \<Rightarrow> nat \<Rightarrow> (store, unit) act" where
  "sync_log_phase data_mark log_mark s =
     (if barrier_now s then recovering (on_log log_sync) (rollback data_mark log_mark) s
      else set_pending True s)"

definition write_batch :: "store_env \<Rightarrow> string \<Rightarrow> bool \<Rightarrow> (doc_record \<times> (string, f32 list) amap) list \<Rightarrow>
    (store, staged_upsert list) act" where
  "write_batch env c need_create pairs s =
     (let data_mark = segs_row_count (st_data s) in
      andThen (on_log log_offset) (\<lambda>log_mark.
      andThen (append_batch env data_mark pairs) (\<lambda>staged.
      andThen (sync_data_phase data_mark) (\<lambda>_.
      andThen (append_ops env data_mark log_mark (batch_ops c need_create staged)) (\<lambda>_.
      andThen (sync_log_phase data_mark log_mark) (\<lambda>_. ret staged))))) s)"

definition upsert_batch :: "store_env \<Rightarrow> string \<Rightarrow> bool \<Rightarrow> (doc_record \<times> (string, f32 list) amap) list \<Rightarrow> (store, nat) act" where
  "upsert_batch env c need_create pairs =
     andThen (check_cap (sum_list (map (length \<circ> snd) pairs))) (\<lambda>_.
     andThen (write_batch env c need_create pairs) (\<lambda>staged.
     andThen (modify (commit_batch env c need_create staged)) (\<lambda>_ s.
       andThen (if barrier_now s then note_commit_point env else ret ()) (\<lambda>_. ret (length staged)) s)))"

definition upsert_empty :: "store_env \<Rightarrow> string \<Rightarrow> bool \<Rightarrow> (store, nat) act" where
  "upsert_empty env c need_create =
     (if need_create then
        andThen (append_op env (CreateCollection c)) (\<lambda>_.
        andThen (maybe_sync env) (\<lambda>_.
        andThen (set_collections (aput c collection_new)) (\<lambda>_. ret 0)))
      else ret 0)"

definition declared_names :: "string \<Rightarrow> store \<Rightarrow> string list" where
  "declared_names c s = (case aget (st_collections s) c of Some col \<Rightarrow> co_vector_names col | None \<Rightarrow> [])"

definition upsert :: "store_env \<Rightarrow> string \<Rightarrow> doc_record list \<Rightarrow> (store, nat) act" where
  "upsert env c records = andThen check_writable (\<lambda>_ s.
     case validate_batch (segs_dimension (st_data s)) (declared_names c s) records of
       Inl e \<Rightarrow> (Inl e, s)
     | Inr per_record \<Rightarrow>
         let need_create = (aget (st_collections s) c = None) in
         if records = [] then upsert_empty env c need_create s
         else andThen (maybe_seal env) (\<lambda>_. upsert_batch env c need_create (zip records per_record)) s)"

section \<open>Delete\<close>

text \<open>The index forgets a document before the log records it.\<close>

definition forget_doc :: "string \<Rightarrow> string \<Rightarrow> doc_entry \<Rightarrow> store \<Rightarrow> store" where
  "forget_doc c did old s =
     s\<lparr>st_collections := on_collection c (remove_doc did) (st_collections s),
       st_dead_rows := st_dead_rows s + entry_rows old,
       st_fts := fts_remove_doc c did (st_fts s),
       st_findex := fx_remove_doc c did (st_findex s)\<rparr>"

fun delete_loop :: "store_env \<Rightarrow> string \<Rightarrow> string list \<Rightarrow> nat \<Rightarrow> (store, nat) act" where
  "delete_loop env c [] count = ret count"
| "delete_loop env c (did # ids) count = (\<lambda>s.
     case lookup_doc (st_collections s) c did of
       None \<Rightarrow> delete_loop env c ids count s
     | Some old \<Rightarrow>
         andThen (modify (forget_doc c did old)) (\<lambda>_.
         andThen (append_op env (Delete c did)) (\<lambda>_. delete_loop env c ids (Suc count))) s)"

definition delete :: "store_env \<Rightarrow> string \<Rightarrow> string list \<Rightarrow> (store, nat) act" where
  "delete env c ids = andThen check_writable (\<lambda>_ s.
     if aget (st_collections s) c = None then (Inr 0, s)
     else andThen (delete_loop env c ids 0) (\<lambda>count.
       if count > 0 then andThen (maybe_sync env) (\<lambda>_. andThen (modify mark_dirty) (\<lambda>_. ret count))
       else ret count) s)"

definition matching_ids :: "store_env \<Rightarrow> filter_t \<Rightarrow> collection \<Rightarrow> string list" where
  "matching_ids env f col =
     filter (\<lambda>did. case aget (co_docs col) did of
         Some e \<Rightarrow> matches (se_text env) f (de_attrs e) | None \<Rightarrow> False)
       (se_order env (akeys (co_docs col)))"

definition delete_where :: "store_env \<Rightarrow> string \<Rightarrow> filter_t \<Rightarrow> (store, nat) act" where
  "delete_where env c f = andThen check_writable (\<lambda>_ s.
     case aget (st_collections s) c of
       None \<Rightarrow> (Inr 0, s)
     | Some col \<Rightarrow>
         let ids = matching_ids env f col in
         if ids = [] then (Inr 0, s) else delete env c ids s)"

definition sweep_targets :: "store_env \<Rightarrow> filter_t \<Rightarrow> store \<Rightarrow> (string \<times> string list) list" where
  "sweep_targets env f s =
     filter (\<lambda>t. snd t \<noteq> [])
       (map (\<lambda>c. (c, matching_ids env f (or_new c (st_collections s))))
         (se_order env (akeys (st_collections s))))"

definition sweep_pairs :: "(string \<times> string list) list \<Rightarrow> (string \<times> string) list" where
  "sweep_pairs targets = concat (map (\<lambda>(c, ids). map (Pair c) ids) targets)"

fun sweep_commit :: "(string \<times> string) list \<Rightarrow> nat \<Rightarrow> store \<Rightarrow> nat \<times> store" where
  "sweep_commit [] count s = (count, s)"
| "sweep_commit ((c, did) # ps) count s = (case lookup_doc (st_collections s) c did of
     None \<Rightarrow> sweep_commit ps count s
   | Some old \<Rightarrow> sweep_commit ps (Suc count) (forget_doc c did old s))"

definition delete_where_all :: "store_env \<Rightarrow> filter_t \<Rightarrow> (store, nat) act" where
  "delete_where_all env f = andThen check_writable (\<lambda>_ s.
     let targets = sweep_targets env f s; pairs = sweep_pairs targets in
     if targets = [] then (Inr 0, s)
     else andThen (on_log log_offset) (\<lambda>log_mark.
       andThen (for_each (\<lambda>(c, did). recovering (append_op env (Delete c did)) (on_log (log_truncate_to log_mark))) pairs) (\<lambda>_.
       andThen (recovering (maybe_sync env) (on_log (log_truncate_to log_mark))) (\<lambda>_ t.
         case sweep_commit pairs 0 t of (count, u) \<Rightarrow>
           (Inr count, if count > 0 then mark_dirty u else u)))) s)"

section \<open>Reinforcement\<close>

definition is_reinforced_attr :: "string \<Rightarrow> bool" where
  "is_reinforced_attr field \<longleftrightarrow>
     field = META_ACCESS_COUNT \<or> field = META_LAST_ACCESSED \<or> field = META_EXPIRES_AT"

definition next_count :: "attrs \<Rightarrow> int" where
  "next_count a = (case aget a META_ACCESS_COUNT of Some (VInt n) \<Rightarrow> sat_add n 1 | _ \<Rightarrow> 1)"

definition next_expiry :: "attrs \<Rightarrow> int \<Rightarrow> int option \<Rightarrow> int option" where
  "next_expiry a now_ms extend_ttl_seconds =
     Option.bind extend_ttl_seconds (\<lambda>secs. case aget a META_EXPIRES_AT of
         Some (VDateTime cur) \<Rightarrow> Some (max cur (sat_add now_ms (sat_mul secs 1000)))
       | _ \<Rightarrow> None)"

type_synonym stamp = "string \<times> int \<times> int option"

definition stamps_for :: "collection \<Rightarrow> string list \<Rightarrow> int \<Rightarrow> int option \<Rightarrow> stamp list" where
  "stamps_for col ids now_ms ttl =
     List.map_filter (\<lambda>did. map_option (\<lambda>e. (did, next_count (de_attrs e), next_expiry (de_attrs e) now_ms ttl))
       (aget (co_docs col) did)) ids"

definition stamp_op :: "string \<Rightarrow> int \<Rightarrow> stamp \<Rightarrow> op" where
  "stamp_op c now_ms st = (case st of (did, n, x) \<Rightarrow> Reinforce c did n now_ms x)"

definition fts_stamped :: "string \<Rightarrow> store \<Rightarrow> bool" where
  "fts_stamped c s \<longleftrightarrow> fts_is_active (st_fts s) \<and>
     (case fts_schema_for c (st_fts s) of None \<Rightarrow> False | Some d \<Rightarrow> list_ex (\<lambda>f. is_reinforced_attr (ff_field f)) d)"

definition fx_stamped :: "string \<Rightarrow> store \<Rightarrow> bool" where
  "fx_stamped c s \<longleftrightarrow> fx_is_active (st_findex s) \<and>
     (case fx_schema_for c (st_findex s) of None \<Rightarrow> False | Some d \<Rightarrow> list_ex (\<lambda>f. is_reinforced_attr (fi_field f)) d)"

definition commit_stamp :: "store_env \<Rightarrow> string \<Rightarrow> int \<Rightarrow> stamp \<Rightarrow> store \<Rightarrow> store" where
  "commit_stamp env c now_ms st s = (case st of (did, n, x) \<Rightarrow>
     let col = stamp_doc did n now_ms x (or_new c (st_collections s)) in
     case aget (co_docs col) did of
       None \<Rightarrow> s
     | Some e \<Rightarrow> s\<lparr>st_collections := aput c col (st_collections s),
         st_fts := (if fts_stamped c s then fts_index_doc (se_unicode env) c did (de_attrs e) (st_fts s) else st_fts s),
         st_findex := (if fx_stamped c s then fx_index_doc (se_text env) c did (de_attrs e) (st_findex s) else st_findex s)\<rparr>)"

definition mark_stamped :: "string \<Rightarrow> store \<Rightarrow> store" where
  "mark_stamped c s = s\<lparr>st_fts_dirty := (fts_stamped c s \<or> st_fts_dirty s),
     st_findex_dirty := (fx_stamped c s \<or> st_findex_dirty s)\<rparr>"

definition reinforce :: "store_env \<Rightarrow> string \<Rightarrow> string list \<Rightarrow> int \<Rightarrow> int option \<Rightarrow> (store, nat) act" where
  "reinforce env c ids now_ms ttl = andThen check_writable (\<lambda>_ s.
     case aget (st_collections s) c of
       None \<Rightarrow> (Inr 0, s)
     | Some col \<Rightarrow>
         let stamps = stamps_for col ids now_ms ttl; data_mark = segs_row_count (st_data s) in
         if stamps = [] then (Inr 0, s)
         else andThen (on_log log_offset) (\<lambda>log_mark.
           andThen (append_ops env data_mark log_mark (map (stamp_op c now_ms) stamps)) (\<lambda>_.
           andThen (sync_log_phase data_mark log_mark) (\<lambda>_.
           andThen (modify (\<lambda>t. mark_stamped c (fold (commit_stamp env c now_ms) stamps t))) (\<lambda>_ t.
             andThen (if barrier_now t then note_commit_point env else ret ()) (\<lambda>_. ret (length stamps)) t)))) s)"

section \<open>Derived indexes\<close>

definition rebuild_fts :: "store_env \<Rightarrow> store \<Rightarrow> store" where
  "rebuild_fts env s =
     (if \<not> fts_is_active (st_fts s) then s
      else s\<lparr>st_fts := fold (\<lambda>(c, col) ft. if fts_schema_for c ft = None then ft
                                           else fts_index_all (se_unicode env) c col ft)
                         (st_collections s) (fts_clear_indexes (st_fts s)),
             st_fts_dirty := True\<rparr>)"

definition rebuild_findex :: "store_env \<Rightarrow> store \<Rightarrow> store" where
  "rebuild_findex env s =
     (if \<not> fx_is_active (st_findex s) then s
      else s\<lparr>st_findex := fold (\<lambda>(c, col) fx. if fx_schema_for c fx = None then fx
                                              else fx_index_all (se_text env) c col fx)
                            (st_collections s) (fx_clear_indexes (st_findex s)),
             st_findex_dirty := True\<rparr>)"

definition persist_fts :: "store_env \<Rightarrow> (store, unit) act" where
  "persist_fts env s =
     (if \<not> fts_is_active (st_fts s) \<or> \<not> st_fts_dirty s then (Inr (), s)
      else andThen (on_log log_offset) (\<lambda>watermark t.
        if ss_persistence (st_data t) = None then (Inr (), t)
        else andThen (on_dir (cache_save (se_fts env) (sc_crc (se_sidecar env)) ''fts'' (se_fts_key env (st_fts t))
               (word_of_nat watermark) (st_fts t)) ())
             (\<lambda>_. modify (\<lambda>u. u\<lparr>st_fts_dirty := False\<rparr>)) t) s)"

definition persist_findex :: "store_env \<Rightarrow> (store, unit) act" where
  "persist_findex env s =
     (if \<not> fx_is_active (st_findex s) \<or> \<not> st_findex_dirty s then (Inr (), s)
      else andThen (on_log log_offset) (\<lambda>watermark t.
        if ss_persistence (st_data t) = None then (Inr (), t)
        else andThen (on_dir (cache_save (se_findex env) (sc_crc (se_sidecar env)) ''findex'' (se_findex_key env (st_findex t))
               (word_of_nat watermark) (st_findex t)) ())
             (\<lambda>_. modify (\<lambda>u. u\<lparr>st_findex_dirty := False\<rparr>)) t) s)"

definition persist_index :: "store_env \<Rightarrow> (store, unit) act" where
  "persist_index env s =
     (if st_in_memory s \<or> cf_read_only (st_config s) then (Inr (), s)
      else andThen (persist_fts env) (\<lambda>_. persist_findex env) s)"

text \<open>A cache is adopted when it was saved for this schema at this log offset.\<close>

definition load_or_build_fts :: "store_env \<Rightarrow> (store, unit) act" where
  "load_or_build_fts env s =
     (if \<not> fts_is_active (st_fts s) then (Inr (), s)
      else andThen (on_log log_offset) (\<lambda>current t.
        if ss_persistence (st_data t) = None then (Inr (), rebuild_fts env t)
        else andThen (on_dir (cache_load (se_fts env) (sc_crc (se_sidecar env)) ''fts'' (se_fts_key env (st_fts t))) None)
          (\<lambda>loaded. case loaded of
              Some (cached, watermark) \<Rightarrow>
                if unat watermark = current then modify (\<lambda>u. u\<lparr>st_fts := cached, st_fts_dirty := False\<rparr>)
                else modify (rebuild_fts env)
            | None \<Rightarrow> modify (rebuild_fts env)) t) s)"

definition load_or_build_findex :: "store_env \<Rightarrow> (store, unit) act" where
  "load_or_build_findex env s =
     (if \<not> fx_is_active (st_findex s) then (Inr (), s)
      else andThen (on_log log_offset) (\<lambda>current t.
        if ss_persistence (st_data t) = None then (Inr (), rebuild_findex env t)
        else andThen (on_dir (cache_load (se_findex env) (sc_crc (se_sidecar env)) ''findex'' (se_findex_key env (st_findex t))) None)
          (\<lambda>loaded. case loaded of
              Some (cached, watermark) \<Rightarrow>
                if unat watermark = current then modify (\<lambda>u. u\<lparr>st_findex := cached, st_findex_dirty := False\<rparr>)
                else modify (rebuild_findex env)
            | None \<Rightarrow> modify (rebuild_findex env)) t) s)"

section \<open>Flush and integrity\<close>

definition active_bytes :: "segments \<Rightarrow> byte list" where
  "active_bytes d =
     (let rows = active_rows d; base = segs_row_count d - rows in
      concat (map (\<lambda>r. floats_to_bytes (case segs_row d r of Some v \<Rightarrow> v | None \<Rightarrow> [])) [base..<base + rows]))"

definition refresh_active_checksum :: "store_env \<Rightarrow> (store, unit) act" where
  "refresh_active_checksum env s =
     (if st_in_memory s \<or> cf_read_only (st_config s) \<or> ss_persistence (st_data s) = None then (Inr (), s)
      else if segment_names (st_data s) = [] then (Inl (Segs NoSegments), s)
      else
        let name = last (segment_names (st_data s)); dim = segs_dimension (st_data s);
            rows = active_rows (st_data s);
            c = sc_crc (se_sidecar env) (active_bytes (st_data s));
            key = checksum_key name dim (cf_distance (st_config s))
        in on_dir (checksum_save (sc_u32 (se_sidecar env)) (sc_crc (se_sidecar env)) name key rows c) () s)"

definition flush :: "store_env \<Rightarrow> (store, unit) act" where
  "flush env = andThen check_writable (\<lambda>_.
     andThen sync_both (\<lambda>_ s.
       andThen (if \<not> cf_per_batch (st_config s) \<or> st_pending_barrier s then note_commit_point env else ret ()) (\<lambda>_.
       andThen (set_pending False) (\<lambda>_.
       andThen (maybe_seal env) (\<lambda>_.
         ignoring (refresh_active_checksum env)))) s))"

definition verify_integrity :: "store_env \<Rightarrow> (store, (string \<times> segment_integrity) list) act" where
  "verify_integrity env s =
     (let names = segment_names (st_data s) in
      andThen (on_data (verify_checksums (se_sidecar env))) (\<lambda>rs. ret (zip names rs)) s)"

section \<open>Compaction\<close>

record plan =
  pl_ops :: "op list"
  pl_rows :: "f32 list list"
  pl_next :: nat

text \<open>The rows of one document, moved in name order; \<^verbatim>\<open>data.row\<close> panics past the matrix.\<close>

fun plan_rows :: "segments \<Rightarrow> (string \<times> nat) list \<Rightarrow> nat \<Rightarrow> nidus_error + ((string, nat) amap \<times> f32 list list)" where
  "plan_rows d [] next_row = Inr ([], [])"
| "plan_rows d ((name, r) # rest) next_row = (case segs_row d r of
     None \<Rightarrow> Inl (Segs (RowPanic r))
   | Some v \<Rightarrow> (case plan_rows d rest (Suc next_row) of
       Inl e \<Rightarrow> Inl e
     | Inr (assigned, vs) \<Rightarrow> Inr ((name, next_row) # assigned, v # vs)))"

definition plan_doc :: "segments \<Rightarrow> string \<Rightarrow> string \<Rightarrow> doc_entry \<Rightarrow> plan \<Rightarrow> nidus_error + plan \<times> doc_entry" where
  "plan_doc d c did e pl =
     (if de_rows e = [] then Inr (pl\<lparr>pl_ops := pl_ops pl @ [UpsertText c did (de_attrs e)]\<rparr>, e)
      else (case plan_rows d (de_rows e) (pl_next pl) of
          Inl err \<Rightarrow> Inl err
        | Inr (assigned, vs) \<Rightarrow>
            Inr (\<lparr>pl_ops = pl_ops pl @ [UpsertVectors c did assigned (de_attrs e)],
                  pl_rows = pl_rows pl @ vs, pl_next = pl_next pl + length vs\<rparr>,
                 e\<lparr>de_rows := assigned\<rparr>)))"

fun plan_docs :: "segments \<Rightarrow> string \<Rightarrow> (string \<times> doc_entry) list \<Rightarrow> plan \<Rightarrow> nidus_error + plan \<times> (string, doc_entry) amap" where
  "plan_docs d c [] pl = Inr (pl, [])"
| "plan_docs d c ((did, e) # rest) pl = (case plan_doc d c did e pl of
     Inl err \<Rightarrow> Inl err
   | Inr (pl', e') \<Rightarrow> (case plan_docs d c rest pl' of
       Inl err \<Rightarrow> Inl err
     | Inr (pl'', es) \<Rightarrow> Inr (pl'', (did, e') # es)))"

definition header_ops :: "string \<Rightarrow> collection \<Rightarrow> fts \<Rightarrow> findex \<Rightarrow> op list" where
  "header_ops c col ft fx =
     [CreateCollection c]
     @ (if co_meta col \<noteq> [] then [SetMeta c (co_meta col)] else [])
     @ (case fts_schema_for c ft of Some decls \<Rightarrow> [SetFtsFields c decls] | None \<Rightarrow> [])
     @ (case fx_schema_for c fx of Some decls \<Rightarrow> [SetFilterIndex c decls] | None \<Rightarrow> [])
     @ (if co_vector_names col \<noteq> [] then [SetVectorNames c (co_vector_names col)] else [])"

fun plan_collections :: "segments \<Rightarrow> fts \<Rightarrow> findex \<Rightarrow> (string \<times> collection) list \<Rightarrow> plan \<Rightarrow> nidus_error + plan \<times> collections" where
  "plan_collections d ft fx [] pl = Inr (pl, [])"
| "plan_collections d ft fx ((c, col) # rest) pl =
     (case plan_docs d c (co_docs col) (pl\<lparr>pl_ops := pl_ops pl @ header_ops c col ft fx\<rparr>) of
        Inl err \<Rightarrow> Inl err
      | Inr (pl', docs) \<Rightarrow> (case plan_collections d ft fx rest pl' of
          Inl err \<Rightarrow> Inl err
        | Inr (pl'', cols) \<Rightarrow> Inr (pl'', (c, col\<lparr>co_docs := docs\<rparr>) # cols)))"

definition compact_plan :: "store \<Rightarrow> nidus_error + plan \<times> collections" where
  "compact_plan s = plan_collections (st_data s) (st_fts s) (st_findex s) (st_collections s)
     \<lparr>pl_ops = [], pl_rows = [], pl_next = 0\<rparr>"

text \<open>The history fence, written before the rewrite.\<close>

definition compact_fence :: "store_env \<Rightarrow> (store, nat option) act" where
  "compact_fence env s =
     (if ss_persistence (st_data s) = None then (Inr None, s)
      else andThen (on_dir list_versions []) (\<lambda>versions t.
        if versions = [] then (Inr None, t)
        else let oldest = ss_version (st_data t) + 1 in
          andThen (on_dir (store_floor (se_history env) (sc_crc (se_sidecar env))
              \<lparr>hf_format_version = HIST_FORMAT_VERSION, hf_oldest_readable = oldest\<rparr>) ()) (\<lambda>_.
          andThen (modify (\<lambda>u. u\<lparr>st_pruned_through := max (st_pruned_through u) (oldest - 1)\<rparr>)) (\<lambda>_.
            ret (Some oldest))) t) s)"

definition ignore_each :: "('a \<Rightarrow> (store, unit) act) \<Rightarrow> 'a list \<Rightarrow> (store, unit) act" where
  "ignore_each f xs = for_each (\<lambda>x. ignoring (f x)) xs"

definition segment_object_name :: "string \<Rightarrow> string" where
  "segment_object_name name = name @ ''.ivf''"

definition compact_files :: "store_env \<Rightarrow> plan \<Rightarrow> nat \<Rightarrow> nat option \<Rightarrow> (store, unit) act" where
  "compact_files env pl prior fence =
     andThen (on_data (segs_rewrite (se_sidecar env) (concat (pl_rows pl)))) (\<lambda>dropped.
     andThen (on_log (log_rewrite (se_codec env) (pl_ops pl))) (\<lambda>_.
     andThen (persist_manifest env) (\<lambda>_.
     andThen (ignore_each (\<lambda>name. on_dir (fs_delete name) ()) dropped) (\<lambda>_.
     andThen (case fence of
         None \<Rightarrow> ret ()
       | Some oldest \<Rightarrow> ignore_each (\<lambda>v. on_dir (delete_entry v) ()) (take HISTORY_PRUNE_BATCH [prior + 1..<oldest])) (\<lambda>_.
       ignore_each (\<lambda>name. on_dir (fs_delete (segment_object_name name)) ()) (dropped @ [BASE_SEGMENT]))))))"

definition compact :: "store_env \<Rightarrow> (store, unit) act" where
  "compact env = andThen check_writable (\<lambda>_ s.
     case compact_plan s of
       Inl e \<Rightarrow> (Inl e, s)
     | Inr (pl, cols) \<Rightarrow>
         andThen (compact_fence env) (\<lambda>fence.
         andThen (compact_files env pl (st_pruned_through s) fence) (\<lambda>_.
         andThen (modify (\<lambda>t. rebuild_findex env (rebuild_fts env
             (t\<lparr>st_collections := cols, st_dead_rows := 0\<rparr>)))) (\<lambda>_.
           ignoring (persist_index env)))) s)"

end
