(* ===== verification/StoreOpen.thy ===== *)
theory StoreOpen
  imports Store
begin

text \<open>
  Opening a store and following a writer (\<^verbatim>\<open>Store::open_with\<close>, \<^verbatim>\<open>resolve_pinned_entry\<close>, \<^verbatim>\<open>refresh\<close>,
  \<^verbatim>\<open>refresh_to\<close> and \<^verbatim>\<open>versions\<close> of \<^verbatim>\<open>src/src/store/mod.rs\<close>), over a local directory without the memory
  tier, with automatic compaction off and the writer lock already held.
\<close>

section \<open>Pinned versions\<close>

definition env_crc :: "store_env \<Rightarrow> crc32" where
  "env_crc env = sc_crc (se_sidecar env)"

definition resolve_pinned_entry :: "store_env \<Rightarrow> config \<Rightarrow> nat \<Rightarrow> (local_fs, history_entry) act" where
  "resolve_pinned_entry env cf version =
     andThen (manifest_load (se_manifest env) (env_crc env)) (\<lambda>m.
       let current = (case m of Some x \<Rightarrow> m_version x | None \<Rightarrow> 0) in
       if version > current then fail (Sto (VersionFuture version current))
       else andThen (load_floor (se_history env) (env_crc env)) (\<lambda>lowest.
         andThen (load_entry (se_history env) (env_crc env) version) (\<lambda>entry.
           case entry of
             Some e \<Rightarrow>
               if (case lowest of Some f \<Rightarrow> version \<ge> hf_oldest_readable f | None \<Rightarrow> True) then
                 if he_dimension e \<noteq> cf_dimension cf then fail (Sto (StoreDimension (he_dimension e) (cf_dimension cf)))
                 else if he_distance e \<noteq> cf_distance cf then fail (Sto StoreDistance)
                 else ret e
               else fail (Sto (VersionGone version))
           | None \<Rightarrow>
               (case lowest of
                  Some _ \<Rightarrow> fail (Sto (VersionGone version))
                | None \<Rightarrow> andThen list_versions (\<lambda>_. fail (Sto (VersionGone version)))))))"

section \<open>Open\<close>

definition resolve_manifest :: "config \<Rightarrow> history_entry option \<Rightarrow> manifest option \<Rightarrow> (local_fs, manifest) act" where
  "resolve_manifest cf pinned on_disk = (case pinned of
     Some e \<Rightarrow> ret (entry_manifest e)
   | None \<Rightarrow> (case on_disk of
       Some m \<Rightarrow>
         if m_dimension m \<noteq> cf_dimension cf then fail (Sto (StoreDimension (m_dimension m) (cf_dimension cf)))
         else if m_distance m \<noteq> cf_distance cf then fail (Sto StoreDistance)
         else ret m
     | None \<Rightarrow> ret (manifest_fresh (cf_dimension cf) (cf_distance cf))))"

definition require_valid :: "config \<Rightarrow> ('s, unit) act" where
  "require_valid cf = (if config_valid cf then ret () else fail (Sto ConfigInvalid))"

definition check_pinned_rows :: "history_entry option \<Rightarrow> segments \<Rightarrow> ('s, unit) act" where
  "check_pinned_rows pinned data = (case pinned of
     Some e \<Rightarrow> if segs_row_count data < he_row_count e then fail (Sto (VersionGone (he_version e))) else ret ()
   | None \<Rightarrow> ret ())"

text \<open>The log: bounded to the pinned commit's length, or whole with its torn tail cut off.\<close>

definition open_log :: "store_env \<Rightarrow> history_entry option \<Rightarrow> (local_fs, oplog \<times> op list \<times> nat) act" where
  "open_log env pinned =
     andThen (appender_for ''log'') (\<lambda>ap. case pinned of
         Some e \<Rightarrow> (\<lambda>p. case log_open_bounded (se_codec env) (he_log_offset e) ap of
             (Inl err, _) \<Rightarrow> (Inl err, p)
           | (Inr ops, log) \<Rightarrow> (Inr (log, ops, he_log_offset e), p))
       | None \<Rightarrow> (\<lambda>p. case andThen (log_open_with (se_codec env)) (\<lambda>ops. andThen log_offset (\<lambda>w. ret (ops, w))) ap of
             (Inl err, _) \<Rightarrow> (Inl err, p)
           | (Inr (ops, w), log) \<Rightarrow> (Inr (log, ops, w), p)))"

definition fresh_store :: "config \<Rightarrow> config \<Rightarrow> manifest \<Rightarrow> segments \<Rightarrow> oplog \<Rightarrow> index_image \<Rightarrow> nat \<Rightarrow> nat \<Rightarrow> store" where
  "fresh_store cf baseline m data log im watermark pruned =
     \<lparr>st_config = cf, st_baseline = baseline, st_profile = m_profile m, st_data = data, st_log = log,
      st_collections = im_collections im, st_aliases = m_aliases m, st_dead_rows = im_dead_rows im,
      st_fts = im_fts im, st_fts_dirty = False, st_findex = im_findex im, st_findex_dirty = False,
      st_in_memory = False, st_loaded_log_offset = watermark, st_defer_barrier = False,
      st_pending_barrier = False, st_pinned = cf_at_version cf, st_pruned_through = pruned\<rparr>"

text \<open>The store takes the directory over; the caches of the derived indexes are read last.\<close>

definition take_over :: "store_env \<Rightarrow> store \<Rightarrow> (local_fs, store) act" where
  "take_over env s p =
     (let s' = s\<lparr>st_data := (st_data s)\<lparr>ss_persistence := Some p\<rparr>\<rparr> in
      case andThen (load_or_build_fts env) (\<lambda>_. load_or_build_findex env) s' of
        (r, t) \<Rightarrow> ((case r of Inl e \<Rightarrow> Inl e | Inr _ \<Rightarrow> Inr t),
                   (case ss_persistence (st_data t) of Some q \<Rightarrow> q | None \<Rightarrow> p)))"

definition oldest_pruned :: "history_floor option \<Rightarrow> nat" where
  "oldest_pruned lowest = (case lowest of Some f \<Rightarrow> hf_oldest_readable f - 1 | None \<Rightarrow> 0)"

definition open_with :: "store_env \<Rightarrow> config \<Rightarrow> (local_fs, store) act" where
  "open_with env cf0 =
     andThen (require_valid cf0) (\<lambda>_.
     andThen (case cf_at_version cf0 of
         Some v \<Rightarrow> andThen (resolve_pinned_entry env cf0 v) (\<lambda>e. ret (Some e)) | None \<Rightarrow> ret None) (\<lambda>pinned.
     andThen (if pinned = None then manifest_load (se_manifest env) (env_crc env) else ret None) (\<lambda>on_disk.
     andThen (resolve_manifest cf0 pinned on_disk) (\<lambda>m.
     let cf = apply_profile (m_profile m) cf0 in
     andThen (require_valid cf) (\<lambda>_.
     andThen (segs_open m (cf_max_vector_bytes cf) (cf_mmap cf)) (\<lambda>data.
     andThen (check_pinned_rows pinned data) (\<lambda>_.
     andThen (if on_disk = None \<and> pinned = None \<and> \<not> cf_read_only cf
         then manifest_store (se_manifest env) (env_crc env) (segs_manifest (m_profile m) data) else ret ()) (\<lambda>_.
     andThen (open_log env pinned) (\<lambda>(log, ops, watermark).
     andThen (load_floor (se_history env) (env_crc env)) (\<lambda>lowest.
       let bound = (case pinned of Some e \<Rightarrow> he_row_count e | None \<Rightarrow> segs_row_count data) in
       take_over env (fresh_store cf cf0 m data log (replay_ops ops bound) watermark (oldest_pruned lowest))))))))))))"

text \<open>An in-memory store.\<close>

definition in_memory_cfg :: "config \<Rightarrow> nidus_error + store" where
  "in_memory_cfg cf =
     (if \<not> config_valid cf then Inl (Sto ConfigInvalid)
      else Inr \<lparr>st_config = cf, st_baseline = cf, st_profile = profile_default,
        st_data = segs_in_memory_with (cf_dimension cf) (cf_distance cf), st_log = log_in_memory,
        st_collections = [], st_aliases = [], st_dead_rows = 0, st_fts = fts_default, st_fts_dirty = False,
        st_findex = findex_default, st_findex_dirty = False, st_in_memory = True, st_loaded_log_offset = 0,
        st_defer_barrier = False, st_pending_barrier = False, st_pinned = None, st_pruned_through = 0\<rparr>)"

section \<open>Refresh\<close>

text \<open>
  The directory a reader looks at is the writer's: it is handed in as the state the writer has
  left it in, with the length the reader's own log handle reports. Adopting a snapshot replaces
  everything the log and the manifest determine.
\<close>

definition adopt :: "manifest \<Rightarrow> segments \<Rightarrow> oplog \<Rightarrow> index_image \<Rightarrow> nat \<Rightarrow> store \<Rightarrow> store" where
  "adopt m data log im watermark s =
     (let merged = apply_profile (m_profile m) (st_baseline s) in
      s\<lparr>st_data := data, st_log := log, st_collections := im_collections im, st_dead_rows := im_dead_rows im,
        st_fts := im_fts im, st_findex := im_findex im, st_loaded_log_offset := watermark,
        st_profile := m_profile m, st_aliases := m_aliases m,
        st_config := (st_config s)\<lparr>cf_query_threads := cf_query_threads merged,
          cf_quantization := cf_quantization merged, cf_ann := cf_ann merged\<rparr>\<rparr>)"

definition stage_segments :: "manifest \<Rightarrow> store \<Rightarrow> (local_fs, segments) act" where
  "stage_segments m s p =
     (if \<not> segment_names_match (m_segments m) (st_data s) then
        segs_open m (cf_max_vector_bytes (st_config s)) (cf_mmap (st_config s)) p
      else (case reopen_active (cf_max_vector_bytes (st_config s)) ((st_data s)\<lparr>ss_persistence := Some p\<rparr>) of
          (r, d) \<Rightarrow> ((case r of Inl e \<Rightarrow> Inl e | Inr staged \<Rightarrow> Inr (install_active staged (m_version m) d)),
                     (case ss_persistence d of Some q \<Rightarrow> q | None \<Rightarrow> p))))"

definition refresh_load :: "store_env \<Rightarrow> manifest \<Rightarrow> store \<Rightarrow> (local_fs, segments \<times> oplog \<times> op list \<times> nat) act" where
  "refresh_load env m s =
     andThen (stage_segments m s) (\<lambda>data.
     andThen (open_log env None) (\<lambda>(log, ops, watermark). ret (data, log, ops, watermark)))"

definition refresh :: "store_env \<Rightarrow> local_fs \<Rightarrow> nat \<Rightarrow> store \<Rightarrow> (nidus_error + bool) \<times> store" where
  "refresh env world handle_len s =
     (if st_in_memory s \<or> \<not> cf_read_only (st_config s) \<or> st_pinned s \<noteq> None then (Inr False, s)
      else
        (case andThen (manifest_load (se_manifest env) (env_crc env)) (resolve_manifest (st_config s) None) world of
           (Inl e, _) \<Rightarrow> (Inl e, s)
         | (Inr m, p) \<Rightarrow>
             if m_version m = ss_version (st_data s) \<and> handle_len = st_loaded_log_offset s then (Inr False, s)
             else (case refresh_load env m s p of
                 (Inl e, _) \<Rightarrow> (Inl e, s)
               | (Inr (data, log, ops, watermark), q) \<Rightarrow>
                   let t = adopt m (data\<lparr>ss_persistence := Some q\<rparr>) log
                         (replay_ops ops (segs_row_count data)) watermark s
                   in andThen (load_or_build_fts env) (\<lambda>_. andThen (load_or_build_findex env) (\<lambda>_. ret True)) t)))"

definition refresh_to :: "store_env \<Rightarrow> local_fs \<Rightarrow> nat \<Rightarrow> store \<Rightarrow> (nidus_error + unit) \<times> store" where
  "refresh_to env world version s =
     (if st_in_memory s \<or> \<not> cf_read_only (st_config s) then (Inl (Sto RefreshRefused), s)
      else
        (case andThen (resolve_pinned_entry env (st_config s) version) (\<lambda>e.
              andThen (segs_open (entry_manifest e) (cf_max_vector_bytes (st_config s)) (cf_mmap (st_config s))) (\<lambda>data.
              andThen (check_pinned_rows (Some e) data) (\<lambda>_.
              andThen (open_log env (Some e)) (\<lambda>(log, ops, _). ret (e, data, log, ops))))) world of
           (Inl e, _) \<Rightarrow> (Inl e, s)
         | (Inr (e, data, log, ops), q) \<Rightarrow>
             let t = (adopt (entry_manifest e) (data\<lparr>ss_persistence := Some q\<rparr>) log
                   (replay_ops ops (he_row_count e)) (he_log_offset e) s)\<lparr>st_pinned := Some version\<rparr>
             in andThen (load_or_build_fts env) (\<lambda>_. load_or_build_findex env) t))"

section \<open>The version landscape\<close>

record store_versions =
  sv_commit_version :: nat
  sv_oldest_readable :: "nat option"
  sv_pinned :: "nat option"
  sv_readable :: "nat list"

definition versions :: "store_env \<Rightarrow> (store, store_versions) act" where
  "versions env s =
     (if ss_persistence (st_data s) = None then
        (Inr \<lparr>sv_commit_version = ss_version (st_data s), sv_oldest_readable = None,
              sv_pinned = st_pinned s, sv_readable = []\<rparr>, s)
      else
        andThen (on_dir (manifest_load (se_manifest env) (env_crc env)) None) (\<lambda>m.
        andThen (on_dir (load_floor (se_history env) (env_crc env)) None) (\<lambda>lowest.
        andThen (on_dir list_versions []) (\<lambda>all_versions.
          let readable = (case lowest of Some f \<Rightarrow> filter (\<lambda>v. v \<ge> hf_oldest_readable f) all_versions
                                       | None \<Rightarrow> all_versions) in
          ret \<lparr>sv_commit_version = (case m of Some x \<Rightarrow> m_version x | None \<Rightarrow> ss_version (st_data s)),
               sv_oldest_readable = (case lowest of Some f \<Rightarrow> Some (hf_oldest_readable f)
                 | None \<Rightarrow> (case readable of [] \<Rightarrow> None | v # _ \<Rightarrow> Some v)),
               sv_pinned = st_pinned s, sv_readable = readable\<rparr>))) s)"

end
