(* ===== verification/StoreFrame.thy ===== *)
theory StoreFrame
  imports Store
begin

text \<open>
  What the steps of a mutation leave alone. A step is silent when it touches no document and no
  byte of the log: barriers, commit points, the history, the segment roll. A write phase grows
  the files from a mark and, on a failure it could undo, has put them back.
\<close>

section \<open>Silent steps\<close>

definition same_index :: "store \<Rightarrow> store \<Rightarrow> bool" where
  "same_index s t \<longleftrightarrow> st_collections t = st_collections s \<and> st_dead_rows t = st_dead_rows s \<and>
     st_aliases t = st_aliases s \<and> st_fts t = st_fts s \<and> st_findex t = st_findex s \<and>
     st_config t = st_config s \<and> st_in_memory t = st_in_memory s \<and> st_defer_barrier t = st_defer_barrier s"

definition silent :: "store \<Rightarrow> store \<Rightarrow> bool" where
  "silent s t \<longleftrightarrow> same_index s t \<and> segs_inv (st_data t) \<and> segs_rows (st_data t) = segs_rows (st_data s) \<and>
     segs_dimension (st_data t) = segs_dimension (st_data s) \<and> ap_bytes (st_log t) = ap_bytes (st_log s)"

lemma same_index_trans: "same_index s t \<Longrightarrow> same_index t u \<Longrightarrow> same_index s u"
  by (simp add: same_index_def)

lemma silent_refl [simp]: "segs_inv (st_data s) \<Longrightarrow> silent s s"
  by (simp add: silent_def same_index_def)

lemma silent_trans: "silent s t \<Longrightarrow> silent t u \<Longrightarrow> silent s u"
  by (simp add: silent_def same_index_def)

lemma silent_inv: "silent s t \<Longrightarrow> segs_inv (st_data t)"
  by (simp add: silent_def)

text \<open>An action that is silent from a state, whatever it returns.\<close>

named_theorems silent_intros \<open>silent actions\<close>

definition silent_at :: "(store, 'a) act \<Rightarrow> store \<Rightarrow> bool" where
  "silent_at m s \<longleftrightarrow> (segs_inv (st_data s) \<longrightarrow> silent s (snd (m s)))"

lemma silent_atD: "silent_at m s \<Longrightarrow> segs_inv (st_data s) \<Longrightarrow> m s = (r, t) \<Longrightarrow> silent s t"
  by (simp add: silent_at_def)

lemma silent_at_ret [simp, silent_intros]: "silent_at (ret x) s" "silent_at (fail e) s"
  by (simp_all add: silent_at_def)

lemma silent_at_andThen [silent_intros]:
  assumes "silent_at m s" and "\<And>x t. m s = (Inr x, t) \<Longrightarrow> silent_at (f x) t"
  shows "silent_at (andThen m f) s"
proof (cases "m s")
  case (Pair r t)
  show ?thesis
  proof (cases r)
    case (Inl e)
    then show ?thesis using assms(1) Pair by (simp add: silent_at_def)
  next
    case (Inr x)
    then show ?thesis using assms Pair silent_inv silent_trans unfolding silent_at_def by fastforce
  qed
qed

lemma silent_at_ignoring [silent_intros]: "silent_at m s \<Longrightarrow> silent_at (ignoring m) s"
  by (simp add: silent_at_def ignoring_def)

lemma silent_at_if [silent_intros]: "(b \<Longrightarrow> silent_at m s) \<Longrightarrow> (\<not> b \<Longrightarrow> silent_at n s) \<Longrightarrow> silent_at (if b then m else n) s"
  by simp

lemma silent_at_modify:
  "(\<And>s. same_index s (f s) \<and> st_data (f s) = st_data s \<and> st_log (f s) = st_log s) \<Longrightarrow> silent_at (modify f) s"
  by (simp add: silent_at_def silent_def modify_def)

lemma silent_at_set_pending [silent_intros]: "silent_at (set_pending b) s"
  unfolding set_pending_def by (rule silent_at_modify) (simp add: same_index_def)

lemma silent_at_for_each: "(\<And>x s. silent_at (f x) s) \<Longrightarrow> silent_at (for_each f xs) s"
  by (induction xs arbitrary: s) (auto intro!: silent_intros)

lemma silent_at_on_log:
  assumes "\<And>a r b. m a = (r, b) \<Longrightarrow> ap_bytes b = ap_bytes a"
  shows "silent_at (on_log m) s"
  using assms by (auto simp: silent_at_def silent_def same_index_def on_log_def split: prod.splits)

lemma silent_at_log_offset [silent_intros]: "silent_at (on_log log_offset) s"
  unfolding log_offset_def by (rule silent_at_on_log) (rule ap_stream.len_keeps)

lemma silent_at_log_sync [silent_intros]: "silent_at (on_log log_sync) s"
  unfolding log_sync_def by (rule silent_at_on_log) (rule ap_stream.sync_keeps)

lemma silent_at_on_dir [silent_intros]: "silent_at (on_dir f x) s"
proof -
  obtain r d where d: "on_fs f x (st_data s) = (r, d)" by fastforce
  then show ?thesis using on_fs_result[OF d]
    by (auto simp: silent_at_def silent_def same_index_def on_dir_def on_data_def)
qed

lemma segs_sync_dimension:
  assumes "segs_inv d" "segs_sync d = (r, e)"
  shows "segs_dimension e = segs_dimension d"
  using assms with_active_dimension seg_same_live(4) by (metis segs_sync_result)

lemma silent_at_data_sync [silent_intros]: "silent_at (on_data segs_sync) s"
proof -
  obtain r d where d: "segs_sync (st_data s) = (r, d)" by fastforce
  then show ?thesis using segs_durable.sync_keeps[OF _ d] segs_sync_dimension[OF _ d]
    by (auto simp: silent_at_def silent_def same_index_def on_data_def)
qed

lemma silent_at_sync_both [silent_intros]: "silent_at sync_both s"
  unfolding sync_both_def by (intro silent_intros)

lemma bump_version_rows [simp]:
  "segs_inv (snd (bump_version d)) = segs_inv d" "segs_rows (snd (bump_version d)) = segs_rows d"
  "segs_dimension (snd (bump_version d)) = segs_dimension d"
  by (simp_all add: bump_version_def segs_inv_def segs_rows_def segs_dimension_def active_def)

lemma silent_at_bump [silent_intros]: "silent_at bump s"
  by (simp add: silent_at_def bump_def modify_def silent_def same_index_def)

section \<open>Commit points\<close>

lemma silent_at_prune_loop: "silent_at (prune_loop env vs) s"
  by (induction vs arbitrary: s)
    (auto intro!: silent_intros silent_at_modify simp: same_index_def)

lemma silent_at_prune_history: "silent_at (prune_history env v n) s"
proof -
  have "silent_at (andThen (prune_loop env vs) (\<lambda>_ t.
            ignoring (on_dir (store_floor (se_history env) (sc_crc (se_sidecar env))
              \<lparr>hf_format_version = HIST_FORMAT_VERSION, hf_oldest_readable = st_pruned_through t + 1\<rparr>) ()) t)) s"
    for vs
    by (intro silent_at_andThen silent_at_prune_loop)
      (use silent_at_ignoring[OF silent_at_on_dir] in \<open>simp add: silent_at_def\<close>)
  then show ?thesis by (simp add: silent_at_def prune_history_def Let_def del: upt_Suc)
qed

lemma silent_at_record_history: "silent_at (record_history_entry env m) s"
proof (cases "cf_history_versions (st_config s)")
  case (Some n)
  obtain x t where t: "on_log log_offset s = (x, t)" by fastforce
  have st: "segs_inv (st_data s) \<Longrightarrow> silent s t" using silent_atD[OF silent_at_log_offset _ t] by blast
  have step: "silent t (snd (case on_dir f () t of (Inl _, u) \<Rightarrow> (Inr (), u) | (Inr _, u) \<Rightarrow> prune_history env v n u))"
    if inv: "segs_inv (st_data t)" for f v
  proof -
    obtain y u where u: "on_dir f () t = (y, u)" by fastforce
    have tu: "silent t u" by (rule silent_atD[OF silent_at_on_dir inv u])
    show ?thesis using tu silent_at_prune_history[of env v n u] silent_inv[OF tu] silent_trans[OF tu] u
      by (cases y) (auto simp: silent_at_def)
  qed
  show ?thesis using Some t st step silent_inv silent_trans
    by (cases x) (fastforce simp: silent_at_def record_history_entry_def Let_def)+
qed (simp add: silent_at_def record_history_entry_def)

lemma silent_at_persist_manifest [silent_intros]: "silent_at (persist_manifest env) s"
proof -
  have "silent_at (andThen (on_dir f ()) (\<lambda>_. record_history_entry env m)) s" for f m
    by (intro silent_intros silent_at_record_history)
  then show ?thesis by (simp add: silent_at_def persist_manifest_def Let_def)
qed

lemma silent_at_note_commit_point [silent_intros]: "silent_at (note_commit_point env) s"
proof -
  have "silent_at (andThen bump (\<lambda>_. persist_manifest env)) s" by (intro silent_intros)
  then show ?thesis by (simp add: silent_at_def note_commit_point_def)
qed

lemma silent_at_maybe_sync [silent_intros]: "silent_at (maybe_sync env) s"
proof -
  have "silent_at (andThen sync_both (\<lambda>_. note_commit_point env)) s" "silent_at (set_pending True) s"
    by (intro silent_intros)+
  then show ?thesis by (simp add: silent_at_def maybe_sync_def)
qed

lemma silent_at_commit [silent_intros]: "silent_at (commit env) s"
proof -
  have "silent_at (andThen sync_both (\<lambda>_. andThen (note_commit_point env) (\<lambda>_. set_pending False))) s"
    by (intro silent_intros)
  then show ?thesis by (simp add: silent_at_def commit_def)
qed

text \<open>Rolling the active segment over needs the name of the next segment to be free.\<close>

definition next_name_free :: "segments \<Rightarrow> bool" where
  "next_name_free d \<longleftrightarrow> (\<forall>p. ss_persistence d = Some p \<longrightarrow> fs_obj p (''seg-'' @ pad_nat 8 (ss_next_id d)) = None)"

lemma silent_at_seal: "next_name_free (st_data s) \<Longrightarrow> silent_at (on_data (segs_seal sc)) s"
proof -
  assume free: "next_name_free (st_data s)"
  obtain r d where d: "segs_seal sc (st_data s) = (r, d)" by fastforce
  show ?thesis using segs_seal_effect[OF _ d] free d
    by (auto simp: silent_at_def silent_def same_index_def on_data_def next_name_free_def)
qed

lemma silent_at_maybe_seal: "next_name_free (st_data s) \<Longrightarrow> silent_at (maybe_seal env) s"
proof -
  assume "next_name_free (st_data s)"
  then have "silent_at (andThen (on_data (segs_seal (se_sidecar env))) (\<lambda>sealed.
      if sealed then persist_manifest env else ret ())) s"
    by (intro silent_intros silent_at_seal)
  then show ?thesis by (simp add: silent_at_def maybe_seal_def split: option.split)
qed

section \<open>Write phases\<close>

text \<open>
  \<^verbatim>\<open>grown s t\<close>: a run of appends, possibly failing, has led from \<^verbatim>\<open>s\<close> to \<^verbatim>\<open>t\<close>. While rows are
  appended the log is as it was.
\<close>

definition grown :: "store \<Rightarrow> store \<Rightarrow> bool" where
  "grown s t \<longleftrightarrow> same_index s t \<and> segs_ext (st_data s) (st_data t) \<and>
     prefix (ap_bytes (st_log s)) (ap_bytes (st_log t))"

definition grown_rows :: "store \<Rightarrow> store \<Rightarrow> bool" where
  "grown_rows s t \<longleftrightarrow> grown s t \<and> ap_bytes (st_log t) = ap_bytes (st_log s)"

definition undone :: "nidus_error \<Rightarrow> bool" where
  "undone e \<longleftrightarrow> (\<forall>e'. e \<noteq> Rollback e')"

text \<open>A phase of a write begun at \<^verbatim>\<open>s0\<close>: it grows the files or it has restored \<^verbatim>\<open>s0\<close>.\<close>

definition phase :: "(store \<Rightarrow> store \<Rightarrow> bool) \<Rightarrow> store \<Rightarrow> (store, 'a) act \<Rightarrow> store \<Rightarrow> bool" where
  "phase G s0 m s \<longleftrightarrow> (case m s of (Inr _, t) \<Rightarrow> G s0 t | (Inl e, t) \<Rightarrow> undone e \<longrightarrow> silent s0 t)"

lemma phase_ret: "G s0 s \<Longrightarrow> phase G s0 (ret x) s"
  by (simp add: phase_def)

lemma phase_andThen:
  assumes "phase G s0 m s" and "\<And>x t. m s = (Inr x, t) \<Longrightarrow> G s0 t \<Longrightarrow> phase H s0 (f x) t"
  shows "phase H s0 (andThen m f) s"
proof (cases "m s")
  case (Pair r t)
  then show ?thesis using assms by (cases r) (auto simp: phase_def)
qed

lemma phase_mono: "phase G s0 m s \<Longrightarrow> (\<And>t. G s0 t \<Longrightarrow> H s0 t) \<Longrightarrow> phase H s0 m s"
  by (auto simp: phase_def split: prod.splits sum.splits)

lemma phase_recovering:
  assumes "\<And>r t. m s = (r, t) \<Longrightarrow> G s0 t" and "\<And>t x u. G s0 t \<Longrightarrow> undo t = (Inr x, u) \<Longrightarrow> silent s0 u"
  shows "phase G s0 (recovering m undo) s"
proof (cases "m s")
  case (Pair r t)
  have g: "G s0 t" by (rule assms(1)[OF Pair])
  show ?thesis
  proof (cases r)
    case (Inl e)
    obtain q u where u: "undo t = (q, u)" by fastforce
    then show ?thesis using Pair Inl assms(2)[OF g] by (cases q) (auto simp: phase_def recovering_def undone_def)
  qed (use Pair g in \<open>simp add: phase_def recovering_def\<close>)
qed

lemma grown_refl: "segs_inv (st_data s) \<Longrightarrow> grown_rows s s"
  by (simp add: grown_rows_def grown_def same_index_def segs_matrix.ext_refl)

lemma segs_truncate_dimension:
  assumes "segs_inv d" "segs_ext d e" "segs_truncate_to n e = (Inr (), f)"
  shows "segs_dimension f = segs_dimension d"
proof -
  from assms(2) obtain a where a: "seg_extends (active d) a" "e = with_active a d" by (auto simp: segs_ext_def)
  have "on_active (seg_truncate_to (n - last (ss_base e))) e = (Inr (), f)"
    using assms(3) by (auto simp: segs_truncate_to_def Let_def split: if_splits)
  then obtain b where b: "seg_truncate_to (n - last (ss_base e)) (active e) = (Inr (), b)" "f = with_active b e"
    by (rule on_active_result)
  have "ds_dimension b = ds_dimension (active d)"
    using seg_truncate_dim[OF b(1)] a by (simp add: seg_extends_def)
  then show ?thesis using with_active_dimension[OF assms(1)] a(2) b(2) by simp
qed

lemma truncate_restores:
  assumes "segs_inv (st_data s)" "grown_rows s t"
    and "on_data (segs_truncate_to (segs_row_count (st_data s))) t = (Inr x, u)"
  shows "silent s u"
proof -
  obtain d where d: "segs_truncate_to (segs_row_count (st_data s)) (st_data t) = (Inr (), d)" "u = t\<lparr>st_data := d\<rparr>"
    using assms(3) by (auto simp: on_data_def split: prod.splits)
  have ext: "segs_ext (st_data s) (st_data t)" using assms(2) by (simp add: grown_rows_def grown_def)
  have "segs_inv d \<and> segs_rows d = segs_rows (st_data s)"
    using segs_matrix.truncate_ok[OF assms(1) ext] d(1) segs_count[OF assms(1)] by simp
  moreover have "segs_dimension d = segs_dimension (st_data s)" by (rule segs_truncate_dimension[OF assms(1) ext d(1)])
  ultimately show ?thesis using assms(2) d(2) by (simp add: silent_def grown_rows_def grown_def same_index_def)
qed

lemma rollback_restores:
  assumes "segs_inv (st_data s)" "grown s t"
    and "rollback (segs_row_count (st_data s)) (length (ap_bytes (st_log s))) t = (Inr x, u)"
  shows "silent s u"
proof -
  obtain y w where w: "on_log (log_truncate_to (length (ap_bytes (st_log s)))) t = (Inr y, w)"
    "on_data (segs_truncate_to (segs_row_count (st_data s))) w = (Inr x, u)"
    using assms(3) by (auto simp: rollback_def andThen_Inr_iff)
  obtain b where b: "ap_truncate_to (length (ap_bytes (st_log s))) (st_log t) = (Inr y, b)" "w = t\<lparr>st_log := b\<rparr>"
    using w(1) by (auto simp: on_log_def log_truncate_to_def split: prod.splits)
  have "ap_bytes b = ap_bytes (st_log s)"
    using assms(2) ap_stream.rollback_to_mark[OF _ b(1)] by (simp add: grown_def)
  then have "grown_rows s w" using assms(2) b(2) by (simp add: grown_rows_def grown_def same_index_def)
  then show ?thesis using truncate_restores[OF assms(1) _ w(2)] by blast
qed

lemma grown_append_row:
  assumes "segs_inv (st_data s)" "grown_rows s t" "on_data (segs_append v) t = (r, u)"
  shows "grown_rows s u"
  using assms segs_matrix.append_ext[OF assms(1)]
  by (fastforce simp: grown_rows_def grown_def same_index_def on_data_def split: prod.splits)

lemma grown_sync_rows:
  assumes "segs_inv (st_data s)" "grown_rows s t" "on_data segs_sync t = (r, u)"
  shows "grown_rows s u"
  using assms segs_durable.sync_ext[OF assms(1)]
  by (fastforce simp: grown_rows_def grown_def same_index_def on_data_def split: prod.splits)

lemma grown_append_op:
  assumes "grown s t" "append_op env x t = (r, u)"
  shows "grown s u"
proof -
  obtain b where b: "log_append (se_codec env) x (st_log t) = (r, b)" "u = t\<lparr>st_log := b\<rparr>"
    using assms(2) by (auto simp: append_op_def on_log_def split: prod.splits)
  show ?thesis using assms(1) log_append_prefix[OF b(1)] b(2)
    by (auto simp: grown_def same_index_def intro: prefix_order.trans)
qed

lemma grown_log_sync: "grown s t \<Longrightarrow> on_log log_sync t = (r, u) \<Longrightarrow> grown s u"
  using ap_stream.sync_keeps by (fastforce simp: grown_def same_index_def on_log_def log_sync_def split: prod.splits)

section \<open>The phases of a batch\<close>

lemma phase_append_named:
  assumes "segs_inv (st_data s)"
  shows "grown_rows s t \<Longrightarrow> phase grown_rows s (append_named env (segs_row_count (st_data s)) named rows) t"
proof (induction named arbitrary: rows t)
  case (Cons nv rest)
  obtain name v where nv: "nv = (name, v)" by fastforce
  let ?w = "if cf_distance (st_config t) = Cosine then normalize (se_f32 env) v else v"
  have "phase grown_rows s (recovering (on_data (segs_append ?w))
      (on_data (segs_truncate_to (segs_row_count (st_data s))))) t"
    using grown_append_row[OF assms Cons.prems] truncate_restores[OF assms] by (intro phase_recovering)
  then have ph: "phase grown_rows s (andThen (recovering (on_data (segs_append ?w))
      (on_data (segs_truncate_to (segs_row_count (st_data s)))))
      (\<lambda>row. append_named env (segs_row_count (st_data s)) rest (aput name row rows))) t"
    by (rule phase_andThen) (rule Cons.IH)
  have "append_named env (segs_row_count (st_data s)) (nv # rest) rows t =
      andThen (recovering (on_data (segs_append ?w)) (on_data (segs_truncate_to (segs_row_count (st_data s)))))
      (\<lambda>row. append_named env (segs_row_count (st_data s)) rest (aput name row rows)) t"
    by (simp only: nv append_named.simps Let_def)
  then show ?case using ph by (simp only: phase_def)
qed (simp add: phase_ret)

lemma phase_append_batch:
  assumes "segs_inv (st_data s)"
  shows "grown_rows s t \<Longrightarrow> phase grown_rows s (append_batch env (segs_row_count (st_data s)) pairs) t"
proof (induction pairs arbitrary: t)
  case (Cons p rest)
  obtain r named where p: "p = (r, named)" by fastforce
  show ?case unfolding p append_batch.simps
    by (intro phase_andThen[OF phase_append_named[OF assms Cons.prems]]
        phase_andThen[OF Cons.IH] phase_ret)
qed (simp add: phase_ret)

lemma phase_append_ops:
  assumes "segs_inv (st_data s)"
  shows "grown s t \<Longrightarrow>
    phase grown s (append_ops env (segs_row_count (st_data s)) (length (ap_bytes (st_log s))) ops) t"
  unfolding append_ops_def
proof (induction ops arbitrary: t)
  case (Cons x ops)
  have "phase grown s (recovering (append_op env x)
      (rollback (segs_row_count (st_data s)) (length (ap_bytes (st_log s))))) t"
    using grown_append_op[OF Cons.prems] rollback_restores[OF assms] by (intro phase_recovering)
  then show ?case using phase_andThen[OF _ Cons.IH] by simp
qed (simp add: phase_ret)

lemma phase_sync_data:
  assumes "segs_inv (st_data s)" "grown_rows s t"
  shows "phase grown_rows s (sync_data_phase (segs_row_count (st_data s))) t"
proof -
  have "phase grown_rows s (recovering (on_data segs_sync)
      (on_data (segs_truncate_to (segs_row_count (st_data s))))) t"
    using grown_sync_rows[OF assms] truncate_restores[OF assms(1)] by (intro phase_recovering)
  then show ?thesis using assms(2) by (simp add: phase_def sync_data_phase_def)
qed

lemma phase_sync_log:
  assumes "segs_inv (st_data s)" "grown s t"
  shows "phase grown s (sync_log_phase (segs_row_count (st_data s)) (length (ap_bytes (st_log s)))) t"
proof -
  have "phase grown s (recovering (on_log log_sync)
      (rollback (segs_row_count (st_data s)) (length (ap_bytes (st_log s))))) t"
    using grown_log_sync[OF assms(2)] rollback_restores[OF assms(1)] by (intro phase_recovering)
  moreover have "grown s (t\<lparr>st_pending_barrier := b\<rparr>)" for b
    using assms(2) by (simp add: grown_def same_index_def)
  ultimately show ?thesis
    by (simp add: phase_def sync_log_phase_def set_pending_def modify_def)
qed

text \<open>The mark of the log is its length; reading it changes nothing that can be seen.\<close>

lemma log_mark_cases:
  assumes "segs_inv (st_data s)" "on_log log_offset s = (r, t)"
  shows "silent s t \<and> (\<forall>n. r = Inr n \<longrightarrow> n = length (ap_bytes (st_log s)) \<and> grown_rows s t \<and> st_data t = st_data s)"
proof -
  obtain b where b: "log_offset (st_log s) = (r, b)" "t = s\<lparr>st_log := b\<rparr>"
    using assms(2) by (auto simp: on_log_def split: prod.splits)
  show ?thesis using silent_atD[OF silent_at_log_offset assms] log_offset_ok b grown_refl[OF assms(1)]
    by (auto simp: grown_rows_def grown_def same_index_def)
qed

lemma phase_write_batch:
  assumes "segs_inv (st_data s)"
  shows "phase grown s (write_batch env c nc pairs) s"
proof (cases "on_log log_offset s")
  case (Pair r t)
  note m = log_mark_cases[OF assms Pair]
  show ?thesis
  proof (cases r)
    case (Inr n)
    then have n: "n = length (ap_bytes (st_log s))" "grown_rows s t" using m by simp_all
    have "phase grown s (andThen (append_batch env (segs_row_count (st_data s)) pairs) (\<lambda>staged.
      andThen (sync_data_phase (segs_row_count (st_data s))) (\<lambda>_.
      andThen (append_ops env (segs_row_count (st_data s)) n (batch_ops c nc staged)) (\<lambda>_.
      andThen (sync_log_phase (segs_row_count (st_data s)) n) (\<lambda>_. ret staged))))) t"
      unfolding n(1)
      by (intro phase_andThen[OF phase_append_batch[OF assms n(2)]]
          phase_andThen[OF phase_sync_data[OF assms]] phase_andThen[OF phase_append_ops[OF assms]]
          phase_andThen[OF phase_sync_log[OF assms]] phase_ret) (simp_all add: grown_rows_def)
    then show ?thesis using Pair Inr by (simp add: phase_def write_batch_def Let_def)
  qed (use Pair m in \<open>simp add: phase_def write_batch_def Let_def\<close>)
qed

end
