(* ===== verification/StoreLog.thy ===== *)
theory StoreLog
  imports StoreFrame
begin

text \<open>
  The log determines the documents: replaying what a mutation appended takes the document index
  from what it was to what the mutation made of it.
\<close>

section \<open>The documents of an index\<close>

text \<open>Replay touches the collections and the count of dead rows as a function of them alone.\<close>

type_synonym core = "collections \<times> nat"

definition core :: "store \<Rightarrow> core" where
  "core s = (st_collections s, st_dead_rows s)"

definition im_core :: "index_image \<Rightarrow> core" where
  "im_core im = (im_collections im, im_dead_rows im)"

definition image_of :: "core \<Rightarrow> index_image" where
  "image_of k = \<lparr>im_collections = fst k, im_dead_rows = snd k, im_fts = fts_default, im_findex = findex_default\<rparr>"

definition replay_core :: "nat \<Rightarrow> op \<Rightarrow> core \<Rightarrow> core" where
  "replay_core n x k = im_core (replay_op n x (image_of k))"

definition replay_all :: "nat \<Rightarrow> op list \<Rightarrow> core \<Rightarrow> core" where
  "replay_all n ops k = fold (replay_core n) ops k"

lemma replay_all_simps [simp]:
  "replay_all n [] k = k" "replay_all n (x # xs) k = replay_all n xs (replay_core n x k)"
  "replay_all n (xs @ ys) k = replay_all n ys (replay_all n xs k)"
  by (simp_all add: replay_all_def)

lemma im_core_replay_op: "im_core (replay_op n x im) = replay_core n x (im_core im)"
  by (cases x) (auto simp: replay_core_def image_of_def im_core_def replay_put_def split: option.splits)

lemma im_core_replay_ops: "im_core (replay_ops ops n) = replay_all n ops ([], 0)"
proof -
  have "im_core (fold (replay_op n) ops im) = replay_all n ops (im_core im)" for im
    by (induction ops arbitrary: im) (simp_all add: im_core_replay_op)
  then show ?thesis by (simp add: replay_ops_def image_empty_def im_core_def)
qed

text \<open>An operation whose rows all lie below a bound replays alike under every larger bound.\<close>

fun op_rows :: "op \<Rightarrow> nat list" where
  "op_rows (Upsert c did row a) = [row]"
| "op_rows (UpsertVectors c did rows a) = map snd rows"
| "op_rows _ = []"

fun rowless :: "op \<Rightarrow> bool" where
  "rowless (Upsert c did row a) = False"
| "rowless (UpsertVectors c did rows a) = False"
| "rowless _ = True"

definition op_fits :: "nat \<Rightarrow> op \<Rightarrow> bool" where
  "op_fits n x \<longleftrightarrow> list_all (\<lambda>r. r < n) (op_rows x)"

lemma op_fits_mono: "op_fits n x \<Longrightarrow> n \<le> m \<Longrightarrow> op_fits m x"
  by (auto simp: op_fits_def list_all_iff)

lemma replay_core_fits:
  assumes "op_fits n x" and "n \<le> m"
  shows "replay_core m x = replay_core n x"
proof
  fix k show "replay_core m x k = replay_core n x k"
    using assms by (cases x) (fastforce simp: replay_core_def op_fits_def list_ex_iff list_all_iff)+
qed

lemma replay_all_fits:
  assumes "list_all (op_fits n) ops" and "n \<le> m"
  shows "replay_all m ops k = replay_all n ops k"
  using assms by (induction ops arbitrary: k) (simp_all add: replay_core_fits[of n _ m])

section \<open>Mutations that write what they do\<close>

text \<open>
  The log a store holds is the encoding of operations whose replay gives the documents it
  serves. Of the payload codec only the round trip is used.
\<close>

definition codec_faithful :: "codec \<Rightarrow> bool" where
  "codec_faithful cd \<longleftrightarrow> (\<forall>x p. enc cd x = Some p \<longrightarrow> dec cd p = Some x)"

definition carried :: "codec \<Rightarrow> op \<Rightarrow> bool" where
  "carried cd x \<longleftrightarrow> (\<exists>p. enc cd x = Some p \<and> length p < 2 ^ 32)"

lemma carried_encodable: "codec_faithful cd \<Longrightarrow> carried cd x \<Longrightarrow> encodable cd x"
  by (auto simp: codec_faithful_def carried_def encodable_def)

lemma log_append_carried: "log_append cd x a = (Inr u, b) \<Longrightarrow> carried cd x"
  by (auto simp: log_append_def of_result_def andThen_Inr_iff frame_def carried_def split: option.splits if_splits)

abbreviation store_rows :: "store \<Rightarrow> nat" where
  "store_rows s \<equiv> segs_row_count (st_data s)"

definition log_describes :: "codec \<Rightarrow> store \<Rightarrow> op list \<Rightarrow> bool" where
  "log_describes cd s ops \<longleftrightarrow> list_all (carried cd) ops \<and> ap_bytes (st_log s) = frames cd ops \<and>
     list_all (op_fits (store_rows s)) ops \<and> replay_all (store_rows s) ops ([], 0) = core s"

text \<open>
  \<^verbatim>\<open>writes cd s ops t\<close>: the mutation from \<^verbatim>\<open>s\<close> to \<^verbatim>\<open>t\<close> appended rows to the matrix and \<^verbatim>\<open>ops\<close> to
  the log, and left the documents the replay of \<^verbatim>\<open>ops\<close> gives.
\<close>

definition writes :: "codec \<Rightarrow> store \<Rightarrow> op list \<Rightarrow> store \<Rightarrow> bool" where
  "writes cd s ops t \<longleftrightarrow> segs_inv (st_data t) \<and> prefix (segs_rows (st_data s)) (segs_rows (st_data t)) \<and>
     segs_dimension (st_data t) = segs_dimension (st_data s) \<and> st_config t = st_config s \<and>
     ap_bytes (st_log t) = ap_bytes (st_log s) @ frames cd ops \<and> list_all (carried cd) ops \<and>
     list_all (op_fits (store_rows t)) ops \<and> core t = replay_all (store_rows t) ops (core s)"

lemma silent_writes: "silent s t \<Longrightarrow> writes cd s [] t"
  by (simp add: silent_def writes_def same_index_def core_def)

lemma writes_rows_mono: "segs_inv (st_data s) \<Longrightarrow> writes cd s ops t \<Longrightarrow> store_rows s \<le> store_rows t"
  using segs_count prefix_length_le by (fastforce simp: writes_def)

lemma writes_trans:
  assumes inv: "segs_inv (st_data s)" and st: "writes cd s xs t" and tu: "writes cd t ys u"
  shows "writes cd s (xs @ ys) u"
proof -
  have t: "segs_inv (st_data t)" using st by (simp add: writes_def)
  have le: "store_rows t \<le> store_rows u" by (rule writes_rows_mono[OF t tu])
  have fits: "list_all (op_fits (store_rows t)) xs" using st by (simp add: writes_def)
  have "list_all (op_fits (store_rows u)) xs"
    using fits op_fits_mono[OF _ le] by (auto simp: list_all_iff)
  moreover have "core u = replay_all (store_rows u) (xs @ ys) (core s)"
    using st tu replay_all_fits[OF fits le] by (simp add: writes_def)
  ultimately show ?thesis using st tu by (auto simp: writes_def)
qed

lemma writes_describes:
  assumes inv: "segs_inv (st_data s)" and d: "log_describes cd s ops" and w: "writes cd s xs t"
  shows "log_describes cd t (ops @ xs)"
proof -
  have le: "store_rows s \<le> store_rows t" by (rule writes_rows_mono[OF inv w])
  have fits: "list_all (op_fits (store_rows s)) ops" using d by (simp add: log_describes_def)
  have "list_all (op_fits (store_rows t)) ops"
    using fits op_fits_mono[OF _ le] by (auto simp: list_all_iff)
  moreover have "replay_all (store_rows t) (ops @ xs) ([], 0) = core t"
    using d w replay_all_fits[OF fits le] by (simp add: log_describes_def writes_def)
  ultimately show ?thesis using d w by (simp add: log_describes_def writes_def)
qed

text \<open>What a reopen of such a log replays.\<close>

lemma describes_reopen:
  assumes "codec_faithful cd" "log_describes cd s ops" "ap_bytes a = ap_bytes (st_log s)"
    and "log_open_with cd a = (Inr ops', b)"
  shows "ops' = ops \<and> ap_bytes b = ap_bytes a \<and> im_core (replay_ops ops' (store_rows s)) = core s"
proof -
  have e: "list_all (encodable cd) ops"
    using assms(1,2) carried_encodable by (auto simp: log_describes_def list_all_iff)
  have "parse_all_frames cd (ap_bytes a) = Inr (ops, length (frames cd ops))"
    using parse_all_frames_frames[OF e] assms(2,3) by (simp add: log_describes_def)
  then show ?thesis
    using log_open_with_ok[OF assms(4)] assms(2,3) by (auto simp: log_describes_def im_core_replay_ops)
qed

section \<open>One operation\<close>

text \<open>Appending one operation to the log and replaying it on the index, in either order.\<close>

lemma append_op_ok:
  assumes "append_op env x s = (Inr u, t)"
  shows "carried (se_codec env) x \<and>
    (\<exists>l. t = s\<lparr>st_log := l\<rparr> \<and> ap_bytes l = ap_bytes (st_log s) @ frame_of (se_codec env) x)"
  using assms log_append_carried log_append_ok
  by (fastforce simp: append_op_def on_log_def split: prod.splits)

lemma append_op_writes:
  assumes "segs_inv (st_data s)" and "append_op env x p = (Inr u, t)" and "op_fits (store_rows s) x"
    and "core p = replay_core (store_rows s) x (core s)" and "st_data p = st_data s" and "st_log p = st_log s"
    and "st_config p = st_config s"
  shows "writes (se_codec env) s [x] t"
  using assms append_op_ok[OF assms(2)] by (auto simp: writes_def core_def)

lemma silent_core: "silent s t \<Longrightarrow> core t = core s \<and> segs_rows (st_data t) = segs_rows (st_data s)"
  by (simp add: silent_def same_index_def core_def)

lemma writes_silent: "segs_inv (st_data s) \<Longrightarrow> writes cd s ops t \<Longrightarrow> silent t u \<Longrightarrow> writes cd s ops u"
  using writes_trans[of s cd ops t "[]" u] silent_writes[of t u cd] by simp

lemma check_writable_Inr:
  "andThen check_writable f s = (Inr x, t) \<longleftrightarrow> \<not> cf_read_only (st_config s) \<and> f () s = (Inr x, t)"
  by (auto simp: check_writable_def andThen_def)

lemma reject_if_alias_Inr:
  "andThen (reject_if_alias verb name) f s = (Inr x, t) \<longleftrightarrow> aget (st_aliases s) name = None \<and> f () s = (Inr x, t)"
  by (auto simp: reject_if_alias_def andThen_def split: option.splits)

lemma guard_Inr: "andThen (if b then ret () else fail e) f s = (Inr x, t) \<longleftrightarrow> b \<and> f () s = (Inr x, t)"
  by (simp add: andThen_def)

lemma of_result_Inr: "andThen (of_result r) f s = (Inr x, t) \<longleftrightarrow> (\<exists>y. r = Inr y \<and> f y s = (Inr x, t))"
  by (auto simp: of_result_def andThen_def split: sum.splits)

lemma modify_Inr: "andThen (modify g) f s = (Inr x, t) \<longleftrightarrow> f () (g s) = (Inr x, t)"
  by (simp add: modify_def andThen_def)

lemmas act_Inr = check_writable_Inr reject_if_alias_Inr guard_Inr of_result_Inr modify_Inr set_collections_def

lemma step_Inr:
  "check_writable s = (Inr u, t) \<longleftrightarrow> \<not> cf_read_only (st_config s) \<and> t = s"
  "modify g s = (Inr u, t) \<longleftrightarrow> t = g s"
  by (auto simp: check_writable_def modify_def)

lemmas run_Inr = andThen_Inr_iff step_Inr

text \<open>
  The shape of the small mutations: the index is prepared, one operation is logged, a barrier
  is taken and the index is finished.
\<close>

lemma logged_once:
  assumes "segs_inv (st_data s)"
    and "andThen (append_op env x) (\<lambda>_. maybe_sync env) p = (Inr (), u)"
    and "op_fits (store_rows s) x"
    and pre: "st_data p = st_data s" "st_log p = st_log s" "st_config p = st_config s"
    and post: "st_data v = st_data u" "st_log v = st_log u" "st_config v = st_config u"
    and k: "core v = replay_core (store_rows s) x (core s)"
  shows "writes (se_codec env) s [x] v"
proof -
  obtain t where t: "append_op env x p = (Inr (), t)" "maybe_sync env t = (Inr (), u)"
    using assms(2) by (auto simp: andThen_Inr_iff)
  from append_op_ok[OF t(1)] obtain l where l: "carried (se_codec env) x" "t = p\<lparr>st_log := l\<rparr>"
    "ap_bytes l = ap_bytes (st_log s) @ frame_of (se_codec env) x" using pre by auto
  have inv: "segs_inv (st_data t)" using assms(1) l(2) pre by simp
  have tu: "silent t u" by (rule silent_atD[OF silent_at_maybe_sync inv t(2)])
  have "segs_row_count (st_data u) = store_rows s"
    using tu l(2) pre segs_count[OF assms(1)] segs_count[of "st_data u"] by (simp add: silent_def)
  then show ?thesis
    using tu l assms(3) pre post k by (simp add: writes_def silent_def same_index_def)
qed

text \<open>The barrier keeps the documents.\<close>

lemma logged_core:
  assumes "segs_inv (st_data s)"
    and "andThen (append_op env x) (\<lambda>_. maybe_sync env) s = (Inr (), u)"
  shows "core u = core s" "st_fts u = st_fts s" "st_findex u = st_findex s" "st_aliases u = st_aliases s"
    "segs_rows (st_data u) = segs_rows (st_data s)"
proof -
  obtain t where t: "append_op env x s = (Inr (), t)" "maybe_sync env t = (Inr (), u)"
    using assms(2) by (auto simp: andThen_Inr_iff)
  from append_op_ok[OF t(1)] obtain l where l: "t = s\<lparr>st_log := l\<rparr>" by auto
  have "silent t u" by (rule silent_atD[OF silent_at_maybe_sync _ t(2)]) (use assms(1) l in simp)
  then show "core u = core s" "st_fts u = st_fts s" "st_findex u = st_findex s" "st_aliases u = st_aliases s"
    "segs_rows (st_data u) = segs_rows (st_data s)"
    using l by (simp_all add: silent_def same_index_def core_def)
qed

section \<open>Collections\<close>

lemma ensure_or_new: "or_new c (ensure_collection c cols) = or_new c cols"
  by (auto simp: or_new_def ensure_collection_def split: option.splits)

lemma on_ensured: "on_collection c f (ensure_collection c cols) = on_collection c f cols"
  by (auto simp: on_collection_def ensure_collection_def or_new_def split: option.splits)

lemma replay_core_simps:
  "replay_core n (CreateCollection c) (cols, dead) = (ensure_collection c cols, dead)"
  "replay_core n (SetMeta c meta) (cols, dead) = (on_collection c (\<lambda>col. col\<lparr>co_meta := meta\<rparr>) cols, dead)"
  "replay_core n (SetVectorNames c names) (cols, dead) = (on_collection c (\<lambda>col. col\<lparr>co_vector_names := names\<rparr>) cols, dead)"
  "replay_core n (SetFtsFields c decls) (cols, dead) = (ensure_collection c cols, dead)"
  "replay_core n (SetFilterIndex c fdecls) (cols, dead) = (ensure_collection c cols, dead)"
  "replay_core n (DropCollection c) (cols, dead) = (case aget cols c of
     None \<Rightarrow> (cols, dead) | Some col \<Rightarrow> (adel c cols, dead + collection_rows col))"
  "replay_core n (Delete c did) (cols, dead) = (case lookup_doc cols c did of
     None \<Rightarrow> (cols, dead) | Some old \<Rightarrow> (on_collection c (remove_doc did) cols, dead + entry_rows old))"
  by (auto simp: replay_core_def im_core_def image_of_def lookup_doc_def on_collection_def or_new_def
      split: option.splits)

lemma op_fits_simps [simp]:
  "op_fits n (CreateCollection c)" "op_fits n (SetMeta c meta)" "op_fits n (SetVectorNames c names)"
  "op_fits n (SetFtsFields c decls)" "op_fits n (SetFilterIndex c fdecls)" "op_fits n (DropCollection c)"
  "op_fits n (Delete c did)" "op_fits n (Reinforce c did k now x)" "op_fits n (UpsertText c did a)"
  "op_fits n (UpsertVectors c did rows a) \<longleftrightarrow> list_all (\<lambda>r. r < n) (map snd rows)"
  by (simp_all add: op_fits_def)

lemma create_collection_writes:
  assumes inv: "segs_inv (st_data s)" and run: "create_collection env name s = (Inr (), t)"
  shows "\<exists>ops. writes (se_codec env) s ops t \<and> list_all rowless ops"
proof (cases "aget (st_collections s) name")
  case None
  let ?pre = "\<lambda>s. s\<lparr>st_collections := aput name collection_new (st_collections s)\<rparr>"
  have "andThen (append_op env (CreateCollection name)) (\<lambda>_. maybe_sync env) (?pre s) = (Inr (), t)"
    using run None by (simp add: create_collection_def act_Inr split: if_splits)
  note run' = this
  have "core t = core (?pre s)" by (rule logged_core(1)[OF _ run']) (simp add: inv)
  then have "writes (se_codec env) s [CreateCollection name] t"
    using None by (intro logged_once[OF inv run']) (simp_all add: core_def replay_core_simps ensure_collection_def)
  then show ?thesis by auto
next
  case (Some col)
  then have "t = s" using run by (simp add: create_collection_def act_Inr split: if_splits)
  then show ?thesis using silent_writes[of s s] inv by (intro exI[of _ "[]"]) simp
qed

lemma drop_indexes_core [simp]:
  "core (drop_indexes name s) = core s" "st_data (drop_indexes name s) = st_data s"
  "st_log (drop_indexes name s) = st_log s" "st_config (drop_indexes name s) = st_config s"
  by (simp_all add: drop_indexes_def core_def Let_def)

lemma drop_collection_writes:
  assumes inv: "segs_inv (st_data s)" and run: "drop_collection env name s = (Inr (), t)"
  shows "\<exists>ops. writes (se_codec env) s ops t \<and> list_all rowless ops"
proof (cases "aget (st_collections s) name")
  case None
  then have "t = s" using run by (auto simp: drop_collection_def act_Inr split: option.splits prod.splits)
  then show ?thesis using silent_writes[of s s] inv by (intro exI[of _ "[]"]) simp
next
  case (Some col)
  let ?pre = "\<lambda>s. drop_indexes name (s\<lparr>st_collections := adel name (st_collections s),
      st_dead_rows := st_dead_rows s + collection_rows col\<rparr>)"
  have "andThen (append_op env (DropCollection name)) (\<lambda>_. maybe_sync env) (?pre s) = (Inr (), t)"
    using run Some by (auto simp: drop_collection_def act_Inr split: option.splits prod.splits)
  note run' = this
  have "core t = core (?pre s)" by (rule logged_core(1)[OF _ run']) (simp add: inv)
  then have "writes (se_codec env) s [DropCollection name] t"
    using Some by (intro logged_once[OF inv run']) (simp_all, simp_all add: core_def replay_core_simps)
  then show ?thesis by auto
qed

lemma set_meta_writes:
  assumes inv: "segs_inv (st_data s)" and run: "set_meta env c meta s = (Inr (), t)"
  shows "\<exists>ops. writes (se_codec env) s ops t \<and> list_all rowless ops"
proof -
  let ?pre = "\<lambda>s. s\<lparr>st_collections := on_collection c (\<lambda>col. col\<lparr>co_meta := meta\<rparr>) (st_collections s)\<rparr>"
  have "andThen (append_op env (SetMeta c meta)) (\<lambda>_. maybe_sync env) (?pre s) = (Inr (), t)"
    using run by (simp add: set_meta_def act_Inr)
  note run' = this
  have "core t = core (?pre s)" by (rule logged_core(1)[OF _ run']) (simp add: inv)
  then have "writes (se_codec env) s [SetMeta c meta] t"
    by (intro logged_once[OF inv run']) (simp_all add: core_def replay_core_simps)
  then show ?thesis by auto
qed

text \<open>The three declarations share a shape: the collection is ensured, and the index finished last.\<close>

lemma declare_writes:
  assumes inv: "segs_inv (st_data s)"
    and run: "andThen (append_op env x) (\<lambda>_. andThen (maybe_sync env) (\<lambda>_. modify post))
      (s\<lparr>st_collections := ensure_collection c (st_collections s)\<rparr>) = (Inr (), t)"
    and fits: "op_fits (store_rows s) x" and rl: "rowless x"
    and post: "\<And>u. st_data (post u) = st_data u \<and> st_log (post u) = st_log u \<and> st_config (post u) = st_config u"
    and k: "\<And>u. core u = (ensure_collection c (st_collections s), st_dead_rows s) \<Longrightarrow>
      core (post u) = replay_core (store_rows s) x (core s)"
  shows "\<exists>ops. writes (se_codec env) s ops t \<and> list_all rowless ops"
proof -
  let ?pre = "\<lambda>s. s\<lparr>st_collections := ensure_collection c (st_collections s)\<rparr>"
  obtain u where u: "andThen (append_op env x) (\<lambda>_. maybe_sync env) (?pre s) = (Inr (), u)" "t = post u"
    using run by (auto simp: andThen_Inr_iff modify_def)
  have "core u = core (?pre s)" by (rule logged_core(1)[OF _ u(1)]) (simp add: inv)
  then have "core (post u) = replay_core (store_rows s) x (core s)" by (intro k) (simp add: core_def)
  then have "writes (se_codec env) s [x] t" unfolding u(2) by (intro logged_once[OF inv u(1) fits]) (simp_all add: post)
  then show ?thesis using rl by (intro exI[of _ "[x]"]) simp
qed

lemma set_fts_schema_writes:
  assumes inv: "segs_inv (st_data s)" and run: "set_fts_schema env c decls s = (Inr (), t)"
  shows "\<exists>ops. writes (se_codec env) s ops t \<and> list_all rowless ops"
proof -
  note run' = run[unfolded set_fts_schema_def act_Inr]
  show ?thesis using run' by (auto intro!: declare_writes[OF inv] simp: core_def replay_core_simps)
qed

lemma set_filter_index_writes:
  assumes inv: "segs_inv (st_data s)" and run: "set_filter_index env c decls s = (Inr (), t)"
  shows "\<exists>ops. writes (se_codec env) s ops t \<and> list_all rowless ops"
proof -
  note run' = run[unfolded set_filter_index_def act_Inr]
  show ?thesis using run' by (auto intro!: declare_writes[OF inv] simp: core_def replay_core_simps)
qed

lemma set_vector_names_writes:
  assumes inv: "segs_inv (st_data s)" and run: "set_vector_names env c names s = (Inr (), t)"
  shows "\<exists>ops. writes (se_codec env) s ops t \<and> list_all rowless ops"
proof -
  note run' = run[unfolded set_vector_names_def act_Inr]
  show ?thesis using run' by (auto intro!: declare_writes[OF inv] simp: core_def replay_core_simps on_ensured)
qed

section \<open>Deletion\<close>

lemma recovering_Inr: "recovering m undo s = (Inr x, t) \<longleftrightarrow> m s = (Inr x, t)"
  by (auto simp: recovering_def split: prod.splits sum.splits)

lemma forget_doc_core:
  assumes "lookup_doc (st_collections s) c did = Some old"
  shows "core (forget_doc c did old s) = replay_core n (Delete c did) (core s)"
  using assms by (simp add: core_def forget_doc_def replay_core_simps)

lemma absent_core:
  "lookup_doc (st_collections s) c did = None \<Longrightarrow> replay_core n (Delete c did) (core s) = core s"
  by (simp add: core_def replay_core_simps)

lemma forget_doc_files [simp]:
  "st_data (forget_doc c did old s) = st_data s" "st_log (forget_doc c did old s) = st_log s"
  "st_config (forget_doc c did old s) = st_config s"
  by (simp_all add: forget_doc_def)

text \<open>The loop logs the ids that are there; replaying all of them comes to the same.\<close>

lemma delete_loop_writes:
  assumes "segs_inv (st_data s)" "delete_loop env c ids count s = (Inr m, t)"
  shows "\<exists>ops. writes (se_codec env) s ops t \<and> list_all rowless ops \<and> m = count + length ops \<and> segs_rows (st_data t) = segs_rows (st_data s) \<and>
    core t = replay_all n (map (Delete c) ids) (core s)"
  using assms
proof (induction ids arbitrary: count s)
  case Nil
  then show ?case using silent_writes[of s s "se_codec env"] by (intro exI[of _ "[]"]) auto
next
  case (Cons did ids)
  show ?case
  proof (cases "lookup_doc (st_collections s) c did")
    case None
    then show ?thesis using Cons.IH[of s count] Cons.prems absent_core[OF None] by simp
  next
    case (Some old)
    then obtain u where u: "append_op env (Delete c did) (forget_doc c did old s) = (Inr (), u)"
      "delete_loop env c ids (Suc count) u = (Inr m, t)"
      using Cons.prems(2) by (auto simp: run_Inr)
    have w: "writes (se_codec env) s [Delete c did] u"
      using forget_doc_core[OF Some] by (intro append_op_writes[OF Cons.prems(1) u(1)]) simp_all
    have rows: "segs_rows (st_data u) = segs_rows (st_data s)" and core: "core u = replay_core n (Delete c did) (core s)"
      using append_op_ok[OF u(1)] forget_doc_core[OF Some] by (auto simp: core_def)
    from Cons.IH[OF _ u(2)] w obtain ops where ops: "writes (se_codec env) u ops t" "list_all rowless ops" "m = Suc count + length ops"
      "segs_rows (st_data t) = segs_rows (st_data u)" "core t = replay_all n (map (Delete c) ids) (core u)"
      by (auto simp: writes_def)
    then show ?thesis using writes_trans[OF Cons.prems(1) w ops(1)] rows core
      by (intro exI[of _ "[Delete c did] @ ops"]) simp
  qed
qed

lemma mark_dirty_files [simp]:
  "st_data (mark_dirty s) = st_data s" "st_log (mark_dirty s) = st_log s" "st_config (mark_dirty s) = st_config s"
  "core (mark_dirty s) = core s" "st_collections (mark_dirty s) = st_collections s"
  "st_dead_rows (mark_dirty s) = st_dead_rows s"
  by (simp_all add: mark_dirty_def core_def)

lemma writes_same:
  assumes "writes cd s ops t" "st_data u = st_data t" "st_log u = st_log t" "st_config u = st_config t" "core u = core t"
  shows "writes cd s ops u"
  using assms by (simp add: writes_def)

lemma delete_writes:
  assumes inv: "segs_inv (st_data s)" and run: "delete env c ids s = (Inr m, t)"
  shows "\<exists>ops. writes (se_codec env) s ops t \<and> list_all rowless ops \<and> m = length ops \<and>
    segs_rows (st_data t) = segs_rows (st_data s) \<and> core t = replay_all n (map (Delete c) ids) (core s)"
proof (cases "aget (st_collections s) c")
  case None
  have "replay_all n (map (Delete c) ids) (core s) = core s"
    by (induction ids) (use None in \<open>simp_all add: absent_core lookup_doc_def\<close>)
  moreover have "t = s" "m = 0" using run None by (simp_all add: delete_def act_Inr)
  ultimately show ?thesis using silent_writes[of s s "se_codec env"] inv by (intro exI[of _ "[]"]) auto
next
  case (Some col)
  then obtain k u where u: "delete_loop env c ids 0 s = (Inr k, u)"
    "(if k > 0 then andThen (maybe_sync env) (\<lambda>_. andThen (modify mark_dirty) (\<lambda>_. ret k)) else ret k) u = (Inr m, t)"
    using run by (auto simp: delete_def run_Inr)
  obtain ops where ops: "writes (se_codec env) s ops u" "k = length ops" "list_all rowless ops"
    "segs_rows (st_data u) = segs_rows (st_data s)" "core u = replay_all n (map (Delete c) ids) (core s)"
    using delete_loop_writes[OF inv u(1), of n] by auto
  show ?thesis
  proof (cases "k > 0")
    case True
    then obtain v where v: "maybe_sync env u = (Inr (), v)" "t = mark_dirty v" "m = k"
      using u(2) by (auto simp: andThen_Inr_iff modify_def)
    have "segs_inv (st_data u)" using ops(1) by (simp add: writes_def)
    from silent_atD[OF silent_at_maybe_sync this v(1)] have uv: "silent u v" .
    have "writes (se_codec env) s ops t"
      by (rule writes_same[OF writes_silent[OF inv ops(1) uv]]) (simp_all add: v(2))
    then show ?thesis using ops v silent_core[OF uv] by (intro exI[of _ ops]) simp
  qed (use u(2) ops in auto)
qed

lemma for_each_append_ok:
  "for_each (\<lambda>x. recovering (append_op env (g x)) undo) xs s = (Inr (), t) \<Longrightarrow>
    list_all (carried (se_codec env)) (map g xs) \<and>
    (\<exists>l. t = s\<lparr>st_log := l\<rparr> \<and> ap_bytes l = ap_bytes (st_log s) @ frames (se_codec env) (map g xs))"
proof (induction xs arbitrary: s)
  case Nil
  then show ?case by (intro conjI exI[of _ "st_log s"]) simp_all
next
  case (Cons x xs)
  then obtain u where u: "append_op env (g x) s = (Inr (), u)"
    "for_each (\<lambda>x. recovering (append_op env (g x)) undo) xs u = (Inr (), t)"
    by (auto simp: andThen_Inr_iff recovering_Inr)
  from append_op_ok[OF u(1)] Cons.IH[OF u(2)] show ?case by auto
qed

lemma append_ops_ok:
  assumes "append_ops env dm lm ops s = (Inr (), t)"
  shows "list_all (carried (se_codec env)) ops \<and>
    (\<exists>l. t = s\<lparr>st_log := l\<rparr> \<and> ap_bytes l = ap_bytes (st_log s) @ frames (se_codec env) ops)"
  using for_each_append_ok[of env id _ ops s t] assms by (simp add: append_ops_def)

lemma sweep_commit_core:
  "sweep_commit ps k s = (m, t) \<Longrightarrow>
    core t = replay_all n (map (\<lambda>(c, did). Delete c did) ps) (core s) \<and> st_data t = st_data s \<and>
    st_log t = st_log s \<and> st_config t = st_config s"
proof (induction ps arbitrary: k s)
  case (Cons p ps)
  obtain c did where p: "p = (c, did)" by fastforce
  show ?case
  proof (cases "lookup_doc (st_collections s) c did")
    case None
    then show ?thesis using Cons.IH[of k s] Cons.prems p absent_core[OF None] by simp
  next
    case (Some old)
    then show ?thesis using Cons.IH[of "Suc k" "forget_doc c did old s"] Cons.prems p forget_doc_core[OF Some, of n] by simp
  qed
qed simp

lemma log_mark_ok:
  assumes "segs_inv (st_data s)" "on_log log_offset s = (Inr m, t)"
  shows "silent s t" "m = length (ap_bytes (st_log s))"
  using log_mark_cases[OF assms] by auto

lemma delete_where_all_writes:
  assumes inv: "segs_inv (st_data s)" and run: "delete_where_all env f s = (Inr m, t)"
  shows "\<exists>ops. writes (se_codec env) s ops t \<and> ops = map (\<lambda>(c, did). Delete c did) (sweep_pairs (sweep_targets env f s)) \<and>
    segs_rows (st_data t) = segs_rows (st_data s)"
proof (cases "sweep_targets env f s = []")
  case True
  then have "t = s" using run by (simp add: delete_where_all_def act_Inr)
  then show ?thesis using True silent_writes[of s s "se_codec env"] inv by (simp add: sweep_pairs_def)
next
  case False
  let ?pairs = "sweep_pairs (sweep_targets env f s)" and ?del = "\<lambda>(c, did). Delete c did"
  from run False obtain lm s1 s2 s3 where
    1: "on_log log_offset s = (Inr lm, s1)" and
    2: "for_each (\<lambda>x. recovering (append_op env (?del x)) (on_log (log_truncate_to lm))) ?pairs s1 = (Inr (), s2)" and
    3: "maybe_sync env s2 = (Inr (), s3)" and
    4: "t = (let r = sweep_commit ?pairs 0 s3 in if fst r > 0 then mark_dirty (snd r) else snd r)"
    by (auto simp: delete_where_all_def run_Inr recovering_Inr Let_def case_prod_beta')
  obtain k u where ku: "sweep_commit ?pairs 0 s3 = (k, u)" by fastforce
  have t: "t = mark_dirty u \<or> t = u" using 4 ku by (simp add: Let_def)
  note s1 = log_mark_ok(1)[OF inv 1]
  from for_each_append_ok[OF 2] obtain l where l: "list_all (carried (se_codec env)) (map ?del ?pairs)"
    "s2 = s1\<lparr>st_log := l\<rparr>" "ap_bytes l = ap_bytes (st_log s1) @ frames (se_codec env) (map ?del ?pairs)" by blast
  have inv2: "segs_inv (st_data s2)" using s1 l(2) by (simp add: silent_def)
  note s3 = silent_atD[OF silent_at_maybe_sync inv2 3]
  note u = sweep_commit_core[OF ku, of "store_rows s"]
  have rows: "segs_rows (st_data t) = segs_rows (st_data s)" and data: "segs_inv (st_data t)"
    using s1 l(2) s3 u t by (auto simp: silent_def)
  have n: "store_rows t = store_rows s" using rows segs_count[OF data] segs_count[OF inv] by simp
  have "list_all (op_fits (store_rows t)) (map ?del ?pairs)" by (auto simp: list_all_iff)
  moreover have "core t = replay_all (store_rows t) (map ?del ?pairs) (core s)"
    using u silent_core[OF s3] silent_core[OF s1] l(2) t unfolding n by (auto simp: core_def)
  ultimately have "writes (se_codec env) s (map ?del ?pairs) t"
    using s1 l s3 u t data rows by (auto simp: writes_def silent_def same_index_def)
  then show ?thesis using rows by blast
qed

section \<open>Reinforcement\<close>

lemma sync_log_phase_Inr:
  assumes "segs_inv (st_data s)" "sync_log_phase dm lm s = (Inr (), t)"
  shows "silent s t"
proof (cases "barrier_now s")
  case True
  then have "on_log log_sync s = (Inr (), t)" using assms(2) by (simp add: sync_log_phase_def recovering_Inr)
  then show ?thesis by (rule silent_atD[OF silent_at_log_sync assms(1)])
next
  case False
  then have "set_pending True s = (Inr (), t)" using assms(2) by (simp add: sync_log_phase_def)
  then show ?thesis by (rule silent_atD[OF silent_at_set_pending assms(1)])
qed

lemma stamp_doc_dom: "(aget (co_docs (stamp_doc did k now x col)) d = None) = (aget (co_docs col) d = None)"
  by (auto simp: stamp_doc_def put_doc_def split: option.splits)

lemma commit_stamp_core:
  assumes "lookup_doc (st_collections s) c did \<noteq> None"
  shows "core (commit_stamp env c now (did, k, x) s) = replay_core n (stamp_op c now (did, k, x)) (core s)"
proof -
  obtain col where col: "aget (st_collections s) c = Some col" "aget (co_docs col) did \<noteq> None"
    using assms by (cases "aget (st_collections s) c") (auto simp: lookup_doc_def)
  then obtain e where "aget (co_docs (stamp_doc did k now x col)) did = Some e"
    using stamp_doc_dom[of did k now x col did] by auto
  then show ?thesis using col
    by (simp add: commit_stamp_def stamp_op_def core_def replay_core_def im_core_def image_of_def or_new_def)
qed

lemma commit_stamp_files [simp]:
  "st_data (commit_stamp env c now st s) = st_data s" "st_log (commit_stamp env c now st s) = st_log s"
  "st_config (commit_stamp env c now st s) = st_config s"
  by (auto simp: commit_stamp_def Let_def split: prod.splits option.splits)

lemma commit_stamp_dom:
  assumes "lookup_doc (st_collections s) c d \<noteq> None"
  shows "lookup_doc (st_collections (commit_stamp env c now st s)) c d \<noteq> None"
proof -
  obtain did k x where st: "st = (did, k, x)" by (cases st)
  obtain col where col: "aget (st_collections s) c = Some col" "aget (co_docs col) d \<noteq> None"
    using assms by (cases "aget (st_collections s) c") (auto simp: lookup_doc_def)
  then have "aget (co_docs (stamp_doc did k now x col)) d \<noteq> None" using stamp_doc_dom[of did k now x col d] by simp
  then show ?thesis using col st
    by (auto simp: commit_stamp_def lookup_doc_def or_new_def Let_def split: option.splits)
qed

lemma fold_commit_stamp:
  "\<forall>st \<in> set stamps. lookup_doc (st_collections s) c (fst st) \<noteq> None \<Longrightarrow>
    core (fold (commit_stamp env c now) stamps s) = replay_all n (map (stamp_op c now) stamps) (core s) \<and>
    st_data (fold (commit_stamp env c now) stamps s) = st_data s \<and>
    st_log (fold (commit_stamp env c now) stamps s) = st_log s \<and>
    st_config (fold (commit_stamp env c now) stamps s) = st_config s"
proof (induction stamps arbitrary: s)
  case (Cons st stamps)
  obtain did k x where st: "st = (did, k, x)" by (cases st)
  have "\<forall>q \<in> set stamps. lookup_doc (st_collections (commit_stamp env c now st s)) c (fst q) \<noteq> None"
    using Cons.prems commit_stamp_dom by simp
  note ih = Cons.IH[OF this]
  have "core (commit_stamp env c now st s) = replay_core n (stamp_op c now st) (core s)"
    using commit_stamp_core[of s c did env now k x n] Cons.prems st by simp
  then show ?case using ih by simp
qed simp

lemma stamps_for_present:
  assumes "st \<in> set (stamps_for col ids now ttl)"
  shows "aget (co_docs col) (fst st) \<noteq> None"
  using assms by (auto simp: stamps_for_def List.map_filter_def)

lemma note_commit_point_tail:
  assumes "segs_inv (st_data s)"
    and "andThen (if b then note_commit_point env else ret ()) (\<lambda>_. ret k) s = (Inr m, t)"
  shows "silent s t \<and> m = k"
proof -
  have "silent_at (if b then note_commit_point env else ret ()) s" by (intro silent_intros)
  then show ?thesis using assms silent_atD by (fastforce simp: andThen_Inr_iff)
qed

lemma reinforce_writes:
  assumes inv: "segs_inv (st_data s)" and run: "reinforce env c ids now ttl s = (Inr m, t)"
  shows "\<exists>ops. writes (se_codec env) s ops t \<and> list_all rowless ops \<and> m = length ops \<and>
    (\<forall>col. aget (st_collections s) c = Some col \<longrightarrow> ops = map (stamp_op c now) (stamps_for col ids now ttl)) \<and>
    segs_rows (st_data t) = segs_rows (st_data s)"
proof (cases "aget (st_collections s) c")
  case None
  then have "t = s" "m = 0" using run by (simp_all add: reinforce_def act_Inr)
  then show ?thesis using None silent_writes[of s s "se_codec env"] inv by (intro exI[of _ "[]"]) auto
next
  case (Some col)
  let ?st = "stamps_for col ids now ttl"
  show ?thesis
  proof (cases "?st = []")
    case True
    then have "t = s" "m = 0" using run Some by (simp_all add: reinforce_def act_Inr Let_def)
    then show ?thesis using True Some silent_writes[of s s "se_codec env"] inv by (intro exI[of _ "[]"]) auto
  next
    case False
    let ?ops = "map (stamp_op c now) ?st" and ?fin = "\<lambda>t. mark_stamped c (fold (commit_stamp env c now) ?st t)"
    from run Some False obtain lm s1 s2 s3 where
      1: "on_log log_offset s = (Inr lm, s1)" and
      2: "append_ops env (store_rows s) lm ?ops s1 = (Inr (), s2)" and
      3: "sync_log_phase (store_rows s) lm s2 = (Inr (), s3)" and
      4: "andThen (if barrier_now (?fin s3) then note_commit_point env else ret ()) (\<lambda>_. ret (length ?st)) (?fin s3)
        = (Inr m, t)"
      by (auto simp: reinforce_def run_Inr Let_def)
    note s1 = log_mark_ok(1)[OF inv 1]
    from append_ops_ok[OF 2] obtain l where l: "list_all (carried (se_codec env)) ?ops"
      "s2 = s1\<lparr>st_log := l\<rparr>" "ap_bytes l = ap_bytes (st_log s1) @ frames (se_codec env) ?ops" by blast
    have inv2: "segs_inv (st_data s2)" using s1 l(2) by (simp add: silent_def)
    note s3 = sync_log_phase_Inr[OF inv2 3]
    have cols: "st_collections s3 = st_collections s" using s1 s3 l(2) by (simp add: silent_def same_index_def)
    have "\<forall>st \<in> set ?st. lookup_doc (st_collections s3) c (fst st) \<noteq> None"
      using stamps_for_present Some cols by (fastforce simp: lookup_doc_def)
    note fin = fold_commit_stamp[OF this, of env now "store_rows s"]
    have u: "core (?fin s3) = replay_all (store_rows s) ?ops (core s)" "st_data (?fin s3) = st_data s3"
      "st_log (?fin s3) = st_log s3" "st_config (?fin s3) = st_config s3"
      using fin s1 s3 l(2) by (simp_all add: mark_stamped_def core_def silent_def same_index_def)
    have "segs_inv (st_data (?fin s3))" using u s3 by (simp add: silent_def)
    note tail = note_commit_point_tail[OF this 4]
    have rows: "segs_rows (st_data (?fin s3)) = segs_rows (st_data s)" using u s3 s1 l(2) by (simp add: silent_def)
    have n: "store_rows (?fin s3) = store_rows s"
      using rows segs_count[of "st_data (?fin s3)"] segs_count[OF inv] u s3 by (simp add: silent_def)
    have "list_all (op_fits (store_rows s)) ?ops" by (auto simp: list_all_iff stamp_op_def split: prod.splits)
    then have "writes (se_codec env) s ?ops (?fin s3)"
      using u s1 l s3 n rows by (simp add: writes_def silent_def same_index_def)
    from writes_silent[OF inv this] tail have "writes (se_codec env) s ?ops t" by blast
    moreover have "list_all rowless ?ops" by (auto simp: list_all_iff stamp_op_def split: prod.splits)
    ultimately show ?thesis using tail Some rows by (intro exI[of _ ?ops]) (simp add: silent_def)
  qed
qed

end
