(* ===== verification/StoreUpsert.thy ===== *)
theory StoreUpsert
  imports StoreLog
begin

text \<open>
  What an upsert that succeeds has done: one row per named vector at the end of the matrix, one
  operation per record at the end of the log, and the replay of those operations on the index.
\<close>

section \<open>Validation\<close>

text \<open>The vectors of a record by name, the primary one under the reserved name.\<close>

definition record_vectors :: "doc_record \<Rightarrow> string \<Rightarrow> f32 list option" where
  "record_vectors r name = (if name = DEFAULT_VECTOR then rec_vector r else aget (rec_vectors r) name)"

definition record_wf :: "doc_record \<Rightarrow> bool" where
  "record_wf r \<longleftrightarrow> amap_wf (rec_vectors r)"

lemma named_loop_ok:
  "named_loop dim declared did xs acc = Inr named \<Longrightarrow>
    aget named = aget acc ++ map_of (rev xs) \<and> (amap_wf acc \<longrightarrow> amap_wf named) \<and>
    ((\<forall>v \<in> ran (aget acc). length v = dim) \<longrightarrow> (\<forall>v \<in> ran (aget named). length v = dim))"
proof (induction xs arbitrary: acc)
  case (Cons x xs)
  obtain name v where x: "x = (name, v)" by fastforce
  have v: "length v = dim" and loop: "named_loop dim declared did xs (aput name v acc) = Inr named"
    using Cons.prems x by (auto split: if_splits)
  have get: "aget (aput name v acc) ++ map_of (rev xs) = aget acc ++ map_of (rev (x # xs))"
    using x by simp
  have "(\<forall>w \<in> ran (aget acc). length w = dim) \<longrightarrow> (\<forall>w \<in> ran (aget (aput name v acc)). length w = dim)"
    using v by (auto simp: ran_def)
  then show ?case using Cons.IH[OF loop, unfolded get] amap_wf_aput[of acc name v] by blast
qed simp

lemma named_vectors_ok:
  assumes "record_wf r" "named_vectors dim declared r = Inr named"
  shows "amap_wf named \<and> aget named = record_vectors r \<and> (\<forall>v \<in> set (avals named). length v = dim)"
proof -
  let ?acc = "case rec_vector r of None \<Rightarrow> [] | Some v \<Rightarrow> aput DEFAULT_VECTOR v []"
  have none: "aget (rec_vectors r) DEFAULT_VECTOR = None"
    and loop: "named_loop dim declared (rec_id r) (rec_vectors r) ?acc = Inr named"
    and len: "\<forall>v. rec_vector r = Some v \<longrightarrow> length v = dim"
    using assms(2) by (auto simp: named_vectors_def split: if_splits option.splits)
  have acc: "amap_wf ?acc" "\<forall>v \<in> ran (aget ?acc). length v = dim"
    using len by (auto split: option.splits)
  note l = named_loop_ok[OF loop]
  have wf: "amap_wf named" using l acc by blast
  have "aget named = aget ?acc ++ aget (rec_vectors r)"
    using l map_of_rev[of "rec_vectors r"] assms(1) by (simp add: record_wf_def)
  then have "aget named = record_vectors r"
    using none by (auto simp: record_vectors_def fun_eq_iff map_add_def split: option.splits)
  moreover have "\<forall>v \<in> set (avals named). length v = dim"
  proof
    fix v assume "v \<in> set (avals named)"
    then obtain name where "aget named name = Some v" using aget_mem[OF wf] by auto
    then have "v \<in> ran (aget named)" by (rule ranI)
    then show "length v = dim" using l acc(2) by blast
  qed
  ultimately show ?thesis using wf by blast
qed

lemma validate_batch_ok:
  "validate_batch dim declared records = Inr per \<Longrightarrow>
    list_all2 (\<lambda>r named. named_vectors dim declared r = Inr named) records per"
  by (induction records arbitrary: per) (auto split: sum.splits)

lemma list_all2_mono_wf:
  "list_all2 P xs ys \<Longrightarrow> list_all Q xs \<Longrightarrow> (\<And>x y. Q x \<Longrightarrow> P x y \<Longrightarrow> R x y) \<Longrightarrow> list_all2 R xs ys"
  by (induction rule: list_all2_induct) auto

section \<open>Rows\<close>

definition stored :: "store_env \<Rightarrow> config \<Rightarrow> f32 list \<Rightarrow> f32 list" where
  "stored env cf v = (if cf_distance cf = Cosine then normalize (se_f32 env) v else v)"

lemma segs_append_dimension:
  assumes "segs_inv d" "segs_append v d = (Inr i, e)"
  shows "segs_dimension e = segs_dimension d"
proof -
  from assms(2) obtain q a where q: "seg_append v (active d) = (q, a)" "e = with_active a d"
    "Inr i = map_sum id ((+) (last (ss_base d))) q" by (rule segs_append_result)
  then obtain j where "seg_append v (active d) = (Inr j, a)" by (cases q) auto
  then show ?thesis using seg_rows_append[of "active d" v j a] assms(1) q(2) with_active_dimension[OF assms(1)]
    by (simp add: segs_inv_def)
qed

abbreviation numbered :: "nat \<Rightarrow> (string \<times> 'v) list \<Rightarrow> (string, nat) amap" where
  "numbered n named \<equiv> zip (akeys named) [n..<n + length named]"

lemma append_named_ok:
  assumes "segs_inv (st_data s)" "append_named env dm named rows s = (Inr rows', t)"
  shows "rows' = fold (\<lambda>e m. aput (fst e) (snd e) m) (numbered (store_rows s) named) rows \<and>
    (\<exists>d. t = s\<lparr>st_data := d\<rparr> \<and> segs_inv d \<and> segs_dimension d = segs_dimension (st_data s) \<and>
      segs_rows d = segs_rows (st_data s) @ map (stored env (st_config s) \<circ> snd) named)"
  using assms
proof (induction named arbitrary: rows s)
  case Nil
  then show ?case by (intro conjI exI[of _ "st_data s"]) simp_all
next
  case (Cons nv named)
  obtain name v where nv: "nv = (name, v)" by fastforce
  let ?w = "stored env (st_config s) v"
  from Cons.prems(2) nv obtain i d where d: "segs_append ?w (st_data s) = (Inr i, d)"
    "append_named env dm named (aput name i rows) (s\<lparr>st_data := d\<rparr>) = (Inr rows', t)"
    by (auto simp: run_Inr recovering_Inr on_data_def stored_def Let_def split: prod.splits)
  note a = segs_append_ok[OF Cons.prems(1) d(1)]
  note dim = segs_append_dimension[OF Cons.prems(1) d(1)]
  have n: "store_rows s = i" using a segs_count[OF Cons.prems(1)] by simp
  have m: "store_rows (s\<lparr>st_data := d\<rparr>) = Suc i" using a segs_count[of d] by simp
  have "numbered (store_rows s) (nv # named) = (name, i) # numbered (Suc i) named"
    using nv n by (simp add: upt_conv_Cons del: upt_Suc)
  then show ?case using Cons.IH[OF _ d(2)] a dim nv m by auto
qed

lemma numbered_wf: "amap_wf named \<Longrightarrow> amap_wf (numbered n named)"
  by (simp add: amap_wf_def)

lemma numbered_named:
  "amap_wf named \<Longrightarrow> fold (\<lambda>e m. aput (fst e) (snd e) m) (numbered n named) [] = numbered n named"
  using amap_of_list_id[OF numbered_wf] by (simp add: amap_of_list_def)

fun stage :: "nat \<Rightarrow> (doc_record \<times> (string, f32 list) amap) list \<Rightarrow> staged_upsert list" where
  "stage n [] = []"
| "stage n ((r, named) # rest) =
     (rec_id r, numbered n named, rec_attrs r) # stage (n + length named) rest"

definition batch_vectors :: "store_env \<Rightarrow> config \<Rightarrow> (doc_record \<times> (string, f32 list) amap) list \<Rightarrow> f32 list list" where
  "batch_vectors env cf pairs = concat (map (map (stored env cf \<circ> snd) \<circ> snd) pairs)"

lemma append_batch_ok:
  assumes "segs_inv (st_data s)" "\<forall>p \<in> set pairs. amap_wf (snd p)" "append_batch env dm pairs s = (Inr staged, t)"
  shows "staged = stage (store_rows s) pairs \<and>
    (\<exists>d. t = s\<lparr>st_data := d\<rparr> \<and> segs_inv d \<and> segs_dimension d = segs_dimension (st_data s) \<and>
      segs_rows d = segs_rows (st_data s) @ batch_vectors env (st_config s) pairs)"
  using assms
proof (induction pairs arbitrary: s staged)
  case Nil
  then show ?case by (intro conjI exI[of _ "st_data s"]) (simp_all add: batch_vectors_def)
next
  case (Cons p rest)
  obtain r named where p: "p = (r, named)" by fastforce
  from Cons.prems(3) p obtain rows u st where u: "append_named env dm named [] s = (Inr rows, u)"
    "append_batch env dm rest u = (Inr st, t)" "staged = (rec_id r, rows, rec_attrs r) # st"
    by (auto simp: run_Inr)
  from append_named_ok[OF Cons.prems(1) u(1)] obtain d where
    d: "rows = numbered (store_rows s) named" "u = s\<lparr>st_data := d\<rparr>" "segs_inv d"
      "segs_dimension d = segs_dimension (st_data s)"
      "segs_rows d = segs_rows (st_data s) @ map (stored env (st_config s) \<circ> snd) named"
    using Cons.prems(2) p numbered_named by auto
  have m: "store_rows u = store_rows s + length named"
    using d segs_count[OF d(3)] segs_count[OF Cons.prems(1)] by simp
  from Cons.IH[of u st] u(2) d Cons.prems(2) have ih: "st = stage (store_rows u) rest \<and>
    (\<exists>e. t = u\<lparr>st_data := e\<rparr> \<and> segs_inv e \<and> segs_dimension e = segs_dimension (st_data u) \<and>
      segs_rows e = segs_rows (st_data u) @ batch_vectors env (st_config u) rest)" by simp
  then show ?case using u(3) d p m by (auto simp: batch_vectors_def)
qed

lemma stage_rows:
  "(did, rows, a) \<in> set (stage n pairs) \<Longrightarrow> r \<in> set (avals rows) \<Longrightarrow>
    r < n + sum_list (map (length \<circ> snd) pairs)"
proof (induction n pairs rule: stage.induct)
  case (2 n p named rest)
  show ?case
  proof (cases "(did, rows, a) \<in> set (stage (n + length named) rest)")
    case True
    then show ?thesis using "2.IH" "2.prems"(2) by simp
  next
    case False
    then have "r \<in> set (map snd (numbered n named))" using "2.prems" by auto
    then show ?thesis by (simp add: map_snd_zip)
  qed
qed simp

section \<open>The batch in the log\<close>

lemma sync_data_phase_Inr:
  assumes "segs_inv (st_data s)" "sync_data_phase dm s = (Inr (), t)"
  shows "silent s t"
  using assms silent_atD[OF silent_at_data_sync assms(1)]
  by (auto simp: sync_data_phase_def recovering_Inr split: if_splits)

lemma length_batch_vectors: "length (batch_vectors env cf pairs) = sum_list (map (length \<circ> snd) pairs)"
  by (simp add: batch_vectors_def length_concat comp_def)

lemma write_batch_ok:
  assumes inv: "segs_inv (st_data s)" and wf: "\<forall>p \<in> set pairs. amap_wf (snd p)"
    and run: "write_batch env c nc pairs s = (Inr staged, t)"
  shows "staged = stage (store_rows s) pairs \<and> same_index s t \<and> segs_inv (st_data t) \<and>
    segs_dimension (st_data t) = segs_dimension (st_data s) \<and>
    segs_rows (st_data t) = segs_rows (st_data s) @ batch_vectors env (st_config s) pairs \<and>
    ap_bytes (st_log t) = ap_bytes (st_log s) @ frames (se_codec env) (batch_ops c nc staged) \<and>
    list_all (carried (se_codec env)) (batch_ops c nc staged)"
proof -
  from run obtain lm s1 s2 s3 s4 where
    1: "on_log log_offset s = (Inr lm, s1)" and
    2: "append_batch env (store_rows s) pairs s1 = (Inr staged, s2)" and
    3: "sync_data_phase (store_rows s) s2 = (Inr (), s3)" and
    4: "append_ops env (store_rows s) lm (batch_ops c nc staged) s3 = (Inr (), s4)" and
    5: "sync_log_phase (store_rows s) lm s4 = (Inr (), t)"
    by (auto simp: write_batch_def run_Inr Let_def)
  note s1 = log_mark_ok(1)[OF inv 1] silent_inv[OF log_mark_ok(1)[OF inv 1]]
  have n: "store_rows s1 = store_rows s"
    using s1 segs_count[OF inv] segs_count[OF s1(2)] by (simp add: silent_def)
  from append_batch_ok[OF s1(2) wf 2] obtain d where d: "staged = stage (store_rows s1) pairs"
    "s2 = s1\<lparr>st_data := d\<rparr>" "segs_inv d" "segs_dimension d = segs_dimension (st_data s1)"
    "segs_rows d = segs_rows (st_data s1) @ batch_vectors env (st_config s1) pairs" by blast
  have "silent s2 s3" by (rule sync_data_phase_Inr[OF _ 3]) (use d in simp)
  moreover from append_ops_ok[OF 4] obtain l where l: "list_all (carried (se_codec env)) (batch_ops c nc staged)"
    "s4 = s3\<lparr>st_log := l\<rparr>" "ap_bytes l = ap_bytes (st_log s3) @ frames (se_codec env) (batch_ops c nc staged)" by blast
  moreover have "silent s4 t" by (rule sync_log_phase_Inr[OF _ 5]) (use l \<open>silent s2 s3\<close> in \<open>simp add: silent_def\<close>)
  ultimately show ?thesis using s1 d n by (simp add: silent_def same_index_def)
qed

text \<open>One staged record, in the log and in memory.\<close>

definition put_core :: "string \<Rightarrow> staged_upsert \<Rightarrow> core \<Rightarrow> core" where
  "put_core c st k = (case st of (did, rows, a) \<Rightarrow>
     (on_collection c (put_doc did \<lparr>de_rows = rows, de_attrs = a\<rparr>) (fst k),
      snd k + owned_rows (aget (co_docs (or_new c (fst k))) did)))"

lemma replay_staged:
  assumes "amap_wf rows" "\<forall>r \<in> set (avals rows). r < n"
  shows "replay_core n (staged_op c (did, rows, a)) k = put_core c (did, rows, a) k"
proof -
  have "\<not> list_ex (\<lambda>nr. n \<le> snd nr) rows" using assms(2) by (auto simp: list_ex_iff)
  then show ?thesis using amap_of_list_id[OF assms(1)]
    by (cases k) (simp add: replay_core_def staged_op_def im_core_def image_of_def replay_put_def put_core_def)
qed

lemma commit_doc_core: "core (commit_doc env c st s) = put_core c st (core s)"
  by (cases st) (simp add: commit_doc_def core_def put_core_def on_collection_def Let_def)

lemma commit_doc_files [simp]:
  "st_data (commit_doc env c st s) = st_data s" "st_log (commit_doc env c st s) = st_log s"
  "st_config (commit_doc env c st s) = st_config s"
  by (cases st; simp add: commit_doc_def Let_def)+

lemma fold_commit_doc:
  "core (fold (commit_doc env c) staged s) = fold (put_core c) staged (core s) \<and>
    st_data (fold (commit_doc env c) staged s) = st_data s \<and> st_log (fold (commit_doc env c) staged s) = st_log s \<and>
    st_config (fold (commit_doc env c) staged s) = st_config s"
  by (induction staged arbitrary: s) (simp_all add: commit_doc_core)

lemma stage_wf: "\<forall>p \<in> set pairs. amap_wf (snd p) \<Longrightarrow> (did, rows, a) \<in> set (stage n pairs) \<Longrightarrow> amap_wf rows"
  by (induction n pairs rule: stage.induct) (auto simp: numbered_wf)

lemma replay_batch:
  assumes "\<forall>st \<in> set staged. amap_wf (fst (snd st)) \<and> (\<forall>r \<in> set (avals (fst (snd st))). r < n)"
  shows "replay_all n (map (staged_op c) staged) k = fold (put_core c) staged k"
  using assms by (induction staged arbitrary: k) (auto simp: replay_staged)

definition create_core :: "string \<Rightarrow> core \<Rightarrow> core" where
  "create_core c k = (ensure_collection c (fst k), snd k)"

lemma commit_batch_core:
  assumes "nc = (aget (st_collections s) c = None)"
  shows "core (commit_batch env c nc staged s) = fold (put_core c) staged (create_core c (core s))"
    "st_data (commit_batch env c nc staged s) = st_data s" "st_log (commit_batch env c nc staged s) = st_log s"
    "st_config (commit_batch env c nc staged s) = st_config s"
  using assms fold_commit_doc[of env c staged]
  by (auto simp: commit_batch_def Let_def create_core_def core_def ensure_collection_def split: option.splits)

lemma batch_written:
  assumes inv: "segs_inv (st_data s)" and wf: "\<forall>p \<in> set pairs. amap_wf (snd p)"
    and nc: "nc = (aget (st_collections s) c = None)" and run: "write_batch env c nc pairs s = (Inr staged, t)"
  shows "writes (se_codec env) s (batch_ops c nc staged) (commit_batch env c nc staged t) \<and>
    core (commit_batch env c nc staged t) = fold (put_core c) (stage (store_rows s) pairs) (create_core c (core s)) \<and>
    segs_rows (st_data (commit_batch env c nc staged t)) = segs_rows (st_data s) @ batch_vectors env (st_config s) pairs"
proof -
  note w = write_batch_ok[OF inv wf run]
  have nc': "nc = (aget (st_collections t) c = None)" using nc w by (simp add: same_index_def)
  note k = commit_batch_core[OF nc', of env staged]
  have "segs_inv (st_data t)" using w by simp
  then have n: "store_rows t = store_rows s + sum_list (map (length \<circ> snd) pairs)"
    using w segs_count[OF inv] segs_count[of "st_data t"] length_batch_vectors by simp
  have st: "\<forall>st \<in> set staged. amap_wf (fst (snd st)) \<and> (\<forall>r \<in> set (avals (fst (snd st))). r < store_rows t)"
    using w stage_wf[OF wf] stage_rows unfolding n by fastforce
  have fits: "list_all (op_fits (store_rows t)) (batch_ops c nc staged)"
    using st by (fastforce simp: batch_ops_def list_all_iff staged_op_def)
  have core: "core t = core s" using w by (simp add: core_def same_index_def)
  have "replay_all (store_rows t) (batch_ops c nc staged) (core s) = fold (put_core c) staged (create_core c (core s))"
    using replay_batch[OF st, of c] nc
    by (auto simp: batch_ops_def create_core_def core_def replay_core_simps ensure_collection_def split: option.splits)
  then show ?thesis using w k fits core by (auto simp: writes_def same_index_def)
qed

section \<open>Upsert\<close>

lemma note_commit_point_silent: "silent_at (if b then note_commit_point env else ret ()) s"
  by (intro silent_intros)

text \<open>The seal before the marks, and what the batch then does to the store it leaves.\<close>

lemma upsert_Inr:
  assumes inv: "segs_inv (st_data s)" and free: "next_name_free (st_data s)" and wf: "list_all record_wf records"
    and run: "upsert env c records s = (Inr m, t)"
  obtains per where "list_all2 (\<lambda>r named. amap_wf named \<and> aget named = record_vectors r \<and>
      (\<forall>v \<in> set (avals named). length v = segs_dimension (st_data s))) records per"
    "m = length records" "\<exists>ops. writes (se_codec env) s ops t"
    "core t = fold (put_core c) (stage (store_rows s) (zip records per)) (create_core c (core s))"
    "segs_rows (st_data t) = segs_rows (st_data s) @ batch_vectors env (st_config s) (zip records per)"
proof -
  obtain per where per: "validate_batch (segs_dimension (st_data s)) (declared_names c s) records = Inr per"
    using run by (auto simp: upsert_def act_Inr split: sum.splits)
  have named: "list_all2 (\<lambda>r named. amap_wf named \<and> aget named = record_vectors r \<and>
      (\<forall>v \<in> set (avals named). length v = segs_dimension (st_data s))) records per"
    by (rule list_all2_mono_wf[OF validate_batch_ok[OF per] wf]) (rule named_vectors_ok)
  let ?nc = "aget (st_collections s) c = None" and ?pairs = "zip records per"
  have len: "length per = length records" using named list_all2_lengthD by force
  show ?thesis
  proof (cases "records = []")
    case True
    have run': "upsert_empty env c ?nc s = (Inr m, t)" using run True by (simp add: upsert_def act_Inr)
    have e: "core t = create_core c (core s) \<and> m = 0 \<and> (\<exists>ops. writes (se_codec env) s ops t) \<and>
        segs_rows (st_data t) = segs_rows (st_data s)"
    proof (cases ?nc)
      case True
      let ?post = "\<lambda>u. u\<lparr>st_collections := aput c collection_new (st_collections u)\<rparr>"
      obtain u where u: "andThen (append_op env (CreateCollection c)) (\<lambda>_. maybe_sync env) s = (Inr (), u)"
        "t = ?post u" "m = 0"
        using run' True by (auto simp: upsert_empty_def run_Inr set_collections_def)
      have core: "core u = core s" by (rule logged_core(1)[OF inv u(1)])
      have k: "core t = create_core c (core s)"
        using core u(2) True by (simp add: core_def create_core_def ensure_collection_def)
      have w: "writes (se_codec env) s [CreateCollection c] t"
        by (rule logged_once[OF inv u(1)]) (use k u(2) in \<open>simp_all add: replay_core_simps create_core_def core_def\<close>)
      show ?thesis using k w u logged_core(5)[OF inv u(1)] by auto
    next
      case False
      then have "t = s" "m = 0" using run' by (auto simp: upsert_empty_def)
      then show ?thesis using False silent_writes[of s s "se_codec env"] inv
        by (auto simp: create_core_def core_def ensure_collection_def)
    qed
    then show ?thesis using that[OF named] True by (simp add: batch_vectors_def)
  next
    case False
    have ok: "\<not> cf_read_only (st_config s)" using run by (simp add: upsert_def act_Inr)
    have run': "andThen (maybe_seal env) (\<lambda>_. upsert_batch env c ?nc ?pairs) s = (Inr m, t)"
      using run False per ok by (simp add: upsert_def act_Inr)
    then obtain u v staged w where
      1: "maybe_seal env s = (Inr (), u)" and 2: "check_cap (sum_list (map (length \<circ> snd) ?pairs)) u = (Inr (), v)" and
      3: "write_batch env c ?nc ?pairs v = (Inr staged, w)" and
      4: "andThen (if barrier_now (commit_batch env c ?nc staged w) then note_commit_point env else ret ())
        (\<lambda>_. ret (length staged)) (commit_batch env c ?nc staged w) = (Inr m, t)"
      by (auto simp: upsert_batch_def run_Inr)
    note u = silent_atD[OF silent_at_maybe_seal[OF free] inv 1]
    have v: "v = u" using 2 by (auto simp: check_cap_def Let_def split: option.splits if_splits)
    have inv': "segs_inv (st_data u)" using u by (simp add: silent_def)
    have n: "store_rows u = store_rows s"
      using u segs_count[OF inv] segs_count[OF inv'] by (simp add: silent_def)
    have wf': "\<forall>p \<in> set ?pairs. amap_wf (snd p)"
      using named by (auto simp: list_all2_iff)
    have nc': "?nc = (aget (st_collections u) c = None)" using u by (simp add: silent_def same_index_def)
    note b = batch_written[OF inv' wf' nc' 3[unfolded v]]
    let ?w = "commit_batch env c ?nc staged w"
    have "segs_inv (st_data ?w)" using b by (simp add: writes_def)
    note tail = note_commit_point_tail[OF this 4]
    have ww: "writes (se_codec env) u (batch_ops c ?nc staged) t" using writes_silent[OF inv'] b tail by blast
    have "writes (se_codec env) s (batch_ops c ?nc staged) t"
      using writes_trans[OF inv silent_writes[OF u] ww] by simp
    moreover have "core t = fold (put_core c) (stage (store_rows s) ?pairs) (create_core c (core s))"
      using b silent_core[of ?w t] tail silent_core[OF u] n by simp
    moreover have "segs_rows (st_data t) = segs_rows (st_data s) @ batch_vectors env (st_config s) ?pairs"
      using b silent_core[of ?w t] tail silent_core[OF u] u by (simp add: silent_def same_index_def)
    moreover have "length (stage n ps) = length ps" for n ps by (induction n ps rule: stage.induct) simp_all
    then have "m = length records"
      using tail write_batch_ok[OF inv' wf' 3[unfolded v]] len by simp
    ultimately show ?thesis using that[OF named] by blast
  qed
qed

end
