(* ===== verification/StoreView.thy ===== *)
theory StoreView
  imports StoreUpsert "HOL-Library.Multiset"
begin

text \<open>
  The abstract specification of the store: a finite map from collections to documents, each a
  map from vector names to vectors with attributes. The concrete store keeps row numbers, a
  matrix, tombstones and a log; every mutation refines its abstract counterpart, and the rows
  of live documents stay disjoint and inside the matrix.
\<close>

section \<open>Contents\<close>

type_synonym doc_contents = "(string \<Rightarrow> f32 list option) \<times> attrs"
type_synonym contents = "string \<Rightarrow> (string \<Rightarrow> doc_contents option) option"

definition doc_view :: "(nat \<Rightarrow> f32 list option) \<Rightarrow> doc_entry \<Rightarrow> doc_contents" where
  "doc_view row e = ((\<lambda>name. Option.bind (aget (de_rows e) name) row), de_attrs e)"

definition view_of :: "(nat \<Rightarrow> f32 list option) \<Rightarrow> collections \<Rightarrow> contents" where
  "view_of row cols c = map_option (\<lambda>col did. map_option (doc_view row) (aget (co_docs col) did)) (aget cols c)"

definition contents :: "store \<Rightarrow> contents" where
  "contents s = view_of (segs_row (st_data s)) (st_collections s)"

definition spec_create :: "string \<Rightarrow> contents \<Rightarrow> contents" where
  "spec_create c V = (case V c of None \<Rightarrow> V(c \<mapsto> Map.empty) | Some _ \<Rightarrow> V)"

definition spec_put :: "string \<Rightarrow> string \<Rightarrow> doc_contents \<Rightarrow> contents \<Rightarrow> contents" where
  "spec_put c did x V = V(c \<mapsto> (case V c of None \<Rightarrow> Map.empty | Some docs \<Rightarrow> docs)(did \<mapsto> x))"

definition record_view :: "(f32 list \<Rightarrow> f32 list) \<Rightarrow> doc_record \<Rightarrow> doc_contents" where
  "record_view g r = ((\<lambda>name. map_option g (record_vectors r name)), rec_attrs r)"

definition spec_upsert :: "(f32 list \<Rightarrow> f32 list) \<Rightarrow> string \<Rightarrow> doc_record list \<Rightarrow> contents \<Rightarrow> contents" where
  "spec_upsert g c records V = fold (\<lambda>r. spec_put c (rec_id r) (record_view g r)) records (spec_create c V)"

definition spec_delete :: "string \<Rightarrow> string \<Rightarrow> contents \<Rightarrow> contents" where
  "spec_delete c did V = V(c := map_option (\<lambda>docs. docs(did := None)) (V c))"

definition spec_sweep :: "(attrs \<Rightarrow> bool) \<Rightarrow> contents \<Rightarrow> contents" where
  "spec_sweep P V c = map_option (\<lambda>docs did. case docs did of
     Some x \<Rightarrow> if P (snd x) then None else Some x | None \<Rightarrow> None) (V c)"

lemma view_or_new:
  "view_of row (on_collection c f cols) = (view_of row cols)(c \<mapsto> (\<lambda>did. map_option (doc_view row) (aget (co_docs (f (or_new c cols))) did)))"
  by (auto simp: view_of_def on_collection_def)

lemma view_docs:
  "map_option (doc_view row) (aget (co_docs (or_new c cols)) did) =
    (case view_of row cols c of None \<Rightarrow> None | Some docs \<Rightarrow> docs did)"
  by (auto simp: view_of_def or_new_def collection_new_def split: option.splits)

lemma view_ensure: "view_of row (ensure_collection c cols) = spec_create c (view_of row cols)"
  by (auto simp: view_of_def ensure_collection_def spec_create_def collection_new_def fun_eq_iff split: option.splits)

lemma view_put_doc:
  "view_of row (on_collection c (put_doc did e) cols) = spec_put c did (doc_view row e) (view_of row cols)"
proof -
  have "(\<lambda>d. map_option (doc_view row) (aget (co_docs (put_doc did e (or_new c cols))) d)) =
      (case view_of row cols c of None \<Rightarrow> Map.empty | Some docs \<Rightarrow> docs)(did \<mapsto> doc_view row e)"
    using view_docs[of row c cols] by (auto simp: put_doc_def fun_eq_iff split: option.splits)
  then show ?thesis by (simp add: view_or_new spec_put_def)
qed

lemma view_remove_doc:
  assumes "aget cols c \<noteq> None"
  shows "view_of row (on_collection c (remove_doc did) cols) = spec_delete c did (view_of row cols)"
  using assms by (auto simp: view_or_new spec_delete_def view_of_def remove_doc_def or_new_def fun_eq_iff)

lemma view_delete:
  "view_of row (fst (replay_core n (Delete c did) k)) = spec_delete c did (view_of row (fst k))"
proof (cases k)
  case (Pair cols dead)
  show ?thesis
  proof (cases "lookup_doc cols c did")
    case None
    then have "spec_delete c did (view_of row cols) = view_of row cols"
      by (auto simp: lookup_doc_def spec_delete_def view_of_def fun_eq_iff split: bind_splits option.splits)
    then show ?thesis using None Pair by (simp add: replay_core_simps)
  next
    case (Some old)
    then have "aget cols c \<noteq> None" by (cases "aget cols c") (simp_all add: lookup_doc_def)
    then show ?thesis using Some Pair by (simp add: replay_core_simps view_remove_doc)
  qed
qed

lemma view_deletes:
  "view_of row (fst (replay_all n (map (\<lambda>(c, did). Delete c did) ps) k)) =
    fold (\<lambda>(c, did). spec_delete c did) ps (view_of row (fst k))"
  by (induction ps arbitrary: k) (auto simp: view_delete)

section \<open>Rows of a batch\<close>

lemma bind_numbered:
  assumes "\<And>i. i < length named \<Longrightarrow> row (n + i) = Some (g (snd (named ! i)))"
  shows "Option.bind (aget (numbered n named) name) row = map_option g (aget named name)"
  using assms
proof (induction named arbitrary: n)
  case (Cons x xs)
  have "row (Suc n + i) = Some (g (snd (xs ! i)))" if "i < length xs" for i
    using Cons.prems[of "Suc i"] that by simp
  note ih = Cons.IH[of "Suc n", OF this]
  have "numbered n (x # xs) = (fst x, n) # numbered (Suc n) xs"
    by (simp add: upt_conv_Cons del: upt_Suc)
  then show ?case using ih Cons.prems[of 0] by (cases x) simp
qed simp

lemma view_stage:
  assumes "\<And>i. i < length (batch_vectors env cf pairs) \<Longrightarrow> row (n + i) = Some (batch_vectors env cf pairs ! i)"
    and "\<forall>(r, named) \<in> set pairs. aget named = record_vectors r"
  shows "view_of row (fst (fold (put_core c) (stage n pairs) k)) =
    fold (\<lambda>(r, named). spec_put c (rec_id r) (record_view (stored env cf) r)) pairs (view_of row (fst k))"
  using assms
proof (induction n pairs arbitrary: k rule: stage.induct)
  case (2 n r named rest)
  let ?vs = "map (stored env cf \<circ> snd) named" and ?rest = "batch_vectors env cf rest"
  have split: "batch_vectors env cf ((r, named) # rest) = ?vs @ ?rest" by (simp add: batch_vectors_def)
  have row: "row (n + i) = Some ((?vs @ ?rest) ! i)" if "i < length named + length ?rest" for i
    using "2.prems"(1)[of i] that unfolding split by simp
  have "row (n + i) = Some (stored env cf (snd (named ! i)))" if "i < length named" for i
    using row[of i] that by (simp add: nth_append)
  from bind_numbered[of named row n "stored env cf", OF this]
  have e: "doc_view row \<lparr>de_rows = numbered n named, de_attrs = rec_attrs r\<rparr> = record_view (stored env cf) r"
    using "2.prems"(2) by (simp add: doc_view_def record_view_def)
  have "row (n + length named + i) = Some (?rest ! i)" if "i < length ?rest" for i
    using row[of "length named + i"] that by (simp add: nth_append add.assoc)
  note ih = "2.IH"[OF this]
  show ?case using ih "2.prems"(2) e by (simp add: put_core_def view_put_doc)
qed simp

section \<open>The row invariant\<close>

text \<open>
  Every live row lies in the matrix and belongs to one document and one name; the rows that are
  neither live nor counted dead are at most those a torn batch left behind.
\<close>

definition entry_live :: "doc_entry \<Rightarrow> nat multiset" where
  "entry_live e = mset (avals (de_rows e))"

definition col_live :: "collection \<Rightarrow> nat multiset" where
  "col_live col = sum_list (map (\<lambda>x. entry_live (snd x)) (co_docs col))"

definition live_rows :: "collections \<Rightarrow> nat multiset" where
  "live_rows cols = sum_list (map (\<lambda>x. col_live (snd x)) cols)"

definition col_wf :: "collection \<Rightarrow> bool" where
  "col_wf col \<longleftrightarrow> amap_wf (co_docs col) \<and> (\<forall>e \<in> set (avals (co_docs col)). amap_wf (de_rows e))"

definition core_ok :: "nat \<Rightarrow> core \<Rightarrow> bool" where
  "core_ok n k \<longleftrightarrow> amap_wf (fst k) \<and> (\<forall>col \<in> set (avals (fst k)). col_wf col) \<and>
     live_rows (fst k) \<subseteq># mset [0..<n] \<and> size (live_rows (fst k)) + snd k \<le> n"

definition store_ok :: "store \<Rightarrow> bool" where
  "store_ok s \<longleftrightarrow> segs_inv (st_data s) \<and> core_ok (store_rows s) (core s)"

lemma size_entry_live [simp]: "size (entry_live e) = entry_rows e"
  by (simp add: entry_live_def entry_rows_def)

lemma size_sum_mset_list:
  fixes f :: "'a \<Rightarrow> nat multiset"
  shows "size (sum_list (map f xs)) = sum_list (map (\<lambda>x. size (f x)) xs)"
  by (induction xs) simp_all

lemma size_col_live: "size (col_live col) = collection_rows col"
  by (simp add: col_live_def collection_rows_def size_sum_mset_list comp_def)

text \<open>How a sum over the entries of a map changes with the map.\<close>

lemma sum_aput:
  fixes f :: "'k::linorder \<times> 'v \<Rightarrow> 'a::comm_monoid_add"
  assumes "amap_wf m"
  shows "sum_list (map f (aput k v m)) + (case aget m k of None \<Rightarrow> 0 | Some w \<Rightarrow> f (k, w)) = sum_list (map f m) + f (k, v)"
  using assms
proof (induction k v m rule: aput.induct)
  case (2 k v a b m)
  have none: "aget m k = None" if "k \<le> a"
    using "2.prems" that by (auto simp: map_of_eq_None_iff)
  show ?case using "2.IH" "2.prems" none by (auto simp: ac_simps)
qed (simp add: add.commute)

lemma sum_adel:
  fixes f :: "'k::linorder \<times> 'v \<Rightarrow> 'a::comm_monoid_add"
  assumes "amap_wf m"
  shows "sum_list (map f (adel k m)) + (case aget m k of None \<Rightarrow> 0 | Some w \<Rightarrow> f (k, w)) = sum_list (map f m)"
  using assms
proof (induction m)
  case (Cons x m)
  obtain a b where x: "x = (a, b)" by fastforce
  have "aget m k = None" "adel k m = m" if "k = a"
    using Cons.prems that x by (auto simp: map_of_eq_None_iff intro!: adel_absent)
  then show ?case using Cons x by (auto simp: adel_def ac_simps)
qed (simp add: adel_def)

lemma aput_mem: "x \<in> set (aput k v m) \<Longrightarrow> snd x = v \<or> x \<in> set m"
  by (induction k v m rule: aput.induct) (auto split: if_splits)

lemma adel_mem: "x \<in> set (adel k m) \<Longrightarrow> x \<in> set m"
  by (simp add: adel_def)

lemma col_live_put:
  assumes "col_wf col"
  shows "col_live (put_doc did e col) + (case aget (co_docs col) did of None \<Rightarrow> {#} | Some o' \<Rightarrow> entry_live o') =
    col_live col + entry_live e"
  using sum_aput[of "co_docs col" "\<lambda>x. entry_live (snd x)" did e] assms
  by (simp add: col_live_def put_doc_def col_wf_def cong: option.case_cong)

lemma col_live_remove:
  assumes "col_wf col"
  shows "col_live (remove_doc did col) + (case aget (co_docs col) did of None \<Rightarrow> {#} | Some o' \<Rightarrow> entry_live o') = col_live col"
  using sum_adel[of "co_docs col" "\<lambda>x. entry_live (snd x)" did] assms
  by (simp add: col_live_def remove_doc_def col_wf_def cong: option.case_cong)

lemma col_wf_put: "col_wf col \<Longrightarrow> amap_wf (de_rows e) \<Longrightarrow> col_wf (put_doc did e col)"
  by (auto simp: col_wf_def put_doc_def dest!: aput_mem)

lemma col_wf_remove: "col_wf col \<Longrightarrow> col_wf (remove_doc did col)"
  by (auto simp: col_wf_def remove_doc_def dest!: adel_mem)

lemma col_new [simp]: "col_wf collection_new" "col_live collection_new = {#}"
  by (simp_all add: col_wf_def col_live_def collection_new_def)

lemma core_ok_or_new: "core_ok n k \<Longrightarrow> col_wf (or_new c (fst k))"
  by (auto simp: core_ok_def or_new_def split: option.splits dest!: map_of_SomeD)

text \<open>
  Changing one collection: \<^verbatim>\<open>X\<close> are the rows it gives up, which are counted dead, \<^verbatim>\<open>Y\<close> the rows it
  gains, all of them past the old end of the matrix.
\<close>

lemma core_ok_on:
  assumes ok: "core_ok n k" and wf: "col_wf (f (or_new c (fst k)))"
    and live: "col_live (f (or_new c (fst k))) + X = col_live (or_new c (fst k)) + Y"
    and new: "Y \<subseteq># mset [n..<m]" "n \<le> m"
  shows "core_ok m (on_collection c f (fst k), snd k + size X)"
proof -
  let ?cols = "fst k" and ?col = "or_new c (fst k)"
  have wfs: "amap_wf ?cols" using ok by (simp add: core_ok_def)
  have "live_rows (aput c (f ?col) ?cols) + col_live ?col = live_rows ?cols + col_live (f ?col)"
    using sum_aput[OF wfs, of "\<lambda>x. col_live (snd x)" c "f ?col"]
    by (auto simp: live_rows_def or_new_def split: option.splits)
  then have "(live_rows (aput c (f ?col) ?cols) + X) + col_live ?col = (live_rows ?cols + Y) + col_live ?col"
    using live by (metis add.assoc add.commute)
  then have eq: "live_rows (aput c (f ?col) ?cols) + X = live_rows ?cols + Y" by simp
  have "live_rows ?cols + Y \<subseteq># mset [0..<n] + mset [n..<m]"
    using ok new(1) by (intro subset_mset.add_mono) (simp_all add: core_ok_def)
  also have "mset [0..<n] + mset [n..<m] = mset [0..<m]"
    using new(2) upt_add_eq_append[of 0 n "m - n"] by (simp del: mset_upt)
  finally have "live_rows (aput c (f ?col) ?cols) + X \<subseteq># mset [0..<m]" unfolding eq .
  then have sub: "live_rows (aput c (f ?col) ?cols) \<subseteq># mset [0..<m]"
    by (meson mset_subset_eq_add_left subset_mset.order_trans)
  have "size (live_rows (aput c (f ?col) ?cols)) + size X = size (live_rows ?cols) + size Y"
    using arg_cong[OF eq, of size] by simp
  moreover have "size Y \<le> m - n" using size_mset_mono[OF new(1)] by simp
  moreover have "size (live_rows ?cols) + snd k \<le> n" using ok by (simp add: core_ok_def)
  ultimately have "size (live_rows (aput c (f ?col) ?cols)) + (snd k + size X) \<le> m"
    using new(2) by linarith
  then show ?thesis using sub ok wf wfs
    by (auto simp: core_ok_def on_collection_def dest!: aput_mem)
qed

lemma mset_upt_mono: "n \<le> m \<Longrightarrow> mset [0..<n] \<subseteq># mset [0..<m]"
  using upt_add_eq_append[of 0 n "m - n"] by simp

lemma core_ok_mono: "core_ok n k \<Longrightarrow> n \<le> m \<Longrightarrow> core_ok m k"
proof -
  assume ok: "core_ok n k" and le: "n \<le> m"
  have "mset [0..<n] \<subseteq># mset [0..<m]" using le by (simp add: mset_upt_mono)
  then show "core_ok m k" using ok le by (auto simp: core_ok_def intro: subset_mset.order_trans)
qed

section \<open>Every operation keeps the invariant\<close>

lemma core_ok_keep:
  assumes "core_ok n k" "col_wf (f (or_new c (fst k)))" "col_live (f (or_new c (fst k))) = col_live (or_new c (fst k))"
  shows "core_ok n (on_collection c f (fst k), snd k)"
  using core_ok_on[of n k f c "{#}" "{#}" n] assms by simp

lemma ensure_on: "ensure_collection c cols = (if aget cols c = None then on_collection c (\<lambda>col. col) cols else cols)"
  by (auto simp: ensure_collection_def on_collection_def or_new_def split: option.splits)

lemma core_ok_create: "core_ok n k \<Longrightarrow> core_ok n (create_core c k)"
  using core_ok_keep[of n k "\<lambda>col. col" c] core_ok_or_new[of n k c] by (simp add: create_core_def ensure_on)

lemma core_ok_put:
  assumes ok: "core_ok n k" and wf: "amap_wf named"
  shows "core_ok (n + length named) (put_core c (did, numbered n named, a) k)"
proof -
  let ?e = "\<lparr>de_rows = numbered n named, de_attrs = a\<rparr>" and ?col = "or_new c (fst k)"
  let ?X = "case aget (co_docs ?col) did of None \<Rightarrow> {#} | Some o' \<Rightarrow> entry_live o'"
  have col: "col_wf ?col" by (rule core_ok_or_new[OF ok])
  have "core_ok (n + length named) (on_collection c (put_doc did ?e) (fst k), snd k + size ?X)"
  proof (rule core_ok_on[OF ok])
    show "col_wf (put_doc did ?e ?col)" using col wf by (intro col_wf_put) (simp_all add: numbered_wf)
    show "col_live (put_doc did ?e ?col) + ?X = col_live ?col + entry_live ?e" by (rule col_live_put[OF col])
    show "entry_live ?e \<subseteq># mset [n..<n + length named]" by (simp add: entry_live_def map_snd_zip)
  qed simp
  moreover have "size ?X = owned_rows (aget (co_docs ?col) did)"
    by (simp add: owned_rows_def split: option.split)
  ultimately show ?thesis by (simp add: put_core_def)
qed

lemma core_ok_stage:
  "core_ok n k \<Longrightarrow> \<forall>p \<in> set pairs. amap_wf (snd p) \<Longrightarrow>
    core_ok (n + sum_list (map (length \<circ> snd) pairs)) (fold (put_core c) (stage n pairs) k)"
proof (induction n pairs arbitrary: k rule: stage.induct)
  case (2 n r named rest)
  have "core_ok (n + length named) (put_core c (rec_id r, numbered n named, rec_attrs r) k)"
    using "2.prems" by (intro core_ok_put) simp_all
  then show ?case using "2.IH" "2.prems"(2) by (simp add: add.assoc)
qed simp

lemma core_ok_delete:
  assumes ok: "core_ok n k"
  shows "core_ok n (replay_core m (Delete c did) k)"
proof (cases "lookup_doc (fst k) c did")
  case None
  then show ?thesis using ok by (cases k) (simp add: replay_core_simps)
next
  case (Some old)
  let ?col = "or_new c (fst k)"
  have old: "aget (co_docs ?col) did = Some old"
    using Some by (auto simp: lookup_doc_def or_new_def bind_eq_Some_conv)
  have col: "col_wf ?col" by (rule core_ok_or_new[OF ok])
  have "core_ok n (on_collection c (remove_doc did) (fst k), snd k + size (entry_live old))"
    by (rule core_ok_on[OF ok, of _ _ _ "{#}"])
      (use col_wf_remove[OF col] col_live_remove[OF col, of did] old in simp_all)
  then show ?thesis using Some by (cases k) (simp add: replay_core_simps)
qed

lemma core_ok_deletes: "core_ok n k \<Longrightarrow> core_ok n (replay_all m (map (\<lambda>(c, did). Delete c did) ps) k)"
proof (induction ps arbitrary: k)
  case (Cons p ps)
  then show ?case using core_ok_delete[OF Cons.prems, of m "fst p" "snd p"] by (cases p) simp
qed simp

lemma core_ok_drop:
  assumes ok: "core_ok n k"
  shows "core_ok n (replay_core m (DropCollection c) k)"
proof (cases k)
  case (Pair cols dead)
  show ?thesis
  proof (cases "aget cols c")
    case (Some col)
    have "live_rows (adel c cols) + col_live col = live_rows cols"
      using sum_adel[of cols "\<lambda>x. col_live (snd x)" c] ok Pair Some by (simp add: live_rows_def core_ok_def)
    then have "live_rows (adel c cols) \<subseteq># live_rows cols"
      and "size (live_rows (adel c cols)) + collection_rows col = size (live_rows cols)"
      by (metis mset_subset_eq_add_left, metis size_union size_col_live)
    then show ?thesis using ok Pair Some
      by (auto simp: core_ok_def replay_core_simps dest!: adel_mem intro: subset_mset.order_trans)
  qed (use ok Pair in \<open>simp add: replay_core_simps\<close>)
qed

lemma stamp_doc_keeps:
  assumes "col_wf col"
  shows "col_wf (stamp_doc did k now x col) \<and> col_live (stamp_doc did k now x col) = col_live col"
proof (cases "aget (co_docs col) did")
  case (Some e)
  let ?e = "e\<lparr>de_attrs := stamp_attrs k now x (de_attrs e)\<rparr>"
  have "amap_wf (de_rows e)" using assms Some by (auto simp: col_wf_def dest!: map_of_SomeD)
  moreover have "col_live (put_doc did ?e col) + entry_live e = col_live col + entry_live e"
    using col_live_put[OF assms, of did ?e] Some by (simp add: entry_live_def)
  ultimately show ?thesis using Some assms by (simp add: stamp_doc_def col_wf_put)
qed (use assms in \<open>simp add: stamp_doc_def\<close>)

lemma core_ok_stamp:
  assumes ok: "core_ok n k"
  shows "core_ok n (replay_core m (stamp_op c now st) k)"
proof (cases "aget (fst k) c")
  case None
  then show ?thesis using ok
    by (cases k; cases st) (simp add: replay_core_def stamp_op_def im_core_def image_of_def)
next
  case (Some col)
  obtain did j x where st: "st = (did, j, x)" by (cases st)
  have "core_ok n (on_collection c (stamp_doc did j now x) (fst k), snd k)"
    using stamp_doc_keeps[OF core_ok_or_new[OF ok]] by (intro core_ok_keep[OF ok]) simp_all
  then show ?thesis using Some st
    by (cases k) (simp add: replay_core_def stamp_op_def im_core_def image_of_def on_collection_def or_new_def)
qed

lemma core_ok_stamps: "core_ok n k \<Longrightarrow> core_ok n (replay_all m (map (stamp_op c now) sts) k)"
  by (induction sts arbitrary: k) (simp_all add: core_ok_stamp)

section \<open>Reading through the index\<close>

lemma live_mem:
  assumes "aget cols c = Some col" "aget (co_docs col) did = Some e" "aget (de_rows e) name = Some r"
  shows "r \<in># live_rows cols"
proof -
  have mem: "x \<in> set xs \<Longrightarrow> f x \<subseteq># sum_list (map f xs)" for x xs and f :: "'z \<Rightarrow> nat multiset"
    by (induction xs) (auto intro: subset_mset.order_trans)
  have "r \<in># entry_live e" using map_of_SomeD[OF assms(3)] by (force simp: entry_live_def)
  moreover have "entry_live e \<subseteq># col_live col"
    unfolding col_live_def using mem[OF map_of_SomeD[OF assms(2)], of "\<lambda>x. entry_live (snd x)"] by simp
  moreover have "col_live col \<subseteq># live_rows cols"
    unfolding live_rows_def using mem[OF map_of_SomeD[OF assms(1)], of "\<lambda>x. col_live (snd x)"] by simp
  ultimately show ?thesis by (meson mset_subset_eqD)
qed

lemma core_ok_row: "core_ok n k \<Longrightarrow> r \<in># live_rows (fst k) \<Longrightarrow> r < n"
  by (auto simp: core_ok_def dest!: mset_subset_eqD)

lemma view_of_cong:
  assumes "core_ok n k" "\<And>r. r < n \<Longrightarrow> row r = row' r"
  shows "view_of row (fst k) = view_of row' (fst k)"
proof -
  have "doc_view row e = doc_view row' e" if "aget (fst k) c = Some col" "aget (co_docs col) did = Some e" for c col did e
  proof -
    have "Option.bind (aget (de_rows e) name) row = Option.bind (aget (de_rows e) name) row'" for name
      using live_mem[OF that] core_ok_row[OF assms(1)] assms(2) by (cases "aget (de_rows e) name") auto
    then show ?thesis by (simp add: doc_view_def)
  qed
  then show ?thesis
    by (intro ext) (auto simp: view_of_def fun_eq_iff option.map_comp intro!: option.map_cong split: option.splits)
qed

lemma segs_row_prefix:
  assumes "segs_inv d" "segs_inv e" "prefix (segs_rows d) (segs_rows e)" "r < segs_row_count d"
  shows "segs_row e r = segs_row d r"
  using assms segs_row_nth[OF assms(1)] segs_row_nth[OF assms(2)] segs_count[OF assms(1)]
  by (auto simp: prefix_def nth_append)

lemma contents_prefix:
  assumes "store_ok s" "segs_inv d" "prefix (segs_rows (st_data s)) (segs_rows d)"
  shows "view_of (segs_row d) (st_collections s) = contents s"
  using view_of_cong[of "store_rows s" "core s" "segs_row d" "segs_row (st_data s)"]
    segs_row_prefix[of "st_data s" d] assms
  by (simp add: store_ok_def contents_def core_def)

end
