(* ===== verification/StoreDemo.thy ===== *)
theory StoreDemo
  imports StoreView StoreOpen
begin

text \<open>
  A concrete environment for the witnesses: an in-memory store of two-dimensional vectors and a
  payload codec that carries a given list of operations.
\<close>

definition table_codec :: "op list \<Rightarrow> codec" where
  "table_codec tb = \<lparr>
     enc = (\<lambda>x. if x \<in> set tb \<and> length tb < 256 then Some [of_nat (length (takeWhile (\<lambda>y. y \<noteq> x) tb))] else None),
     dec = (\<lambda>bs. case bs of [b] \<Rightarrow> if unat b < length tb then Some (tb ! unat b) else None | _ \<Rightarrow> None),
     crc = (\<lambda>_. 0)\<rparr>"

lemma table_codec_faithful: "codec_faithful (table_codec tb)"
proof -
  have "dec (table_codec tb) p = Some x" if "enc (table_codec tb) x = Some p" for x p
  proof -
    let ?i = "length (takeWhile (\<lambda>y. y \<noteq> x) tb)"
    have x: "x \<in> set tb" "length tb < 256" "p = [of_nat ?i]" using that by (auto simp: table_codec_def split: if_splits)
    have i: "?i < length tb" using x(1) by (induction tb) auto
    then have "tb ! ?i = x" using nth_length_takeWhile[of "\<lambda>y. y \<noteq> x" tb] by simp
    moreover have "unat (of_nat ?i :: byte) = ?i" using i x(2) by (simp add: unat_of_nat)
    ultimately show ?thesis using x i by (simp add: table_codec_def)
  qed
  then show ?thesis by (simp add: codec_faithful_def)
qed

abbreviation no_bincode :: "'a bincode" where
  "no_bincode \<equiv> \<lparr>serialize = \<lambda>_. None, deserialize = \<lambda>_. None\<rparr>"

definition demo_senv :: "op list \<Rightarrow> store_env" where
  "demo_senv tb = \<lparr>se_codec = table_codec tb, se_sidecar = \<lparr>sc_u32 = demo_u32, sc_crc = demo_hash\<rparr>,
     se_manifest = demo_mc, se_history = \<lparr>hc_v1 = no_bincode, hc_v2 = no_bincode, hc_floor = no_bincode\<rparr>,
     se_fts = no_bincode, se_findex = no_bincode, se_fts_key = (\<lambda>_. []), se_findex_key = (\<lambda>_. []),
     se_text = \<lparr>te_alnum = (\<lambda>_. True), te_regex = (\<lambda>_. None)\<rparr>, se_unicode = \<lparr>uc_alnum = (\<lambda>_. True), uc_lower = (\<lambda>c. [c])\<rparr>,
     se_f32 = \<lparr>f_add = (\<lambda>a b. a), f_mul = (\<lambda>a b. a), f_div = (\<lambda>a b. a), f_sqrt = (\<lambda>a. a), f_less = (\<lambda>a b. False)\<rparr>,
     se_now = 0, se_order = (\<lambda>xs. xs)\<rparr>"

definition demo_config :: config where
  "demo_config = \<lparr>cf_dimension = 2, cf_distance = DotProduct, cf_per_batch = True, cf_read_only = False,
     cf_max_vector_bytes = None, cf_quantization = None, cf_ann = None, cf_query_threads = 1,
     cf_segment_max_rows = None, cf_segment_index_min_rows = None, cf_mmap = False, cf_at_version = None,
     cf_history_versions = None, cf_explicit_quantization = False, cf_explicit_ann = False,
     cf_explicit_query_threads = False, cf_explicit_mmap = False\<rparr>"

definition demo_store :: store where
  "demo_store = (case in_memory_cfg demo_config of Inr s \<Rightarrow> s | Inl _ \<Rightarrow> undefined)"

definition demo_rec :: doc_record where
  "demo_rec = \<lparr>rec_id = ''x'', rec_vector = Some [1, 2], rec_vectors = [], rec_attrs = []\<rparr>"

definition demo_up_ops :: "op list" where
  "demo_up_ops = [CreateCollection ''a'', UpsertVectors ''a'' ''x'' [(''default'', 0)] []]"

lemma demo_store_eq:
  "demo_store = \<lparr>st_config = demo_config, st_baseline = demo_config, st_profile = profile_default,
     st_data = segs_in_memory_with 2 DotProduct, st_log = log_in_memory,
     st_collections = [], st_aliases = [], st_dead_rows = 0, st_fts = fts_default, st_fts_dirty = False,
     st_findex = findex_default, st_findex_dirty = False, st_in_memory = True, st_loaded_log_offset = 0,
     st_defer_barrier = False, st_pending_barrier = False, st_pinned = None, st_pruned_through = 0\<rparr>"
  by (simp add: demo_store_def in_memory_cfg_def demo_config_def config_valid_def)

lemma demo_store_ok: "store_ok demo_store" "next_name_free (st_data demo_store)"
  by (simp_all add: demo_store_eq store_ok_def core_ok_def core_def live_rows_def next_name_free_def
      segs_in_memory_with_def segs_inv_def bases_of_def seg_in_memory_with_def seg_row_count_def active_def
      seg_live_def seg_inv_def seg_wf_def seg_is_mmap_def segs_dimension_def)

lemmas run_store_defs = upsert_def check_writable_def named_vectors_def maybe_seal_def upsert_batch_def check_cap_def
  write_batch_def on_log_def on_data_def log_offset_def ap_len_def on_file_def mem_len_def recovering_def
  segs_append_def on_active_def with_active_def active_def seg_append_def on_appender_def sync_data_phase_def
  barrier_now_def segs_sync_def seg_sync_def batch_ops_def staged_op_def append_ops_def append_op_def log_append_def
  of_result_def frame_def ap_append_def mem_append_def sync_log_phase_def log_sync_def ap_sync_def mem_sync_def
  modify_def commit_batch_def commit_doc_def mark_dirty_def note_commit_point_def segs_row_count_def seg_row_count_def
  rollback_def log_truncate_to_def ap_truncate_to_def mem_truncate_to_def segs_truncate_to_def seg_truncate_to_def
  segs_in_memory_with_def seg_in_memory_with_def log_in_memory_def segs_dimension_def declared_names_def
  set_pending_def ret_def andThen_def

lemmas demo_defs = demo_store_eq demo_config_def demo_rec_def demo_up_ops_def demo_senv_def table_codec_def DEFAULT_VECTOR_def

lemma demo_upsert: "\<exists>t. upsert (demo_senv demo_up_ops) ''a'' [demo_rec] demo_store = (Inr 1, t)"
  by (simp add: run_store_defs demo_defs Let_def)

lemma demo_upsert_fails:
  "\<exists>t. upsert (demo_senv [CreateCollection ''a'']) ''a'' [demo_rec] demo_store = (Inl (Log SerializeFailed), t)"
  by (simp add: run_store_defs demo_defs Let_def)

abbreviation demo_doc :: doc_contents where
  "demo_doc \<equiv> ((\<lambda>name. if name = ''default'' then Some [1, 2] else None), [])"

lemma demo_contents: "contents demo_store = Map.empty"
  by (simp add: contents_def view_of_def demo_store_eq fun_eq_iff)

lemma demo_view: "record_view (stored (demo_senv tb) (st_config demo_store)) demo_rec = demo_doc"
  by (simp add: record_view_def record_vectors_def demo_rec_def demo_store_eq demo_config_def stored_def
      DEFAULT_VECTOR_def fun_eq_iff)

lemma demo_spec:
  "spec_upsert (stored (demo_senv tb) (st_config demo_store)) ''a'' [demo_rec] (contents demo_store) ''a'' = Some [''x'' \<mapsto> demo_doc]"
  by (simp add: spec_upsert_def spec_put_def spec_create_def demo_contents demo_view) (simp add: demo_rec_def)

lemma demo_rec_wf: "list_all record_wf [demo_rec]"
  by (simp add: record_wf_def demo_rec_def)

text \<open>A store of two rows: one dead, one the vector of the only document.\<close>

definition demo_full :: store where
  "demo_full = demo_store\<lparr>st_data := \<lparr>ss_distance = DotProduct, ss_persistence = None,
       ss_segs = [\<lparr>sg_name = BASE_SEGMENT, sg_data = \<lparr>ds_dimension = 2, ds_distance = DotProduct,
         ds_backing = Ram [1, 2, 3, 4], ds_appender = None\<rparr>\<rparr>], ss_base = [0], ss_next_id = 1, ss_version = 1\<rparr>,
     st_collections := [(''a'', \<lparr>co_meta = [], co_docs = [(''x'',
       \<lparr>de_rows = [(''default'', 1)], de_attrs = [(''k'', VInt 1)]\<rparr>)], co_vector_names = []\<rparr>)],
     st_dead_rows := 1\<rparr>"

lemmas demo_full_defs = demo_full_def demo_store_eq

lemma demo_full_ok: "store_ok demo_full" "next_name_free (st_data demo_full)"
proof -
  have four: "Suc (Suc (Suc (Suc 0))) div Suc (Suc 0) = 2" by code_simp
  have "segs_inv (st_data demo_full)" "store_rows demo_full = 2"
    by (simp_all add: demo_full_defs segs_inv_def bases_of_def seg_row_count_def active_def segs_row_count_def
      seg_live_def seg_inv_def seg_wf_def seg_is_mmap_def segs_dimension_def four)
  moreover have "core_ok 2 (core demo_full)"
    by (simp add: demo_full_defs core_ok_def core_def live_rows_def col_wf_def col_live_def entry_live_def)
  ultimately show "store_ok demo_full" "next_name_free (st_data demo_full)"
    by (simp_all add: store_ok_def next_name_free_def demo_full_defs)
qed

lemma demo_full_contents:
  "contents demo_full = [''a'' \<mapsto> [''x'' \<mapsto> ((\<lambda>name. if name = ''default'' then Some [3, 4] else None), [(''k'', VInt 1)])]]"
  by (simp add: demo_full_defs contents_def view_of_def doc_view_def fun_eq_iff segs_row_def seg_row_def seg_vectors_def)

end
