(* ===== verification/StoreProps.thy ===== *)
theory StoreProps
  imports StoreDemo
begin

text \<open>
  Properties of the store's mutations: an upsert is all or nothing and refines the abstract
  upsert; deletions and sweeps refine theirs; every mutation keeps the row invariant.
\<close>

section \<open>Upsert\<close>

lemma silent_contents: "silent s t \<Longrightarrow> store_ok s \<Longrightarrow> store_ok t \<and> contents t = contents s"
proof -
  assume st: "silent s t" and ok: "store_ok s"
  have n: "store_rows t = store_rows s"
    using st ok segs_count[of "st_data s"] segs_count[of "st_data t"] by (simp add: silent_def store_ok_def)
  have core: "core t = core s" "st_collections t = st_collections s"
    using st by (simp_all add: silent_def same_index_def core_def)
  have "store_ok t" using ok n core st by (simp add: store_ok_def silent_def)
  moreover have "contents t = contents s"
    using contents_prefix[OF ok, of "st_data t"] st core by (simp add: silent_def contents_def)
  ultimately show "store_ok t \<and> contents t = contents s" by simp
qed

lemma fold_zip_fst: "length xs = length ys \<Longrightarrow> fold (\<lambda>(x, y). f x) (zip xs ys) z = fold f xs z"
  by (induction xs ys arbitrary: z rule: list_induct2) simp_all

lemma batch_contents:
  assumes ok: "store_ok s"
    and named: "list_all2 (\<lambda>r named. amap_wf named \<and> aget named = record_vectors r \<and>
      (\<forall>v \<in> set (avals named). length v = dim)) records per"
    and k: "core t = fold (put_core c) (stage (store_rows s) (zip records per)) (create_core c (core s))"
    and rows: "segs_rows (st_data t) = segs_rows (st_data s) @ batch_vectors env cf (zip records per)"
    and inv: "segs_inv (st_data t)"
  shows "store_ok t \<and> contents t = spec_upsert (stored env cf) c records (contents s)"
proof -
  let ?pairs = "zip records per" and ?row = "segs_row (st_data t)"
  have s: "segs_inv (st_data s)" "core_ok (store_rows s) (core s)" using ok by (simp_all add: store_ok_def)
  have n: "store_rows t = store_rows s + sum_list (map (length \<circ> snd) ?pairs)"
    using segs_count[OF inv] segs_count[OF s(1)] rows length_batch_vectors by simp
  have wf: "\<forall>p \<in> set ?pairs. amap_wf (snd p)" and get: "\<forall>(r, named) \<in> set ?pairs. aget named = record_vectors r"
    using named by (auto simp: list_all2_iff)
  have "store_ok t"
    using core_ok_stage[OF core_ok_create[OF s(2)] wf] inv k n by (simp add: store_ok_def)
  moreover have "contents t = spec_upsert (stored env cf) c records (contents s)"
  proof -
    have row: "?row (store_rows s + i) = Some (batch_vectors env cf ?pairs ! i)"
      if "i < length (batch_vectors env cf ?pairs)" for i
      using that segs_row_nth[OF inv] rows segs_count[OF s(1)] by (simp add: nth_append)
    have "contents t = view_of ?row (fst (core t))" by (simp add: contents_def core_def)
    also have "\<dots> = fold (\<lambda>(r, named). spec_put c (rec_id r) (record_view (stored env cf) r)) ?pairs
        (view_of ?row (fst (create_core c (core s))))"
      unfolding k by (rule view_stage[OF row get])
    also have "view_of ?row (fst (create_core c (core s))) = spec_create c (contents s)"
      using contents_prefix[OF ok inv] rows by (simp add: create_core_def core_def view_ensure)
    finally show ?thesis
      using named list_all2_lengthD by (fastforce simp: spec_upsert_def fold_zip_fst)
  qed
  ultimately show ?thesis by simp
qed

lemma commit_batch_defer [simp]: "st_defer_barrier (commit_batch env c nc staged s) = st_defer_barrier s"
proof -
  have "st_defer_barrier (fold (commit_doc env c) staged s) = st_defer_barrier s" for s
    by (induction staged arbitrary: s) (auto simp: commit_doc_def Let_def split: prod.splits)
  then show ?thesis by (simp add: commit_batch_def mark_dirty_def Let_def)
qed

text \<open>
  C2 (upsert refines the abstract upsert). An upsert that returns a count has stored every
  record: reading the store back gives the abstract contents with the records put in batch
  order, the vectors normalised for a cosine store, the collection created when it was absent;
  no other document changes, and the row invariant is kept.
\<close>
theorem upsert_refines:
  assumes "store_ok s" and "next_name_free (st_data s)" and "list_all record_wf records"
    and "upsert env c records s = (Inr m, t)"
  shows "m = length records \<and> store_ok t \<and>
    contents t = spec_upsert (stored env (st_config s)) c records (contents s)"
proof -
  have inv: "segs_inv (st_data s)" using assms(1) by (simp add: store_ok_def)
  obtain per where p:
    "list_all2 (\<lambda>r named. amap_wf named \<and> aget named = record_vectors r \<and>
      (\<forall>v \<in> set (avals named). length v = segs_dimension (st_data s))) records per"
    "m = length records" "\<exists>ops. writes (se_codec env) s ops t"
    "core t = fold (put_core c) (stage (store_rows s) (zip records per)) (create_core c (core s))"
    "segs_rows (st_data t) = segs_rows (st_data s) @ batch_vectors env (st_config s) (zip records per)"
    by (rule upsert_Inr[OF inv assms(2-4)])
  have "segs_inv (st_data t)" using p(3) by (auto simp: writes_def)
  then show ?thesis using batch_contents[OF assms(1) p(1,4,5)] p(2) by simp
qed

text \<open>A batch that fails: undone, or committed but for the commit point of the history.\<close>

lemma upsert_batch_Inl:
  assumes ok: "store_ok s" and nc: "nc = (aget (st_collections s) c = None)" and undone: "undone e"
    and named: "list_all2 (\<lambda>r named. amap_wf named \<and> aget named = record_vectors r \<and>
      (\<forall>v \<in> set (avals named). length v = dim)) records per"
    and run: "upsert_batch env c nc (zip records per) s = (Inl e, t)"
  shows "silent s t \<or> cf_history_versions (st_config s) \<noteq> None \<and> barrier_now s \<and> store_ok t \<and>
    contents t = spec_upsert (stored env (st_config s)) c records (contents s) \<and> (\<exists>ops. writes (se_codec env) s ops t)"
proof (cases "write_batch env c nc (zip records per) s")
  case (Pair r w)
  let ?pairs = "zip records per"
  have inv: "segs_inv (st_data s)" using ok by (simp add: store_ok_def)
  have phase: "phase grown s (write_batch env c nc ?pairs) s" by (rule phase_write_batch[OF inv])
  have cap: "t = s \<or> check_cap (sum_list (map (length \<circ> snd) ?pairs)) s = (Inr (), s)"
    using run by (auto simp: upsert_batch_def check_cap_def andThen_def Let_def split: option.splits if_splits)
  show ?thesis
  proof (cases r)
    case (Inl e')
    then show ?thesis using cap run Pair phase undone inv by (auto simp: upsert_batch_def phase_def)
  next
    case (Inr staged)
    let ?v = "commit_batch env c nc staged w"
    have wb: "write_batch env c nc ?pairs s = (Inr staged, w)" using Pair Inr by simp
    have wf: "\<forall>p \<in> set ?pairs. amap_wf (snd p)" using named by (auto simp: list_all2_iff)
    note b = batch_written[OF inv wf nc wb]
    have vinv: "segs_inv (st_data ?v)" using b by (simp add: writes_def)
    have cfg: "st_config ?v = st_config s" "barrier_now ?v = barrier_now s"
      using b write_batch_ok[OF inv wf wb] by (simp_all add: writes_def same_index_def barrier_now_def)
    have "t = s \<or> barrier_now ?v \<and> note_commit_point env ?v = (Inl e, t)"
      using cap run wb by (auto simp: upsert_batch_def andThen_Inl_iff modify_def split: if_splits)
    moreover have ?thesis if now: "barrier_now ?v" "note_commit_point env ?v = (Inl e, t)"
    proof -
      have "cf_history_versions (st_config s) \<noteq> None" "barrier_now s"
        using now cfg by (auto simp: note_commit_point_def split: if_splits)
      moreover have "silent ?v t" by (rule silent_atD[OF silent_at_note_commit_point vinv now(2)])
      moreover have "store_ok ?v \<and> contents ?v = spec_upsert (stored env (st_config s)) c records (contents s)"
        using b vinv by (intro batch_contents[OF ok named]) simp_all
      ultimately show ?thesis using silent_contents[of ?v t] writes_silent[OF inv, of _ _ ?v t] b by auto
    qed
    ultimately show ?thesis using inv by auto
  qed
qed

lemma upsert_Inl:
  assumes ok: "store_ok s" and free: "next_name_free (st_data s)" and wf: "list_all record_wf records" and ne: "records \<noteq> []"
    and run: "upsert env c records s = (Inl e, t)" and undone: "undone e"
  shows "silent s t \<or> cf_history_versions (st_config s) \<noteq> None \<and> barrier_now s \<and> store_ok t \<and>
    contents t = spec_upsert (stored env (st_config s)) c records (contents s) \<and> (\<exists>ops. writes (se_codec env) s ops t)"
proof (cases "cf_read_only (st_config s) \<or>
    (\<exists>e'. validate_batch (segs_dimension (st_data s)) (declared_names c s) records = Inl e')")
  have inv: "segs_inv (st_data s)" using ok by (simp add: store_ok_def)
  {
    case True
    then have "t = s" using run by (auto simp: upsert_def check_writable_def andThen_def split: if_splits)
    then show ?thesis using inv by simp
  next
    case False
    then obtain per where per: "validate_batch (segs_dimension (st_data s)) (declared_names c s) records = Inr per"
      by (cases "validate_batch (segs_dimension (st_data s)) (declared_names c s) records") auto
    have named: "list_all2 (\<lambda>r named. amap_wf named \<and> aget named = record_vectors r \<and>
        (\<forall>v \<in> set (avals named). length v = segs_dimension (st_data s))) records per"
      by (rule list_all2_mono_wf[OF validate_batch_ok[OF per] wf]) (rule named_vectors_ok)
    let ?nc = "aget (st_collections s) c = None"
    obtain q u where q: "maybe_seal env s = (q, u)" by fastforce
    have su: "silent s u" by (rule silent_atD[OF silent_at_maybe_seal[OF free] inv q])
    have "t = u \<or> upsert_batch env c ?nc (zip records per) u = (Inl e, t)"
      using ne run False per q by (cases q) (auto simp: upsert_def check_writable_def)
    moreover have ?thesis if b: "upsert_batch env c ?nc (zip records per) u = (Inl e, t)"
    proof -
      have u: "store_ok u" "contents u = contents s" using silent_contents[OF su ok] by auto
      have cfg: "st_config u = st_config s" "?nc = (aget (st_collections u) c = None)" "barrier_now u = barrier_now s"
        using su by (simp_all add: silent_def same_index_def barrier_now_def)
      show ?thesis using upsert_batch_Inl[OF u(1) cfg(2) undone named b] silent_trans[OF su] cfg u(2)
          writes_trans[OF inv silent_writes[OF su], of "se_codec env" _ t] by auto
    qed
    ultimately show ?thesis using su by blast
  }
qed

text \<open>A failing empty batch can leave a record of the creation in the log, and nothing else.\<close>

lemma append_op_grows:
  assumes "append_op env x s = (r, t)"
  shows "\<exists>l. t = s\<lparr>st_log := l\<rparr> \<and> prefix (ap_bytes (st_log s)) (ap_bytes l)"
  using assms log_append_prefix[of "se_codec env" x "st_log s"] by (auto simp: append_op_def on_log_def split: prod.splits)

lemma upsert_empty_Inl:
  assumes inv: "segs_inv (st_data s)" and run: "upsert env c [] s = (Inl e, t)"
  shows "t = s \<or> aget (st_collections s) c = None \<and> same_index s t \<and> segs_inv (st_data t) \<and>
    segs_rows (st_data t) = segs_rows (st_data s) \<and> prefix (ap_bytes (st_log s)) (ap_bytes (st_log t))"
proof (cases "cf_read_only (st_config s) \<or> aget (st_collections s) c \<noteq> None")
  case True
  then have "t = s" using run
    by (cases "cf_read_only (st_config s)") (auto simp: upsert_def upsert_empty_def check_writable_def andThen_def Let_def ret_def)
  then show ?thesis by simp
next
  case False
  then have r: "upsert_empty env c True s = (Inl e, t)" using run by (simp add: upsert_def check_writable_def)
  obtain x u where u: "append_op env (CreateCollection c) s = (x, u)" by fastforce
  from append_op_grows[OF u] have su: "same_index s u" "segs_inv (st_data u)" "segs_rows (st_data u) = segs_rows (st_data s)"
    "prefix (ap_bytes (st_log s)) (ap_bytes (st_log u))" using inv by (auto simp: same_index_def)
  obtain y v where v: "maybe_sync env u = (y, v)" by fastforce
  have uv: "silent u v" by (rule silent_atD[OF silent_at_maybe_sync su(2) v])
  have "t = u \<or> t = v" using r u v
    by (cases x; cases y) (auto simp: upsert_empty_def set_collections_def modify_def)
  then show ?thesis using False su uv same_index_trans[of s u v] by (auto simp: silent_def)
qed

lemma same_index_contents:
  "store_ok s \<Longrightarrow> same_index s t \<Longrightarrow> segs_inv (st_data t) \<Longrightarrow> segs_rows (st_data t) = segs_rows (st_data s) \<Longrightarrow> contents t = contents s"
  using contents_prefix[of s "st_data t"] by (simp add: same_index_def contents_def)

text \<open>
  C1 (upsert is all or nothing). An upsert that returns an error it could undo has changed nothing
  a reader or a reopen can see: not the documents, not a row, not a byte of the log, not an index.
  There are two exceptions. A store that keeps history and took its own barrier can fail to publish
  the commit point, and then the whole batch is in place. A batch of no records on a collection
  that does not exist changes no document, row or index, but can leave in the log what it wrote of
  the creation of the collection.
\<close>
theorem upsert_all_or_nothing:
  assumes "store_ok s" and "next_name_free (st_data s)" and "list_all record_wf records"
    and "upsert env c records s = (Inl e, t)" and "undone e"
  shows "contents t = contents s \<and> segs_rows (st_data t) = segs_rows (st_data s) \<and>
      st_collections t = st_collections s \<and> st_fts t = st_fts s \<and> st_findex t = st_findex s \<and>
      (ap_bytes (st_log t) = ap_bytes (st_log s) \<or>
       records = [] \<and> aget (st_collections s) c = None \<and> prefix (ap_bytes (st_log s)) (ap_bytes (st_log t))) \<or>
    records \<noteq> [] \<and> cf_history_versions (st_config s) \<noteq> None \<and> barrier_now s \<and>
      contents t = spec_upsert (stored env (st_config s)) c records (contents s)"
proof (cases "records = []")
  case True
  have inv: "segs_inv (st_data s)" using assms(1) by (simp add: store_ok_def)
  from upsert_empty_Inl[OF inv] True assms(4) same_index_contents[OF assms(1), of t]
  show ?thesis by (auto simp: same_index_def)
next
  case False
  from upsert_Inl[OF assms(1-3) False assms(4,5)] silent_contents[OF _ assms(1), of t] False
  show ?thesis by (auto simp: silent_def same_index_def)
qed

theorem upsert_refines_witness:
  "\<exists>t. upsert (demo_senv demo_up_ops) ''a'' [demo_rec] demo_store = (Inr 1, t) \<and> store_ok t \<and>
     contents t ''a'' = Some [''x'' \<mapsto> ((\<lambda>name. if name = ''default'' then Some [1, 2] else None), [])]"
proof -
  obtain t where t: "upsert (demo_senv demo_up_ops) ''a'' [demo_rec] demo_store = (Inr 1, t)"
    using demo_upsert by blast
  show ?thesis using t upsert_refines[OF demo_store_ok demo_rec_wf t] demo_spec by metis
qed

theorem upsert_all_or_nothing_witness:
  "\<exists>t. upsert (demo_senv [CreateCollection ''a'']) ''a'' [demo_rec] demo_store = (Inl (Log SerializeFailed), t) \<and>
     contents t = Map.empty \<and> segs_rows (st_data t) = [] \<and> ap_bytes (st_log t) = []"
proof -
  obtain t where t: "upsert (demo_senv [CreateCollection ''a'']) ''a'' [demo_rec] demo_store = (Inl (Log SerializeFailed), t)"
    using demo_upsert_fails by blast
  have "cf_history_versions (st_config demo_store) = None"
    "segs_rows (st_data demo_store) = []" "ap_bytes (st_log demo_store) = []"
    by (simp_all add: demo_store_eq demo_config_def segs_in_memory_with_def segs_rows_def
        seg_in_memory_with_def seg_rows_def seg_row_count_def log_in_memory_def)
  then show ?thesis using t upsert_all_or_nothing[OF demo_store_ok demo_rec_wf t] demo_contents by (auto simp: undone_def)
qed

section \<open>Deletion\<close>

lemma fold_spec_delete:
  "fold (\<lambda>(c, did). spec_delete c did) ps V c = map_option (\<lambda>docs did. if (c, did) \<in> set ps then None else docs did) (V c)"
proof (induction ps arbitrary: V)
  case (Cons p ps)
  obtain c' d where p: "p = (c', d)" by fastforce
  have "fold (\<lambda>(c, did). spec_delete c did) (p # ps) V c =
      map_option (\<lambda>docs did. if (c, did) \<in> set ps then None else docs did) (spec_delete c' d V c)"
    using Cons[of "spec_delete c' d V"] p by simp
  also have "\<dots> = map_option (\<lambda>docs did. if (c, did) \<in> set (p # ps) then None else docs did) (V c)"
    using p by (cases "V c") (auto simp: spec_delete_def intro!: ext)
  finally show ?case .
qed (simp add: option.map_ident)

lemma delete_loop_count:
  "delete_loop env c ids k s = (Inr m, t) \<Longrightarrow>
    m = k + card {did \<in> set ids. lookup_doc (st_collections s) c did \<noteq> None}"
proof (induction ids arbitrary: k s)
  case (Cons did ids)
  let ?P = "\<lambda>s d. lookup_doc (st_collections s) c d \<noteq> None"
  show ?case
  proof (cases "lookup_doc (st_collections s) c did")
    case None
    then have "{d \<in> set (did # ids). ?P s d} = {d \<in> set ids. ?P s d}" by auto
    then show ?thesis using Cons.IH[of k s] Cons.prems None by simp
  next
    case (Some old)
    then obtain u where u: "append_op env (Delete c did) (forget_doc c did old s) = (Inr (), u)"
      "delete_loop env c ids (Suc k) u = (Inr m, t)" using Cons.prems by (auto simp: run_Inr)
    have cols: "st_collections u = on_collection c (remove_doc did) (st_collections s)"
      using append_op_ok[OF u(1)] by (auto simp: forget_doc_def)
    have P: "?P u d \<longleftrightarrow> d \<noteq> did \<and> ?P s d" for d
      unfolding cols using Some
      by (cases "aget (st_collections s) c") (auto simp: lookup_doc_def on_collection_def or_new_def remove_doc_def)
    have "{d \<in> set (did # ids). ?P s d} = insert did {d \<in> set ids. ?P u d}" using Some P by auto
    moreover have "did \<notin> {d \<in> set ids. ?P u d}" using P by simp
    ultimately show ?thesis using Cons.IH[OF u(2)] by simp
  qed
qed simp

lemma contents_core:
  assumes "store_ok s" "segs_inv (st_data t)" "segs_rows (st_data t) = segs_rows (st_data s)"
  shows "contents t = view_of (segs_row (st_data s)) (fst (core t))" "store_rows t = store_rows s"
proof -
  have inv: "segs_inv (st_data s)" using assms(1) by (simp add: store_ok_def)
  have "segs_row (st_data t) = segs_row (st_data s)"
    using segs_row_nth[OF inv] segs_row_nth[OF assms(2)] assms(3) by (intro ext) simp
  then show "contents t = view_of (segs_row (st_data s)) (fst (core t))" by (simp add: contents_def core_def)
  show "store_rows t = store_rows s" using segs_count[OF inv] segs_count[OF assms(2)] assms(3) by simp
qed

text \<open>
  C8 (delete refines the abstract delete). A deletion that returns a count has removed exactly
  the named documents that were there, which is what the count says, left every other document
  alone, and moved their rows from the live to the dead.
\<close>
theorem delete_refines:
  assumes "store_ok s" and "delete env c ids s = (Inr m, t)"
  shows "contents t = fold (\<lambda>did. spec_delete c did) ids (contents s) \<and>
    m = card {did \<in> set ids. lookup_doc (st_collections s) c did \<noteq> None} \<and> store_ok t"
proof -
  have inv: "segs_inv (st_data s)" "core_ok (store_rows s) (core s)" using assms(1) by (simp_all add: store_ok_def)
  from delete_writes[OF inv(1) assms(2), of "store_rows s"] obtain ops where w:
    "writes (se_codec env) s ops t" "segs_rows (st_data t) = segs_rows (st_data s)"
    "core t = replay_all (store_rows s) (map (Delete c) ids) (core s)" by blast
  have tinv: "segs_inv (st_data t)" using w(1) by (simp add: writes_def)
  note k = contents_core[OF assms(1) tinv w(2)]
  have ps: "map (Delete c) ids = map (\<lambda>(c, did). Delete c did) (map (Pair c) ids)" by simp
  have "contents t = fold (\<lambda>(c, did). spec_delete c did) (map (Pair c) ids) (contents s)"
    unfolding k(1) w(3) ps view_deletes by (simp add: contents_def core_def)
  moreover have "store_ok t" using core_ok_deletes[OF inv(2), of "store_rows s" "map (Pair c) ids"] w(3) k(2) tinv
    by (simp add: store_ok_def comp_def)
  moreover have "m = card {did \<in> set ids. lookup_doc (st_collections s) c did \<noteq> None}"
  proof (cases "aget (st_collections s) c")
    case None
    then show ?thesis using assms(2) by (simp add: delete_def act_Inr lookup_doc_def)
  next
    case (Some col)
    then obtain k u where "delete_loop env c ids 0 s = (Inr k, u)" "m = k"
      using assms(2) by (auto simp: delete_def run_Inr split: if_splits)
    then show ?thesis using delete_loop_count[of env c ids 0 s k u] by simp
  qed
  ultimately show ?thesis by (simp add: fold_map comp_def)
qed

lemmas run_delete_defs = delete_def forget_doc_def maybe_sync_def sync_both_def lookup_doc_def
  on_collection_def or_new_def remove_doc_def adel_def

theorem delete_refines_witness:
  "\<exists>t. delete (demo_senv [Delete ''a'' ''x'']) ''a'' [''x'', ''y''] demo_full = (Inr 1, t) \<and>
     contents t = [''a'' \<mapsto> Map.empty] \<and> store_ok t"
proof -
  have "\<exists>t. delete (demo_senv [Delete ''a'' ''x'']) ''a'' [''x'', ''y''] demo_full = (Inr 1, t)"
    by (simp add: run_delete_defs run_store_defs demo_full_def demo_defs Let_def)
  then obtain t where t: "delete (demo_senv [Delete ''a'' ''x'']) ''a'' [''x'', ''y''] demo_full = (Inr 1, t)" ..
  show ?thesis using t delete_refines[OF demo_full_ok(1) t] by (auto simp: demo_full_contents spec_delete_def fun_eq_iff)
qed

text \<open>The hash map's iteration order visits every key.\<close>

definition order_ok :: "store_env \<Rightarrow> bool" where
  "order_ok env \<longleftrightarrow> (\<forall>xs. set (se_order env xs) = set xs)"

lemma matching_ids_iff:
  assumes "order_ok env"
  shows "did \<in> set (matching_ids env f col) \<longleftrightarrow>
    (\<exists>e. aget (co_docs col) did = Some e \<and> matches (se_text env) f (de_attrs e))"
proof -
  have "did \<in> set (matching_ids env f col) \<longleftrightarrow> did \<in> fst ` set (co_docs col) \<and>
      (\<exists>e. aget (co_docs col) did = Some e \<and> matches (se_text env) f (de_attrs e))"
    using assms by (auto simp: matching_ids_def order_ok_def split: option.splits)
  then show ?thesis by (metis domI dom_map_of_conv_image_fst)
qed

lemma sweep_pairs_iff:
  assumes "order_ok env"
  shows "(c, did) \<in> set (sweep_pairs (sweep_targets env f s)) \<longleftrightarrow>
    (\<exists>e. lookup_doc (st_collections s) c did = Some e \<and> matches (se_text env) f (de_attrs e))"
proof -
  have "(c, did) \<in> set (sweep_pairs (sweep_targets env f s)) \<longleftrightarrow>
      c \<in> fst ` set (st_collections s) \<and> did \<in> set (matching_ids env f (or_new c (st_collections s)))"
    using assms by (auto simp: sweep_pairs_def sweep_targets_def order_ok_def image_iff)
  also have "c \<in> fst ` set (st_collections s) \<longleftrightarrow> (\<exists>col. aget (st_collections s) c = Some col)"
    by (metis map_of_eq_None_iff not_None_eq)
  finally show ?thesis
    by (cases "aget (st_collections s) c") (auto simp: matching_ids_iff[OF assms] lookup_doc_def or_new_def)
qed

text \<open>A sweep that fails has cut the log back to where it stood.\<close>

definition grown_log :: "store \<Rightarrow> store \<Rightarrow> bool" where
  "grown_log s t \<longleftrightarrow> same_index s t \<and> segs_inv (st_data t) \<and> segs_rows (st_data t) = segs_rows (st_data s) \<and>
     segs_dimension (st_data t) = segs_dimension (st_data s) \<and> prefix (ap_bytes (st_log s)) (ap_bytes (st_log t))"

lemma grown_log_silent: "grown_log s t \<Longrightarrow> silent t u \<Longrightarrow> grown_log s u"
  by (auto simp: grown_log_def silent_def same_index_def)

lemma grown_log_append:
  assumes "grown_log s t" "append_op env x t = (r, u)"
  shows "grown_log s u"
proof -
  obtain b where b: "log_append (se_codec env) x (st_log t) = (r, b)" "u = t\<lparr>st_log := b\<rparr>"
    using assms(2) by (auto simp: append_op_def on_log_def split: prod.splits)
  show ?thesis using assms(1) log_append_prefix[OF b(1)] b(2)
    by (auto simp: grown_log_def same_index_def intro: prefix_order.trans)
qed

lemma log_truncate_restores:
  assumes "grown_log s t" "on_log (log_truncate_to (length (ap_bytes (st_log s)))) t = (Inr x, u)"
  shows "silent s u"
proof -
  obtain b where b: "ap_truncate_to (length (ap_bytes (st_log s))) (st_log t) = (Inr x, b)" "u = t\<lparr>st_log := b\<rparr>"
    using assms(2) by (auto simp: on_log_def log_truncate_to_def split: prod.splits)
  have "ap_bytes b = ap_bytes (st_log s)"
    using assms(1) ap_stream.rollback_to_mark[OF _ b(1)] by (simp add: grown_log_def)
  then show ?thesis using assms(1) b(2) by (simp add: silent_def grown_log_def same_index_def)
qed

lemma phase_sweep_appends:
  "grown_log s t \<Longrightarrow> phase grown_log s (for_each (\<lambda>x. recovering (append_op env (g x))
      (on_log (log_truncate_to (length (ap_bytes (st_log s)))))) xs) t"
proof (induction xs arbitrary: t)
  case (Cons x xs)
  have "phase grown_log s (recovering (append_op env (g x))
      (on_log (log_truncate_to (length (ap_bytes (st_log s)))))) t"
    using grown_log_append[OF Cons.prems] log_truncate_restores by (intro phase_recovering)
  then show ?case using phase_andThen[OF _ Cons.IH] by simp
qed (simp add: phase_ret)

lemma phase_sweep_sync:
  assumes "grown_log s t"
  shows "phase grown_log s (recovering (maybe_sync env) (on_log (log_truncate_to (length (ap_bytes (st_log s)))))) t"
proof (rule phase_recovering)
  fix r u assume "maybe_sync env t = (r, u)"
  moreover have "segs_inv (st_data t)" using assms by (simp add: grown_log_def)
  ultimately show "grown_log s u" using silent_atD[OF silent_at_maybe_sync] grown_log_silent[OF assms] by blast
qed (rule log_truncate_restores)

lemma phase_delete_where_all:
  assumes inv: "segs_inv (st_data s)"
  shows "phase (\<lambda>_ _. True) s (delete_where_all env f) s"
proof (cases "cf_read_only (st_config s) \<or> sweep_targets env f s = []")
  case True
  then show ?thesis using inv by (auto simp: phase_def delete_where_all_def check_writable_def andThen_def)
next
  case False
  let ?pairs = "sweep_pairs (sweep_targets env f s)" and ?fin = "\<lambda>_ t. case sweep_commit (sweep_pairs (sweep_targets env f s)) 0 t of
      (k, u) \<Rightarrow> (Inr k, if k > 0 then mark_dirty u else u)"
  obtain r s1 where s1: "on_log log_offset s = (r, s1)" by fastforce
  note m = log_mark_cases[OF inv s1]
  show ?thesis
  proof (cases r)
    case (Inl e)
    then show ?thesis using False s1 m by (simp add: phase_def delete_where_all_def check_writable_def Let_def)
  next
    case (Inr n)
    have n: "n = length (ap_bytes (st_log s))" and g: "grown_log s s1"
      using m Inr by (auto simp: grown_log_def silent_def)
    have "phase (\<lambda>_ _. True) s (andThen (for_each (\<lambda>(c, did). recovering (append_op env (Delete c did)) (on_log (log_truncate_to n))) ?pairs) (\<lambda>_.
       andThen (recovering (maybe_sync env) (on_log (log_truncate_to n))) ?fin)) s1"
      unfolding n split_def
      by (rule phase_andThen[OF phase_sweep_appends[OF g]], rule phase_andThen[OF phase_sweep_sync])
        (auto simp: phase_def split: prod.splits)
    then show ?thesis using False s1 Inr by (simp add: phase_def delete_where_all_def check_writable_def Let_def)
  qed
qed

lemma sweep_Inl:
  assumes "segs_inv (st_data s)" "delete_where_all env f s = (Inl e, t)" "undone e"
  shows "silent s t"
  using phase_delete_where_all[OF assms(1), of env f] assms(2,3) by (simp add: phase_def)

text \<open>
  C9 (a sweep is one batch). Deleting by filter across every collection, when it returns a
  count, has removed exactly the documents the filter matches, wherever they are; when it
  returns an error it could undo, no document and no byte of the log has changed.
\<close>
theorem delete_where_all_atomic:
  assumes "store_ok s" and "order_ok env" and "delete_where_all env f s = (r, t)"
  shows "case r of
      Inr m \<Rightarrow> contents t = spec_sweep (matches (se_text env) f) (contents s) \<and> store_ok t
    | Inl e \<Rightarrow> undone e \<longrightarrow> contents t = contents s \<and> ap_bytes (st_log t) = ap_bytes (st_log s) \<and>
        st_collections t = st_collections s \<and> st_dead_rows t = st_dead_rows s"
proof (cases r)
  case (Inr m)
  let ?ps = "sweep_pairs (sweep_targets env f s)"
  have inv: "segs_inv (st_data s)" "core_ok (store_rows s) (core s)" using assms(1) by (simp_all add: store_ok_def)
  from delete_where_all_writes[OF inv(1)] assms(3) Inr have
    w: "writes (se_codec env) s (map (\<lambda>(c, did). Delete c did) ?ps) t" "segs_rows (st_data t) = segs_rows (st_data s)"
    by blast+
  have tinv: "segs_inv (st_data t)" and core: "core t = replay_all (store_rows t) (map (\<lambda>(c, did). Delete c did) ?ps) (core s)"
    using w(1) by (simp_all add: writes_def)
  note k = contents_core[OF assms(1) tinv w(2)]
  have "contents t = fold (\<lambda>(c, did). spec_delete c did) ?ps (contents s)"
    unfolding k(1) core view_deletes by (simp add: contents_def core_def)
  also have "\<dots> = spec_sweep (matches (se_text env) f) (contents s)"
  proof
    fix c show "fold (\<lambda>(c, did). spec_delete c did) ?ps (contents s) c = spec_sweep (matches (se_text env) f) (contents s) c"
      unfolding fold_spec_delete spec_sweep_def sweep_pairs_iff[OF assms(2)]
      by (cases "aget (st_collections s) c")
        (auto simp: contents_def view_of_def lookup_doc_def doc_view_def fun_eq_iff split: option.splits)
  qed
  finally show ?thesis
    using Inr core_ok_deletes[OF inv(2), of "store_rows t" ?ps] core k(2) tinv by (simp add: store_ok_def)
next
  case (Inl e)
  have inv: "segs_inv (st_data s)" using assms(1) by (simp add: store_ok_def)
  have "undone e \<Longrightarrow> silent s t" using sweep_Inl[OF inv] assms(3) Inl by simp
  then show ?thesis using Inl silent_contents[OF _ assms(1)] by (auto simp: silent_def same_index_def)
qed

theorem delete_where_all_atomic_witness:
  "(\<exists>t. delete_where_all (demo_senv [Delete ''a'' ''x'']) [PEq ''k'' (VInt 1)] demo_full = (Inr 1, t) \<and>
     contents t = [''a'' \<mapsto> Map.empty] \<and> store_ok t) \<and>
   (\<exists>e t. delete_where_all (demo_senv []) [PEq ''k'' (VInt 1)] demo_full = (Inl e, t) \<and>
     contents t = contents demo_full \<and> st_collections t = st_collections demo_full)"
proof -
  let ?f = "[PEq ''k'' (VInt 1)]"
  have o: "order_ok (demo_senv tb)" for tb by (simp add: order_ok_def demo_senv_def)
  have "\<exists>t. delete_where_all (demo_senv [Delete ''a'' ''x'']) ?f demo_full = (Inr 1, t)"
    by (simp add: delete_where_all_def sweep_targets_def sweep_pairs_def matching_ids_def matches_def run_delete_defs run_store_defs
        demo_full_def demo_defs Let_def)
  then obtain t where t: "delete_where_all (demo_senv [Delete ''a'' ''x'']) ?f demo_full = (Inr 1, t)" ..
  have "\<exists>t. delete_where_all (demo_senv []) ?f demo_full = (Inl (Log SerializeFailed), t)"
    by (simp add: delete_where_all_def sweep_targets_def sweep_pairs_def matching_ids_def matches_def run_delete_defs run_store_defs
        demo_full_def demo_defs Let_def)
  then obtain u where u: "delete_where_all (demo_senv []) ?f demo_full = (Inl (Log SerializeFailed), u)" ..
  have m: "matches (se_text (demo_senv tb)) ?f [(''k'', VInt 1)]" for tb by (simp add: matches_def)
  show ?thesis
    using t u m delete_where_all_atomic[OF demo_full_ok(1) o t] delete_where_all_atomic[OF demo_full_ok(1) o u]
    by (simp add: undone_def) (auto simp: demo_full_contents spec_sweep_def fun_eq_iff)
qed

end
