(* ===== verification/StoreCompact.thy ===== *)
theory StoreCompact
  imports StoreDemo
begin

text \<open>
  Compaction: the live rows are renumbered from zero, and matrix and log are rewritten. The
  plan never reads past the matrix, gives every live row one new place, and the log it writes
  replays to the index it leaves.
\<close>

section \<open>The plan of one document\<close>

definition nth_opt :: "'a list \<Rightarrow> nat \<Rightarrow> 'a option" where
  "nth_opt xs i = (if i < length xs then Some (xs ! i) else None)"

lemma segs_row_nth_opt: "segs_inv d \<Longrightarrow> segs_row d = nth_opt (segs_rows d)"
  by (simp add: fun_eq_iff nth_opt_def segs_row_nth)

lemma nth_opt_prefix: "prefix xs ys \<Longrightarrow> i < length xs \<Longrightarrow> nth_opt ys i = Some (xs ! i)"
  by (auto simp: nth_opt_def prefix_def nth_append)

lemma segs_rows_length:
  assumes "segs_inv d" "v \<in> set (segs_rows d)"
  shows "length v = segs_dimension d"
proof -
  obtain g where g: "g \<in> set (ss_segs d)" "v \<in> set (seg_rows (sg_data g))"
    using assms(2) by (auto simp: segs_rows_def)
  have wf: "seg_wf (sg_data g)" "ds_dimension (sg_data g) = segs_dimension d"
    using assms(1) g(1) by (auto simp: segs_inv_def)
  obtain i where "i < seg_row_count (sg_data g)" "v = seg_rows (sg_data g) ! i"
    using g(2) by (auto simp: in_set_conv_nth)
  then have "seg_row (sg_data g) i = Some v" using seg_row_nth[OF wf(1)] by simp
  then show ?thesis using length_seg_row wf(2) by fastforce
qed

text \<open>A plan under construction: rows of the store's dimension, numbered from zero.\<close>

definition plan_wf :: "segments \<Rightarrow> plan \<Rightarrow> bool" where
  "plan_wf d pl \<longleftrightarrow> pl_next pl = length (pl_rows pl) \<and> (\<forall>v \<in> set (pl_rows pl). length v = segs_dimension d)"

lemma plan_rows_ok:
  assumes "segs_inv d" "\<forall>r \<in> set (avals rows). r < segs_row_count d"
  shows "\<exists>vs. plan_rows d rows n = Inr (numbered n rows, vs) \<and> map (segs_row d) (avals rows) = map Some vs"
  using assms(2)
proof (induction rows arbitrary: n)
  case (Cons x rows)
  obtain name r where x: "x = (name, r)" by fastforce
  obtain v where v: "segs_row d r = Some v" using Cons.prems segs_row_nth[OF assms(1)] segs_count[OF assms(1)] x by simp
  obtain vs where vs: "plan_rows d rows (Suc n) = Inr (numbered (Suc n) rows, vs)" "map (segs_row d) (avals rows) = map Some vs"
    using Cons.IH[of "Suc n"] Cons.prems by auto
  have "numbered n (x # rows) = (name, n) # numbered (Suc n) rows" using x by (simp add: upt_conv_Cons del: upt_Suc)
  then show ?case using v vs x by (intro exI[of _ "v # vs"]) simp
qed simp

definition moved :: "segments \<Rightarrow> f32 list list \<Rightarrow> doc_entry \<Rightarrow> doc_entry \<Rightarrow> bool" where
  "moved d rows e e' \<longleftrightarrow> doc_view (nth_opt rows) e' = doc_view (segs_row d) e \<and> amap_wf (de_rows e')"

lemma moved_numbered:
  assumes rows: "map (segs_row d) (avals (de_rows e)) = map Some vs" and wf: "amap_wf (de_rows e)"
    and pre: "prefix (ws @ vs) all_rows"
  shows "moved d all_rows e (e\<lparr>de_rows := numbered (length ws) (de_rows e)\<rparr>)"
proof -
  have len: "length (de_rows e) = length vs" using arg_cong[OF rows, of length] by simp
  let ?g = "\<lambda>r. the (segs_row d r)"
  have g: "segs_row d (snd (de_rows e ! i)) = Some (vs ! i)" if "i < length vs" for i
    using arg_cong[OF rows, of "\<lambda>xs. xs ! i"] that len by simp
  have "nth_opt all_rows (length ws + i) = Some (?g (snd (de_rows e ! i)))" if "i < length (de_rows e)" for i
    using nth_opt_prefix[OF pre, of "length ws + i"] that len g by (simp add: nth_append)
  from bind_numbered[of "de_rows e" "nth_opt all_rows" "length ws" ?g, OF this]
  have "Option.bind (aget (numbered (length ws) (de_rows e)) name) (nth_opt all_rows) = map_option ?g (aget (de_rows e) name)" for name .
  moreover have "map_option ?g (aget (de_rows e) name) = Option.bind (aget (de_rows e) name) (segs_row d)" for name
  proof (cases "aget (de_rows e) name")
    case (Some r)
    then obtain i where "i < length (de_rows e)" "de_rows e ! i = (name, r)"
      by (meson in_set_conv_nth map_of_SomeD)
    then show ?thesis using Some g[of i] len by simp
  qed simp
  ultimately show ?thesis by (simp add: moved_def doc_view_def numbered_wf[OF wf])
qed

lemma plan_doc_ok:
  assumes inv: "segs_inv d" and pl: "plan_wf d pl" and wf: "amap_wf (de_rows e)"
    and rows: "\<forall>r \<in> set (avals (de_rows e)). r < segs_row_count d"
  shows "\<exists>pl' e' x. plan_doc d c did e pl = Inr (pl', e') \<and> plan_wf d pl' \<and> prefix (pl_rows pl) (pl_rows pl') \<and>
    pl_ops pl' = pl_ops pl @ [x] \<and> op_fits (pl_next pl') x \<and>
    (\<forall>n k. pl_next pl' \<le> n \<longrightarrow> replay_core n x k = put_core c (did, de_rows e', de_attrs e') k) \<and>
    (\<forall>R. prefix (pl_rows pl') R \<longrightarrow> moved d R e e') \<and> entry_live e' = mset [pl_next pl..<pl_next pl']"
proof (cases "de_rows e = []")
  case True
  let ?x = "UpsertText c did (de_attrs e)"
  have "replay_core n ?x k = put_core c (did, de_rows e, de_attrs e) k" for n k
    using True by (cases k) (simp add: replay_core_def im_core_def image_of_def replay_put_def put_core_def)
  moreover have "moved d R e e" for R using True by (simp add: moved_def doc_view_def)
  ultimately show ?thesis using True pl
    by (intro exI[of _ "pl\<lparr>pl_ops := pl_ops pl @ [?x]\<rparr>"] exI[of _ e] exI[of _ ?x])
      (simp add: plan_doc_def plan_wf_def entry_live_def)
next
  case False
  obtain vs where vs: "plan_rows d (de_rows e) (pl_next pl) = Inr (numbered (pl_next pl) (de_rows e), vs)"
    "map (segs_row d) (avals (de_rows e)) = map Some vs" using plan_rows_ok[OF inv rows] by blast
  let ?as = "numbered (pl_next pl) (de_rows e)"
  let ?x = "UpsertVectors c did ?as (de_attrs e)" and ?e = "e\<lparr>de_rows := numbered (pl_next pl) (de_rows e)\<rparr>"
  let ?pl = "\<lparr>pl_ops = pl_ops pl @ [?x], pl_rows = pl_rows pl @ vs, pl_next = pl_next pl + length vs\<rparr>"
  have len: "length (de_rows e) = length vs" using arg_cong[OF vs(2), of length] by simp
  have vals: "set (avals ?as) = {pl_next pl..<pl_next pl + length vs}" using len by (simp add: map_snd_zip)
  have staged: "staged_op c (did, ?as, de_attrs e) = ?x" using False by (simp add: staged_op_def)
  have "replay_core n ?x k = put_core c (did, ?as, de_attrs e) k" if "pl_next pl + length vs \<le> n" for n k
    unfolding staged[symmetric] using that vals by (intro replay_staged numbered_wf[OF wf]) auto
  moreover have "length v = segs_dimension d" if "v \<in> set vs" for v
  proof -
    have "Some v \<in> set (map (segs_row d) (avals (de_rows e)))" using that vs(2) by simp
    then obtain r where "segs_row d r = Some v" by force
    then have "v \<in> set (segs_rows d)" using segs_row_nth[OF inv] by (auto split: if_splits)
    then show ?thesis by (rule segs_rows_length[OF inv])
  qed
  moreover have "moved d R e ?e" if "prefix (pl_rows pl @ vs) R" for R
    using moved_numbered[OF vs(2) wf that] pl by (simp add: plan_wf_def)
  moreover have "entry_live ?e = mset [pl_next pl..<pl_next pl + length vs]"
    using len by (simp add: entry_live_def map_snd_zip)
  moreover have "op_fits (pl_next pl + length vs) ?x" using vals by (auto simp: list_all_iff)
  ultimately show ?thesis using False vs(1) pl len
    by (intro exI[of _ ?pl] exI[of _ ?e] exI[of _ ?x]) (auto simp: plan_doc_def plan_wf_def)
qed

section \<open>The plan of the index\<close>

lemma aput_after: "\<forall>x \<in> set m. fst x < k \<Longrightarrow> aput k v m = m @ [(k, v)]"
  by (induction m) (auto simp: less_imp_not_eq2 not_less_iff_gr_or_eq)

lemma aput_last: "\<forall>x \<in> set m. fst x < k \<Longrightarrow> aput k v (m @ [(k, w)]) = m @ [(k, v)]"
  by (induction m) (auto simp: less_imp_not_eq2 not_less_iff_gr_or_eq)

lemma aget_after: "\<forall>x \<in> set m. fst x < (k::'k::linorder) \<Longrightarrow> aget m k = None"
  by (induction m) auto

lemma or_new_last: "\<forall>x \<in> set cols. fst x < c \<Longrightarrow> or_new c (cols @ [(c, col)]) = col"
  by (simp add: or_new_def map_add_def aget_after)

lemma plan_wf_le: "plan_wf d pl \<Longrightarrow> plan_wf d pl' \<Longrightarrow> prefix (pl_rows pl) (pl_rows pl') \<Longrightarrow> pl_next pl \<le> pl_next pl'"
  by (simp add: plan_wf_def prefix_length_le)

lemma mset_upt_join: "a \<le> b \<Longrightarrow> b \<le> c \<Longrightarrow> mset [a..<b] + mset [b..<c] = mset [a..<c]"
  using upt_add_eq_append[of a b "c - b"] by (simp del: mset_upt)

lemma put_core_after:
  assumes "\<forall>x \<in> set cols. fst x < c" "\<forall>x \<in> set (co_docs col). fst x < did"
  shows "put_core c (did, de_rows e, de_attrs e) (cols @ [(c, col)], dead) =
    (cols @ [(c, col\<lparr>co_docs := co_docs col @ [(did, e)]\<rparr>)], dead)"
  using assms
  by (simp add: put_core_def on_collection_def or_new_last aput_last aput_after put_doc_def aget_after owned_rows_def)

lemma plan_docs_ok:
  assumes inv: "segs_inv d" and "plan_wf d pl" "amap_wf docs"
    "\<forall>x \<in> set docs. amap_wf (de_rows (snd x)) \<and> (\<forall>r \<in> set (avals (de_rows (snd x))). r < segs_row_count d)"
  shows "\<exists>pl' es xs. plan_docs d c docs pl = Inr (pl', es) \<and> plan_wf d pl' \<and> prefix (pl_rows pl) (pl_rows pl') \<and>
    pl_ops pl' = pl_ops pl @ xs \<and> list_all (op_fits (pl_next pl')) xs \<and>
    (\<forall>n cols col. pl_next pl' \<le> n \<longrightarrow> (\<forall>x \<in> set cols. fst x < c) \<longrightarrow> (\<forall>x \<in> set (co_docs col). \<forall>y \<in> set docs. fst x < fst y) \<longrightarrow>
       replay_all n xs (cols @ [(c, col)], 0) = (cols @ [(c, col\<lparr>co_docs := co_docs col @ es\<rparr>)], 0)) \<and>
    (\<forall>R. prefix (pl_rows pl') R \<longrightarrow> list_all2 (\<lambda>x y. fst y = fst x \<and> moved d R (snd x) (snd y)) docs es) \<and>
    sum_list (map (\<lambda>x. entry_live (snd x)) es) = mset [pl_next pl..<pl_next pl']"
  using assms(2-)
proof (induction docs arbitrary: pl)
  case Nil
  show ?case by (intro exI[of _ pl] exI[of _ "[]"]) (use Nil in simp)
next
  case (Cons p docs)
  obtain did e where p: "p = (did, e)" by fastforce
  obtain pl1 e' x where x: "plan_doc d c did e pl = Inr (pl1, e')" "plan_wf d pl1" "prefix (pl_rows pl) (pl_rows pl1)"
    "pl_ops pl1 = pl_ops pl @ [x]" "op_fits (pl_next pl1) x"
    "\<And>n k. pl_next pl1 \<le> n \<Longrightarrow> replay_core n x k = put_core c (did, de_rows e', de_attrs e') k"
    "\<And>R. prefix (pl_rows pl1) R \<Longrightarrow> moved d R e e'" "entry_live e' = mset [pl_next pl..<pl_next pl1]"
    using plan_doc_ok[OF inv Cons.prems(1), of e c did] Cons.prems(3) p by auto
  have "amap_wf docs" using Cons.prems(2) p by simp
  then obtain pl' es xs where xs: "plan_docs d c docs pl1 = Inr (pl', es)" "plan_wf d pl'" "prefix (pl_rows pl1) (pl_rows pl')"
    "pl_ops pl' = pl_ops pl1 @ xs" "list_all (op_fits (pl_next pl')) xs"
    "\<And>n cols col. pl_next pl' \<le> n \<Longrightarrow> (\<forall>x \<in> set cols. fst x < c) \<Longrightarrow> (\<forall>x \<in> set (co_docs col). \<forall>y \<in> set docs. fst x < fst y) \<Longrightarrow>
       replay_all n xs (cols @ [(c, col)], 0) = (cols @ [(c, col\<lparr>co_docs := co_docs col @ es\<rparr>)], 0)"
    "\<And>R. prefix (pl_rows pl') R \<Longrightarrow> list_all2 (\<lambda>x y. fst y = fst x \<and> moved d R (snd x) (snd y)) docs es"
    "sum_list (map (\<lambda>x. entry_live (snd x)) es) = mset [pl_next pl1..<pl_next pl']"
    using Cons.IH[OF x(2)] Cons.prems(3) by auto
  note le = plan_wf_le[OF Cons.prems(1) x(2,3)] plan_wf_le[OF x(2) xs(2,3)]
  have "replay_all n (x # xs) (cols @ [(c, col)], 0) = (cols @ [(c, col\<lparr>co_docs := co_docs col @ (did, e') # es\<rparr>)], 0)"
    if n: "pl_next pl' \<le> n" and cols: "\<forall>x \<in> set cols. fst x < c"
      and col: "\<forall>x \<in> set (co_docs col). \<forall>y \<in> set (p # docs). fst x < fst y" for n cols col
  proof -
    have "replay_core n x (cols @ [(c, col)], 0) = (cols @ [(c, col\<lparr>co_docs := co_docs col @ [(did, e')]\<rparr>)], 0)"
      using x(6)[of n] put_core_after[OF cols, of col did e'] col n le p by simp
    moreover have "\<forall>y \<in> set docs. did < fst y" using Cons.prems(2) p by auto
    ultimately show ?thesis using xs(6)[OF n cols, of "col\<lparr>co_docs := co_docs col @ [(did, e')]\<rparr>"] col by auto
  qed
  moreover have "op_fits (pl_next pl') x" using op_fits_mono[OF x(5)] le by simp
  moreover have "prefix (pl_rows pl) (pl_rows pl')" using prefix_order.trans[OF x(3) xs(3)] .
  moreover have "list_all2 (\<lambda>x y. fst y = fst x \<and> moved d R (snd x) (snd y)) (p # docs) ((did, e') # es)"
    if "prefix (pl_rows pl') R" for R using x(7) xs(7)[OF that] prefix_order.trans[OF xs(3) that] p by simp
  moreover have "sum_list (map (\<lambda>x. entry_live (snd x)) ((did, e') # es)) = mset [pl_next pl..<pl_next pl']"
    using x(8) xs(8) mset_upt_join[OF le] by (simp del: mset_upt)
  ultimately show ?case using x(1,4) xs(1,2,4,5) p
    by (intro exI[of _ pl'] exI[of _ "(did, e') # es"] exI[of _ "x # xs"]) simp
qed

lemma header_replay:
  assumes "\<forall>x \<in> set cols. fst x < c"
  shows "replay_all n (header_ops c col ft fx) (cols, 0) = (cols @ [(c, col\<lparr>co_docs := []\<rparr>)], 0)"
proof -
  have new: "ensure_collection c cols = cols @ [(c, collection_new)]" using assms
    by (simp add: ensure_collection_def aget_after aput_after)
  have again: "ensure_collection c (cols @ [(c, k)]) = cols @ [(c, k)]" for k using assms
    by (simp add: ensure_collection_def map_add_def aget_after)
  have on: "on_collection c f (cols @ [(c, k)]) = cols @ [(c, f k)]" for f k using assms
    by (simp add: on_collection_def or_new_last aput_last)
  show ?thesis
    by (cases col) (simp add: header_ops_def replay_core_simps new again on collection_new_def split: option.split)
qed

lemma header_fits: "list_all (op_fits n) (header_ops c col ft fx)"
  by (simp add: header_ops_def split: option.split)

text \<open>A collection whose documents have moved.\<close>

definition col_moved :: "segments \<Rightarrow> f32 list list \<Rightarrow> collection \<Rightarrow> collection \<Rightarrow> bool" where
  "col_moved d R col col' \<longleftrightarrow> col' = col\<lparr>co_docs := co_docs col'\<rparr> \<and>
     list_all2 (\<lambda>x y. fst y = fst x \<and> moved d R (snd x) (snd y)) (co_docs col) (co_docs col')"

definition col_fits :: "segments \<Rightarrow> collection \<Rightarrow> bool" where
  "col_fits d col \<longleftrightarrow> amap_wf (co_docs col) \<and>
    (\<forall>x \<in> set (co_docs col). amap_wf (de_rows (snd x)) \<and> (\<forall>r \<in> set (avals (de_rows (snd x))). r < segs_row_count d))"

lemma plan_collections_ok:
  assumes inv: "segs_inv d" and "plan_wf d pl" "amap_wf cols" "\<forall>x \<in> set cols. col_fits d (snd x)"
  shows "\<exists>pl' cs xs. plan_collections d ft fx cols pl = Inr (pl', cs) \<and> plan_wf d pl' \<and> prefix (pl_rows pl) (pl_rows pl') \<and>
    pl_ops pl' = pl_ops pl @ xs \<and> list_all (op_fits (pl_next pl')) xs \<and>
    (\<forall>n pre. pl_next pl' \<le> n \<longrightarrow> (\<forall>x \<in> set pre. \<forall>y \<in> set cols. fst x < fst y) \<longrightarrow> replay_all n xs (pre, 0) = (pre @ cs, 0)) \<and>
    (\<forall>R. prefix (pl_rows pl') R \<longrightarrow> list_all2 (\<lambda>x y. fst y = fst x \<and> col_moved d R (snd x) (snd y)) cols cs) \<and>
    live_rows cs = mset [pl_next pl..<pl_next pl']"
  using assms(2-)
proof (induction cols arbitrary: pl)
  case Nil
  show ?case by (intro exI[of _ pl] exI[of _ "[]"]) (use Nil in \<open>simp add: live_rows_def\<close>)
next
  case (Cons p cols)
  obtain c col where p: "p = (c, col)" by fastforce
  let ?h = "header_ops c col ft fx"
  let ?pl = "pl\<lparr>pl_ops := pl_ops pl @ ?h\<rparr>"
  have "plan_wf d ?pl" using Cons.prems(1) by (simp add: plan_wf_def)
  moreover have "col_fits d col" using Cons.prems(3) p by simp
  ultimately obtain pl1 es ys where ys: "plan_docs d c (co_docs col) ?pl = Inr (pl1, es)" "plan_wf d pl1" "prefix (pl_rows pl) (pl_rows pl1)"
    "pl_ops pl1 = pl_ops pl @ ?h @ ys" "list_all (op_fits (pl_next pl1)) ys"
    "\<And>n cols k. pl_next pl1 \<le> n \<Longrightarrow> (\<forall>x \<in> set cols. fst x < c) \<Longrightarrow> co_docs k = [] \<Longrightarrow>
       replay_all n ys (cols @ [(c, k)], 0) = (cols @ [(c, k\<lparr>co_docs := es\<rparr>)], 0)"
    "\<And>R. prefix (pl_rows pl1) R \<Longrightarrow> list_all2 (\<lambda>x y. fst y = fst x \<and> moved d R (snd x) (snd y)) (co_docs col) es"
    "sum_list (map (\<lambda>x. entry_live (snd x)) es) = mset [pl_next pl..<pl_next pl1]"
    using plan_docs_ok[OF inv, of ?pl "co_docs col" c] by (auto simp: col_fits_def)
  have "amap_wf cols" using Cons.prems(2) p by simp
  then obtain pl' cs xs where xs: "plan_collections d ft fx cols pl1 = Inr (pl', cs)" "plan_wf d pl'" "prefix (pl_rows pl1) (pl_rows pl')"
    "pl_ops pl' = pl_ops pl1 @ xs" "list_all (op_fits (pl_next pl')) xs"
    "\<And>n pre. pl_next pl' \<le> n \<Longrightarrow> (\<forall>x \<in> set pre. \<forall>y \<in> set cols. fst x < fst y) \<Longrightarrow> replay_all n xs (pre, 0) = (pre @ cs, 0)"
    "\<And>R. prefix (pl_rows pl') R \<Longrightarrow> list_all2 (\<lambda>x y. fst y = fst x \<and> col_moved d R (snd x) (snd y)) cols cs"
    "live_rows cs = mset [pl_next pl1..<pl_next pl']"
    using Cons.IH[OF ys(2)] Cons.prems(3) by auto
  note le = plan_wf_le[OF Cons.prems(1) ys(2,3)] plan_wf_le[OF ys(2) xs(2,3)]
  have "replay_all n (?h @ ys @ xs) (pre, 0) = (pre @ (c, col\<lparr>co_docs := es\<rparr>) # cs, 0)"
    if n: "pl_next pl' \<le> n" and pre: "\<forall>x \<in> set pre. \<forall>y \<in> set (p # cols). fst x < fst y" for n pre
  proof -
    have pre': "\<forall>x \<in> set pre. fst x < c" using pre p by simp
    have "\<forall>y \<in> set cols. c < fst y" using Cons.prems(2) p by auto
    then have "replay_all n xs (pre @ [(c, col\<lparr>co_docs := es\<rparr>)], 0) = (pre @ (c, col\<lparr>co_docs := es\<rparr>) # cs, 0)"
      using xs(6)[OF n, of "pre @ [(c, col\<lparr>co_docs := es\<rparr>)]"] pre by auto
    then show ?thesis using header_replay[OF pre'] ys(6)[of n pre "col\<lparr>co_docs := []\<rparr>"] pre' n le by simp
  qed
  moreover have "list_all (op_fits (pl_next pl')) ys"
    using ys(5) op_fits_mono[OF _ le(2)] by (auto simp: list_all_iff)
  moreover have "prefix (pl_rows pl) (pl_rows pl')" using prefix_order.trans[OF ys(3) xs(3)] .
  moreover have "list_all2 (\<lambda>x y. fst y = fst x \<and> col_moved d R (snd x) (snd y)) (p # cols) ((c, col\<lparr>co_docs := es\<rparr>) # cs)"
    if "prefix (pl_rows pl') R" for R
    using ys(7) xs(7)[OF that] prefix_order.trans[OF xs(3) that] p by (simp add: col_moved_def)
  moreover have "live_rows ((c, col\<lparr>co_docs := es\<rparr>) # cs) = mset [pl_next pl..<pl_next pl']"
    using ys(8) xs(8) mset_upt_join[OF le] by (simp add: live_rows_def col_live_def del: mset_upt)
  ultimately show ?case using ys(1,4) xs(1,2,4,5) p header_fits
    by (intro exI[of _ pl'] exI[of _ "(c, col\<lparr>co_docs := es\<rparr>) # cs"] exI[of _ "?h @ ys @ xs"]) simp
qed

section \<open>The rewrite\<close>

lemma segs_dimension_pos: "segs_inv d \<Longrightarrow> 0 < segs_dimension d"
  unfolding segs_inv_def segs_dimension_def by (metis list.set_sel(1) seg_wf_def)

lemma chunk_concat:
  assumes "0 < dim" "\<forall>v \<in> set vs. length v = dim"
  shows "chunk_rows dim (concat vs) = vs"
  using assms(2)
proof (induction vs)
  case (Cons v vs)
  have len: "length (concat (v # vs)) = dim + length (concat vs)" using Cons.prems by simp
  have n: "length (concat (v # vs)) div dim = Suc (length (concat vs) div dim)" using assms(1) unfolding len by (simp add: div_add_self1)
  have "drop (Suc i * dim) (concat (v # vs)) = drop (i * dim) (concat vs)" for i using Cons.prems by simp
  then have "chunk_rows dim (concat (v # vs)) = v # chunk_rows dim (concat vs)"
    unfolding chunk_rows_def n using Cons.prems by (simp add: upt_conv_Cons map_Suc_upt[symmetric] del: upt_Suc)
  then show ?case using Cons by simp
qed (simp add: chunk_rows_def)

lemma list_all2_aget:
  "list_all2 (\<lambda>x y. fst y = fst x \<and> P (snd x) (snd y)) m m' \<Longrightarrow> rel_option P (aget m k) (aget m' k)"
  by (induction rule: list_all2_induct) auto

lemma list_all2_akeys: "list_all2 (\<lambda>x y. fst y = fst x \<and> P (snd x) (snd y)) m m' \<Longrightarrow> akeys m' = akeys m"
  by (induction rule: list_all2_induct) auto

lemma list_all2_avals:
  "list_all2 (\<lambda>x y. fst y = fst x \<and> P (snd x) (snd y)) m m' \<Longrightarrow> v \<in> snd ` set m' \<Longrightarrow> \<exists>u. P u v"
  by (induction rule: list_all2_induct) auto

lemma view_moved:
  assumes "list_all2 (\<lambda>x y. fst y = fst x \<and> col_moved d R (snd x) (snd y)) cols cs"
  shows "view_of (nth_opt R) cs = view_of (segs_row d) cols"
proof -
  have docs: "map_option (doc_view (nth_opt R)) (aget (co_docs k') did) = map_option (doc_view (segs_row d)) (aget (co_docs k) did)"
    if "col_moved d R k k'" for k k' did
  proof -
    have "rel_option (moved d R) (aget (co_docs k) did) (aget (co_docs k') did)"
      using that by (intro list_all2_aget) (simp add: col_moved_def)
    then show ?thesis by (cases rule: option.rel_cases) (auto simp: moved_def)
  qed
  have "view_of (nth_opt R) cs c = view_of (segs_row d) cols c" for c
    using list_all2_aget[OF assms, of c] docs by (cases rule: option.rel_cases) (auto simp: view_of_def)
  then show ?thesis ..
qed

lemma moved_wf:
  assumes m: "list_all2 (\<lambda>x y. fst y = fst x \<and> col_moved d R (snd x) (snd y)) cols cs"
    and wf: "amap_wf cols" "\<forall>x \<in> set cols. col_fits d (snd x)"
  shows "amap_wf cs" "\<forall>col \<in> set (avals cs). col_wf col"
proof -
  show "amap_wf cs" using list_all2_akeys[OF m] wf(1) by (simp add: amap_wf_def)
  have "col_wf k" if "col_moved d R col k" "col_fits d col" for col k
  proof -
    have l: "list_all2 (\<lambda>x y. fst y = fst x \<and> moved d R (snd x) (snd y)) (co_docs col) (co_docs k)"
      using that(1) by (simp add: col_moved_def)
    show ?thesis using list_all2_akeys[OF l] list_all2_avals[OF l] that(2)
      by (auto simp: col_wf_def amap_wf_def col_fits_def moved_def)
  qed
  moreover have "list_all2 (\<lambda>x y. col_fits d (snd x) \<and> col_moved d R (snd x) (snd y)) cols cs"
    using m wf(2) by (auto simp: list_all2_conv_all_nth)
  ultimately show "\<forall>col \<in> set (avals cs). col_wf col"
    by (auto simp: list_all2_conv_all_nth in_set_conv_nth) (metis snd_conv)
qed

lemma store_ok_fits: "store_ok s \<Longrightarrow> x \<in> set (st_collections s) \<Longrightarrow> col_fits (st_data s) (snd x)"
proof -
  assume ok: "store_ok s" and x: "x \<in> set (st_collections s)"
  have c: "core_ok (store_rows s) (core s)" using ok by (simp add: store_ok_def)
  have wf: "amap_wf (st_collections s)" "col_wf (snd x)" using c x by (auto simp: core_ok_def core_def)
  have "r < store_rows s" if e: "e \<in> set (co_docs (snd x))" and r: "r \<in> set (avals (de_rows (snd e)))" for e r
  proof -
    obtain name where "(name, r) \<in> set (de_rows (snd e))" using r by auto
    then have "aget (de_rows (snd e)) name = Some r" "aget (co_docs (snd x)) (fst e) = Some (snd e)"
      "aget (st_collections s) (fst x) = Some (snd x)"
      using wf e x by (auto simp: aget_mem col_wf_def)
    from live_mem[OF this(3,2,1)] show ?thesis using core_ok_row[OF c] by (simp add: core_def)
  qed
  then show "col_fits (st_data s) (snd x)" using wf by (auto simp: col_fits_def col_wf_def)
qed

lemma compact_plan_ok:
  assumes ok: "store_ok s"
  shows "\<exists>pl cs. compact_plan s = Inr (pl, cs) \<and> plan_wf (st_data s) pl \<and> list_all (op_fits (pl_next pl)) (pl_ops pl) \<and>
    replay_all (pl_next pl) (pl_ops pl) ([], 0) = (cs, 0) \<and> view_of (nth_opt (pl_rows pl)) cs = contents s \<and>
    core_ok (pl_next pl) (cs, 0) \<and> size (live_rows cs) = pl_next pl"
proof -
  have inv: "segs_inv (st_data s)" and wf: "amap_wf (st_collections s)"
    using ok by (simp_all add: store_ok_def core_ok_def core_def)
  have fits: "\<forall>x \<in> set (st_collections s). col_fits (st_data s) (snd x)" using store_ok_fits[OF ok] by blast
  let ?p = "\<lparr>pl_ops = [], pl_rows = [], pl_next = 0\<rparr>"
  have "plan_wf (st_data s) ?p" by (simp add: plan_wf_def)
  from plan_collections_ok[OF inv this wf fits, of "st_fts s" "st_findex s"] obtain pl cs where
    p: "compact_plan s = Inr (pl, cs)" "plan_wf (st_data s) pl" "list_all (op_fits (pl_next pl)) (pl_ops pl)"
    "replay_all (pl_next pl) (pl_ops pl) ([], 0) = (cs, 0)"
    "list_all2 (\<lambda>x y. fst y = fst x \<and> col_moved (st_data s) (pl_rows pl) (snd x) (snd y)) (st_collections s) cs"
    "live_rows cs = mset [0..<pl_next pl]" by (auto simp: compact_plan_def)
  have "core_ok (pl_next pl) (cs, 0)" using moved_wf[OF p(5) wf fits] p(6) by (simp add: core_ok_def)
  then show ?thesis using p(1-4) view_moved[OF p(5)] p(6) by (intro exI[of _ pl] exI[of _ cs]) (simp add: contents_def)
qed

lemma silent_at_fence: "silent_at (compact_fence env) s"
proof -
  have "silent_at (andThen (on_dir list_versions []) (\<lambda>versions t.
        if versions = [] then (Inr None, t)
        else andThen (on_dir (store_floor (se_history env) (sc_crc (se_sidecar env))
              \<lparr>hf_format_version = HIST_FORMAT_VERSION, hf_oldest_readable = ss_version (st_data t) + 1\<rparr>) ()) (\<lambda>_.
          andThen (modify (\<lambda>u. u\<lparr>st_pruned_through := max (st_pruned_through u) (ss_version (st_data t) + 1 - 1)\<rparr>)) (\<lambda>_.
            ret (Some (ss_version (st_data t) + 1)))) t)) s"
  proof (rule silent_at_andThen[OF silent_at_on_dir])
    fix vs t
    have "silent_at (andThen (on_dir f ()) (\<lambda>_. andThen (modify (\<lambda>u. u\<lparr>st_pruned_through := g u\<rparr>)) (\<lambda>_. ret x))) t" for f g and x :: "nat option"
      by (intro silent_intros silent_at_modify) (simp add: same_index_def)
    then show "silent_at (\<lambda>t. if vs = [] then (Inr None, t)
        else andThen (on_dir (store_floor (se_history env) (sc_crc (se_sidecar env))
              \<lparr>hf_format_version = HIST_FORMAT_VERSION, hf_oldest_readable = ss_version (st_data t) + 1\<rparr>) ()) (\<lambda>_.
          andThen (modify (\<lambda>u. u\<lparr>st_pruned_through := max (st_pruned_through u) (ss_version (st_data t) + 1 - 1)\<rparr>)) (\<lambda>_.
            ret (Some (ss_version (st_data t) + 1)))) t) t"
      by (simp add: silent_at_def)
  qed
  then show ?thesis unfolding silent_at_def compact_fence_def Let_def by simp
qed

lemma silent_at_ignore_each: "(\<And>x s. silent_at (f x) s) \<Longrightarrow> silent_at (ignore_each f xs) s"
  unfolding ignore_each_def by (intro silent_at_for_each silent_intros)

lemma silent_at_persist_index: "silent_at (persist_index env) s"
proof -
  have m: "silent_at (modify (\<lambda>u. u\<lparr>st_fts_dirty := b\<rparr>)) u" "silent_at (modify (\<lambda>u. u\<lparr>st_findex_dirty := b\<rparr>)) u" for b u
    by (rule silent_at_modify, simp add: same_index_def)+
  have "silent_at (persist_fts env) s" for s
  proof -
    have "silent_at (\<lambda>t. if ss_persistence (st_data t) = None then (Inr (), t)
        else andThen (on_dir (f t) ()) (\<lambda>_. modify (\<lambda>u. u\<lparr>st_fts_dirty := False\<rparr>)) t) t" for f t
      using silent_at_andThen[OF silent_at_on_dir, of "f t" "()" t "\<lambda>_. modify (\<lambda>u. u\<lparr>st_fts_dirty := False\<rparr>)"] m
      by (simp add: silent_at_def)
    from silent_at_andThen[OF silent_at_log_offset this]
    show ?thesis unfolding silent_at_def persist_fts_def by simp
  qed
  moreover have "silent_at (persist_findex env) s" for s
  proof -
    have "silent_at (\<lambda>t. if ss_persistence (st_data t) = None then (Inr (), t)
        else andThen (on_dir (f t) ()) (\<lambda>_. modify (\<lambda>u. u\<lparr>st_findex_dirty := False\<rparr>)) t) t" for f t
      using silent_at_andThen[OF silent_at_on_dir, of "f t" "()" t "\<lambda>_. modify (\<lambda>u. u\<lparr>st_findex_dirty := False\<rparr>)"] m
      by (simp add: silent_at_def)
    from silent_at_andThen[OF silent_at_log_offset this]
    show ?thesis unfolding silent_at_def persist_findex_def by simp
  qed
  ultimately have "silent_at (andThen (persist_fts env) (\<lambda>_. persist_findex env)) s" by (intro silent_at_andThen)
  then show ?thesis by (simp add: silent_at_def persist_index_def)
qed

lemma log_rewrite_carried: "log_rewrite cd ops a = (Inr u, b) \<Longrightarrow> list_all (carried cd) ops"
proof -
  have "frame_all cd ops buf = Inr bs \<Longrightarrow> list_all (carried cd) ops" for buf bs
    by (induction ops arbitrary: buf) (auto simp: frame_def carried_def split: option.splits if_splits sum.splits)
  then show "log_rewrite cd ops a = (Inr u, b) \<Longrightarrow> list_all (carried cd) ops"
    by (auto simp: log_rewrite_def of_result_def andThen_Inr_iff split: sum.splits)
qed

text \<open>The files after a compaction: the planned rows, the planned log, the index untouched.\<close>

lemma compact_files_ok:
  assumes inv: "segs_inv (st_data s)" and pl: "plan_wf (st_data s) pl"
    and run: "compact_files env pl prior fence s = (Inr (), t)"
  shows "segs_inv (st_data t) \<and> segs_rows (st_data t) = pl_rows pl \<and> segs_dimension (st_data t) = segs_dimension (st_data s) \<and>
    ap_bytes (st_log t) = frames (se_codec env) (pl_ops pl) \<and> list_all (carried (se_codec env)) (pl_ops pl) \<and> same_index s t"
proof -
  let ?tail = "\<lambda>dropped. andThen (persist_manifest env) (\<lambda>_.
     andThen (ignore_each (\<lambda>name. on_dir (fs_delete name) ()) dropped) (\<lambda>_.
     andThen (case fence of
         None \<Rightarrow> ret ()
       | Some oldest \<Rightarrow> ignore_each (\<lambda>v. on_dir (delete_entry v) ()) (take HISTORY_PRUNE_BATCH [prior + 1..<oldest])) (\<lambda>_.
       ignore_each (\<lambda>name. on_dir (fs_delete (segment_object_name name)) ()) (dropped @ [BASE_SEGMENT]))))"
  obtain dropped u v where u: "on_data (segs_rewrite (se_sidecar env) (concat (pl_rows pl))) s = (Inr dropped, u)"
    and v: "on_log (log_rewrite (se_codec env) (pl_ops pl)) u = (Inr (), v)"
    and t: "?tail dropped v = (Inr (), t)"
    using run by (auto simp: compact_files_def andThen_Inr_iff)
  obtain d where d: "segs_rewrite (se_sidecar env) (concat (pl_rows pl)) (st_data s) = (Inr dropped, d)" "u = s\<lparr>st_data := d\<rparr>"
    using u by (auto simp: on_data_def split: prod.splits)
  note dd = segs_rewrite_ok[OF inv d(1)]
  have "0 < segs_dimension (st_data s)" using segs_dimension_pos[OF inv] .
  then have rows: "segs_rows d = pl_rows pl" using dd pl chunk_concat by (simp add: plan_wf_def)
  obtain l where l: "log_rewrite (se_codec env) (pl_ops pl) (st_log u) = (Inr (), l)" "v = u\<lparr>st_log := l\<rparr>"
    using v by (auto simp: on_log_def split: prod.splits)
  have "silent_at (case fence of None \<Rightarrow> ret ()
     | Some oldest \<Rightarrow> ignore_each (\<lambda>v. on_dir (delete_entry v) ()) (take HISTORY_PRUNE_BATCH [prior + 1..<oldest])) w" for w
    by (cases fence) (auto intro!: silent_at_ignore_each silent_intros)
  then have "silent_at (?tail dropped) v"
    by (intro silent_at_andThen silent_at_persist_manifest silent_at_ignore_each silent_at_on_dir)
  moreover have "segs_inv (st_data v)" using dd l(2) d(2) by simp
  ultimately have "silent v t" using t by (rule silent_atD)
  then show ?thesis
    using dd rows log_rewrite_ok[OF l(1)] log_rewrite_carried[OF l(1)] l(2) d(2) by (simp add: silent_def same_index_def)
qed

lemma rebuilt_core:
  "core (rebuild_findex env (rebuild_fts env s)) = core s" "st_data (rebuild_findex env (rebuild_fts env s)) = st_data s"
  "st_log (rebuild_findex env (rebuild_fts env s)) = st_log s" "st_aliases (rebuild_findex env (rebuild_fts env s)) = st_aliases s"
  "st_config (rebuild_findex env (rebuild_fts env s)) = st_config s"
  by (simp_all add: rebuild_findex_def rebuild_fts_def core_def)

lemma compact_ok:
  assumes ok: "store_ok s" and run: "compact env s = (Inr (), t)"
  shows "contents t = contents s \<and> store_ok t \<and> st_dead_rows t = 0 \<and> store_rows t = size (live_rows (st_collections t)) \<and>
    st_aliases t = st_aliases s \<and> st_config t = st_config s \<and> segs_dimension (st_data t) = segs_dimension (st_data s) \<and>
    (\<exists>ops. log_describes (se_codec env) t ops)"
proof -
  have inv: "segs_inv (st_data s)" using ok by (simp add: store_ok_def)
  obtain pl cs where p: "compact_plan s = Inr (pl, cs)" "plan_wf (st_data s) pl" "list_all (op_fits (pl_next pl)) (pl_ops pl)"
    "replay_all (pl_next pl) (pl_ops pl) ([], 0) = (cs, 0)" "view_of (nth_opt (pl_rows pl)) cs = contents s"
    "core_ok (pl_next pl) (cs, 0)" "size (live_rows cs) = pl_next pl"
    using compact_plan_ok[OF ok] by blast
  obtain fence u v w where u: "compact_fence env s = (Inr fence, u)"
    and v: "compact_files env pl (st_pruned_through s) fence u = (Inr (), v)"
    and w: "w = rebuild_findex env (rebuild_fts env (v\<lparr>st_collections := cs, st_dead_rows := 0\<rparr>))"
    and t: "ignoring (persist_index env) w = (Inr (), t)"
    using run p(1) by (auto simp: compact_def run_Inr)
  have su: "silent s u" by (rule silent_atD[OF silent_at_fence inv u])
  have "plan_wf (st_data u) pl" using p(2) su by (simp add: plan_wf_def silent_def)
  note f = compact_files_ok[OF silent_inv[OF su] this v]
  have cw: "core w = (cs, 0)" "st_data w = st_data v" "st_log w = st_log v" "st_aliases w = st_aliases v"
    "st_config w = st_config v"
    unfolding w rebuilt_core by (simp_all add: core_def)
  have wt: "silent w t" using silent_atD[OF silent_at_ignoring[OF silent_at_persist_index] _ t] f cw(2) by simp
  have tinv: "segs_inv (st_data t)" and rows: "segs_rows (st_data t) = pl_rows pl" and ct: "core t = (cs, 0)"
    using wt f cw silent_core[OF wt] by (simp_all add: silent_def)
  have n: "store_rows t = pl_next pl" using segs_count[OF tinv] rows p(2) by (simp add: plan_wf_def)
  have "segs_row (st_data t) = nth_opt (pl_rows pl)" using segs_row_nth_opt[OF tinv] rows by simp
  then have "contents t = contents s" using ct p(5) by (simp add: contents_def core_def)
  moreover have "store_ok t" using tinv ct n p(6) by (simp add: store_ok_def)
  moreover have "log_describes (se_codec env) t (pl_ops pl)"
    using wt f cw(3) p(3,4) n ct by (simp add: log_describes_def silent_def)
  ultimately show ?thesis using ct n p(7) wt su f cw by (auto simp: core_def silent_def same_index_def)
qed

section \<open>Properties\<close>

text \<open>
  C6 (compaction is invisible). A compaction that succeeds leaves every collection and document
  as it was, vectors and attributes alike, and the aliases too; afterwards no row is dead and
  every row of the matrix belongs to a document.
\<close>
theorem compact_refines:
  assumes "store_ok s" and "compact env s = (Inr (), t)"
  shows "contents t = contents s \<and> st_aliases t = st_aliases s \<and> st_dead_rows t = 0 \<and>
    segs_row_count (st_data t) = size (live_rows (st_collections t)) \<and> store_ok t"
  using compact_ok[OF assms] by simp

text \<open>
  C7 (the compaction plan). On a sound store the plan reads no row past the matrix, its log
  replays over the matrix it writes to the index it leaves, with no dead row, and reading that
  index through the new matrix gives back the documents.
\<close>
theorem compact_plan_sound:
  assumes "store_ok s"
  shows "\<exists>pl cs. compact_plan s = Inr (pl, cs) \<and> pl_next pl = length (pl_rows pl) \<and>
    im_core (replay_ops (pl_ops pl) (pl_next pl)) = (cs, 0) \<and> view_of (nth_opt (pl_rows pl)) cs = contents s"
  using compact_plan_ok[OF assms] by (auto simp: plan_wf_def im_core_replay_ops)

definition demo_compact_ops :: "op list" where
  "demo_compact_ops = [CreateCollection ''a'', UpsertVectors ''a'' ''x'' [(''default'', 0)] [(''k'', VInt 1)]]"

lemmas run_compact_defs = compact_def compact_plan_def plan_doc_def header_ops_def compact_fence_def compact_files_def
  segs_rewrite_def rewrite_base_def log_rewrite_def ap_rewrite_def persist_manifest_def ignore_each_def ignoring_def
  rebuild_findex_def rebuild_fts_def persist_index_def segs_row_def seg_row_def seg_vectors_def on_dir_def on_fs_def
  fts_schema_for_def fx_schema_for_def fts_default_def findex_default_def seg_is_mmap_def on_base_def seg_rewrite_def
  set_base_segment_def stamp_base_def mem_rewrite_def fts_is_active_def fx_is_active_def

theorem compact_refines_witness:
  "\<exists>t. compact (demo_senv demo_compact_ops) demo_full = (Inr (), t) \<and> contents t = contents demo_full \<and>
     st_dead_rows demo_full = 1 \<and> st_dead_rows t = 0"
proof -
  have "\<exists>t. compact (demo_senv demo_compact_ops) demo_full = (Inr (), t)"
    by (simp add: run_compact_defs run_store_defs demo_full_def demo_defs demo_compact_ops_def Let_def)
  then obtain t where t: "compact (demo_senv demo_compact_ops) demo_full = (Inr (), t)" ..
  have "st_dead_rows demo_full = 1" by (simp add: demo_full_def)
  then show ?thesis using t compact_refines[OF demo_full_ok(1) t] by blast
qed

theorem compact_plan_sound_witness:
  "compact_plan demo_full = Inr (\<lparr>pl_ops = demo_compact_ops, pl_rows = [[3, 4]], pl_next = 1\<rparr>,
     [(''a'', \<lparr>co_meta = [], co_docs = [(''x'', \<lparr>de_rows = [(''default'', 0)], de_attrs = [(''k'', VInt 1)]\<rparr>)], co_vector_names = []\<rparr>)])
   \<and> (\<exists>pl cs. compact_plan demo_full = Inr (pl, cs) \<and> view_of (nth_opt (pl_rows pl)) cs = contents demo_full)"
  using compact_plan_sound[OF demo_full_ok(1)]
  by (auto simp: run_compact_defs demo_full_def demo_store_eq demo_compact_ops_def)

end
