(* ===== verification/StoreRun.thy ===== *)
theory StoreRun
  imports StoreProps StoreCompact
begin

text \<open>
  Runs of the store: every mutation as a step, the states they reach, and what a reopen finds.
\<close>

section \<open>Every operation of the log keeps the row invariant\<close>

lemma replay_text: "replay_core n (UpsertText c did a) k = put_core c (did, [], a) k"
  by (cases k) (simp add: replay_core_def im_core_def image_of_def replay_put_def put_core_def)

lemma core_ok_rowless:
  assumes ok: "core_ok n k" and "rowless x"
  shows "core_ok n (replay_core m x k)"
proof (cases x)
  case (UpsertText c did a)
  then show ?thesis using core_ok_put[OF ok, of "[] :: (string \<times> f32 list) list" c did a] by (simp add: replay_text)
next
  case (Reinforce c did j now e)
  then show ?thesis using core_ok_stamp[OF ok, of m c now "(did, j, e)"] by (simp add: stamp_op_def)
next
  case (SetMeta c meta)
  have "core_ok n (on_collection c (\<lambda>col. col\<lparr>co_meta := meta\<rparr>) (fst k), snd k)"
    using core_ok_or_new[OF ok, of c] by (intro core_ok_keep[OF ok]) (simp_all add: col_wf_def col_live_def)
  then show ?thesis using SetMeta by (cases k) (simp add: replay_core_simps)
next
  case (SetVectorNames c names)
  have "core_ok n (on_collection c (\<lambda>col. col\<lparr>co_vector_names := names\<rparr>) (fst k), snd k)"
    using core_ok_or_new[OF ok, of c] by (intro core_ok_keep[OF ok]) (simp_all add: col_wf_def col_live_def)
  then show ?thesis using SetVectorNames by (cases k) (simp add: replay_core_simps)
next
  case (DropCollection c)
  then show ?thesis using core_ok_drop[OF ok] by simp
next
  case (Delete c did)
  then show ?thesis using core_ok_delete[OF ok] by simp
next
  case (CreateCollection c)
  then show ?thesis using core_ok_create[OF ok, of c] by (cases k) (simp add: replay_core_simps create_core_def)
next
  case (SetFtsFields c decls)
  then show ?thesis using core_ok_create[OF ok, of c] by (cases k) (simp add: replay_core_simps create_core_def)
next
  case (SetFilterIndex c decls)
  then show ?thesis using core_ok_create[OF ok, of c] by (cases k) (simp add: replay_core_simps create_core_def)
next
  case (SetFtsSchema c decls)
  then show ?thesis using core_ok_create[OF ok, of c]
    by (cases k) (simp add: replay_core_def im_core_def image_of_def create_core_def)
qed (use assms(2) in simp_all)

lemma core_ok_rowless_all: "core_ok n k \<Longrightarrow> list_all rowless ops \<Longrightarrow> core_ok n (replay_all m ops k)"
  by (induction ops arbitrary: k) (simp_all add: core_ok_rowless)

section \<open>Steps\<close>

text \<open>
  One call of the public interface that leaves memory and log in step: the mutations that returned,
  the batches and sweeps that failed and were undone, and the calls that touch no document whatever
  they return. The name of the next segment is free when a batch, or a flush after its barrier, may
  roll over to it.
\<close>

definition flush_barrier :: "store_env \<Rightarrow> (store, unit) act" where
  "flush_barrier env = andThen check_writable (\<lambda>_. andThen sync_both (\<lambda>_ s.
     andThen (if \<not> cf_per_batch (st_config s) \<or> st_pending_barrier s then note_commit_point env else ret ())
       (\<lambda>_. set_pending False) s))"

inductive store_step :: "store_env \<Rightarrow> store \<Rightarrow> store \<Rightarrow> bool" for env where
  upserted: "next_name_free (st_data s) \<Longrightarrow> list_all record_wf records \<Longrightarrow>
    upsert env c records s = (Inr m, t) \<Longrightarrow> store_step env s t"
| upsert_failed: "next_name_free (st_data s) \<Longrightarrow> list_all record_wf records \<Longrightarrow> records \<noteq> [] \<Longrightarrow>
    upsert env c records s = (Inl e, t) \<Longrightarrow> undone e \<Longrightarrow> store_step env s t"
| deleted: "delete env c ids s = (Inr m, t) \<Longrightarrow> store_step env s t"
| deleted_where: "delete_where env c f s = (Inr m, t) \<Longrightarrow> store_step env s t"
| swept: "delete_where_all env f s = (Inr m, t) \<Longrightarrow> store_step env s t"
| sweep_failed: "delete_where_all env f s = (Inl e, t) \<Longrightarrow> undone e \<Longrightarrow> store_step env s t"
| reinforced: "reinforce env c ids now ttl s = (Inr m, t) \<Longrightarrow> store_step env s t"
| created: "create_collection env c s = (Inr (), t) \<Longrightarrow> store_step env s t"
| dropped: "drop_collection env c s = (Inr (), t) \<Longrightarrow> store_step env s t"
| described: "set_meta env c meta s = (Inr (), t) \<Longrightarrow> store_step env s t"
| fts_declared: "set_fts_schema env c decls s = (Inr (), t) \<Longrightarrow> store_step env s t"
| findex_declared: "set_filter_index env c fdecls s = (Inr (), t) \<Longrightarrow> store_step env s t"
| vectors_declared: "set_vector_names env c names s = (Inr (), t) \<Longrightarrow> store_step env s t"
| compacted: "compact env s = (Inr (), t) \<Longrightarrow> store_step env s t"
| profiled: "set_open_profile env p s = (r, t) \<Longrightarrow> store_step env s t"
| aliased: "set_alias env name target s = (r, t) \<Longrightarrow> store_step env s t"
| unaliased: "drop_alias env name s = (r', t) \<Longrightarrow> store_step env s t"
| flushed: "next_name_free (st_data (snd (flush_barrier env s))) \<Longrightarrow> flush env s = (r, t) \<Longrightarrow> store_step env s t"
| committed: "commit env s = (r, t) \<Longrightarrow> store_step env s t"
| deferred: "begin_deferred s = (r', t) \<Longrightarrow> store_step env s t"
| resumed: "end_deferred prev s = (r, t) \<Longrightarrow> store_step env s t"

inductive store_run :: "store_env \<Rightarrow> store \<Rightarrow> store \<Rightarrow> bool" for env where
  run_refl: "store_run env s s"
| run_step: "store_run env s t \<Longrightarrow> store_step env t u \<Longrightarrow> store_run env s u"

text \<open>A sound store: its rows are in order and its log replays to what it serves.\<close>

definition sound :: "codec \<Rightarrow> store \<Rightarrow> bool" where
  "sound cd s \<longleftrightarrow> store_ok s \<and> (\<exists>ops. log_describes cd s ops)"

lemma sound_writes:
  assumes "sound cd s" "writes cd s ops t" "store_ok t"
  shows "sound cd t"
  using assms writes_describes[of s cd _ ops t] by (auto simp: sound_def store_ok_def)

text \<open>Steps that keep the documents, the matrix and the log, whatever else they change.\<close>

definition quiet :: "store \<Rightarrow> store \<Rightarrow> bool" where
  "quiet s t \<longleftrightarrow> core t = core s \<and> segs_inv (st_data t) \<and> segs_rows (st_data t) = segs_rows (st_data s) \<and>
     ap_bytes (st_log t) = ap_bytes (st_log s)"

lemma quiet_trans: "quiet s t \<Longrightarrow> quiet t u \<Longrightarrow> quiet s u"
  by (simp add: quiet_def)

lemma silent_quiet: "silent s t \<Longrightarrow> quiet s t"
  by (simp add: quiet_def silent_def same_index_def core_def)

lemma quiet_same:
  "segs_inv (st_data s) \<Longrightarrow> core t = core s \<Longrightarrow> st_data t = st_data s \<Longrightarrow> st_log t = st_log s \<Longrightarrow> quiet s t"
  by (simp add: quiet_def)

lemma sound_quiet: "sound cd s \<Longrightarrow> quiet s t \<Longrightarrow> sound cd t"
proof -
  assume s: "sound cd s" and q: "quiet s t"
  have "segs_inv (st_data s)" using s by (simp add: sound_def store_ok_def)
  then have "store_rows t = store_rows s" using q segs_count[of "st_data s"] segs_count[of "st_data t"] by (simp add: quiet_def)
  then show "sound cd t" using s q by (auto simp: sound_def store_ok_def quiet_def log_describes_def)
qed

lemma sound_silent: "sound cd s \<Longrightarrow> silent s t \<Longrightarrow> sound cd t"
  using sound_quiet silent_quiet by blast

lemma sound_rowless:
  assumes s: "sound cd s" and w: "writes cd s ops t" and r: "list_all rowless ops"
  shows "sound cd t"
proof -
  have inv: "segs_inv (st_data s)" "core_ok (store_rows s) (core s)" using s by (simp_all add: sound_def store_ok_def)
  have "core_ok (store_rows t) (replay_all (store_rows t) ops (core s))"
    using core_ok_mono[OF inv(2) writes_rows_mono[OF inv(1) w]] r by (rule core_ok_rowless_all)
  then have "store_ok t" using w by (simp add: store_ok_def writes_def)
  then show ?thesis by (rule sound_writes[OF s w])
qed

text \<open>Publishing changed metadata: a change outside the documents, a new version, the manifest.\<close>

lemma published_quiet:
  assumes "segs_inv (st_data s)" "andThen (modify g) (\<lambda>_. andThen bump (\<lambda>_. persist_manifest env)) s = (r, t)"
    and "core (g s) = core s" "st_data (g s) = st_data s" "st_log (g s) = st_log s"
  shows "quiet s t"
proof -
  have "andThen bump (\<lambda>_. persist_manifest env) (g s) = (r, t)" using assms(2) by (simp add: modify_def andThen_def)
  moreover have "silent_at (andThen bump (\<lambda>_. persist_manifest env)) (g s)" by (intro silent_intros)
  ultimately have "quiet (g s) t" using assms by (intro silent_quiet) (auto dest: silent_atD)
  then show ?thesis using quiet_same[of s "g s"] assms quiet_trans by blast
qed

lemma set_open_profile_quiet:
  assumes "segs_inv (st_data s)" "set_open_profile env p s = (r, t)"
  shows "quiet s t"
proof (cases "cf_read_only (st_config s) \<or> \<not> config_valid (apply_profile p (st_baseline s))")
  case True
  then have "t = s" using assms(2) by (cases "cf_read_only (st_config s)") (simp_all add: set_open_profile_def check_writable_def)
  then show ?thesis using assms(1) by (simp add: quiet_def)
next
  case False
  then have "andThen (modify (\<lambda>s. s\<lparr>st_profile := p\<rparr>)) (\<lambda>_. andThen bump (\<lambda>_. persist_manifest env)) s = (r, t)"
    using assms(2) by (simp add: set_open_profile_def check_writable_def)
  from published_quiet[OF assms(1) this] show ?thesis by (simp add: core_def)
qed

lemma aliases_quiet: "quiet s t \<Longrightarrow> quiet s (t\<lparr>st_aliases := m\<rparr>)"
  by (simp add: quiet_def core_def)

lemma set_alias_quiet:
  assumes inv: "segs_inv (st_data s)" and run: "set_alias env name target s = (r, t)"
  shows "quiet s t"
proof (cases "cf_read_only (st_config s) \<or> (\<exists>e. validate_alias name target (st_aliases s) = Inl e) \<or>
    aget (st_collections s) name \<noteq> None \<or> aget (st_collections s) target = None \<or> aget (st_aliases s) name = Some target")
  case True
  then have "t = s" using run
    by (auto simp: set_alias_def check_writable_def andThen_def Let_def split: sum.splits if_splits)
  then show ?thesis using inv by (simp add: quiet_def)
next
  case False
  let ?pub = "andThen (modify (\<lambda>s. s\<lparr>st_aliases := aput name target (st_aliases s)\<rparr>)) (\<lambda>_. andThen bump (\<lambda>_. persist_manifest env))"
  obtain q u where u: "?pub s = (q, u)" by fastforce
  have qu: "quiet s u" by (rule published_quiet[OF inv u]) (simp_all add: core_def)
  obtain y where "validate_alias name target (st_aliases s) = Inr y"
    using False by (cases "validate_alias name target (st_aliases s)") auto
  then have "\<exists>m. t = u \<or> t = u\<lparr>st_aliases := m\<rparr>" using run u False
    by (cases q) (auto simp: set_alias_def check_writable_def Let_def)
  then show ?thesis using qu aliases_quiet by blast
qed

lemma drop_alias_quiet:
  assumes inv: "segs_inv (st_data s)" and run: "drop_alias env name s = (r, t)"
  shows "quiet s t"
proof (cases "cf_read_only (st_config s) \<or> aget (st_aliases s) name = None")
  case True
  then have "t = s" using run by (cases "cf_read_only (st_config s)") (simp_all add: drop_alias_def check_writable_def)
  then show ?thesis using inv by (simp add: quiet_def)
next
  case False
  let ?pub = "andThen (modify (\<lambda>s. s\<lparr>st_aliases := adel name (st_aliases s)\<rparr>)) (\<lambda>_. andThen bump (\<lambda>_. persist_manifest env))"
  obtain q u where u: "?pub s = (q, u)" by fastforce
  have qu: "quiet s u" by (rule published_quiet[OF inv u]) (simp_all add: core_def)
  have "\<exists>m. t = u \<or> t = u\<lparr>st_aliases := m\<rparr>" using run u False
    by (cases q) (auto simp: drop_alias_def check_writable_def)
  then show ?thesis using qu aliases_quiet by blast
qed

lemma silent_at_own: "silent_at (f t) t \<Longrightarrow> silent_at (\<lambda>s. f s s) t"
  by (simp add: silent_at_def)

lemma andThen_own: "andThen m (\<lambda>x s. andThen (f x s) g s) = andThen (andThen m (\<lambda>x s. f x s s)) g"
  by (intro ext) (auto simp: andThen_def split: prod.splits sum.splits)

lemma silent_at_flush_barrier: "silent_at (flush_barrier env) s"
  unfolding flush_barrier_def
proof (intro silent_at_andThen silent_at_sync_both silent_at_own[of "\<lambda>s. andThen (c s) d" for c d])
  show "silent_at check_writable s" by (simp add: silent_at_def check_writable_def)
qed (intro silent_intros)+

lemma flush_split: "flush env = andThen (flush_barrier env) (\<lambda>_. andThen (maybe_seal env) (\<lambda>_. ignoring (refresh_active_checksum env)))"
  unfolding flush_def flush_barrier_def andThen_assoc[symmetric] andThen_own ..

lemma flush_silent:
  assumes inv: "segs_inv (st_data s)" and free: "next_name_free (st_data (snd (flush_barrier env s)))"
    and run: "flush env s = (r, t)"
  shows "silent s t"
proof -
  have "silent_at (refresh_active_checksum env) u" for u
    using silent_at_on_dir[of _ "()" u] by (auto simp: silent_at_def refresh_active_checksum_def Let_def)
  then have "silent_at (flush env) s" unfolding flush_split
    by (intro silent_at_andThen silent_at_flush_barrier silent_at_maybe_seal silent_at_ignoring)
      (use free in \<open>auto dest: arg_cong[of _ _ snd]\<close>)
  then show ?thesis using inv run by (rule silent_atD)
qed

text \<open>Every step keeps the rows in order, and the matrix, the log and the documents in step.\<close>

definition keeps_sound :: "codec \<Rightarrow> store \<Rightarrow> store \<Rightarrow> bool" where
  "keeps_sound cd s t \<longleftrightarrow> store_ok t \<and> (sound cd s \<longrightarrow> sound cd t)"

lemma keeps_writes: "writes cd s ops t \<Longrightarrow> store_ok t \<Longrightarrow> keeps_sound cd s t"
  using sound_writes by (auto simp: keeps_sound_def)

lemma keeps_quiet:
  assumes "store_ok s" "quiet s t"
  shows "keeps_sound cd s t"
proof -
  have "store_rows t = store_rows s"
    using assms segs_count[of "st_data s"] segs_count[of "st_data t"] by (simp add: quiet_def store_ok_def)
  then have "store_ok t" using assms by (simp add: store_ok_def quiet_def)
  then show ?thesis using sound_quiet[OF _ assms(2)] by (auto simp: keeps_sound_def)
qed

lemma keeps_silent: "store_ok s \<Longrightarrow> silent s t \<Longrightarrow> keeps_sound cd s t"
  using keeps_quiet silent_quiet by blast

lemma keeps_rowless:
  assumes ok: "store_ok s" and w: "writes cd s ops t" and r: "list_all rowless ops"
  shows "keeps_sound cd s t"
proof -
  have inv: "segs_inv (st_data s)" "core_ok (store_rows s) (core s)" using ok by (simp_all add: store_ok_def)
  have "core_ok (store_rows t) (replay_all (store_rows t) ops (core s))"
    using core_ok_mono[OF inv(2) writes_rows_mono[OF inv(1) w]] r by (rule core_ok_rowless_all)
  then have "store_ok t" using w by (simp add: store_ok_def writes_def)
  then show ?thesis by (rule keeps_writes[OF w])
qed

lemma store_step_keeps:
  assumes "store_step env s t" "store_ok s"
  shows "keeps_sound (se_codec env) s t"
proof -
  note ok = assms(2)
  have inv: "segs_inv (st_data s)" using ok by (simp add: store_ok_def)
  note w = keeps_rowless[OF ok] and silent = keeps_silent[OF ok] and quiet = keeps_quiet[OF ok]
  show ?thesis using assms(1)
  proof cases
    case (upserted records c m)
    obtain per where p: "list_all2 (\<lambda>r named. amap_wf named \<and> aget named = record_vectors r \<and>
        (\<forall>v \<in> set (avals named). length v = segs_dimension (st_data s))) records per"
      "m = length records" "\<exists>ops. writes (se_codec env) s ops t"
      "core t = fold (put_core c) (stage (store_rows s) (zip records per)) (create_core c (core s))"
      "segs_rows (st_data t) = segs_rows (st_data s) @ batch_vectors env (st_config s) (zip records per)"
      by (rule upsert_Inr[OF inv upserted])
    have "store_ok t" using p(3) batch_contents[OF ok p(1,4,5)] by (auto simp: writes_def)
    then show ?thesis using p(3) keeps_writes by blast
  next
    case (upsert_failed records c e)
    then show ?thesis using upsert_Inl[OF ok] silent keeps_writes by blast
  next
    case (deleted c ids m)
    then show ?thesis using delete_writes[OF inv] w by metis
  next
    case (deleted_where c f m)
    then have "t = s \<or> (\<exists>ids. delete env c ids s = (Inr m, t))"
      by (auto simp: delete_where_def run_Inr Let_def split: option.splits if_splits)
    then show ?thesis using delete_writes[OF inv] w ok by (metis keeps_sound_def)
  next
    case (swept f m)
    have "list_all rowless (map (\<lambda>(c, did). Delete c did) ps)" for ps by (induction ps) auto
    then show ?thesis using delete_where_all_writes[OF inv swept] w by metis
  next
    case (sweep_failed f e)
    then show ?thesis using sweep_Inl[OF inv] silent by blast
  next
    case (reinforced c ids now ttl m)
    then show ?thesis using reinforce_writes[OF inv] w by metis
  next
    case (created c) then show ?thesis using create_collection_writes[OF inv] w by metis
  next
    case (dropped c) then show ?thesis using drop_collection_writes[OF inv] w by metis
  next
    case (described c meta) then show ?thesis using set_meta_writes[OF inv] w by metis
  next
    case (fts_declared c decls) then show ?thesis using set_fts_schema_writes[OF inv] w by metis
  next
    case (findex_declared c fdecls) then show ?thesis using set_filter_index_writes[OF inv] w by metis
  next
    case (vectors_declared c names) then show ?thesis using set_vector_names_writes[OF inv] w by metis
  next
    case compacted then show ?thesis using compact_ok[OF ok] by (simp add: keeps_sound_def sound_def)
  next
    case (profiled p r) then show ?thesis using set_open_profile_quiet[OF inv] quiet by blast
  next
    case (aliased name target r) then show ?thesis using set_alias_quiet[OF inv] quiet by blast
  next
    case (unaliased name r') then show ?thesis using drop_alias_quiet[OF inv] quiet by blast
  next
    case (flushed r) then show ?thesis using flush_silent[OF inv] silent by blast
  next
    case (committed r)
    then show ?thesis using silent_atD[OF silent_at_commit inv] silent by blast
  next
    case (deferred r')
    then show ?thesis using quiet_same[OF inv, of t] quiet by (auto simp: begin_deferred_def core_def)
  next
    case (resumed prev r)
    then show ?thesis using quiet_same[OF inv, of t] quiet by (auto simp: end_deferred_def modify_def core_def)
  qed
qed

lemma store_step_sound: "store_step env s t \<Longrightarrow> sound (se_codec env) s \<Longrightarrow> sound (se_codec env) t"
  using store_step_keeps[of env s t] by (auto simp: keeps_sound_def sound_def)

section \<open>Calls that fail half way\<close>

text \<open>
  A deletion, a creation, a drop, a declaration or a reinforcement that fails may leave the memory
  and the log apart, but it keeps the rows of the documents in order.
\<close>

definition rows_at :: "(store, 'a) act \<Rightarrow> store \<Rightarrow> bool" where
  "rows_at m s \<longleftrightarrow> (store_ok s \<longrightarrow> store_ok (snd (m s)))"

named_theorems rows_intros \<open>actions that keep the rows in order\<close>

lemma rows_atD: "rows_at m s \<Longrightarrow> store_ok s \<Longrightarrow> m s = (r, t) \<Longrightarrow> store_ok t"
  by (simp add: rows_at_def)

lemma rows_at_silent: "silent_at m s \<Longrightarrow> rows_at m s"
  using silent_contents by (auto simp: rows_at_def silent_at_def store_ok_def)

lemma rows_at_ret [rows_intros]: "rows_at (ret x) s" "rows_at (fail e) s"
  by (simp_all add: rows_at_def)

lemma rows_at_andThen [rows_intros]:
  assumes "rows_at m s" "\<And>x t. m s = (Inr x, t) \<Longrightarrow> rows_at (f x) t"
  shows "rows_at (andThen m f) s"
proof -
  obtain r t where "m s = (r, t)" by fastforce
  then show ?thesis using assms by (cases r) (auto simp: rows_at_def)
qed

lemma rows_at_if [rows_intros]: "(b \<Longrightarrow> rows_at m s) \<Longrightarrow> (\<not> b \<Longrightarrow> rows_at n s) \<Longrightarrow> rows_at (if b then m else n) s"
  by simp

lemma rows_at_maybe_sync [rows_intros]: "rows_at (maybe_sync env) s"
  by (rule rows_at_silent[OF silent_at_maybe_sync])

lemma rows_at_append_op [rows_intros]: "rows_at (append_op env x) s"
  by (auto simp: rows_at_def append_op_def on_log_def store_ok_def core_def split: prod.splits)

lemma rows_at_check_writable [rows_intros]: "rows_at check_writable s"
  by (simp add: rows_at_def check_writable_def)

lemma rows_at_reject [rows_intros]: "rows_at (reject_if_alias verb name) s"
  by (simp add: rows_at_def reject_if_alias_def split: option.split)

lemma rows_at_result [rows_intros]: "rows_at (of_result r) s"
  by (simp add: rows_at_def of_result_def)

lemma rows_at_modify:
  assumes "\<And>n. core_ok n (core s) \<Longrightarrow> core_ok n (core (f s))" "st_data (f s) = st_data s"
  shows "rows_at (modify f) s"
  using assms by (simp add: rows_at_def modify_def store_ok_def)

lemma rows_at_index [rows_intros]:
  "rows_at (modify (\<lambda>s. s\<lparr>st_fts := f s, st_fts_dirty := True\<rparr>)) s"
  "rows_at (modify (\<lambda>s. s\<lparr>st_findex := g s, st_findex_dirty := True\<rparr>)) s" "rows_at (modify mark_dirty) s"
  by (intro rows_at_modify; simp add: core_def mark_dirty_def)+

lemma rows_at_ensure [rows_intros]: "rows_at (set_collections (ensure_collection c)) s"
  unfolding set_collections_def using core_ok_create[of _ "core s" c]
  by (intro rows_at_modify) (simp_all add: core_def create_core_def)

lemma rows_at_on_collection:
  assumes "\<And>col. col_wf col \<Longrightarrow> col_wf (g col) \<and> col_live (g col) = col_live col"
  shows "rows_at (set_collections (on_collection c g)) s"
  unfolding set_collections_def
  using assms core_ok_keep[of _ "core s" g c] core_ok_or_new[of _ "core s" c]
  by (intro rows_at_modify) (auto simp: core_def)

lemma rows_at_forget:
  assumes "lookup_doc (st_collections s) c did = Some old"
  shows "rows_at (modify (forget_doc c did old)) s"
  using assms core_ok_delete[of _ "core s" 0 c did]
  by (intro rows_at_modify) (simp_all add: core_def forget_doc_def replay_core_simps)

lemma rows_at_delete_loop [rows_intros]: "rows_at (delete_loop env c ids n) s"
proof (induction ids arbitrary: n s)
  case (Cons did ids n s)
  show ?case
  proof (cases "lookup_doc (st_collections s) c did")
    case None
    then show ?thesis using Cons.IH[of n s] by (simp add: rows_at_def)
  next
    case (Some old)
    have "rows_at (andThen (modify (forget_doc c did old)) (\<lambda>_. andThen (append_op env (Delete c did))
        (\<lambda>_. delete_loop env c ids (Suc n)))) s"
      by (intro rows_intros rows_at_forget[OF Some] Cons.IH)
    then show ?thesis using Some by (simp add: rows_at_def)
  qed
qed (simp add: rows_intros)

lemma rows_at_delete [rows_intros]: "rows_at (delete env c ids) s"
proof -
  have "rows_at (andThen (delete_loop env c ids 0) (\<lambda>count.
      if count > 0 then andThen (maybe_sync env) (\<lambda>_. andThen (modify mark_dirty) (\<lambda>_. ret count)) else ret count)) t" for t
    by (intro rows_intros)
  then show ?thesis unfolding delete_def
    by (intro rows_at_andThen rows_at_check_writable) (simp add: rows_at_def)
qed

lemma rows_at_delete_where: "rows_at (delete_where env c f) s"
  unfolding delete_where_def
  by (intro rows_at_andThen rows_at_check_writable)
    (use rows_at_delete in \<open>auto simp: rows_at_def Let_def split: option.split\<close>)

lemma rows_at_create: "rows_at (create_collection env c) s"
proof -
  let ?log = "\<lambda>_. andThen (append_op env (CreateCollection c)) (\<lambda>_. maybe_sync env)"
  have "rows_at (andThen (set_collections (aput c collection_new)) ?log) t" if "aget (st_collections t) c = None" for t
  proof (rule rows_at_andThen)
    have "set_collections (aput c collection_new) t = set_collections (ensure_collection c) t"
      using that by (simp add: set_collections_def modify_def ensure_collection_def)
    then show "rows_at (set_collections (aput c collection_new)) t" using rows_at_ensure[of c t] by (simp add: rows_at_def)
  qed (intro rows_intros)
  then show ?thesis unfolding create_collection_def
    by (intro rows_at_andThen rows_at_check_writable) (simp add: rows_at_def)
qed

lemma rows_at_drop: "rows_at (drop_collection env c) s"
proof -
  have "rows_at (modify (\<lambda>s. drop_indexes c (s\<lparr>st_collections := adel c (st_collections s),
      st_dead_rows := st_dead_rows s + collection_rows col\<rparr>))) t" if "aget (st_collections t) c = Some col" for t col
    using that core_ok_drop[of _ "core t" 0 c]
    by (intro rows_at_modify) (simp_all add: core_def drop_indexes_def replay_core_simps Let_def)
  then have "rows_at (andThen (modify (\<lambda>s. drop_indexes c (s\<lparr>st_collections := adel c (st_collections s),
      st_dead_rows := st_dead_rows s + collection_rows col\<rparr>))) (\<lambda>_. andThen (append_op env (DropCollection c)) (\<lambda>_. maybe_sync env))) t"
    if "aget (st_collections t) c = Some col" for t col
    using that by (intro rows_intros)
  then show ?thesis unfolding drop_collection_def
    by (intro rows_at_andThen rows_at_check_writable rows_at_reject)
      (auto simp: rows_at_def split: option.split)
qed

lemma rows_at_set_meta: "rows_at (set_meta env c meta) s"
  unfolding set_meta_def by (intro rows_intros rows_at_on_collection) (simp add: col_wf_def col_live_def)

lemma rows_at_set_fts: "rows_at (set_fts_schema env c decls) s"
  unfolding set_fts_schema_def by (intro rows_intros)

lemma rows_at_set_findex: "rows_at (set_filter_index env c decls) s"
  unfolding set_filter_index_def by (intro rows_intros)

lemma rows_at_set_names: "rows_at (set_vector_names env c names) s"
  unfolding set_vector_names_def by (intro rows_intros rows_at_on_collection) (simp add: col_wf_def col_live_def)

lemma rows_upsert_empty: "store_ok s \<Longrightarrow> upsert env c [] s = (Inl e, t) \<Longrightarrow> store_ok t"
  using upsert_empty_Inl[of s env c e t] segs_count[of "st_data s"] segs_count[of "st_data t"]
  by (auto simp: store_ok_def same_index_def core_def)

text \<open>A call that returned or was undone, or one that failed and may have left memory and log apart.\<close>

inductive store_call :: "store_env \<Rightarrow> store \<Rightarrow> store \<Rightarrow> bool" for env where
  in_step: "store_step env s t \<Longrightarrow> store_call env s t"
| delete_failed: "delete env c ids s = (Inl e, t) \<Longrightarrow> store_call env s t"
| delete_where_failed: "delete_where env c f s = (Inl e, t) \<Longrightarrow> store_call env s t"
| create_failed: "create_collection env c s = (Inl e, t) \<Longrightarrow> store_call env s t"
| drop_failed: "drop_collection env c s = (Inl e, t) \<Longrightarrow> store_call env s t"
| describe_failed: "set_meta env c meta s = (Inl e, t) \<Longrightarrow> store_call env s t"
| fts_failed: "set_fts_schema env c decls s = (Inl e, t) \<Longrightarrow> store_call env s t"
| findex_failed: "set_filter_index env c fdecls s = (Inl e, t) \<Longrightarrow> store_call env s t"
| vectors_failed: "set_vector_names env c names s = (Inl e, t) \<Longrightarrow> store_call env s t"
| empty_upsert_failed: "upsert env c [] s = (Inl e, t) \<Longrightarrow> store_call env s t"

inductive store_history :: "store_env \<Rightarrow> store \<Rightarrow> store \<Rightarrow> bool" for env where
  history_refl: "store_history env s s"
| history_call: "store_history env s t \<Longrightarrow> store_call env t u \<Longrightarrow> store_history env s u"

lemma store_call_ok: "store_call env s t \<Longrightarrow> store_ok s \<Longrightarrow> store_ok t"
proof (induction rule: store_call.induct)
  case (in_step s t)
  then show ?case using store_step_keeps by (simp add: keeps_sound_def)
qed (auto dest: rows_upsert_empty rows_atD[OF rows_at_delete] rows_atD[OF rows_at_delete_where] rows_atD[OF rows_at_create]
    rows_atD[OF rows_at_drop] rows_atD[OF rows_at_set_meta] rows_atD[OF rows_at_set_fts] rows_atD[OF rows_at_set_findex]
    rows_atD[OF rows_at_set_names])

lemma store_history_ok: "store_history env s t \<Longrightarrow> store_ok s \<Longrightarrow> store_ok t"
  by (induction rule: store_history.induct) (auto intro: store_call_ok)

lemma run_history: "store_run env s t \<Longrightarrow> store_history env s t"
  by (induction rule: store_run.induct) (auto intro: store_history.intros in_step)

end
