(* ===== verification/StoreDurable.thy ===== *)
theory StoreDurable
  imports StoreRun
begin

text \<open>
  Durability: what a barrier makes of the files, and what a crash after it leaves to reopen.
  A crash keeps what was last synced of each file.
\<close>

section \<open>Synced files\<close>

definition file_synced :: "appender \<Rightarrow> bool" where
  "file_synced a \<longleftrightarrow> (case a of FileAp f \<Rightarrow> fa_durable f = fa_bytes f | MemAp _ \<Rightarrow> True)"

definition log_synced :: "store \<Rightarrow> bool" where
  "log_synced s \<longleftrightarrow> file_synced (st_log s)"

text \<open>
  The matrix is several files. A barrier reaches the file of the active segment; the files of the
  sealed segments are on disk when they were before.
\<close>

definition active_synced :: "segments \<Rightarrow> bool" where
  "active_synced d \<longleftrightarrow> (\<forall>a. ds_appender (active d) = Some a \<longrightarrow> file_synced a)"

definition sealed_synced :: "segments \<Rightarrow> bool" where
  "sealed_synced d \<longleftrightarrow> (\<forall>g \<in> set (butlast (ss_segs d)). \<forall>a. ds_appender (sg_data g) = Some a \<longrightarrow> file_synced a)"


definition same_sealed :: "segments \<Rightarrow> segments \<Rightarrow> bool" where
  "same_sealed d e \<longleftrightarrow> butlast (ss_segs e) = butlast (ss_segs d) \<and> ss_base e = ss_base d"

lemma same_sealed_refl [simp]: "same_sealed d d"
  by (simp add: same_sealed_def)


lemma same_sealed_with_active [simp]: "same_sealed d (with_active e d)"
  by (simp add: same_sealed_def with_active_def)



definition synced :: "store \<Rightarrow> bool" where
  "synced s \<longleftrightarrow> log_synced s \<and> active_synced (st_data s)"


lemma ap_len_synced: "ap_len a = (r, b) \<Longrightarrow> file_synced a \<Longrightarrow> file_synced b"
  by (auto simp: ap_len_def on_file_def file_len_def file_synced_def andThen_def
      dest!: checked_call_keeps split: appender.splits prod.splits sum.splits)




text \<open>Actions that sync nothing and unsync nothing.\<close>

definition same_files :: "store \<Rightarrow> store \<Rightarrow> bool" where
  "same_files s t \<longleftrightarrow> (log_synced s \<longrightarrow> log_synced t) \<and>
     ss_segs (st_data t) = ss_segs (st_data s) \<and> ss_base (st_data t) = ss_base (st_data s)"

lemma same_files_refl [simp]: "same_files s s"
  by (simp add: same_files_def)

lemma same_files_trans: "same_files s t \<Longrightarrow> same_files t u \<Longrightarrow> same_files s u"
  by (simp add: same_files_def)

definition keeps_synced :: "(store, 'a) act \<Rightarrow> bool" where
  "keeps_synced m \<longleftrightarrow> (\<forall>s. same_files s (snd (m s)))"

named_theorems synced_intros \<open>actions that keep the files synced\<close>

lemma keeps_syncedD: "keeps_synced m \<Longrightarrow> m s = (r, t) \<Longrightarrow> same_files s t"
  by (auto simp: keeps_synced_def dest!: spec[of _ s])


lemma keeps_ret [synced_intros]: "keeps_synced (ret x)"
  by (simp add: keeps_synced_def)

lemma keeps_andThen [synced_intros]:
  assumes "keeps_synced m" "\<And>x. keeps_synced (f x)"
  shows "keeps_synced (andThen m f)"
  unfolding keeps_synced_def
proof
  fix s :: store
  obtain r t where m: "m s = (r, t)" by fastforce
  have st: "same_files s t" by (rule keeps_syncedD[OF assms(1) m])
  moreover have "same_files t (snd (f x t))" for x using assms(2) by (simp add: keeps_synced_def)
  ultimately show "same_files s (snd (andThen m f s))" using m by (cases r) (auto intro: same_files_trans)
qed

lemma keeps_ignoring [synced_intros]: "keeps_synced m \<Longrightarrow> keeps_synced (ignoring m)"
  by (simp add: keeps_synced_def ignoring_def)

lemma keeps_own: "(\<And>s. keeps_synced (f s)) \<Longrightarrow> keeps_synced (\<lambda>s. f s s)"
  by (simp add: keeps_synced_def)

lemma keeps_modify: "(\<And>s. same_files s (f s)) \<Longrightarrow> keeps_synced (modify f)"
  by (simp add: keeps_synced_def modify_def)

lemma keeps_on_dir [synced_intros]: "keeps_synced (on_dir f x)"
  unfolding keeps_synced_def
proof
  fix s :: store
  obtain r d where d: "on_fs f x (st_data s) = (r, d)" by fastforce
  then obtain q where "d = (st_data s)\<lparr>ss_persistence := q\<rparr>" using on_fs_result[OF d] by auto
  then show "same_files s (snd (on_dir f x s))" using d by (simp add: on_dir_def on_data_def same_files_def log_synced_def)
qed

lemma keeps_log_offset [synced_intros]: "keeps_synced (on_log log_offset)"
  by (auto simp: keeps_synced_def on_log_def log_offset_def same_files_def log_synced_def dest: ap_len_synced split: prod.splits)

lemma keeps_bump [synced_intros]: "keeps_synced bump"
  unfolding bump_def by (rule keeps_modify) (simp add: bump_version_def same_files_def log_synced_def)

lemma keeps_prune_loop: "keeps_synced (prune_loop env vs)"
proof (induction vs)
  case (Cons v vs)
  then show ?case unfolding prune_loop.simps
    by (intro synced_intros keeps_modify) (simp add: same_files_def log_synced_def)
qed (unfold prune_loop.simps, rule keeps_ret)

lemma keeps_prune_history: "keeps_synced (prune_history env v n)"
proof -
  have "keeps_synced (andThen (prune_loop env vs) (\<lambda>_ t. ignoring (on_dir (f t) ()) t))" for vs f
    by (intro keeps_andThen keeps_prune_loop keeps_own[of "\<lambda>t. ignoring (on_dir (f t) ())"] synced_intros)
  then show ?thesis by (simp add: keeps_synced_def prune_history_def Let_def del: upt_Suc)
qed

lemma keeps_record_history: "keeps_synced (record_history_entry env m)"
  unfolding keeps_synced_def
proof
  fix s :: store
  show "same_files s (snd (record_history_entry env m s))"
  proof (cases "cf_history_versions (st_config s)")
    case (Some n)
    obtain x t where t: "on_log log_offset s = (x, t)" by fastforce
    have st: "same_files s t" by (rule keeps_syncedD[OF keeps_log_offset t])
    have "same_files t (snd (case on_dir f () t of (Inl _, u) \<Rightarrow> (Inr (), u) | (Inr _, u) \<Rightarrow> prune_history env v n u))" for f v
    proof -
      obtain y u where u: "on_dir f () t = (y, u)" by fastforce
      have "same_files t u" by (rule keeps_syncedD[OF keeps_on_dir u])
      moreover have "same_files u (snd (prune_history env v n u))" using keeps_prune_history by (simp add: keeps_synced_def)
      ultimately show ?thesis using u by (cases y) (auto intro: same_files_trans)
    qed
    then show ?thesis using Some t st by (cases x) (auto simp: record_history_entry_def Let_def intro: same_files_trans)
  qed (simp add: record_history_entry_def)
qed

lemma keeps_persist_manifest [synced_intros]: "keeps_synced (persist_manifest env)"
proof -
  have "keeps_synced (andThen (on_dir f ()) (\<lambda>_. record_history_entry env m))" for f m
    by (intro synced_intros keeps_record_history)
  then show ?thesis by (simp add: keeps_synced_def persist_manifest_def Let_def)
qed


section \<open>Barriers\<close>






text \<open>A seal that finds everything on disk leaves the file it seals on disk.\<close>

lemma hash_rows_synced: "hash_rows off n fed a = (r, b) \<Longrightarrow> file_synced b = file_synced a"
proof (induction off n fed a rule: hash_rows.induct)
  case (1 off n fed a)
  let ?k = "min n 8192"
  show ?case
  proof (cases "n = 0")
    case False
    obtain x a1 where x: "ap_read_exact_at off ?k a = (x, a1)" by fastforce
    have s1: "file_synced a1 = file_synced a" using x
      by (auto simp: ap_read_exact_at_def on_file_def file_read_exact_at_def file_synced_def andThen_def
          dest!: checked_call_keeps split: appender.splits prod.splits sum.splits if_splits)
    show ?thesis
    proof (cases x)
      case (Inr buf)
      then show ?thesis using "1.IH"[OF _ refl x[symmetric] Inr] "1.prems"(1) s1 False x
        by (simp add: hash_rows.simps[of off n] Let_def)
    qed (use "1.prems"(1) s1 False x in \<open>simp add: hash_rows.simps[of off n] Let_def\<close>)
  qed (use "1.prems" in \<open>simp add: hash_rows.simps[of off 0]\<close>)
qed

lemma checksum_compute_synced:
  assumes "checksum_compute h n d = (r, e)"
  shows "map_option file_synced (ds_appender e) = map_option file_synced (ds_appender d)"
  using assms by (auto simp: checksum_compute_def Let_def dest: hash_rows_synced
      split: backing.splits option.splits prod.splits sum.splits if_splits)

lemma active_synced_map: "active_synced d \<longleftrightarrow> map_option file_synced (ds_appender (active d)) \<in> {None, Some True}"
  by (cases "ds_appender (active d)") (simp_all add: active_synced_def)

lemma stamp_active_sealed:
  assumes "segs_inv d" and "stamp_active sc d = (r, e)"
  shows "same_sealed d e \<and> active_synced e = active_synced d"
proof (cases "ss_persistence d")
  case (Some p)
  let ?rows = "active_rows d"
  obtain x f where f: "checksum_compute (sc_crc sc) ?rows (active d) = (x, f)" by fastforce
  have ne: "ss_segs d \<noteq> []" using assms(1) by (simp add: segs_inv_def)
  have "\<exists>q. e = (with_active f d)\<lparr>ss_persistence := q\<rparr>"
  proof (cases x)
    case (Inl err)
    then have "e = with_active f d" using assms(2) Some f by (simp add: stamp_active_def Let_def on_active_def)
    then have "e = (with_active f d)\<lparr>ss_persistence := ss_persistence d\<rparr>" by (simp add: with_active_def)
    then show ?thesis ..
  next
    case (Inr c)
    then show ?thesis using assms(2) Some f by (auto simp: stamp_active_def Let_def on_active_def dest!: on_fs_result)
  qed
  then obtain q where e: "e = (with_active f d)\<lparr>ss_persistence := q\<rparr>" ..
  then have "active e = f" using ne by (simp add: active_def with_active_def)
  then have "active_synced e = active_synced d" using checksum_compute_synced[OF f] by (simp add: active_synced_map)
  then show ?thesis using e by (simp add: same_sealed_def with_active_def)
qed (use assms in \<open>simp add: stamp_active_def\<close>)

lemma fresh_segment_segs: "fresh_segment name dim dist d = (r, e) \<Longrightarrow> \<exists>q. e = d\<lparr>ss_persistence := q\<rparr>"
proof (cases "ss_persistence d")
  case None
  moreover assume "fresh_segment name dim dist d = (r, e)"
  ultimately have "e = d\<lparr>ss_persistence := ss_persistence d\<rparr>" by (simp add: fresh_segment_def)
  then show ?thesis ..
qed (auto simp: fresh_segment_def split: prod.splits sum.splits)


text \<open>A seal syncs nothing: a segment that was not on disk is sealed and still not on disk.\<close>

lemma segs_seal_unsynced:
  assumes inv: "segs_inv d" and run: "segs_seal sc d = (Inr True, e)" and d: "\<not> active_synced d"
  shows "\<not> sealed_synced e"
proof -
  let ?name = "''seg-'' @ pad_nat 8 (ss_next_id d)"
  obtain new f g where f: "fresh_segment ?name (segs_dimension d) (ss_distance d) d = (Inr new, f)"
    and g: "stamp_active sc f = (Inr (), g)" and e: "ss_segs e = ss_segs g @ [\<lparr>sg_name = ?name, sg_data = new\<rparr>]"
    using run by (auto simp: segs_seal_def Let_def andThen_Inr_iff split: if_splits)
  obtain q where q: "f = d\<lparr>ss_persistence := q\<rparr>" using fresh_segment_segs[OF f] by blast
  have finv: "segs_inv f" "\<not> active_synced f" using inv q d by (simp_all add: active_synced_def active_def)
  have "\<not> active_synced g" using stamp_active_sealed[OF finv(1) g] finv(2) by simp
  moreover have "ss_segs g \<noteq> []" using stamp_active_result[OF finv(1) g] by (auto simp: with_active_def)
  ultimately show ?thesis using e by (auto simp: sealed_synced_def active_synced_def active_def)
qed



section \<open>After a crash\<close>


text \<open>Steps preserve soundness along a run.\<close>

lemma store_run_sound: "store_run env s t \<Longrightarrow> sound (se_codec env) s \<Longrightarrow> sound (se_codec env) t"
  by (induction rule: store_run.induct) (auto intro: store_step_sound)

text \<open>
  C3 (the invariant of every run). From a sound store, through any interleaving of calls that
  returned, of batches and sweeps that failed and were undone, and of deletions, creations, drops
  and declarations that failed half way, every live row lies inside the matrix and belongs to one
  document and one name, and live and dead rows never outnumber the matrix. While no call of the last
  kind has failed, the log is moreover the encoding of operations whose replay is the index being
  served. Not covered are a failed compaction, a failed reinforcement, and a batch or sweep whose
  rollback failed too; a roll-over needs the name of the next segment to be unused.
\<close>
theorem store_run_invariant:
  assumes "sound (se_codec env) s" and "store_history env s t"
  shows "live_rows (st_collections t) \<subseteq># mset [0..<segs_row_count (st_data t)] \<and>
    size (live_rows (st_collections t)) + st_dead_rows t \<le> segs_row_count (st_data t) \<and>
    (store_run env s t \<longrightarrow> (\<exists>ops. ap_bytes (st_log t) = frames (se_codec env) ops \<and>
      im_core (replay_ops ops (segs_row_count (st_data t))) = (st_collections t, st_dead_rows t)))"
proof -
  have "store_ok t" using store_history_ok[OF assms(2)] assms(1) by (simp add: sound_def)
  moreover have "\<exists>ops. log_describes (se_codec env) t ops" if "store_run env s t"
    using store_run_sound[OF that assms(1)] by (simp add: sound_def)
  ultimately show ?thesis
    by (auto simp: store_ok_def core_ok_def core_def log_describes_def im_core_replay_ops simp del: mset_upt)
qed



section \<open>A store on disk\<close>

definition demo_disk :: store where
  "demo_disk = demo_store\<lparr>st_in_memory := False, st_log := quiet_file [],
     st_data := \<lparr>ss_distance = DotProduct, ss_persistence = Some \<lparr>fs_objects = [], fs_script = [], fs_handles = []\<rparr>,
       ss_segs = [\<lparr>sg_name = BASE_SEGMENT, sg_data = \<lparr>ds_dimension = 2, ds_distance = DotProduct, ds_backing = Ram [],
         ds_appender = Some (quiet_file (encode_header 2 DotProduct))\<rparr>\<rparr>], ss_base = [0], ss_next_id = 1, ss_version = 1\<rparr>\<rparr>"

lemma demo_disk_sound: "sound cd demo_disk" "next_name_free (st_data demo_disk)" "barrier_now demo_disk"
proof -
  have "segs_inv (st_data demo_disk)"
    by (simp add: demo_disk_def segs_inv_def bases_of_def active_def seg_live_def seg_inv_def seg_wf_def seg_is_mmap_def
        segs_dimension_def seg_image_def floats_to_bytes_def)
  moreover have "store_rows demo_disk = 0" "core demo_disk = ([], 0)"
    by (simp_all add: demo_disk_def demo_store_eq core_def segs_row_count_def active_def seg_row_count_def)
  moreover have "core_ok 0 ([], 0)" by (simp add: core_ok_def live_rows_def)
  moreover have "log_describes cd demo_disk []" using calculation(2,3) by (simp add: log_describes_def demo_disk_def frames_def)
  ultimately show "sound cd demo_disk" by (auto simp: sound_def store_ok_def)
  show "next_name_free (st_data demo_disk)" "barrier_now demo_disk"
    by (simp_all add: demo_disk_def demo_store_eq next_name_free_def barrier_now_def demo_config_def)
qed

lemmas run_disk_defs = run_store_defs demo_disk_def demo_defs file_append_def file_len_def file_sync_def set_bytes_def
  checked_call_def syscall_def collection_new_def or_new_def put_doc_def fts_is_active_def fx_is_active_def
  fts_default_def findex_default_def with_active_def

lemma demo_disk_upsert:
  "\<exists>t f. upsert (demo_senv demo_up_ops) ''a'' [demo_rec] demo_disk = (Inr 1, t) \<and> st_log t = FileAp f \<and>
     st_collections t = [(''a'', \<lparr>co_meta = [], co_docs = [(''x'', \<lparr>de_rows = [(''default'', 0)], de_attrs = []\<rparr>)], co_vector_names = []\<rparr>)]"
  by (simp add: run_disk_defs Let_def)



theorem store_run_invariant_witness:
  "\<exists>t ops. store_run (demo_senv demo_up_ops) demo_disk t \<and> st_collections t \<noteq> [] \<and>
     ap_bytes (st_log t) = frames (se_codec (demo_senv demo_up_ops)) ops \<and>
     im_core (replay_ops ops (segs_row_count (st_data t))) = (st_collections t, st_dead_rows t)"
proof -
  obtain t f where t: "upsert (demo_senv demo_up_ops) ''a'' [demo_rec] demo_disk = (Inr 1, t)" "st_collections t \<noteq> []"
    using demo_disk_upsert by fastforce
  have r: "store_run (demo_senv demo_up_ops) demo_disk t"
    by (rule run_step[OF run_refl upserted[OF demo_disk_sound(2) demo_rec_wf t(1)]])
  show ?thesis using store_run_invariant[OF demo_disk_sound(1) run_history[OF r]] r t(2) by blast
qed



end
