(* ===== verification/TopK.thy ===== *)
theory TopK
  imports Filters "HOL-Library.Multiset" "HOL-Library.Product_Lexorder"
begin

text \<open>
  Ranking (\<^verbatim>\<open>src/src/search/mod.rs\<close>, \<^verbatim>\<open>src/src/store/scoring.rs\<close>): the bounded top-k collector over a
  binary heap, the scan kernels that feed it, and their parallel versions. The heap is the bag
  of its entries with a greatest one on top; which of two entries of equal rank comes first is
  not specified by the standard library, and nothing below depends on it. Scores are computed
  by an argument, since floating-point arithmetic is the target's.
\<close>

section \<open>The order of scores\<close>

definition f32_is_nan :: "f32 \<Rightarrow> bool" where
  "f32_is_nan x \<longleftrightarrow> unat x mod 2 ^ 31 > 255 * 2 ^ 23"

definition f32_key :: "f32 \<Rightarrow> int" where
  "f32_key x = (if unat x < 2 ^ 31 then int (unat x) else - int (unat x - 2 ^ 31))"

definition f32_less :: "f32 \<Rightarrow> f32 \<Rightarrow> bool" where
  "f32_less x y \<longleftrightarrow> \<not> f32_is_nan x \<and> \<not> f32_is_nan y \<and> f32_key x < f32_key y"

definition ordf32_cmp :: "f32 \<Rightarrow> f32 \<Rightarrow> ordering" where
  "ordf32_cmp a b =
     (if f32_is_nan a then if f32_is_nan b then Equal else Less
      else if f32_is_nan b then Greater
      else cmp (f32_key a) (f32_key b))"

definition then_cmp :: "ordering \<Rightarrow> ordering \<Rightarrow> ordering" where
  "then_cmp a b = (case a of Equal \<Rightarrow> b | _ \<Rightarrow> a)"

text \<open>An entry of the heap: the worse-ranked entry is the greater one.\<close>

type_synonym 'a entry = "f32 \<times> 'a"

definition entry_cmp :: "'a::linorder entry \<Rightarrow> 'a entry \<Rightarrow> ordering" where
  "entry_cmp a b = then_cmp (ordf32_cmp (fst b) (fst a)) (cmp (snd a) (snd b))"

section \<open>The collector\<close>

record 'a topk =
  tk_k :: nat
  tk_heap :: "'a entry list"

definition topk_new :: "nat \<Rightarrow> 'a topk" where
  "topk_new k = \<lparr>tk_k = k, tk_heap = []\<rparr>"

fun heap_peek :: "'a::linorder entry list \<Rightarrow> 'a entry option" where
  "heap_peek [] = None"
| "heap_peek (x # xs) = (case heap_peek xs of
     None \<Rightarrow> Some x
   | Some y \<Rightarrow> if entry_cmp y x = Greater then Some y else Some x)"

definition heap_push :: "'a entry \<Rightarrow> 'a entry list \<Rightarrow> 'a entry list" where
  "heap_push x xs = x # xs"

definition heap_pop :: "'a::linorder entry list \<Rightarrow> 'a entry list" where
  "heap_pop xs = (case heap_peek xs of None \<Rightarrow> xs | Some w \<Rightarrow> remove1 w xs)"

definition outranks :: "'a::linorder entry \<Rightarrow> 'a entry \<Rightarrow> bool" where
  "outranks x worst = (case ordf32_cmp (fst x) (fst worst) of
     Greater \<Rightarrow> True | Equal \<Rightarrow> snd x < snd worst | Less \<Rightarrow> False)"

definition topk_offer :: "f32 \<Rightarrow> 'a::linorder \<Rightarrow> 'a topk \<Rightarrow> 'a topk" where
  "topk_offer score item t =
     (if tk_k t = 0 then t
      else if length (tk_heap t) < tk_k t then t\<lparr>tk_heap := heap_push (score, item) (tk_heap t)\<rparr>
      else (case heap_peek (tk_heap t) of
          None \<Rightarrow> t
        | Some worst \<Rightarrow>
            if outranks (score, item) worst
            then t\<lparr>tk_heap := heap_push (score, item) (heap_pop (tk_heap t))\<rparr> else t))"

text \<open>The key of an entry: score descending with NaN last, then item ascending.\<close>

definition score_key :: "f32 \<Rightarrow> int" where
  "score_key x = (if f32_is_nan x then - (2 ^ 31) else f32_key x)"

definition rank :: "'a entry \<Rightarrow> int \<times> 'a" where
  "rank e = (- score_key (fst e), snd e)"

definition into_sorted_desc :: "'a::linorder topk \<Rightarrow> 'a entry list" where
  "into_sorted_desc t = sort_key rank (tk_heap t)"

definition offer_all :: "'a::linorder entry list \<Rightarrow> 'a topk \<Rightarrow> 'a topk" where
  "offer_all es t = fold (\<lambda>(score, item). topk_offer score item) es t"

section \<open>Comparisons are comparisons of ranks\<close>

lemma f32_key_bound: "\<not> f32_is_nan x \<Longrightarrow> - (2 ^ 31) < f32_key x"
proof -
  have u: "0 \<le> uint x" "uint x < 4294967296" by (simp, rule order.strict_trans2[OF unsigned_less], simp)
  moreover have "unat x < 4294967296" by (rule order.strict_trans2[OF unsigned_less]) simp
  moreover have "- 2147483648 < uint x" using u(1) by linarith
  ultimately show ?thesis by (simp add: f32_key_def)
qed

lemma ordf32_cmp_key: "ordf32_cmp a b = cmp (score_key a) (score_key b)"
  using f32_key_bound[of a] f32_key_bound[of b]
  by (auto simp: ordf32_cmp_def score_key_def cmp_def)

lemma entry_cmp_rank: "entry_cmp a b = cmp (rank a) (rank b)"
  by (auto simp: entry_cmp_def then_cmp_def ordf32_cmp_key rank_def cmp_def less_prod_def prod_eq_iff)

lemma outranks_rank: "outranks x w \<longleftrightarrow> rank x < rank w"
  by (auto simp: outranks_def ordf32_cmp_key rank_def cmp_def less_prod_def)

lemma cmp_eq_simps [simp]: "cmp x y = Greater \<longleftrightarrow> y < x" "cmp x y = Less \<longleftrightarrow> x < y" "cmp x y = Equal \<longleftrightarrow> x = y"
  by (auto simp: cmp_def)

section \<open>Best of a bag\<close>

definition best :: "nat \<Rightarrow> 'r::linorder list \<Rightarrow> 'r list" where
  "best k rs = take k (sort rs)"

lemma take_insort: "take k (insort x (take k xs)) = take k (insort x xs)"
proof (induction xs arbitrary: k)
  case (Cons y ys)
  show ?case by (cases k) (use Cons in \<open>auto simp: take_Cons' split: nat.splits\<close>)
qed simp

lemma sort_snoc: "sort (xs @ [x]) = insort x (sort xs)"
  by (metis mset_append mset.simps add.commute properties_for_sort sorted_sort sort_key_simps(2) mset_sort add_mset_add_single)

lemma best_snoc: "best k (xs @ [x]) = take k (insort x (best k xs))"
  by (simp add: best_def sort_snoc take_insort)

lemma best_mset: "mset xs = mset ys \<Longrightarrow> best k xs = best k ys"
  by (metis best_def properties_for_sort mset_sort sorted_sort)

lemma sorted_best: "sorted (best k xs)"
  by (simp add: best_def sorted_wrt_take)

lemma best_best: "best k (best k xs) = best k xs"
  using sorted_best[of k xs] by (simp add: best_def sort_key_id_if_sorted)

lemma best_append: "best k (best k xs @ ys) = best k (xs @ ys)"
proof (induction ys rule: rev_induct)
  case Nil
  show ?case by (simp add: best_best)
next
  case (snoc y ys)
  then show ?case using best_snoc[of k "best k xs @ ys" y] best_snoc[of k "xs @ ys" y] by simp
qed

text \<open>The best of the parts' best is the best of the whole.\<close>

lemma best_concat: "best k (concat (map (best k) xss)) = best k (concat xss)"
proof (induction xss)
  case (Cons xs xss)
  have "best k (best k xs @ concat (map (best k) xss)) = best k (concat (map (best k) xss) @ xs)"
    using best_append[of k xs "concat (map (best k) xss)"] by (metis best_mset mset_append add.commute)
  also have "\<dots> = best k (best k (concat (map (best k) xss)) @ xs)" by (simp add: best_append)
  also have "\<dots> = best k (concat xss @ xs)" unfolding Cons best_append ..
  also have "\<dots> = best k (xs @ concat xss)" by (rule best_mset) simp
  finally show ?case by simp
qed (simp add: best_def)

lemma insort_before_last: "r < w \<Longrightarrow> insort r (T @ [w]) = insort r T @ [w]"
  by (induction T) auto

lemma take_insort_full:
  assumes "sorted S" "S \<noteq> []"
  shows "take (length S) (insort r S) = (if r < last S then insort r (butlast S) else S)"
proof (cases "r < last S")
  case True
  have S: "S = butlast S @ [last S]" using assms(2) by simp
  have "insort r S = insort r (butlast S) @ [last S]" using insort_before_last[OF True, of "butlast S"] S by simp
  then show ?thesis using True assms(2) by (simp add: length_insort Suc_diff_le)
next
  case False
  have "y \<le> last S" if "y \<in> set S" for y
    using assms(1) that by (induction S) (auto simp: last_in_set)
  then have "\<forall>y \<in> set S. y \<le> r" using False by (meson leI order_trans)
  then show ?thesis using False sorted_insort_is_snoc[OF assms(1)] by simp
qed

section \<open>The collector keeps the best\<close>

lemma heap_peek_greatest:
  "xs \<noteq> [] \<Longrightarrow> \<exists>w. heap_peek xs = Some w \<and> w \<in> set xs \<and> (\<forall>x \<in> set xs. rank x \<le> rank w)"
proof (induction xs)
  case (Cons x xs)
  show ?case
  proof (cases "xs = []")
    case False
    then obtain w where "heap_peek xs = Some w" "w \<in> set xs" "\<forall>x \<in> set xs. rank x \<le> rank w" using Cons.IH by blast
    moreover have "heap_peek (x # xs) = (if rank x < rank w then Some w else Some x)"
      using calculation(1) by (simp add: entry_cmp_rank)
    ultimately show ?thesis by (cases "rank x < rank w") (simp_all, (metis less_imp_le not_less order_trans)+)
  qed simp
qed simp

lemma sort_ranks_last:
  assumes "w \<in> set xs" "\<forall>x \<in> set xs. rank x \<le> rank w"
  shows "sort (map rank xs) = sort (map rank (remove1 w xs)) @ [rank w]"
proof (rule properties_for_sort)
  have "mset xs = add_mset w (mset (remove1 w xs))" using assms(1) by simp
  from arg_cong[OF this, of "image_mset rank"]
  show "mset (sort (map rank (remove1 w xs)) @ [rank w]) = mset (map rank xs)" by simp
  show "sorted (sort (map rank (remove1 w xs)) @ [rank w])"
    using assms(2) by (auto simp: sorted_append dest!: notin_set_remove1)
qed

text \<open>One offer: the ranks kept are the best of the ranks kept before and the new one.\<close>

lemma topk_offer_ranks:
  assumes "length (tk_heap t) \<le> tk_k t"
  shows "sort (map rank (tk_heap (topk_offer score item t))) = take (tk_k t) (insort (rank (score, item)) (sort (map rank (tk_heap t))))"
    and "length (tk_heap (topk_offer score item t)) \<le> tk_k t" and "tk_k (topk_offer score item t) = tk_k t"
proof -
  let ?x = "(score, item)" and ?h = "tk_heap t" and ?S = "sort (map rank (tk_heap t))"
  have "sort (map rank (tk_heap (topk_offer score item t))) = take (tk_k t) (insort (rank ?x) ?S) \<and>
    length (tk_heap (topk_offer score item t)) \<le> tk_k t"
  proof (cases "tk_k t = 0 \<or> length ?h < tk_k t")
    case True
    then show ?thesis using assms by (auto simp: topk_offer_def heap_push_def)
  next
    case False
    then have full: "length ?h = tk_k t" "?h \<noteq> []" using assms by auto
    from heap_peek_greatest[OF full(2)] obtain w where w: "heap_peek ?h = Some w" "w \<in> set ?h"
      "\<forall>x \<in> set ?h. rank x \<le> rank w" by blast
    have S: "?S = sort (map rank (remove1 w ?h)) @ [rank w]" by (rule sort_ranks_last[OF w(2,3)])
    have "take (length ?S) (insort (rank ?x) ?S) = (if rank ?x < last ?S then insort (rank ?x) (butlast ?S) else ?S)"
      by (rule take_insort_full) (simp, metis full(2) length_0_conv length_map length_sort)
    then have take: "take (tk_k t) (insort (rank ?x) ?S) = (if rank ?x < rank w then insort (rank ?x) (sort (map rank (remove1 w ?h))) else ?S)"
    proof -
      have "length ?S = tk_k t" using full(1) by simp
      then show ?thesis using \<open>take (length ?S) _ = _\<close> unfolding S by simp
    qed
    have "length (remove1 w ?h) = length ?h - 1" using w(2) by (simp add: length_remove1)
    then show ?thesis unfolding take
      using False full w(1) by (auto simp: topk_offer_def heap_push_def heap_pop_def outranks_rank)
  qed
  then show "sort (map rank (tk_heap (topk_offer score item t))) = take (tk_k t) (insort (rank ?x) ?S)"
    "length (tk_heap (topk_offer score item t)) \<le> tk_k t" by simp_all
  show "tk_k (topk_offer score item t) = tk_k t" by (simp add: topk_offer_def split: option.split)
qed

lemma offer_all_ranks:
  "sort (map rank (tk_heap (offer_all es (topk_new k)))) = best k (map rank es) \<and>
   length (tk_heap (offer_all es (topk_new k))) \<le> k \<and> tk_k (offer_all es (topk_new k)) = k"
proof (induction es rule: rev_induct)
  case (snoc e es)
  obtain score item where e: "e = (score, item)" by fastforce
  let ?t = "offer_all es (topk_new k)"
  have "offer_all (es @ [e]) (topk_new k) = topk_offer score item ?t" using e by (simp add: offer_all_def)
  then show ?case using snoc topk_offer_ranks[of ?t score item] e by (simp add: best_snoc)
qed (simp add: offer_all_def topk_new_def best_def)

lemma map_rank_sorted: "map rank (sort_key rank xs) = sort (map rank xs)"
  by (rule properties_for_sort[symmetric]) simp_all

lemma into_sorted_ranks: "map rank (into_sorted_desc (offer_all es (topk_new k))) = best k (map rank es)"
  using offer_all_ranks[of es k] by (simp add: into_sorted_desc_def map_rank_sorted)

lemma topk_offer_subset: "set (tk_heap (topk_offer score item t)) \<subseteq> insert (score, item) (set (tk_heap t))"
  by (auto simp: topk_offer_def heap_push_def heap_pop_def split: option.splits dest: set_remove1_subset[THEN subsetD])

lemma offer_all_subset: "set (into_sorted_desc (offer_all es (topk_new k))) \<subseteq> set es"
proof -
  have "set (tk_heap (offer_all es t)) \<subseteq> set es \<union> set (tk_heap t)" for t
  proof (induction es arbitrary: t)
    case (Cons e es)
    then show ?case using topk_offer_subset[of "fst e" "snd e" t] Cons[of "topk_offer (fst e) (snd e) t"]
      by (auto simp: offer_all_def split_def)
  qed (simp add: offer_all_def)
  from this[of "topk_new k"] show ?thesis by (simp add: into_sorted_desc_def topk_new_def)
qed

lemma topk_sort_cut:
  assumes "distinct (map snd es)"
  shows "into_sorted_desc (offer_all es (topk_new k)) = take k (sort_key rank es)"
proof -
  let ?r = "into_sorted_desc (offer_all es (topk_new k))"
  have inj: "inj_on rank (set es)" using assms by (auto simp: inj_on_def rank_def distinct_map)
  have "map rank ?r = map rank (take k (sort_key rank es))"
    by (simp add: into_sorted_ranks best_def take_map[symmetric] map_rank_sorted)
  moreover have "set ?r \<union> set (take k (sort_key rank es)) \<subseteq> set es"
    using offer_all_subset[of es k] set_take_subset[of k "sort_key rank es"] by simp
  ultimately show ?thesis using inj_on_map_eq_map[OF inj_on_subset[OF inj]] by blast
qed

text \<open>
  C29 (the top-k collector). However many entries are offered and in whatever order, the
  collector returns the first k of them sorted by score descending, NaN last, ties broken by
  the item, exactly as sorting them all and cutting would; the order of the offers does not
  matter.
\<close>
theorem topk_is_sort_and_cut:
  assumes "distinct (map snd es)"
  shows "into_sorted_desc (offer_all es (topk_new k)) = take k (sort_key rank es)"
  by (rule topk_sort_cut[OF assms])

theorem topk_is_sort_and_cut_witness:
  "into_sorted_desc (offer_all [(0x40000000, 2), (0x7FC00000, 3), (0x3F800000, 1), (0x40000000, 0)] (topk_new 3)) =
     [(0x40000000, 0::nat), (0x40000000, 2), (0x3F800000, 1)]"
proof -
  have "distinct (map snd [(0x40000000::f32, 2), (0x7FC00000, 3), (0x3F800000, 1), (0x40000000, 0::nat)])" by simp
  moreover have "score_key 0x40000000 = 0x40000000" "score_key 0x3F800000 = 0x3F800000" "score_key 0x7FC00000 = - 0x80000000"
    by (simp_all add: score_key_def f32_is_nan_def f32_key_def)
  ultimately show ?thesis using topk_is_sort_and_cut[of "[(0x40000000, 2::nat), (0x7FC00000, 3), (0x3F800000, 1), (0x40000000, 0)]" 3]
    by (simp add: rank_def less_eq_prod_def)
qed

end
