(* ===== verification/Scoring.thy ===== *)
theory Scoring
  imports TopK
begin

text \<open>
  The scan kernels (\<^verbatim>\<open>src/src/store/scoring.rs\<close>): a chunk of the scan scored into a collector, with a
  cooperative cancellation check between blocks, the split across worker threads, and the
  pooling of several named rows of one record. Reading a row, the score of a row against the
  query and the moments at which cancellation is seen are arguments.
\<close>

section \<open>Scoring a chunk\<close>

datatype search_error =
    RowOutOfRange nat
  | QueryCancelled
  | ChunkSizeZero
  | QueryDimension nat nat
  | NoVectors
  | TooManyNames nat
  | EmptyName
  | RepeatedName string
  | BadNameWeight string
  | BadQuery string
  | InvertedWindow int int

definition CHECK_EVERY :: nat where "CHECK_EVERY = 1024"

text \<open>\<^verbatim>\<open>slice::chunks\<close>; a chunk size of zero panics and is ruled out by the callers.\<close>

function chunks :: "nat \<Rightarrow> 'a list \<Rightarrow> 'a list list" where
  "chunks n xs = (if n = 0 \<or> xs = [] then [] else take n xs # chunks n (drop n xs))"
  by pat_completeness auto
termination by (relation "measure (\<lambda>(n, xs). length xs)") auto

declare chunks.simps [simp del]

type_synonym item = "string \<times> string"
type_synonym scan_row = "nat \<times> item"

definition below_min :: "f32 option \<Rightarrow> f32 \<Rightarrow> bool" where
  "below_min min_score score = (case min_score of Some m \<Rightarrow> f32_less score m | None \<Rightarrow> False)"

text \<open>
  The scans share one loop: blocks of \<^verbatim>\<open>CHECK_EVERY\<close> rows, a look at the cancellation flag before
  each block, and a step per row that may offer an entry.
\<close>

fun step_rows :: "(scan_row \<Rightarrow> 'a topk \<Rightarrow> search_error + 'a topk) \<Rightarrow> scan_row list \<Rightarrow> 'a topk \<Rightarrow> search_error + 'a topk" where
  "step_rows step [] t = Inr t"
| "step_rows step (x # xs) t = (case step x t of Inl e \<Rightarrow> Inl e | Inr t' \<Rightarrow> step_rows step xs t')"

fun block_loop :: "(nat \<Rightarrow> bool) \<Rightarrow> nat \<Rightarrow> (scan_row \<Rightarrow> 'a topk \<Rightarrow> search_error + 'a topk) \<Rightarrow>
    scan_row list list \<Rightarrow> 'a topk \<Rightarrow> search_error + 'a topk" where
  "block_loop stop i step [] t = Inr t"
| "block_loop stop i step (b # bs) t =
     (if stop i then Inl QueryCancelled
      else (case step_rows step b t of
          Inl e \<Rightarrow> Inl e
        | Inr t' \<Rightarrow> block_loop stop (Suc i) step bs t'))"

definition score_row :: "(nat \<Rightarrow> f32 list option) \<Rightarrow> (item \<Rightarrow> f32 list \<Rightarrow> f32) \<Rightarrow> f32 option \<Rightarrow> scan_row \<Rightarrow> item topk \<Rightarrow> search_error + item topk" where
  "score_row row score min_score x t = (case x of (r, it) \<Rightarrow> (case row r of
     None \<Rightarrow> Inl (RowOutOfRange r)
   | Some v \<Rightarrow> Inr (if below_min min_score (score it v) then t else topk_offer (score it v) it t)))"

definition score_chunk :: "(nat \<Rightarrow> bool) \<Rightarrow> (nat \<Rightarrow> f32 list option) \<Rightarrow> (f32 list \<Rightarrow> f32) \<Rightarrow> nat \<Rightarrow> f32 option \<Rightarrow>
    scan_row list \<Rightarrow> search_error + item topk" where
  "score_chunk stop row score top_k min_score chunk =
     block_loop stop 0 (score_row row (\<lambda>_. score) min_score) (chunks CHECK_EVERY chunk) (topk_new top_k)"

section \<open>Across workers\<close>

definition div_ceil :: "nat \<Rightarrow> nat \<Rightarrow> nat" where
  "div_ceil n d = n div d + (if n mod d > 0 then 1 else 0)"

text \<open>Joining the workers in order: the first failure is the result.\<close>

fun join_all :: "(search_error + 'a) list \<Rightarrow> search_error + 'a list" where
  "join_all [] = Inr []"
| "join_all (Inl e # rs) = Inl e"
| "join_all (Inr x # rs) = (case join_all rs of Inl e \<Rightarrow> Inl e | Inr xs \<Rightarrow> Inr (x # xs))"

definition merge_locals :: "nat \<Rightarrow> 'a::linorder entry list list \<Rightarrow> 'a topk" where
  "merge_locals cap locals = fold offer_all locals (topk_new cap)"

definition local_best :: "search_error + 'a::linorder topk \<Rightarrow> search_error + 'a entry list" where
  "local_best r = (case r of Inl e \<Rightarrow> Inl e | Inr t \<Rightarrow> Inr (into_sorted_desc t))"

definition parallel_topk :: "nat \<Rightarrow> nat \<Rightarrow> (scan_row list \<Rightarrow> search_error + 'a::linorder topk) \<Rightarrow> scan_row list \<Rightarrow> search_error + 'a topk" where
  "parallel_topk workers cap score_one scan =
     (let chunk_len = div_ceil (length scan) workers in
      if chunk_len = 0 then Inl ChunkSizeZero
      else (case join_all (map (\<lambda>chunk. local_best (score_one (sort_key fst chunk))) (chunks chunk_len scan)) of
          Inl e \<Rightarrow> Inl e
        | Inr locals \<Rightarrow> Inr (merge_locals cap locals)))"

section \<open>Several named rows of one record\<close>

datatype pool = PoolMax | PoolSum

type_synonym named_row = "nat \<times> item \<times> nat"

record reduce_ops =
  ro_mul :: "f32 \<Rightarrow> f32 \<Rightarrow> f32"
  ro_add :: "f32 \<Rightarrow> f32 \<Rightarrow> f32"

definition f32_max :: "f32 \<Rightarrow> f32 \<Rightarrow> f32" where
  "f32_max a b = (if f32_is_nan a then b else if f32_is_nan b then a else if f32_key a < f32_key b then b else a)"

definition pool_score :: "reduce_ops \<Rightarrow> pool \<Rightarrow> f32 option \<Rightarrow> f32 \<Rightarrow> f32" where
  "pool_score ops p acc weighted = (case acc of
     None \<Rightarrow> weighted
   | Some a \<Rightarrow> (case p of PoolMax \<Rightarrow> f32_max a weighted | PoolSum \<Rightarrow> ro_add ops a weighted))"

text \<open>A name without a weight counts as 1.0.\<close>

definition name_weight :: "f32 list \<Rightarrow> nat \<Rightarrow> f32" where
  "name_weight weights i = (if i < length weights then weights ! i else 0x3F800000)"

fun pool_group :: "reduce_ops \<Rightarrow> pool \<Rightarrow> f32 list \<Rightarrow> (nat \<Rightarrow> f32 list option) \<Rightarrow> (f32 list \<Rightarrow> f32) \<Rightarrow> named_row list \<Rightarrow>
    f32 option \<Rightarrow> search_error + f32 option" where
  "pool_group ops p weights row score [] acc = Inr acc"
| "pool_group ops p weights row score ((r, it, i) # rest) acc = (case row r of
     None \<Rightarrow> Inl (RowOutOfRange r)
   | Some v \<Rightarrow> pool_group ops p weights row score rest
       (Some (pool_score ops p acc (ro_mul ops (score v) (name_weight weights i)))))"

definition reaches_min :: "f32 option \<Rightarrow> f32 \<Rightarrow> bool" where
  "reaches_min min_score score = (case min_score of
     None \<Rightarrow> True
   | Some m \<Rightarrow> \<not> f32_is_nan score \<and> \<not> f32_is_nan m \<and> f32_key m \<le> f32_key score)"

function score_named_loop :: "(nat \<Rightarrow> bool) \<Rightarrow> nat \<Rightarrow> (named_row list \<Rightarrow> search_error + f32 option) \<Rightarrow> f32 option \<Rightarrow>
    named_row list \<Rightarrow> item topk \<Rightarrow> search_error + item topk" where
  "score_named_loop stop seen pooled min_score [] t = Inr t"
| "score_named_loop stop seen pooled min_score (x # xs) t =
     (let same = (\<lambda>y. fst (snd y) = fst (snd x)) in
      if Suc seen mod CHECK_EVERY = 0 \<and> stop (Suc seen) then Inl QueryCancelled
      else (case pooled (x # takeWhile same xs) of
          Inl e \<Rightarrow> Inl e
        | Inr acc \<Rightarrow> score_named_loop stop (Suc seen) pooled min_score (dropWhile same xs)
            (case acc of
               Some score \<Rightarrow> if reaches_min min_score score then topk_offer score (fst (snd x)) t else t
             | None \<Rightarrow> t)))"
  by pat_completeness auto
termination
  by (relation "measure (\<lambda>(stop, seen, pooled, mn, xs, t). length xs)")
    (auto intro: le_less_trans[OF length_dropWhile_le])

definition score_chunk_named :: "(nat \<Rightarrow> bool) \<Rightarrow> reduce_ops \<Rightarrow> pool \<Rightarrow> f32 list \<Rightarrow> (nat \<Rightarrow> f32 list option) \<Rightarrow> (f32 list \<Rightarrow> f32) \<Rightarrow>
    nat \<Rightarrow> f32 option \<Rightarrow> named_row list \<Rightarrow> search_error + item topk" where
  "score_chunk_named stop ops p weights row score top_k min_score chunk =
     score_named_loop stop 0 (\<lambda>g. pool_group ops p weights row score g None) min_score chunk (topk_new top_k)"

text \<open>The shard boundaries, each pushed past the run of the record before it.\<close>

function skip_run :: "named_row list \<Rightarrow> nat \<Rightarrow> nat" where
  "skip_run scan pos =
     (if pos < length scan \<and> fst (snd (scan ! pos)) = fst (snd (scan ! (pos - 1))) then skip_run scan (Suc pos) else pos)"
  by pat_completeness auto
termination by (relation "measure (\<lambda>(scan, pos). length scan - pos)") auto

declare skip_run.simps [simp del]

lemma skip_run_ge: "pos \<le> skip_run scan pos"
  by (induction scan pos rule: skip_run.induct) (subst skip_run.simps, auto)

function cuts :: "named_row list \<Rightarrow> nat \<Rightarrow> nat \<Rightarrow> nat list" where
  "cuts scan target pos =
     (if pos < length scan \<and> target > 0 then skip_run scan pos # cuts scan target (skip_run scan pos + target) else [])"
  by pat_completeness auto
termination
proof (relation "measure (\<lambda>(scan, target, pos). length scan - pos)", goal_cases)
  case (2 scan target pos)
  then show ?case using skip_run_ge[of pos scan] by auto
qed simp

declare cuts.simps [simp del]

fun split_at_cuts :: "'a list \<Rightarrow> nat \<Rightarrow> nat list \<Rightarrow> 'a list list" where
  "split_at_cuts rest prev [] = [rest]"
| "split_at_cuts rest prev (c # cs) = take (c - prev) rest # split_at_cuts (drop (c - prev) rest) c cs"

definition record_aligned_split :: "nat \<Rightarrow> named_row list \<Rightarrow> named_row list list" where
  "record_aligned_split workers scan =
     (let n = length scan in
      if workers \<le> 1 \<or> n = 0 then [scan]
      else let target = div_ceil n workers in split_at_cuts scan 0 (cuts scan target (min target n)))"

definition parallel_topk_grouped :: "nat \<Rightarrow> nat \<Rightarrow> (named_row list \<Rightarrow> search_error + 'a::linorder topk) \<Rightarrow> named_row list \<Rightarrow> search_error + 'a topk" where
  "parallel_topk_grouped workers cap score_one scan =
     (case join_all (map (\<lambda>chunk. local_best (score_one chunk)) (record_aligned_split workers scan)) of
        Inl e \<Rightarrow> Inl e
      | Inr locals \<Rightarrow> Inr (merge_locals cap locals))"

section \<open>The chunks cover the scan\<close>

lemma concat_chunks: "0 < n \<Longrightarrow> concat (chunks n xs) = xs"
  by (induction n xs rule: chunks.induct) (subst chunks.simps, auto)

lemma div_ceil_pos: "0 < n \<Longrightarrow> 0 < d \<Longrightarrow> 0 < div_ceil n d"
  by (auto simp: div_ceil_def)

lemma join_all_Inr: "join_all (map Inr xs) = Inr xs"
  by (induction xs) simp_all

lemma fold_offer_all: "fold offer_all locals t = offer_all (concat locals) t"
  by (induction locals arbitrary: t) (simp_all add: offer_all_def)

lemma merge_locals_offers: "merge_locals cap locals = offer_all (concat locals) (topk_new cap)"
  by (simp add: merge_locals_def fold_offer_all)

text \<open>What a chunk offers when every row is there and nothing cancels it.\<close>

definition offer_opt :: "'a::linorder entry option \<Rightarrow> 'a topk \<Rightarrow> 'a topk" where
  "offer_opt e t = (case e of None \<Rightarrow> t | Some (score, it) \<Rightarrow> topk_offer score it t)"

lemma step_rows_offers:
  assumes "\<And>x t. x \<in> set xs \<Longrightarrow> step x t = Inr (offer_opt (entry x) t)"
  shows "step_rows step xs t = Inr (offer_all (List.map_filter entry xs) t)"
  using assms
  by (induction xs arbitrary: t) (auto simp: offer_all_def offer_opt_def map_filter_simps split: option.split)

lemma offer_all_append [simp]: "offer_all (es @ fs) t = offer_all fs (offer_all es t)"
  by (simp add: offer_all_def)

lemma map_filter_append: "List.map_filter f (xs @ ys) = List.map_filter f xs @ List.map_filter f ys"
  by (simp add: List.map_filter_def)

lemma map_filter_concat: "concat (map (List.map_filter f) xss) = List.map_filter f (concat xss)"
  by (induction xss) (simp_all add: map_filter_append map_filter_simps)

lemma mset_map_filter: "mset xs = mset ys \<Longrightarrow> mset (List.map_filter f xs) = mset (List.map_filter f ys)"
  by (simp add: List.map_filter_def)

lemma block_loop_offers:
  assumes "\<And>x t. x \<in> set (concat bs) \<Longrightarrow> step x t = Inr (offer_opt (entry x) t)"
  shows "block_loop (\<lambda>_. False) i step bs t = Inr (offer_all (List.map_filter entry (concat bs)) t)"
  using assms
proof (induction bs arbitrary: i t)
  case (Cons b bs)
  have "step_rows step b t = Inr (offer_all (List.map_filter entry b) t)" by (rule step_rows_offers) (simp add: Cons.prems)
  then show ?case using Cons by (simp add: map_filter_append)
qed (simp add: offer_all_def map_filter_simps)

lemma block_scan_offers:
  assumes "\<And>x t. x \<in> set scan \<Longrightarrow> step x t = Inr (offer_opt (entry x) t)"
  shows "block_loop (\<lambda>_. False) i step (chunks CHECK_EVERY scan) t = Inr (offer_all (List.map_filter entry scan) t)"
  using block_loop_offers[of "chunks CHECK_EVERY scan" step entry] assms by (simp add: concat_chunks CHECK_EVERY_def)

definition scored_entry :: "(nat \<Rightarrow> f32 list option) \<Rightarrow> (item \<Rightarrow> f32 list \<Rightarrow> f32) \<Rightarrow> f32 option \<Rightarrow> scan_row \<Rightarrow> item entry option" where
  "scored_entry row score mn x = (case x of (r, it) \<Rightarrow>
     let sc = score it (the (row r)) in if below_min mn sc then None else Some (sc, it))"

lemma score_row_offers: "row (fst x) \<noteq> None \<Longrightarrow> score_row row score mn x t = Inr (offer_opt (scored_entry row score mn x) t)"
  by (auto simp: score_row_def scored_entry_def offer_opt_def Let_def split: prod.split)

text \<open>An entry carries the item of its row, so distinct rows offer distinct items.\<close>

lemma map_filter_distinct:
  assumes "\<And>x e. entry x = Some e \<Longrightarrow> snd e = g x" and "distinct (map g scan)"
  shows "distinct (map snd (List.map_filter entry scan))"
  using assms(2)
proof (induction scan)
  case (Cons x scan)
  have "snd ` set (List.map_filter entry scan) \<subseteq> g ` set scan"
    using assms(1) by (fastforce simp: List.map_filter_def)
  then show ?case using Cons assms(1)[of x] by (cases "entry x") (auto simp: map_filter_simps)
qed (simp add: map_filter_simps)

lemma scored_item: "scored_entry row score mn x = Some e \<Longrightarrow> snd e = snd x"
  by (auto simp: scored_entry_def Let_def split: prod.splits if_splits)

text \<open>Two runs whose ranks agree over distinct items are the same run.\<close>

lemma topk_offers_eq:
  assumes "distinct (map snd es)" "set (into_sorted_desc t) \<subseteq> set es" "map rank (into_sorted_desc t) = best k (map rank es)"
  shows "into_sorted_desc t = into_sorted_desc (offer_all es (topk_new k))"
proof -
  have inj: "inj_on rank (set es)" using assms(1) by (auto simp: inj_on_def rank_def distinct_map)
  have "set (into_sorted_desc t) \<union> set (into_sorted_desc (offer_all es (topk_new k))) \<subseteq> set es"
    using assms(2) offer_all_subset[of es k] by simp
  then show ?thesis using inj_on_map_eq_map[OF inj_on_subset[OF inj]] assms(3) into_sorted_ranks[of es k] by metis
qed

lemma merged_locals:
  assumes "distinct (map snd (concat ess))"
  shows "into_sorted_desc (merge_locals k (map (\<lambda>es. into_sorted_desc (offer_all es (topk_new k))) ess)) =
    into_sorted_desc (offer_all (concat ess) (topk_new k))"
proof (rule topk_offers_eq[OF assms])
  let ?ls = "map (\<lambda>es. into_sorted_desc (offer_all es (topk_new k))) ess"
  have sub: "set (concat ?ls) \<subseteq> set (concat ess)" using offer_all_subset by fastforce
  show "set (into_sorted_desc (merge_locals k ?ls)) \<subseteq> set (concat ess)"
    using offer_all_subset[of "concat ?ls" k] sub unfolding merge_locals_offers by blast
  have "map rank (concat ?ls) = concat (map (best k) (map (map rank) ess))"
    by (simp add: map_concat comp_def into_sorted_ranks)
  then have "map rank (into_sorted_desc (merge_locals k ?ls)) = best k (concat (map (best k) (map (map rank) ess)))"
    unfolding merge_locals_offers by (simp add: into_sorted_ranks)
  also have "\<dots> = best k (map rank (concat ess))" by (simp only: best_concat map_concat)
  finally show "map rank (into_sorted_desc (merge_locals k ?ls)) = best k (map rank (concat ess))" .
qed

lemma offers_perm:
  assumes "distinct (map snd es)" "mset es = mset fs"
  shows "into_sorted_desc (offer_all es (topk_new k)) = into_sorted_desc (offer_all fs (topk_new k))"
proof (rule sym, rule topk_offers_eq[OF assms(1)])
  show "set (into_sorted_desc (offer_all fs (topk_new k))) \<subseteq> set es"
    using offer_all_subset[of fs k] mset_eq_setD[OF assms(2)] by simp
  show "map rank (into_sorted_desc (offer_all fs (topk_new k))) = best k (map rank es)"
    unfolding into_sorted_ranks using assms(2) by (intro best_mset) simp
qed

section \<open>The parallel scan\<close>

lemma mset_concat_map_sort: "mset (concat (map (sort_key f) xss)) = mset (concat xss)"
  by (induction xss) simp_all

text \<open>
  A scan kernel offers, for a chunk of usable rows, an entry per row or none. Splitting its scan
  across workers and merging their collectors is then the same as one pass.
\<close>

locale scan_kernel =
  fixes score_one :: "scan_row list \<Rightarrow> search_error + 'a::linorder topk" and entry :: "scan_row \<Rightarrow> 'a entry option"
    and usable :: "scan_row \<Rightarrow> bool" and cap :: nat
  assumes offers: "\<forall>x \<in> set scan. usable x \<Longrightarrow> score_one scan = Inr (offer_all (List.map_filter entry scan) (topk_new cap))"
begin

lemma parallel_exact:
  assumes "\<forall>x \<in> set scan. usable x" and "scan \<noteq> []" and "0 < workers" and "distinct (map snd (List.map_filter entry scan))"
  shows "\<exists>t. parallel_topk workers cap score_one scan = Inr t \<and>
    into_sorted_desc t = into_sorted_desc (offer_all (List.map_filter entry scan) (topk_new cap))"
proof -
  let ?n = "div_ceil (length scan) workers" and ?S = "List.map_filter entry"
  let ?cs = "map (sort_key fst) (chunks ?n scan)"
  let ?ls = "map (\<lambda>es. into_sorted_desc (offer_all es (topk_new cap))) (map ?S ?cs)"
  have n: "0 < ?n" using assms(2,3) by (simp add: div_ceil_pos)
  have "local_best (score_one (sort_key fst c)) = Inr (into_sorted_desc (offer_all (?S (sort_key fst c)) (topk_new cap)))"
    if "c \<in> set (chunks ?n scan)" for c
  proof -
    have "set c \<subseteq> set scan" using that concat_chunks[OF n, of scan] by (metis Sup_upper set_concat image_eqI)
    then have "\<forall>x \<in> set (sort_key fst c). usable x" using assms(1) by auto
    then show ?thesis using offers by (simp add: local_best_def)
  qed
  then have "map (\<lambda>c. local_best (score_one (sort_key fst c))) (chunks ?n scan) = map Inr ?ls" by simp
  then have par: "parallel_topk workers cap score_one scan = Inr (merge_locals cap ?ls)"
    using n by (simp only: parallel_topk_def join_all_Inr Let_def) simp
  have "mset (concat ?cs) = mset scan"
    using mset_concat_map_sort[of fst "chunks ?n scan"] concat_chunks[OF n, of scan] by simp
  then have m: "mset (?S scan) = mset (concat (map ?S ?cs))"
    unfolding map_filter_concat by (intro mset_map_filter) simp
  have "distinct (map snd (concat (map ?S ?cs)))"
    using assms(4) mset_eq_imp_distinct_iff[of "map snd (?S scan)" "map snd (concat (map ?S ?cs))"] m by simp
  from merged_locals[OF this] show ?thesis using par offers_perm[OF assms(4) m] by simp
qed

end

interpretation exact_kernel: scan_kernel "score_chunk (\<lambda>_. False) row score k mn" "scored_entry row (\<lambda>_. score) mn"
    "\<lambda>x. row (fst x) \<noteq> None" k for row score k mn
  by unfold_locales (auto simp: score_chunk_def intro!: block_scan_offers score_row_offers)

text \<open>
  C30 (the parallel scan is exact). Splitting a scan across any number of workers, sorting and
  scoring each part for itself and merging the parts' top-k gives the very hits, in the very
  order, that scoring the whole scan in one thread gives.
\<close>
theorem parallel_scan_exact:
  assumes "distinct (map snd scan)" and "\<forall>x \<in> set scan. row (fst x) \<noteq> None" and "scan \<noteq> []" and "0 < workers"
  shows "\<exists>t u. parallel_topk workers k (score_chunk (\<lambda>_. False) row score k mn) scan = Inr t \<and>
    score_chunk (\<lambda>_. False) row score k mn scan = Inr u \<and> into_sorted_desc t = into_sorted_desc u"
  using exact_kernel.parallel_exact[OF assms(2,3,4) map_filter_distinct[OF scored_item assms(1)]]
    exact_kernel.offers[OF assms(2)] by auto

section \<open>Pooling records\<close>

function runs :: "named_row list \<Rightarrow> named_row list list" where
  "runs [] = []"
| "runs (x # xs) = (x # takeWhile (\<lambda>y. fst (snd y) = fst (snd x)) xs) # runs (dropWhile (\<lambda>y. fst (snd y) = fst (snd x)) xs)"
  by pat_completeness auto
termination by (relation "measure length") (auto intro: le_less_trans[OF length_dropWhile_le])

lemma runs_append:
  "xs = [] \<or> ys = [] \<or> fst (snd (last xs)) \<noteq> fst (snd (hd ys)) \<Longrightarrow> runs (xs @ ys) = runs xs @ runs ys"
proof (induction xs rule: runs.induct)
  case (2 x xs)
  let ?same = "\<lambda>y. fst (snd y) = fst (snd x)"
  show ?case
  proof (cases "ys = []")
    case False
    then obtain y ys' where ys: "ys = y # ys'" by (cases ys) auto
    have edge: "fst (snd (last (x # xs))) \<noteq> fst (snd y)" using "2.prems" ys by simp
    show ?thesis
    proof (cases "dropWhile ?same xs = []")
      case True
      then have all: "\<forall>z \<in> set xs. ?same z" by simp
      then have "?same (last (x # xs))" by simp
      then have "\<not> ?same y" using edge by simp
      then show ?thesis using all ys by (simp add: takeWhile_append2 dropWhile_append2 takeWhile_eq_all_conv[THEN iffD2] dropWhile_eq_Nil_conv[THEN iffD2])
    next
      case False
      then have "\<exists>z \<in> set xs. \<not> ?same z" by simp
      then have tw: "takeWhile ?same (xs @ ys) = takeWhile ?same xs" "dropWhile ?same (xs @ ys) = dropWhile ?same xs @ ys"
        by (auto simp: takeWhile_append1 dropWhile_append1)
      have "last (dropWhile ?same xs) = last (x # xs)"
      proof -
        have "last xs = last (takeWhile ?same xs @ dropWhile ?same xs)" by simp
        also have "\<dots> = last (dropWhile ?same xs)" by (rule last_appendR[OF False])
        finally show ?thesis using False by auto
      qed
      then have "runs (dropWhile ?same xs @ ys) = runs (dropWhile ?same xs) @ runs ys" using "2.IH" edge ys by simp
      then show ?thesis using tw by simp
    qed
  qed simp
qed simp

definition pooled_entry :: "(named_row list \<Rightarrow> search_error + f32 option) \<Rightarrow> f32 option \<Rightarrow> named_row list \<Rightarrow> item entry list" where
  "pooled_entry pooled mn g = (case pooled g of
     Inr (Some score) \<Rightarrow> if reaches_min mn score then [(score, fst (snd (hd g)))] else []
   | _ \<Rightarrow> [])"

lemma score_named_loop_runs:
  "\<forall>i. \<not> stop i \<Longrightarrow> \<forall>g \<in> set (runs scan). \<exists>acc. pooled g = Inr acc \<Longrightarrow>
    score_named_loop stop seen pooled mn scan t = Inr (offer_all (concat (map (pooled_entry pooled mn) (runs scan))) t)"
proof (induction scan arbitrary: seen t rule: runs.induct)
  case (2 x xs)
  let ?same = "\<lambda>y. fst (snd y) = fst (snd x)"
  obtain acc where acc: "pooled (x # takeWhile ?same xs) = Inr acc" using "2.prems"(2) by auto
  have "\<forall>g \<in> set (runs (dropWhile ?same xs)). \<exists>acc. pooled g = Inr acc" using "2.prems"(2) by simp
  from "2.IH"[OF "2.prems"(1) this] show ?case using acc "2.prems"(1)
    by (simp add: pooled_entry_def offer_all_def split: option.split)
qed (simp add: offer_all_def)

text \<open>No record straddles two shards.\<close>

lemma skip_run_edge:
  "pos \<le> length scan \<Longrightarrow> skip_run scan pos \<le> length scan \<and>
    (skip_run scan pos < length scan \<longrightarrow> fst (snd (scan ! skip_run scan pos)) \<noteq> fst (snd (scan ! (skip_run scan pos - 1))))"
proof (induction scan pos rule: skip_run.induct)
  case (1 scan pos)
  show ?case by (subst skip_run.simps, subst skip_run.simps, subst skip_run.simps, subst skip_run.simps) (use 1 in auto)
qed

lemma split_runs:
  "0 < target \<Longrightarrow> prev < pos \<Longrightarrow> prev \<le> length scan \<Longrightarrow>
    concat (split_at_cuts (drop prev scan) prev (cuts scan target pos)) = drop prev scan \<and>
    concat (map runs (split_at_cuts (drop prev scan) prev (cuts scan target pos))) = runs (drop prev scan)"
proof (induction scan target pos arbitrary: prev rule: cuts.induct)
  case (1 scan target pos)
  show ?case
  proof (cases "pos < length scan")
    case False
    then have "cuts scan target pos = []" by (subst cuts.simps) simp
    then show ?thesis by simp
  next
    case True
    let ?p = "skip_run scan pos"
    have c: "cuts scan target pos = ?p # cuts scan target (?p + target)" using True "1.prems"(1) by (subst cuts.simps) simp
    have p: "?p \<le> length scan" "prev < ?p" using skip_run_edge[of pos scan] skip_run_ge[of pos scan] True "1.prems"(2) by auto
    have rest: "drop (?p - prev) (drop prev scan) = drop ?p scan" using p(2) by simp
    have ih: "concat (split_at_cuts (drop ?p scan) ?p (cuts scan target (?p + target))) = drop ?p scan \<and>
        concat (map runs (split_at_cuts (drop ?p scan) ?p (cuts scan target (?p + target)))) = runs (drop ?p scan)"
      using "1.IH"[of ?p] True "1.prems"(1) p(1) by simp
    let ?a = "take (?p - prev) (drop prev scan)"
    have split: "drop prev scan = ?a @ drop ?p scan" using rest by (metis append_take_drop_id)
    have "fst (snd (last ?a)) \<noteq> fst (snd (hd (drop ?p scan)))" if "?p < length scan"
    proof -
      have "?a \<noteq> []" using p that by simp
      then have "last ?a = scan ! (?p - 1)" using p by (simp add: last_conv_nth)
      moreover have "hd (drop ?p scan) = scan ! ?p" using that by (simp add: hd_drop_conv_nth)
      ultimately show ?thesis using skip_run_edge[of pos scan] True that by simp
    qed
    then have "runs (drop prev scan) = runs ?a @ runs (drop ?p scan)"
      using runs_append[of ?a "drop ?p scan"] split p(1) by (metis drop_all le_neq_implies_less less_or_eq_imp_le)
    then show ?thesis unfolding c using ih rest split by simp
  qed
qed

lemma record_aligned_split_runs:
  "concat (record_aligned_split workers scan) = scan \<and>
   concat (map runs (record_aligned_split workers scan)) = runs scan"
proof (cases "workers \<le> 1 \<or> scan = []")
  case False
  let ?t = "div_ceil (length scan) workers"
  have "0 < ?t" using False by (simp add: div_ceil_pos)
  then show ?thesis using split_runs[of ?t 0 "min ?t (length scan)" scan] False
    by (simp add: record_aligned_split_def Let_def)
qed (auto simp: record_aligned_split_def Let_def)

lemma runs_members: "g \<in> set (runs scan) \<Longrightarrow> g \<noteq> [] \<and> set g \<subseteq> set scan"
proof (induction scan rule: runs.induct)
  case (2 x xs)
  let ?same = "\<lambda>y. fst (snd y) = fst (snd x)"
  have "set (takeWhile ?same xs) \<subseteq> set xs" "set (dropWhile ?same xs) \<subseteq> set xs"
    by (auto dest: set_takeWhileD set_dropWhileD)
  then show ?case using "2.IH" "2.prems" by (cases "g \<in> set (runs (dropWhile ?same xs))") auto
qed simp

lemma pool_group_total: "\<forall>(r, it) \<in> set g. row r \<noteq> None \<Longrightarrow> \<exists>acc'. pool_group ops p weights row score g acc = Inr acc'"
  by (induction g arbitrary: acc) auto

lemma pooled_items: "set (map snd (pooled_entry pooled mn g)) \<subseteq> {fst (snd (hd g))}" "distinct (map snd (pooled_entry pooled mn g))"
  by (auto simp: pooled_entry_def split: sum.splits option.splits)

lemma concat_map_runs: "concat (map (\<lambda>xs. concat (map f (runs xs))) xss) = concat (map f (concat (map runs xss)))"
  by (induction xss) simp_all

lemma pooled_distinct:
  "distinct (map (\<lambda>g. fst (snd (hd g))) gs) \<Longrightarrow> distinct (map snd (concat (map (pooled_entry pooled mn) gs)))"
proof (induction gs)
  case (Cons g gs)
  have "snd ` set (concat (map (pooled_entry pooled mn) gs)) \<subseteq> (\<lambda>g. fst (snd (hd g))) ` set gs"
    using pooled_items(1)[of pooled mn] by fastforce
  then have sub: "set (map snd (concat (map (pooled_entry pooled mn) gs))) \<subseteq> (\<lambda>g. fst (snd (hd g))) ` set gs" by (simp only: set_map)
  have "fst (snd (hd g)) \<notin> (\<lambda>g. fst (snd (hd g))) ` set gs" using Cons.prems by simp
  then have "{fst (snd (hd g))} \<inter> (\<lambda>g. fst (snd (hd g))) ` set gs = {}" by (simp only: Int_insert_left if_False Int_empty_left)
  then have "set (map snd (pooled_entry pooled mn g)) \<inter> set (map snd (concat (map (pooled_entry pooled mn) gs))) = {}"
    using Int_mono[OF pooled_items(1)[of pooled mn g] sub] by (simp only: subset_empty)
  then show ?case using Cons pooled_items(2)[of pooled mn g] by simp
qed simp

lemma pooling_exact:
  assumes "distinct (map (\<lambda>g. fst (snd (hd g))) (runs scan))" and "\<forall>(r, it) \<in> set scan. row r \<noteq> None"
    and "\<forall>i. \<not> stop i"
  shows "\<exists>t u. parallel_topk_grouped workers k (score_chunk_named stop ops p weights row score k mn) scan = Inr t \<and>
    score_chunk_named stop ops p weights row score k mn scan = Inr u \<and> into_sorted_desc t = into_sorted_desc u"
proof -
  let ?pooled = "\<lambda>g. pool_group ops p weights row score g None"
  let ?E = "\<lambda>xs. concat (map (pooled_entry ?pooled mn) (runs xs))" and ?sh = "record_aligned_split workers scan"
  have one: "score_chunk_named stop ops p weights row score k mn c = Inr (offer_all (?E c) (topk_new k))"
    if "set c \<subseteq> set scan" for c
    unfolding score_chunk_named_def
  proof (rule score_named_loop_runs[OF assms(3)], intro ballI)
    fix g assume "g \<in> set (runs c)"
    then have "set g \<subseteq> set scan" using runs_members that by blast
    then show "\<exists>acc. ?pooled g = Inr acc" using assms(2) by (intro pool_group_total) auto
  qed
  note split = record_aligned_split_runs[of workers scan]
  let ?ls = "map (\<lambda>es. into_sorted_desc (offer_all es (topk_new k))) (map ?E ?sh)"
  have sub: "set c \<subseteq> set scan" if "c \<in> set ?sh" for c
  proof -
    have "set c \<subseteq> set (concat ?sh)" using that by auto
    then show ?thesis using split by simp
  qed
  have "map (\<lambda>c. local_best (score_chunk_named stop ops p weights row score k mn c)) ?sh = map Inr ?ls"
    using one[OF sub] by (simp add: local_best_def)
  then have "join_all (map (\<lambda>c. local_best (score_chunk_named stop ops p weights row score k mn c)) ?sh) = Inr ?ls"
    by (simp only: join_all_Inr)
  then have par: "parallel_topk_grouped workers k (score_chunk_named stop ops p weights row score k mn) scan = Inr (merge_locals k ?ls)"
    by (simp add: parallel_topk_grouped_def)
  have "concat (map ?E ?sh) = concat (map (pooled_entry ?pooled mn) (concat (map runs ?sh)))"
    by (rule concat_map_runs)
  then have E: "concat (map ?E ?sh) = ?E scan" using split by simp
  have "distinct (map snd (?E scan))" by (rule pooled_distinct[OF assms(1)])
  then have "into_sorted_desc (merge_locals k ?ls) = into_sorted_desc (offer_all (?E scan) (topk_new k))"
    using merged_locals[of "map ?E ?sh" k] unfolding E by simp
  then show ?thesis using par one[of scan] by blast
qed

text \<open>
  C31 (pooling stays exact in parallel). When the rows of each record are adjacent in the scan,
  splitting it across workers at record boundaries, pooling and ranking each part for itself and
  merging gives the hits one thread gives: no record is split, none is counted twice.
\<close>
theorem parallel_pooling_exact:
  assumes "distinct (map (\<lambda>g. fst (snd (hd g))) (runs scan))" and "\<forall>(r, it) \<in> set scan. row r \<noteq> None"
    and "\<forall>i. \<not> stop i"
  shows "\<exists>t u. parallel_topk_grouped workers k (score_chunk_named stop ops p weights row score k mn) scan = Inr t \<and>
    score_chunk_named stop ops p weights row score k mn scan = Inr u \<and> into_sorted_desc t = into_sorted_desc u"
  by (rule pooling_exact[OF assms])

section \<open>Instances\<close>

definition demo_scan :: "scan_row list" where
  "demo_scan = [(2, (''a'', ''x'')), (0, (''a'', ''y'')), (1, (''b'', ''z''))]"

definition demo_row :: "nat \<Rightarrow> f32 list option" where
  "demo_row r = (if r < 3 then Some [of_nat r] else None)"

theorem parallel_scan_exact_witness:
  "\<exists>t u. parallel_topk 2 2 (score_chunk (\<lambda>_. False) demo_row hd 2 None) demo_scan = Inr t \<and>
     score_chunk (\<lambda>_. False) demo_row hd 2 None demo_scan = Inr u \<and> into_sorted_desc t = into_sorted_desc u"
  by (rule parallel_scan_exact) (simp_all add: demo_scan_def demo_row_def)

theorem parallel_pooling_exact_witness:
  "\<exists>t u. parallel_topk_grouped 2 2 (score_chunk_named (\<lambda>_. False) \<lparr>ro_mul = (\<lambda>a b. a), ro_add = (\<lambda>a b. a)\<rparr> PoolMax [] demo_row hd 2 None)
       [(0, (''a'', ''x''), 0), (1, (''a'', ''x''), 1), (2, (''b'', ''y''), 0)] = Inr t \<and>
     score_chunk_named (\<lambda>_. False) \<lparr>ro_mul = (\<lambda>a b. a), ro_add = (\<lambda>a b. a)\<rparr> PoolMax [] demo_row hd 2 None
       [(0, (''a'', ''x''), 0), (1, (''a'', ''x''), 1), (2, (''b'', ''y''), 0)] = Inr u \<and> into_sorted_desc t = into_sorted_desc u"
  by (rule parallel_pooling_exact) (simp_all add: demo_row_def)

end
