(* ===== verification/Kernels.thy ===== *)
theory Kernels
  imports Store Scoring
begin

unbundle bit_operations_syntax

text \<open>
  The scan kernels (\<^verbatim>\<open>src/src/search/mod.rs\<close>): the eight-lane dot product and squared distance in
  \<^verbatim>\<open>f32\<close> and over int8 codes, symmetric int8 quantization, sign-bit packing and the Hamming
  distance. Integers keep their width and wrap, as in a release build; \<^verbatim>\<open>f32\<close> arithmetic is an
  argument, while its comparisons, negation, clamping and conversion to an integer are computed
  on the bit patterns. The theorems show that the lane-wise integer kernels are the plain sums,
  that no quantized vector of a usable dimension overflows them, and that the Hamming distance
  of two packed vectors counts the components whose signs differ.
\<close>

section \<open>Floating point\<close>

record float_ops = f32_ops +
  f_sub :: "f32 \<Rightarrow> f32 \<Rightarrow> f32"
  f_powf :: "f32 \<Rightarrow> f32 \<Rightarrow> f32"
  f_round :: "f32 \<Rightarrow> f32"
  f_of_int :: "int \<Rightarrow> f32"
  f_of_f64 :: "f64 \<Rightarrow> f32"
  d_of_int :: "int \<Rightarrow> f64"
  d_of_f32 :: "f32 \<Rightarrow> f64"
  d_add :: "f64 \<Rightarrow> f64 \<Rightarrow> f64"
  d_div :: "f64 \<Rightarrow> f64 \<Rightarrow> f64"

definition f32_neg :: "f32 \<Rightarrow> f32" where
  "f32_neg x = x XOR 0x80000000"

definition f32_abs :: "f32 \<Rightarrow> f32" where
  "f32_abs x = x AND 0x7FFFFFFF"

definition f32_le :: "f32 \<Rightarrow> f32 \<Rightarrow> bool" where
  "f32_le x y \<longleftrightarrow> \<not> f32_is_nan x \<and> \<not> f32_is_nan y \<and> f32_key x \<le> f32_key y"

text \<open>\<^verbatim>\<open>clamp\<close> lets a NaN through.\<close>

definition f32_clamp :: "f32 \<Rightarrow> f32 \<Rightarrow> f32 \<Rightarrow> f32" where
  "f32_clamp lo hi x = (if f32_less x lo then lo else if f32_less hi x then hi else x)"

text \<open>
  The magnitude of a finite \<^verbatim>\<open>f32\<close> cut to an integer: the significand shifted by the exponent.
\<close>

definition f32_trunc_mag :: "nat \<Rightarrow> nat" where
  "f32_trunc_mag m =
     (let e = m div 2 ^ 23; s = m mod 2 ^ 23 in
      if e = 0 then 0
      else if e < 150 then (2 ^ 23 + s) div 2 ^ (150 - e)
      else (2 ^ 23 + s) * 2 ^ (e - 150))"

text \<open>\<^verbatim>\<open>as i8\<close>: cut towards zero, saturate, NaN becomes zero.\<close>

definition f32_to_i8 :: "f32 \<Rightarrow> 8 word" where
  "f32_to_i8 x =
     (if f32_is_nan x then 0
      else let m = int (f32_trunc_mag (unat x mod 2 ^ 31)); v = (if unat x < 2 ^ 31 then m else - m) in
        word_of_int (max (- 128) (min 127 v)))"

section \<open>Eight lanes\<close>

definition DOT_LANES :: nat where "DOT_LANES = 8"

definition as_chunks :: "nat \<Rightarrow> 'a list \<Rightarrow> 'a list list \<times> 'a list" where
  "as_chunks n xs = (map (\<lambda>i. take n (drop (i * n) xs)) [0..<length xs div n], drop (length xs div n * n) xs)"

definition lane_step :: "('b \<Rightarrow> 'b \<Rightarrow> 'b) \<Rightarrow> ('a \<Rightarrow> 'a \<Rightarrow> 'b) \<Rightarrow> 'b list \<Rightarrow> 'a list \<times> 'a list \<Rightarrow> 'b list" where
  "lane_step add f acc c = foldl (\<lambda>acc lane. acc[lane := add (acc ! lane) (f (fst c ! lane) (snd c ! lane))]) acc [0..<DOT_LANES]"

definition halve_step :: "('b \<Rightarrow> 'b \<Rightarrow> 'b) \<Rightarrow> nat \<Rightarrow> 'b list \<Rightarrow> 'b list" where
  "halve_step add half acc = foldl (\<lambda>acc lane. acc[lane := add (acc ! lane) (acc ! (lane + half))]) acc [0..<half]"

fun fold_lanes :: "('b \<Rightarrow> 'b \<Rightarrow> 'b) \<Rightarrow> nat \<Rightarrow> 'b list \<Rightarrow> 'b list" where
  "fold_lanes add half acc = (if half = 0 then acc else fold_lanes add (half div 2) (halve_step add half acc))"

declare fold_lanes.simps [simp del]

definition lane_accs :: "('b \<Rightarrow> 'b \<Rightarrow> 'b) \<Rightarrow> 'b \<Rightarrow> ('a \<Rightarrow> 'a \<Rightarrow> 'b) \<Rightarrow> 'a list \<Rightarrow> 'a list \<Rightarrow> 'b list" where
  "lane_accs add z f a b =
     foldl (lane_step add f) (replicate DOT_LANES z) (zip (fst (as_chunks DOT_LANES a)) (fst (as_chunks DOT_LANES b)))"

definition lane_tail :: "('b \<Rightarrow> 'b \<Rightarrow> 'b) \<Rightarrow> ('a \<Rightarrow> 'a \<Rightarrow> 'b) \<Rightarrow> 'a list \<Rightarrow> 'a list \<Rightarrow> 'b \<Rightarrow> 'b" where
  "lane_tail add f a b s0 =
     foldl (\<lambda>s (x, y). add s (f x y)) s0 (zip (snd (as_chunks DOT_LANES a)) (snd (as_chunks DOT_LANES b)))"

definition lane_kernel :: "('b \<Rightarrow> 'b \<Rightarrow> 'b) \<Rightarrow> 'b \<Rightarrow> ('a \<Rightarrow> 'a \<Rightarrow> 'b) \<Rightarrow> 'a list \<Rightarrow> 'a list \<Rightarrow> 'b" where
  "lane_kernel add z f a b = lane_tail add f a b (fold_lanes add (DOT_LANES div 2) (lane_accs add z f a b) ! 0)"

definition dot :: "float_ops \<Rightarrow> f32 list \<Rightarrow> f32 list \<Rightarrow> f32" where
  "dot ops a b = lane_kernel (f_add ops) 0 (f_mul ops) a b"

definition euclidean_neg_sq :: "float_ops \<Rightarrow> f32 list \<Rightarrow> f32 list \<Rightarrow> f32" where
  "euclidean_neg_sq ops a b =
     f32_neg (lane_kernel (f_add ops) 0 (\<lambda>x y. let d = f_sub ops x y in f_mul ops d d) a b)"

section \<open>int8 quantization\<close>

record quant_params =
  qp_scale :: f32

definition from_vectors :: "float_ops \<Rightarrow> f32 list \<Rightarrow> quant_params" where
  "from_vectors ops vs =
     (let max_abs = foldl (\<lambda>m v. f32_max m (f32_abs v)) 0 vs in
      \<lparr>qp_scale = (if f32_less 0 max_abs then f_div ops max_abs 0x42FE0000 else 0)\<rparr>)"

text \<open>The output slice has the length of \<^verbatim>\<open>out\<close>; components past the shorter slice keep what \<^verbatim>\<open>out\<close> held.\<close>

definition quantize :: "float_ops \<Rightarrow> quant_params \<Rightarrow> f32 list \<Rightarrow> 8 word list \<Rightarrow> 8 word list" where
  "quantize ops p v out =
     (if f32_le (qp_scale p) 0 then map (\<lambda>_. 0) out
      else let inv = f_div ops 0x3F800000 (qp_scale p) in
        map (\<lambda>x. f32_to_i8 (f32_clamp 0xC2FE0000 0x42FE0000 (f_round ops (f_mul ops x inv)))) (take (length out) v) @
        drop (length v) out)"

definition quantize_all :: "float_ops \<Rightarrow> quant_params \<Rightarrow> f32 list \<Rightarrow> 8 word list" where
  "quantize_all ops p vs = quantize ops p vs (replicate (length vs) 0)"

definition i8_to_i32 :: "8 word \<Rightarrow> 32 word" where
  "i8_to_i32 x = signed x"

definition dot_i8 :: "8 word list \<Rightarrow> 8 word list \<Rightarrow> 32 word" where
  "dot_i8 a b = lane_kernel (+) 0 (\<lambda>x y. i8_to_i32 x * i8_to_i32 y) a b"

definition euclidean_neg_sq_i8 :: "8 word list \<Rightarrow> 8 word list \<Rightarrow> 32 word" where
  "euclidean_neg_sq_i8 a b = - lane_kernel (+) 0 (\<lambda>x y. let d = i8_to_i32 x - i8_to_i32 y in d * d) a b"

section \<open>Sign bits\<close>

definition f32_sign_bit :: "f32 \<Rightarrow> bool" where
  "f32_sign_bit x \<longleftrightarrow> f32_le 0 x"

definition pack_signs_into :: "f32 list \<Rightarrow> u64 list \<Rightarrow> u64 list" where
  "pack_signs_into v out =
     foldl (\<lambda>w (i, x). if f32_sign_bit x then w[i div 64 := w ! (i div 64) OR push_bit (i mod 64) 1] else w)
       (map (\<lambda>_. 0) out) (enumerate 0 v)"

definition pack_signs :: "f32 list \<Rightarrow> u64 list" where
  "pack_signs v = pack_signs_into v (replicate (div_ceil (length v) 64) 0)"

definition count_ones :: "u64 \<Rightarrow> u32" where
  "count_ones w = of_nat (length (filter (bit w) [0..<64]))"

definition hamming :: "u64 list \<Rightarrow> u64 list \<Rightarrow> u32" where
  "hamming a b =
     lane_tail (+) (\<lambda>x y. count_ones (x XOR y)) a b (sum_list (lane_accs (+) 0 (\<lambda>x y. count_ones (x XOR y)) a b))"

section \<open>The lanes add up\<close>

lemma as_chunks_short [simp]: "length xs < n \<Longrightarrow> as_chunks n xs = ([], xs)"
  by (simp add: as_chunks_def)

lemma as_chunks_step:
  assumes "0 < n" and "n \<le> length xs"
  shows "as_chunks n xs = (take n xs # fst (as_chunks n (drop n xs)), snd (as_chunks n (drop n xs)))"
proof -
  obtain k where k: "length xs div n = Suc k" using assms by (metis div_greater_zero_iff gr0_conv_Suc)
  then have k': "(length xs - n) div n = k" using assms by (simp add: le_div_geq)
  have "[0..<Suc k] = 0 # map Suc [0..<k]" by (simp add: map_Suc_upt upt_conv_Cons)
  then show ?thesis using k k' by (simp add: as_chunks_def ac_simps comp_def)
qed

lemma eight: "length xs = 8 \<Longrightarrow> \<exists>a b c d e f g h. xs = [a, b, c, d, e, f, g, h]"
  by (auto simp: numeral_eq_Suc length_Suc_conv)

lemma lanes_upt: "[0..<DOT_LANES] = [0, 1, 2, 3, 4, 5, 6, 7]"
  by (simp add: DOT_LANES_def upt_rec)

lemma lane_step_sum:
  fixes f :: "'a \<Rightarrow> 'a \<Rightarrow> 'b::comm_monoid_add"
  assumes "length acc = DOT_LANES" and "length x = DOT_LANES" and "length y = DOT_LANES"
  shows "length (lane_step (+) f acc (x, y)) = DOT_LANES"
    and "sum_list (lane_step (+) f acc (x, y)) = sum_list acc + sum_list (map2 f x y)"
proof -
  obtain a0 a1 a2 a3 a4 a5 a6 a7 where a: "acc = [a0, a1, a2, a3, a4, a5, a6, a7]"
    using assms(1) eight[of acc] by (auto simp: DOT_LANES_def)
  obtain x0 x1 x2 x3 x4 x5 x6 x7 where x: "x = [x0, x1, x2, x3, x4, x5, x6, x7]"
    using assms(2) eight[of x] by (auto simp: DOT_LANES_def)
  obtain y0 y1 y2 y3 y4 y5 y6 y7 where y: "y = [y0, y1, y2, y3, y4, y5, y6, y7]"
    using assms(3) eight[of y] by (auto simp: DOT_LANES_def)
  have step: "lane_step (+) f acc (x, y) = map2 (+) acc (map2 f x y)"
    by (simp add: lane_step_def lanes_upt a x y)
  then show "length (lane_step (+) f acc (x, y)) = DOT_LANES" using assms by simp
  show "sum_list (lane_step (+) f acc (x, y)) = sum_list acc + sum_list (map2 f x y)"
    unfolding step by (simp add: a x y ac_simps)
qed

lemma lane_fold_sum:
  fixes f :: "'a \<Rightarrow> 'a \<Rightarrow> 'b::comm_monoid_add"
  assumes "list_all (\<lambda>(x, y). length x = DOT_LANES \<and> length y = DOT_LANES) cs" and "length acc = DOT_LANES"
  shows "length (foldl (lane_step (+) f) acc cs) = DOT_LANES \<and>
    sum_list (foldl (lane_step (+) f) acc cs) = sum_list acc + sum_list (map (\<lambda>(x, y). sum_list (map2 f x y)) cs)"
  using assms
proof (induction cs arbitrary: acc)
  case (Cons c cs)
  obtain x y where c: "c = (x, y)" by (cases c)
  note s = lane_step_sum[of acc x y f]
  from Cons.prems s Cons.IH[of "lane_step (+) f acc (x, y)"] show ?case
    by (simp add: c ac_simps)
qed simp

lemma chunks_sum:
  fixes f :: "'a \<Rightarrow> 'a \<Rightarrow> 'b::comm_monoid_add"
  assumes "length a = length b"
  shows "list_all (\<lambda>(x, y). length x = DOT_LANES \<and> length y = DOT_LANES)
      (zip (fst (as_chunks DOT_LANES a)) (fst (as_chunks DOT_LANES b))) \<and>
    sum_list (map (\<lambda>(x, y). sum_list (map2 f x y)) (zip (fst (as_chunks DOT_LANES a)) (fst (as_chunks DOT_LANES b)))) +
      sum_list (map2 f (snd (as_chunks DOT_LANES a)) (snd (as_chunks DOT_LANES b))) = sum_list (map2 f a b)"
  using assms
proof (induction a arbitrary: b rule: length_induct)
  case (1 a)
  show ?case
  proof (cases "length a < DOT_LANES")
    case True
    then show ?thesis using 1(2) by simp
  next
    case False
    have n: "0 < DOT_LANES" "DOT_LANES \<le> length a" "DOT_LANES \<le> length b" using False 1(2) by (simp_all add: DOT_LANES_def)
    note IH = 1(1)[rule_format, of "drop DOT_LANES a" "drop DOT_LANES b"]
    have "map2 f a b = map2 f (take DOT_LANES a) (take DOT_LANES b) @ map2 f (drop DOT_LANES a) (drop DOT_LANES b)"
      by (metis (no_types) append_take_drop_id take_zip drop_zip map_append)
    then show ?thesis using IH n 1(2) by (simp add: as_chunks_step add.assoc)
  qed
qed

lemma lane_tail_sum:
  fixes f :: "'a \<Rightarrow> 'a \<Rightarrow> 'b::comm_monoid_add"
  shows "lane_tail (+) f a b s0 = s0 + sum_list (map2 f (snd (as_chunks DOT_LANES a)) (snd (as_chunks DOT_LANES b)))"
proof -
  have "foldl (\<lambda>s (x, y). s + f x y) s0 ps = s0 + sum_list (map (\<lambda>(x, y). f x y) ps)" for ps s0
    by (induction ps arbitrary: s0) (auto simp: ac_simps)
  then show ?thesis by (simp add: lane_tail_def)
qed

lemma sum_list_zeros [simp]: "sum_list (replicate n (0::'b::comm_monoid_add)) = 0"
  by (induction n) simp_all

lemma lane_accs_sum:
  fixes f :: "'a \<Rightarrow> 'a \<Rightarrow> 'b::comm_monoid_add"
  assumes "length a = length b"
  shows "length (lane_accs (+) 0 f a b) = DOT_LANES"
    and "sum_list (lane_accs (+) 0 f a b) + sum_list (map2 f (snd (as_chunks DOT_LANES a)) (snd (as_chunks DOT_LANES b))) =
      sum_list (map2 f a b)"
  using chunks_sum[OF assms, of f] lane_fold_sum[of _ "replicate DOT_LANES 0" f]
  by (simp_all add: lane_accs_def)

lemma fold_lanes_sum:
  fixes acc :: "'b::comm_monoid_add list"
  assumes "length acc = DOT_LANES"
  shows "fold_lanes (+) (DOT_LANES div 2) acc ! 0 = sum_list acc"
proof -
  obtain a0 a1 a2 a3 a4 a5 a6 a7 where a: "acc = [a0, a1, a2, a3, a4, a5, a6, a7]"
    using assms eight[of acc] by (auto simp: DOT_LANES_def)
  have u: "[0..<4] = [0, 1, 2, 3::nat]" "[0..<2] = [0, 1::nat]" by (simp_all add: upt_rec)
  show ?thesis
    by (simp add: a DOT_LANES_def fold_lanes.simps[of _ 4] fold_lanes.simps[of _ 2] fold_lanes.simps[of _ 1]
        fold_lanes.simps[of _ "Suc 0"] fold_lanes.simps[of _ 0] halve_step_def u ac_simps)
qed

lemma lane_kernel_sum:
  fixes f :: "'a \<Rightarrow> 'a \<Rightarrow> 'b::comm_monoid_add"
  assumes "length a = length b"
  shows "lane_kernel (+) 0 f a b = sum_list (map2 f a b)"
  using lane_accs_sum[OF assms, of f] by (simp add: lane_kernel_def lane_tail_sum fold_lanes_sum)

section \<open>The int8 kernels do not overflow\<close>

lemma of_int_i8: "i8_to_i32 x = of_int (sint x)"
  by (simp add: i8_to_i32_def of_int_sint)

lemma abs_sum_list_le:
  fixes xs :: "int list"
  shows "\<forall>x \<in> set xs. \<bar>x\<bar> \<le> B \<Longrightarrow> \<bar>sum_list xs\<bar> \<le> int (length xs) * B"
  by (induction xs) (auto simp: algebra_simps)

lemma sint_of_int_small:
  assumes "\<bar>v\<bar> < 2 ^ 31"
  shows "sint (of_int v :: 32 word) = v"
  using assms by (simp add: signed_of_int signed_take_bit_int_eq_self)

lemma sum_list_of_int: "sum_list (map of_int xs) = (of_int (sum_list xs) :: 32 word)"
  by (induction xs) simp_all

text \<open>A sum of bounded terms, wrapped at 32 bits, is the sum.\<close>

lemma sint_sum_exact:
  assumes "\<forall>x \<in> set xs. \<bar>x\<bar> \<le> B" and "int (length xs) * B < 2 ^ 31"
  shows "sint (sum_list (map of_int xs) :: 32 word) = sum_list xs"
  using sint_of_int_small[of "sum_list xs"] abs_sum_list_le[OF assms(1)] assms(2) by (simp add: sum_list_of_int)

lemma dot_i8_sum:
  "length a = length b \<Longrightarrow> dot_i8 a b = sum_list (map of_int (map2 (\<lambda>x y. sint x * sint y) a b))"
  by (simp add: dot_i8_def lane_kernel_sum comp_def split_def of_int_i8)

lemma euclidean_i8_sum:
  "length a = length b \<Longrightarrow>
     euclidean_neg_sq_i8 a b = - sum_list (map of_int (map2 (\<lambda>x y. (sint x - sint y) * (sint x - sint y)) a b))"
  by (simp add: euclidean_neg_sq_i8_def lane_kernel_sum comp_def split_def of_int_i8 Let_def)

section \<open>Quantized components\<close>

lemma f32_trunc_mag_127: "m \<le> 0x42FE0000 \<Longrightarrow> f32_trunc_mag m \<le> 127"
proof -
  assume m: "m \<le> 0x42FE0000"
  let ?e = "m div 2 ^ 23" and ?s = "m mod 2 ^ 23"
  have e: "?e \<le> 133" using m by simp
  have s: "?s < 2 ^ 23" by simp
  show "f32_trunc_mag m \<le> 127"
  proof (cases "?e = 133")
    case True
    then have "?s \<le> 0x7E0000" using m mult_div_mod_eq[of "2 ^ 23" m] by simp
    then show ?thesis using True by (simp add: f32_trunc_mag_def)
  next
    case False
    then have "(18::nat) \<le> 150 - ?e" using e by simp
    then have "(2 ^ 23 + ?s) div 2 ^ (150 - ?e) \<le> (2 ^ 23 + ?s) div 2 ^ 18" by (intro div_le_mono2 power_increasing) simp_all
    also have "\<dots> \<le> 127" using s by simp
    finally show ?thesis using e by (simp add: f32_trunc_mag_def Let_def)
  qed
qed

lemma clamped_range:
  fixes x :: f32
  defines "c \<equiv> f32_clamp 0xC2FE0000 0x42FE0000 x"
  shows "f32_is_nan c \<or> unat c mod 2 ^ 31 \<le> 0x42FE0000"
proof -
  have "\<not> f32_is_nan c \<Longrightarrow> \<bar>f32_key c\<bar> \<le> 0x42FE0000"
    by (auto simp: c_def f32_clamp_def f32_less_def f32_key_def f32_is_nan_def split: if_splits)
  moreover have "int (unat c mod 2 ^ 31) = \<bar>f32_key c\<bar>"
  proof (cases "unat c < 2 ^ 31")
    case False
    then have "unat c mod 2 ^ 31 = unat c - 2 ^ 31"
      using unsigned_less[of c, where ?'a = nat] by (simp add: mod_if not_less)
    then show ?thesis using False by (simp only: f32_key_def if_False abs_minus_cancel abs_of_nat)
  qed (simp add: f32_key_def)
  ultimately show ?thesis by linarith
qed

lemma quantized_component: "\<bar>sint (f32_to_i8 (f32_clamp 0xC2FE0000 0x42FE0000 x))\<bar> \<le> 127"
proof (cases "f32_is_nan (f32_clamp 0xC2FE0000 0x42FE0000 x)")
  case False
  let ?c = "f32_clamp 0xC2FE0000 0x42FE0000 x"
  have m: "f32_trunc_mag (unat ?c mod 2 ^ 31) \<le> 127" using clamped_range[of x] False f32_trunc_mag_127 by blast
  have "sint (word_of_int v :: 8 word) = v" if "\<bar>v\<bar> \<le> 127" for v
    using that by (simp add: signed_of_int signed_take_bit_int_eq_self)
  then show ?thesis using False m by (simp add: f32_to_i8_def Let_def)
qed (simp add: f32_to_i8_def)

lemma quantize_all_bounds:
  "length (quantize_all ops p v) = length v" "x \<in> set (quantize_all ops p v) \<Longrightarrow> \<bar>sint x\<bar> \<le> 127"
  using quantized_component by (auto simp: quantize_all_def quantize_def Let_def split: if_splits)

lemma zip_bounded:
  assumes "\<forall>u \<in> set x. \<bar>sint (u :: 8 word)\<bar> \<le> 127" and "\<forall>v \<in> set y. \<bar>sint (v :: 8 word)\<bar> \<le> 127"
  shows "\<forall>t \<in> set (map2 (\<lambda>u v. sint u * sint v) x y). \<bar>t\<bar> \<le> 64516"
    and "\<forall>t \<in> set (map2 (\<lambda>u v. (sint u - sint v) * (sint u - sint v)) x y). \<bar>t\<bar> \<le> 64516"
proof -
  have prod: "\<bar>i * j\<bar> \<le> 64516" if "\<bar>i\<bar> \<le> 127" "\<bar>j\<bar> \<le> 127" for i j :: int
    using mult_mono[OF that] by (simp add: abs_mult)
  show "\<forall>t \<in> set (map2 (\<lambda>u v. sint u * sint v) x y). \<bar>t\<bar> \<le> 64516"
    using assms by (auto intro!: prod dest: set_zip_leftD set_zip_rightD)
  have square: "d * d \<le> 64516" if "\<bar>d\<bar> \<le> 254" for d :: int
    using mult_mono[OF that that] by (simp add: abs_mult)
  have gap: "\<bar>i - j\<bar> \<le> 254" if "\<bar>i\<bar> \<le> 127" "\<bar>j\<bar> \<le> 127" for i j :: int using that by simp
  show "\<forall>t \<in> set (map2 (\<lambda>u v. (sint u - sint v) * (sint u - sint v)) x y). \<bar>t\<bar> \<le> 64516"
    using assms by (auto intro!: square gap) (auto dest: set_zip_leftD set_zip_rightD)
qed

text \<open>
  C32 (the int8 kernels are exact). Whatever scale and rounding quantized two vectors of at most
  33286 components, their int8 dot product and squared distance, accumulated over eight lanes in
  wrapping 32-bit integers, are exactly the integers they stand for.
\<close>
theorem int8_kernels_exact:
  assumes "length a = length b" and "length a \<le> 33286"
  shows "let x = quantize_all ops p a; y = quantize_all ops p b in
    sint (dot_i8 x y) = sum_list (map2 (\<lambda>u v. sint u * sint v) x y) \<and>
    sint (euclidean_neg_sq_i8 x y) = - sum_list (map2 (\<lambda>u v. (sint u - sint v) * (sint u - sint v)) x y)"
proof -
  let ?x = "quantize_all ops p a" and ?y = "quantize_all ops p b"
  let ?D = "map2 (\<lambda>u v. sint u * sint v) ?x ?y" and ?E = "map2 (\<lambda>u v. (sint u - sint v) * (sint u - sint v)) ?x ?y"
  have len: "length ?x = length ?y" "int (length ?x) * 64516 < 2 ^ 31" using assms by (simp_all add: quantize_all_bounds)
  then have bound: "int (length ?D) * 64516 < 2 ^ 31" "int (length ?E) * 64516 < 2 ^ 31" by simp_all
  note small = zip_bounded[of ?x ?y, OF _ _] quantize_all_bounds(2)
  have D: "\<forall>t \<in> set ?D. \<bar>t\<bar> \<le> 64516" and E: "\<forall>t \<in> set ?E. \<bar>t\<bar> \<le> 64516" using small by blast+
  have "sint (- sum_list (map of_int ?E) :: 32 word) = sint (of_int (- sum_list ?E) :: 32 word)"
    by (simp only: sum_list_of_int of_int_minus)
  also have "\<dots> = - sum_list ?E"
    using abs_sum_list_le[OF E] bound(2) by (intro sint_of_int_small) linarith
  finally show ?thesis
    using sint_sum_exact[OF D bound(1)] len(1) by (simp only: Let_def dot_i8_sum euclidean_i8_sum)
qed

section \<open>The Hamming distance counts sign changes\<close>

lemma hamming_sum:
  assumes "length a = length b"
  shows "hamming a b = sum_list (map2 (\<lambda>x y. count_ones (x XOR y)) a b)"
  using lane_accs_sum(2)[OF assms, of "\<lambda>x y. count_ones (x XOR y)"] by (simp add: hamming_def lane_tail_sum)

lemma div_ceil_covers: "n \<le> 64 * div_ceil n 64"
proof -
  obtain q r where "n = 64 * q + r" "r < 64" "n div 64 = q" "n mod 64 = r" by (metis mult_div_mod_eq mod_less_divisor zero_less_numeral)
  then show ?thesis unfolding div_ceil_def by simp
qed

lemma pack_fold_bits:
  assumes "div_ceil (length v) 64 \<le> length w" and "n \<le> length v"
  shows "let r = foldl (\<lambda>w (i, x). if f32_sign_bit x then w[i div 64 := w ! (i div 64) OR push_bit (i mod 64) 1] else w)
      (w :: u64 list) (take n (enumerate 0 v)) in
    length r = length w \<and>
    (\<forall>k < length w. \<forall>j < 64. bit (r ! k) j \<longleftrightarrow> bit (w ! k) j \<or> (64 * k + j < n \<and> f32_sign_bit (v ! (64 * k + j))))"
  using assms(2)
proof (induction n)
  case (Suc n)
  have n: "n < length v" using Suc.prems by simp
  have "take (Suc n) (enumerate 0 v) = take n (enumerate 0 v) @ [(n, v ! n)]"
    using n by (simp add: take_Suc_conv_app_nth nth_enumerate_eq)
  moreover have "n div 64 < length w"
  proof -
    have "n < length w * 64" using n assms(1) div_ceil_covers[of "length v"] by linarith
    then show ?thesis by (simp add: less_mult_imp_div_less)
  qed
  moreover have "(64 * k + j = n) = (k = n div 64 \<and> j = n mod 64)" if "j < 64" for j k using that by auto
  ultimately show ?case using Suc.IH Suc.prems
    by (auto simp: Let_def nth_list_update bit_or_iff bit_push_bit_iff bit_1_iff bit_exp_iff less_Suc_eq)
qed simp

lemma pack_signs_bits:
  "length (pack_signs v) = div_ceil (length v) 64"
  "k < div_ceil (length v) 64 \<Longrightarrow> j < 64 \<Longrightarrow>
     bit (pack_signs v ! k) j \<longleftrightarrow> 64 * k + j < length v \<and> f32_sign_bit (v ! (64 * k + j))"
  using pack_fold_bits[of v "replicate (div_ceil (length v) 64) 0" "length v"]
  by (simp_all add: pack_signs_def pack_signs_into_def Let_def)

lemma length_filter_blocks:
  "length (filter P [0..<64 * w]) = sum_list (map (\<lambda>k. length (filter (\<lambda>j. P (64 * k + j)) [0..<64])) [0..<w])"
proof (induction w)
  case (Suc w)
  have "[0..<64 * Suc w] = [0..<64 * w] @ map (\<lambda>j. 64 * w + j) [0..<64]"
    using upt_add_eq_append[of 0 "64 * w" 64] map_add_upt[of "64 * w" 64] by (simp add: ac_simps)
  then show ?case using Suc by (simp add: filter_map comp_def)
qed simp

lemma of_nat_counts: "of_nat (sum_list (map c xs)) = (sum_list (map (\<lambda>k. of_nat (c k)) xs) :: u32)"
  by (induction xs) simp_all

lemma zip_filter_indices:
  "length a = length b \<Longrightarrow>
     length (filter (\<lambda>(x, y). P x y) (zip a b)) = length (filter (\<lambda>i. P (a ! i) (b ! i)) [0..<length a])"
proof -
  assume len: "length a = length b"
  then have "zip a b = map (\<lambda>i. (a ! i, b ! i)) [0..<length a]" by (intro nth_equalityI) simp_all
  then show ?thesis by (simp add: filter_map comp_def)
qed

lemma filter_below:
  "n \<le> m \<Longrightarrow> filter (\<lambda>i. i < n \<and> P i) [0..<m] = filter P [0..<n]"
proof -
  assume "n \<le> m"
  then obtain d where "m = n + d" using le_Suc_ex by blast
  then have "[0..<m] = [0..<n] @ [n..<m]" using upt_add_eq_append[of 0 n d] by simp
  moreover have "filter (\<lambda>i. i < n \<and> P i) [0..<n] = filter P [0..<n]" by (intro filter_cong) simp_all
  ultimately show ?thesis by (simp add: filter_empty_conv)
qed

text \<open>
  The binary code. The Hamming distance of two packed vectors of equal length, whatever
  their padding, is the number of components on which their signs differ.
\<close>
theorem hamming_counts_sign_changes:
  assumes "length a = length b"
  shows "hamming (pack_signs a) (pack_signs b) =
    of_nat (length (filter (\<lambda>(x, y). f32_sign_bit x \<noteq> f32_sign_bit y) (zip a b)))"
proof -
  let ?w = "div_ceil (length a) 64" and ?P = "\<lambda>i. f32_sign_bit (a ! i) \<noteq> f32_sign_bit (b ! i)"
  let ?c = "\<lambda>k. length (filter (\<lambda>j. 64 * k + j < length a \<and> ?P (64 * k + j)) [0..<64])"
  have word: "count_ones (pack_signs a ! k XOR pack_signs b ! k) = of_nat (?c k)" if "k < ?w" for k
  proof -
    have "filter (bit (pack_signs a ! k XOR pack_signs b ! k)) [0..<64] =
        filter (\<lambda>j. 64 * k + j < length a \<and> ?P (64 * k + j)) [0..<64]"
      using that assms by (intro filter_cong) (auto simp: bit_xor_iff pack_signs_bits(2))
    then show ?thesis by (simp add: count_ones_def)
  qed
  have "zip (pack_signs a) (pack_signs b) = map (\<lambda>k. (pack_signs a ! k, pack_signs b ! k)) [0..<?w]"
    using assms by (intro nth_equalityI) (simp_all add: pack_signs_bits(1))
  then have "hamming (pack_signs a) (pack_signs b) =
      sum_list (map (\<lambda>k. count_ones (pack_signs a ! k XOR pack_signs b ! k)) [0..<?w])"
    by (simp add: hamming_sum pack_signs_bits(1) assms comp_def)
  also have "\<dots> = sum_list (map (\<lambda>k. of_nat (?c k)) [0..<?w])"
    using word by (intro arg_cong[of _ _ sum_list] map_cong) simp_all
  also have "\<dots> = of_nat (sum_list (map ?c [0..<?w]))" by (rule of_nat_counts[symmetric])
  also have "sum_list (map ?c [0..<?w]) = length (filter ?P [0..<length a])"
  proof -
    have "length a \<le> 64 * ?w" by (rule div_ceil_covers)
    then show ?thesis using length_filter_blocks[of "\<lambda>i. i < length a \<and> ?P i" ?w] filter_below[of "length a" "64 * ?w" ?P] by simp
  qed
  finally show ?thesis using zip_filter_indices[OF assms, of "\<lambda>x y. f32_sign_bit x \<noteq> f32_sign_bit y"] by simp
qed

definition demo_float :: float_ops where
  "demo_float = \<lparr>f_add = \<lambda>x _. x, f_mul = \<lambda>x _. x, f_div = \<lambda>x _. x, f_sqrt = \<lambda>x. x, f_less = f32_less,
     f_sub = \<lambda>x _. x, f_powf = \<lambda>x _. x, f_round = \<lambda>x. x, f_of_int = of_int, f_of_f64 = \<lambda>_. 0,
     d_of_int = of_int, d_of_f32 = \<lambda>_. 0, d_add = \<lambda>x _. x, d_div = \<lambda>x _. x\<rparr>"

theorem int8_kernels_exact_witness:
  "let p = \<lparr>qp_scale = 0x3F800000\<rparr>; x = quantize_all demo_float p [0x42FE0000, 0xC2FE0000];
       y = quantize_all demo_float p [0xC2FE0000, 0x40000000] in
   sint (dot_i8 x y) = - 16383 \<and> sint (euclidean_neg_sq_i8 x y) = - 81157"
  using int8_kernels_exact[of "[0x42FE0000, 0xC2FE0000]" "[0xC2FE0000, 0x40000000]" demo_float "\<lparr>qp_scale = 0x3F800000\<rparr>"]
  by (simp add: Let_def quantize_all_def quantize_def demo_float_def f32_le_def f32_less_def f32_is_nan_def f32_key_def
      f32_clamp_def f32_to_i8_def f32_trunc_mag_def)

theorem hamming_counts_sign_changes_witness:
  "hamming (pack_signs [0x3F800000, 0xBF800000, 0x80000000]) (pack_signs [0xBF800000, 0xBF800000, 0x7FC00000]) = 2"
  using hamming_counts_sign_changes[of "[0x3F800000, 0xBF800000, 0x80000000]" "[0xBF800000, 0xBF800000, 0x7FC00000]"]
  by (simp add: f32_sign_bit_def f32_le_def f32_is_nan_def f32_key_def)

end
