(* ===== verification/StoreRead.thy ===== *)
theory StoreRead
  imports Kernels
begin

text \<open>
  Reads of the store (\<^verbatim>\<open>src/src/store/read.rs\<close>): lookups, listings with their attribute order
  (\<^verbatim>\<open>src/src/store/rank.rs\<close>), and the row-ordered scans that feed every exact search. Recorded query
  plans and metrics are not modelled. The cached scan order is recomputed, as every write drops
  it. A hash map's iteration order, the regex parser and floating-point arithmetic are arguments;
  an unstable sort is a stable one, which differ only on entries of equal key.
\<close>

section \<open>Hits and options\<close>

record hit =
  h_collection :: string
  h_id :: string
  h_score :: f32
  h_attrs :: attrs
  h_context :: "uchar list option"

datatype projection = ProjAll | ProjInclude "string list" | ProjExclude "string list"

fun projection_apply :: "projection \<Rightarrow> attrs \<Rightarrow> attrs" where
  "projection_apply ProjAll a = a"
| "projection_apply (ProjInclude keys) a =
     amap_of_list (List.map_filter (\<lambda>k. map_option (Pair k) (aget a k)) keys)"
| "projection_apply (ProjExclude keys) a = filter (\<lambda>(k, _). \<not> list_ex (\<lambda>dr. dr = k) keys) a"

record order_by =
  ob_field :: string
  ob_descending :: bool

record list_opts =
  lo_offset :: nat
  lo_limit :: nat
  lo_filter :: filter_t
  lo_projection :: projection
  lo_order_by :: "order_by option"

record limit_per =
  lp_field :: string
  lp_max :: nat

text \<open>Recency and count decay of a score.\<close>

record decay =
  dc_field :: string
  dc_origin :: int
  dc_scale :: int
  dc_decay :: f32
  dc_lambda :: f32
  dc_missing :: f32
  dc_count_field :: "string option"
  dc_count_scale :: f32
  dc_count_lambda :: f32

record expand =
  ex_parent_field :: string
  ex_index_field :: string
  ex_text_field :: string
  ex_radius :: nat

record search_opts =
  so_top_k :: nat
  so_offset :: nat
  so_filter :: filter_t
  so_min_score :: "f32 option"
  so_exact :: bool
  so_projection :: projection
  so_rank_by :: "decay option"
  so_limit_per :: "limit_per option"
  so_diversity :: "f32 option"
  so_expand :: "expand option"
  so_names :: "string list"
  so_name_weights :: "(string, f32) amap"
  so_pool :: pool

record read_env =
  re_text :: text_env
  re_parse :: "string \<Rightarrow> hir option"
  re_order :: "string list \<Rightarrow> string list"
  re_float :: float_ops

section \<open>Lookups\<close>

definition doc_of :: "store \<Rightarrow> string \<Rightarrow> string \<Rightarrow> doc_entry option" where
  "doc_of s c did = Option.bind (aget (st_collections s) c) (\<lambda>col. aget (co_docs col) did)"

definition attrs_of :: "store \<Rightarrow> string \<Rightarrow> string \<Rightarrow> attrs option" where
  "attrs_of s c did = map_option de_attrs (doc_of s c did)"

text \<open>\<^verbatim>\<open>data.row\<close> panics past the matrix.\<close>

fun named_rows :: "segments \<Rightarrow> (string \<times> nat) list \<Rightarrow> search_error + (string \<times> f32 list) list" where
  "named_rows d [] = Inr []"
| "named_rows d ((name, r) # rest) = (case segs_row d r of
     None \<Rightarrow> Inl (RowOutOfRange r)
   | Some v \<Rightarrow> (case named_rows d rest of Inl e \<Rightarrow> Inl e | Inr vs \<Rightarrow> Inr ((name, v) # vs)))"

definition record_from_entry :: "store \<Rightarrow> string \<Rightarrow> doc_entry \<Rightarrow> search_error + doc_record" where
  "record_from_entry s did e = (case named_rows (st_data s) (de_rows e) of
     Inl err \<Rightarrow> Inl err
   | Inr vs \<Rightarrow> Inr \<lparr>rec_id = did, rec_vector = aget vs DEFAULT_VECTOR,
       rec_vectors = filter (\<lambda>(name, _). name \<noteq> DEFAULT_VECTOR) vs, rec_attrs = de_attrs e\<rparr>)"

definition get_doc :: "store \<Rightarrow> string \<Rightarrow> string \<Rightarrow> (search_error + doc_record) option" where
  "get_doc s c did = map_option (record_from_entry s did) (doc_of s c did)"

text \<open>The documents of a collection in the order its hash map yields them.\<close>

definition iter_docs :: "read_env \<Rightarrow> collection \<Rightarrow> (string \<times> doc_entry) list" where
  "iter_docs env col = List.map_filter (\<lambda>did. map_option (Pair did) (aget (co_docs col) did)) (re_order env (akeys (co_docs col)))"

definition get_all :: "read_env \<Rightarrow> store \<Rightarrow> string \<Rightarrow> (search_error + doc_record) list" where
  "get_all env s c = (case aget (st_collections s) c of
     None \<Rightarrow> []
   | Some col \<Rightarrow> map (\<lambda>(did, e). record_from_entry s did e) (iter_docs env col))"

definition collections :: "store \<Rightarrow> string list" where
  "collections s = sort (akeys (st_collections s))"

definition resolve_alias :: "store \<Rightarrow> string \<Rightarrow> string option" where
  "resolve_alias s name = aget (st_aliases s) name"

definition get_meta :: "store \<Rightarrow> string \<Rightarrow> (string, string) amap" where
  "get_meta s c = (case aget (st_collections s) c of Some col \<Rightarrow> co_meta col | None \<Rightarrow> [])"

definition vector_names :: "store \<Rightarrow> string \<Rightarrow> string list" where
  "vector_names s c = (case aget (st_collections s) c of Some col \<Rightarrow> co_vector_names col | None \<Rightarrow> [])"

text \<open>A scope as the facade resolves it: aliases one hop, every other name as it stands.\<close>

datatype scope = ScopeCollection string | ScopeCollections "string list" | ScopeAll

definition concrete :: "store \<Rightarrow> string \<Rightarrow> string" where
  "concrete s name = (case resolve_alias s name of Some target \<Rightarrow> target | None \<Rightarrow> name)"

fun scope_names :: "store \<Rightarrow> scope \<Rightarrow> string list" where
  "scope_names s (ScopeCollection c) = [concrete s c]"
| "scope_names s (ScopeCollections cs) = map (concrete s) cs"
| "scope_names s ScopeAll = collections s"

section \<open>Listings\<close>

type_synonym list_row = "nat option \<times> item"

definition list_match :: "read_env \<Rightarrow> filter_t \<Rightarrow> string \<Rightarrow> string \<times> doc_entry \<Rightarrow> list_row option" where
  "list_match env f c x = (case x of (did, e) \<Rightarrow>
     if matches (re_text env) f (de_attrs e) then Some (primary_row e, (c, did)) else None)"

definition list_collection :: "read_env \<Rightarrow> store \<Rightarrow> filter_t \<Rightarrow> string \<Rightarrow> list_row list" where
  "list_collection env s f c = (case aget (st_collections s) c of
     None \<Rightarrow> []
   | Some col \<Rightarrow>
       (case narrow_candidate_ids (re_text env) (re_parse env) (st_findex s) c f of
          Some ids \<Rightarrow> List.map_filter (\<lambda>did. Option.bind (aget (co_docs col) did) (\<lambda>e. list_match env f c (did, e))) ids
        | None \<Rightarrow> List.map_filter (list_match env f c) (iter_docs env col)))"

text \<open>Rowed documents by row, then text-only documents by id.\<close>

definition list_key :: "list_row \<Rightarrow> nat \<times> nat \<times> string" where
  "list_key x = (case fst x of Some r \<Rightarrow> (0, r, []) | None \<Rightarrow> (1, 0, snd (snd x)))"

text \<open>A stable sort by a comparison, as \<^verbatim>\<open>slice::sort_by\<close>.\<close>

fun insert_by :: "('a \<Rightarrow> 'a \<Rightarrow> ordering) \<Rightarrow> 'a \<Rightarrow> 'a list \<Rightarrow> 'a list" where
  "insert_by f x [] = [x]"
| "insert_by f x (y # ys) = (if f x y = Greater then y # insert_by f x ys else x # y # ys)"

definition sort_by :: "('a \<Rightarrow> 'a \<Rightarrow> ordering) \<Rightarrow> 'a list \<Rightarrow> 'a list" where
  "sort_by f xs = foldr (insert_by f) xs []"

fun reverse_ordering :: "ordering \<Rightarrow> ordering" where
  "reverse_ordering Less = Greater"
| "reverse_ordering Equal = Equal"
| "reverse_ordering Greater = Less"

definition order_value :: "store \<Rightarrow> string \<Rightarrow> list_row \<Rightarrow> attr_value option" where
  "order_value s field x = Option.bind (attrs_of s (fst (snd x)) (snd (snd x))) (\<lambda>a. aget a field)"

definition sortable :: "attr_value \<Rightarrow> attr_value option \<Rightarrow> bool" where
  "sortable witness v = (case v of Some x \<Rightarrow> value_cmp x witness \<noteq> None | None \<Rightarrow> False)"

definition order_cmp :: "bool \<Rightarrow> attr_value \<Rightarrow> attr_value option \<Rightarrow> attr_value option \<Rightarrow> ordering" where
  "order_cmp descending witness va vb =
     (if sortable witness va then
        if sortable witness vb then
          let r = (case value_cmp (case va of Some x \<Rightarrow> x | None \<Rightarrow> VNull) (case vb of Some x \<Rightarrow> x | None \<Rightarrow> VNull) of
              Some r \<Rightarrow> r | None \<Rightarrow> Equal)
          in if descending then reverse_ordering r else r
        else Less
      else if sortable witness vb then Greater else Equal)"

definition order_scan :: "store \<Rightarrow> order_by \<Rightarrow> list_row list \<Rightarrow> list_row list" where
  "order_scan s ob scan =
     (case List.find (\<lambda>v. value_cmp v v \<noteq> None) (List.map_filter (order_value s (ob_field ob)) scan) of
        None \<Rightarrow> scan
      | Some witness \<Rightarrow> sort_by (\<lambda>a b. order_cmp (ob_descending ob) witness
            (order_value s (ob_field ob) a) (order_value s (ob_field ob) b)) scan)"

definition list_scan :: "read_env \<Rightarrow> store \<Rightarrow> string list \<Rightarrow> filter_t \<Rightarrow> order_by option \<Rightarrow> list_row list" where
  "list_scan env s cols f ord =
     (let scan = sort_key list_key (concat (map (list_collection env s f) cols)) in
      case ord of Some ob \<Rightarrow> order_scan s ob scan | None \<Rightarrow> scan)"

definition hit_of :: "store \<Rightarrow> projection \<Rightarrow> f32 \<times> item \<Rightarrow> hit" where
  "hit_of s proj x = \<lparr>h_collection = fst (snd x), h_id = snd (snd x), h_score = fst x,
     h_attrs = (case attrs_of s (fst (snd x)) (snd (snd x)) of Some a \<Rightarrow> projection_apply proj a | None \<Rightarrow> []), h_context = None\<rparr>"

definition list_docs :: "read_env \<Rightarrow> store \<Rightarrow> string list \<Rightarrow> list_opts \<Rightarrow> hit list" where
  "list_docs env s cols opts =
     map (\<lambda>(_, it). hit_of s (lo_projection opts) (0, it))
       (take (lo_limit opts) (drop (lo_offset opts) (list_scan env s cols (lo_filter opts) (lo_order_by opts))))"

section \<open>The scan of a search\<close>

definition scannable_row :: "doc_entry \<Rightarrow> nat option" where
  "scannable_row e = aget (de_rows e) DEFAULT_VECTOR"

definition scannable_in :: "collection \<Rightarrow> nat" where
  "scannable_in col = length (filter (\<lambda>e. scannable_row e \<noteq> None) (avals (co_docs col)))"

definition scannable_doc_count :: "store \<Rightarrow> nat" where
  "scannable_doc_count s = sum_list (map scannable_in (avals (st_collections s)))"

definition scannable_in_scope :: "store \<Rightarrow> string list \<Rightarrow> nat" where
  "scannable_in_scope s cols = sum_list (map scannable_in (List.map_filter (aget (st_collections s)) cols))"

definition scan_entry :: "string \<Rightarrow> string \<times> doc_entry \<Rightarrow> scan_row option" where
  "scan_entry c x = (case x of (did, e) \<Rightarrow> map_option (\<lambda>r. (r, (c, did))) (scannable_row e))"

definition scan_match :: "read_env \<Rightarrow> filter_t \<Rightarrow> string \<Rightarrow> string \<times> doc_entry \<Rightarrow> scan_row option" where
  "scan_match env f c x = (if matches (re_text env) f (de_attrs (snd x)) then scan_entry c x else None)"

definition scan_order :: "read_env \<Rightarrow> store \<Rightarrow> scan_row list" where
  "scan_order env s = sort_key fst (concat (map (\<lambda>c. case aget (st_collections s) c of
       Some col \<Rightarrow> List.map_filter (scan_entry c) (iter_docs env col) | None \<Rightarrow> [])
     (re_order env (akeys (st_collections s)))))"

datatype narrow_outcome = Inactive | Declined | Narrowed "scan_row list"

fun narrow_all :: "read_env \<Rightarrow> store \<Rightarrow> filter_t \<Rightarrow> string list \<Rightarrow> (string \<times> string list) list option" where
  "narrow_all env s f [] = Some []"
| "narrow_all env s f (c # cs) =
     (if aget (st_collections s) c = None then narrow_all env s f cs
      else (case narrow_candidate_ids (re_text env) (re_parse env) (st_findex s) c f of
          None \<Rightarrow> None
        | Some ids \<Rightarrow> map_option (Cons (c, ids)) (narrow_all env s f cs)))"

definition narrowed_scan :: "read_env \<Rightarrow> store \<Rightarrow> string list \<Rightarrow> filter_t \<Rightarrow> narrow_outcome" where
  "narrowed_scan env s cols f =
     (if \<not> fx_is_active (st_findex s) then Inactive
      else (case narrow_all env s f cols of
          None \<Rightarrow> Declined
        | Some narrowed \<Rightarrow> Narrowed (concat (map (\<lambda>(c, ids).
              List.map_filter (\<lambda>did. Option.bind (doc_of s c did) (\<lambda>e. scan_match env f c (did, e))) ids) narrowed))))"

definition subset_scan :: "read_env \<Rightarrow> store \<Rightarrow> string list \<Rightarrow> filter_t \<Rightarrow> scan_row list" where
  "subset_scan env s cols f = sort_key fst (concat (map (\<lambda>c. case aget (st_collections s) c of
       Some col \<Rightarrow> List.map_filter (scan_match env f c) (iter_docs env col) | None \<Rightarrow> []) cols))"

definition sorted_scan :: "read_env \<Rightarrow> store \<Rightarrow> string list \<Rightarrow> filter_t \<Rightarrow> scan_row list" where
  "sorted_scan env s cols f = (case narrowed_scan env s cols f of
     Narrowed scan \<Rightarrow> sort_key fst scan
   | _ \<Rightarrow>
       if scannable_in_scope s cols = scannable_doc_count s then
         filter (\<lambda>(_, (c, did)). f = [] \<or> (case attrs_of s c did of Some a \<Rightarrow> matches (re_text env) f a | None \<Rightarrow> False))
           (scan_order env s)
       else subset_scan env s cols f)"

definition named_scan :: "read_env \<Rightarrow> store \<Rightarrow> string list \<Rightarrow> filter_t \<Rightarrow> string list \<Rightarrow> named_row list" where
  "named_scan env s cols f names = sort_key fst (concat (map (\<lambda>c. case aget (st_collections s) c of
       None \<Rightarrow> []
     | Some col \<Rightarrow> concat (map (\<lambda>(did, e).
         if de_rows e = [] \<or> \<not> matches (re_text env) f (de_attrs e) then []
         else List.map_filter (\<lambda>(i, name). map_option (\<lambda>r. (r, (c, did), i)) (aget (de_rows e) name)) (enumerate 0 names))
       (iter_docs env col))) cols))"

end
