(* ===== verification/Ranking.thy ===== *)
theory Ranking
  imports StoreRead StoreDemo
begin

text \<open>
  What reshapes a ranking: recency and count decay (\<^verbatim>\<open>src/src/store/rank.rs\<close>), aggregation and the
  cap on hits per attribute value (\<^verbatim>\<open>src/src/store/aggregate.rs\<close>), maximal marginal relevance
  (\<^verbatim>\<open>src/src/store/diversity.rs\<close>) and neighbour expansion (\<^verbatim>\<open>src/src/store/expand.rs\<close>). The theorems
  show that the cap keeps exactly the best hits of every value and that the spread only reorders.
\<close>

section \<open>Ranking expressions\<close>

abbreviation f32_zero :: f32 where "f32_zero \<equiv> 0"
abbreviation f32_one :: f32 where "f32_one \<equiv> 0x3F800000"

definition rank_validate :: "decay option \<Rightarrow> search_error + unit" where
  "rank_validate r = (case r of
     None \<Rightarrow> Inr ()
   | Some d \<Rightarrow>
       if dc_field d = [] \<and> dc_count_field d = None then Inl (BadQuery ''Decay needs a timestamp field name'')
       else if dc_scale d \<le> 0 then Inl (BadQuery ''Decay scale must be positive'')
       else if \<not> (f32_less f32_zero (dc_decay d) \<and> f32_less (dc_decay d) f32_one)
         then Inl (BadQuery ''Decay decay must be in (0, 1)'')
       else if \<not> f32_finite (dc_lambda d) \<or> f32_less (dc_lambda d) f32_zero
         then Inl (BadQuery ''Decay lambda must be finite and non-negative'')
       else if \<not> (f32_le f32_zero (dc_missing d) \<and> f32_le (dc_missing d) f32_one)
         then Inl (BadQuery ''Decay missing must be in [0, 1]'')
       else if dc_count_field d \<noteq> None \<and> f32_le (dc_count_scale d) f32_zero
         then Inl (BadQuery ''Decay count_scale must be positive'')
       else if \<not> f32_finite (dc_count_lambda d) \<or> f32_less (dc_count_lambda d) f32_zero
         then Inl (BadQuery ''Decay count_lambda must be finite and non-negative'')
       else Inr ())"

definition sat_sub :: "int \<Rightarrow> int \<Rightarrow> int" where
  "sat_sub a b = clamp_i64 (a - b)"

definition decay_factor :: "float_ops \<Rightarrow> decay \<Rightarrow> attrs \<Rightarrow> f32" where
  "decay_factor ops d a =
     (let at = (\<lambda>ts. f_powf ops (dc_decay d)
         (f_of_f64 ops (d_div ops (d_of_int ops (max (sat_sub (dc_origin d) ts) 0)) (d_of_int ops (dc_scale d))))) in
      case aget a (dc_field d) of
        Some (VDateTime ms) \<Rightarrow> at ms
      | Some (VInt ms) \<Rightarrow> at ms
      | _ \<Rightarrow> dc_missing d)"

definition count_factor :: "float_ops \<Rightarrow> decay \<Rightarrow> attrs \<Rightarrow> f32" where
  "count_factor ops d a = (case dc_count_field d of
     None \<Rightarrow> 0
   | Some field \<Rightarrow>
       let n = (case aget a field of
           Some (VInt n) \<Rightarrow> d_of_int ops (max n 0)
         | Some (VDateTime n) \<Rightarrow> d_of_int ops (max n 0)
         | _ \<Rightarrow> 0)
       in f_of_f64 ops (d_div ops n (d_add ops n (d_of_f32 ops (dc_count_scale d)))))"

definition adjust :: "float_ops \<Rightarrow> decay option \<Rightarrow> f32 \<Rightarrow> attrs \<Rightarrow> f32" where
  "adjust ops r base a = (case r of
     None \<Rightarrow> base
   | Some d \<Rightarrow>
       let out = (if dc_field d = [] then base
           else f_sub ops base (f_mul ops (dc_lambda d) (f_sub ops f32_one (decay_factor ops d a))))
       in if dc_count_field d = None then out
          else f_sub ops out (f_mul ops (dc_count_lambda d) (f_sub ops f32_one (count_factor ops d a))))"

definition ranked_score :: "float_ops \<Rightarrow> store \<Rightarrow> decay option \<Rightarrow> f32 \<Rightarrow> item \<Rightarrow> f32" where
  "ranked_score ops s r base it =
     (if r = None then base
      else (case attrs_of s (fst it) (snd it) of Some a \<Rightarrow> adjust ops r base a | None \<Rightarrow> base))"

section \<open>Group keys and the cap per value\<close>

definition LIMIT_PER_OVERFETCH :: nat where "LIMIT_PER_OVERFETCH = 8"
definition MAX_GROUPS :: nat where "MAX_GROUPS = 10000"

definition limit_validate :: "limit_per option \<Rightarrow> search_error + unit" where
  "limit_validate l = (case l of
     None \<Rightarrow> Inr ()
   | Some cap \<Rightarrow>
       if lp_field cap = [] then Inl (BadQuery ''limit_per needs a field name'')
       else if lp_max cap = 0 then Inl (BadQuery ''limit_per max must be at least 1'')
       else Inr ())"

definition validate_group_by :: "string option \<Rightarrow> search_error + unit" where
  "validate_group_by g = (if g = Some [] then Inl (BadQuery ''group_by needs a field name'') else Inr ())"

definition show_int :: "int \<Rightarrow> string" where
  "show_int i = (if i < 0 then CHR ''-'' # show_nat (nat (- i)) else show_nat (nat i))"

definition hex_digit :: "nat \<Rightarrow> char" where
  "hex_digit d = (if d < 10 then char_of (48 + d) else char_of (87 + d))"

definition show_hex16 :: "u64 \<Rightarrow> string" where
  "show_hex16 w = map (\<lambda>i. hex_digit (unat (drop_bit (4 * i) w) mod 16)) (rev [0..<16])"

fun join_nul :: "string list \<Rightarrow> string" where
  "join_nul [] = []"
| "join_nul [x] = x"
| "join_nul (x # xs) = x @ CHR 0x00 # join_nul xs"

definition group_key :: "attr_value option \<Rightarrow> string" where
  "group_key v = (case v of
     None \<Rightarrow> CHR 0x00 # ''missing''
   | Some VNull \<Rightarrow> CHR 0x00 # ''null''
   | Some (VStr s) \<Rightarrow> CHR ''s'' # s
   | Some (VInt i) \<Rightarrow> CHR ''i'' # show_int i
   | Some (VBool b) \<Rightarrow> CHR ''b'' # (if b then ''true'' else ''false'')
   | Some (VFloat f) \<Rightarrow> CHR ''f'' # show_hex16 f
   | Some (VDateTime t) \<Rightarrow> CHR ''t'' # show_int t
   | Some (VList items) \<Rightarrow> CHR ''l'' # join_nul items)"

definition hit_group :: "store \<Rightarrow> limit_per \<Rightarrow> hit \<Rightarrow> string" where
  "hit_group s cap h = group_key (Option.bind (attrs_of s (h_collection h) (h_id h)) (\<lambda>a. aget a (lp_field cap)))"

fun cap_walk :: "(hit \<Rightarrow> string) \<Rightarrow> nat \<Rightarrow> (string, nat) amap \<Rightarrow> hit list \<Rightarrow> hit list" where
  "cap_walk key m seen [] = []"
| "cap_walk key m seen (h # hs) = (case aget seen (key h) of
     Some n \<Rightarrow> (if Suc n \<le> m then [h] else []) @ cap_walk key m (aput (key h) (Suc n) seen) hs
   | None \<Rightarrow>
       if length seen \<ge> MAX_GROUPS then h # cap_walk key m seen hs
       else (if m \<ge> 1 then [h] else []) @ cap_walk key m (aput (key h) 1 seen) hs)"

definition cap_per_value :: "store \<Rightarrow> limit_per \<Rightarrow> hit list \<Rightarrow> hit list" where
  "cap_per_value s cap hits = cap_walk (hit_group s cap) (lp_max cap) [] hits"

section \<open>Aggregation\<close>

record acc =
  ac_count :: nat
  ac_sums :: "(int \<times> f64 \<times> bool) list"

definition acc_new :: "nat \<Rightarrow> acc" where
  "acc_new k = \<lparr>ac_count = 0, ac_sums = replicate k (0, 0, False)\<rparr>"

definition acc_slot :: "float_ops \<Rightarrow> attrs \<Rightarrow> int \<times> f64 \<times> bool \<Rightarrow> string \<Rightarrow> int \<times> f64 \<times> bool" where
  "acc_slot ops a slot field = (case slot of (ints, floats, saw) \<Rightarrow> (case aget a field of
     Some (VInt n) \<Rightarrow> (ints + n, floats, saw)
   | Some (VFloat f) \<Rightarrow> (ints, d_add ops floats f, True)
   | _ \<Rightarrow> slot))"

definition acc_add :: "float_ops \<Rightarrow> attrs \<Rightarrow> string list \<Rightarrow> acc \<Rightarrow> acc" where
  "acc_add ops a fs ac = \<lparr>ac_count = Suc (ac_count ac), ac_sums = map2 (acc_slot ops a) (ac_sums ac) fs\<rparr>"

definition acc_total :: "float_ops \<Rightarrow> int \<times> f64 \<times> bool \<Rightarrow> attr_value" where
  "acc_total ops slot = (case slot of (ints, floats, saw) \<Rightarrow>
     if saw then VFloat (d_add ops (d_of_int ops ints) floats)
     else if i64_min \<le> ints \<and> ints \<le> i64_max then VInt ints
     else VFloat (d_of_int ops ints))"

definition acc_finish :: "float_ops \<Rightarrow> string list \<Rightarrow> acc \<Rightarrow> attrs" where
  "acc_finish ops fs ac = amap_of_list (zip fs (map (acc_total ops) (ac_sums ac)))"

record aggregate_opts =
  ag_filter :: filter_t
  ag_sum :: "string list"
  ag_group_by :: "string option"

record group =
  gr_value :: "attr_value option"
  gr_count :: nat
  gr_sums :: attrs

record aggregation =
  an_count :: nat
  an_sums :: attrs
  an_groups :: "group list"
  an_truncated :: bool

type_synonym group_map = "(string, attr_value option \<times> acc) amap"

definition group_add :: "float_ops \<Rightarrow> aggregate_opts \<Rightarrow> attrs \<Rightarrow> string \<Rightarrow> group_map \<times> bool \<Rightarrow> group_map \<times> bool" where
  "group_add ops opts a field st = (case st of (gs, truncated) \<Rightarrow>
     (let v = aget a field; key = group_key v; add = acc_add ops a (ag_sum opts) in
      case aget gs key of
        Some (w, ac) \<Rightarrow> (aput key (w, add ac) gs, truncated)
      | None \<Rightarrow>
          if length gs \<ge> MAX_GROUPS then (gs, True)
          else (aput key (v, add (acc_new (length (ag_sum opts)))) gs, truncated)))"

definition aggregate_doc :: "float_ops \<Rightarrow> aggregate_opts \<Rightarrow> attrs \<Rightarrow> acc \<times> group_map \<times> bool \<Rightarrow> acc \<times> group_map \<times> bool" where
  "aggregate_doc ops opts a st = (case st of (whole, g) \<Rightarrow>
     (acc_add ops a (ag_sum opts) whole,
      (case ag_group_by opts of None \<Rightarrow> g | Some field \<Rightarrow> group_add ops opts a field g)))"

definition matching_attrs :: "read_env \<Rightarrow> store \<Rightarrow> string list \<Rightarrow> filter_t \<Rightarrow> attrs list" where
  "matching_attrs env s cols f = concat (map (\<lambda>c. case aget (st_collections s) c of
       None \<Rightarrow> []
     | Some col \<Rightarrow> filter (matches (re_text env) f) (map (\<lambda>(_, e). de_attrs e) (iter_docs env col))) cols)"

definition aggregate :: "read_env \<Rightarrow> store \<Rightarrow> string list \<Rightarrow> aggregate_opts \<Rightarrow> aggregation" where
  "aggregate env s cols opts =
     (let ops = re_float env;
          (whole, gs, truncated) = fold (aggregate_doc ops opts) (matching_attrs env s cols (ag_filter opts))
            (acc_new (length (ag_sum opts)), [], False);
          keyed = sort_key (\<lambda>(key, _, ac). (- int (ac_count ac), key)) gs
      in \<lparr>an_count = ac_count whole, an_sums = acc_finish ops (ag_sum opts) whole,
          an_groups = map (\<lambda>(_, v, ac). \<lparr>gr_value = v, gr_count = ac_count ac, gr_sums = acc_finish ops (ag_sum opts) ac\<rparr>) keyed,
          an_truncated = truncated\<rparr>)"

section \<open>Maximal marginal relevance\<close>

definition MMR_OVERFETCH :: nat where "MMR_OVERFETCH = 4"
definition MAX_DIVERSITY_WINDOW :: nat where "MAX_DIVERSITY_WINDOW = 512"

definition diversity_validate :: "f32 option \<Rightarrow> search_error + unit" where
  "diversity_validate d = (case d of
     None \<Rightarrow> Inr ()
   | Some l \<Rightarrow> if \<not> f32_finite l \<or> \<not> (f32_le f32_zero l \<and> f32_le l f32_one)
       then Inl (BadQuery ''diversity must be a finite lambda in [0.0, 1.0]'') else Inr ())"

text \<open>An \<^verbatim>\<open>f32\<close> iterator sum starts from negative zero.\<close>

definition f32_sum :: "float_ops \<Rightarrow> f32 list \<Rightarrow> f32" where
  "f32_sum ops xs = foldl (f_add ops) 0x80000000 xs"

definition cosine_of :: "float_ops \<Rightarrow> f32 list \<Rightarrow> f32 \<Rightarrow> f32 list \<Rightarrow> f32 \<Rightarrow> f32" where
  "cosine_of ops a na b nb =
     (if f32_le na 0 \<or> f32_le nb 0 then 0
      else f_div ops (f32_sum ops (map2 (f_mul ops) a b)) (f_mul ops na nb))"

type_synonym candidate = "(f32 list \<times> f32) option"

definition mmr_score :: "float_ops \<Rightarrow> f32 \<Rightarrow> f32 \<Rightarrow> f32 \<Rightarrow> f32" where
  "mmr_score ops lambda score sim =
     f_sub ops (f_mul ops lambda score) (f_mul ops (f_sub ops f32_one lambda) sim)"

definition pick_best :: "(nat \<Rightarrow> f32) \<Rightarrow> bool list \<Rightarrow> (nat \<times> f32) option" where
  "pick_best mmr taken = foldl (\<lambda>best i.
     if taken ! i then best
     else (case best of
         None \<Rightarrow> Some (i, mmr i)
       | Some (_, b) \<Rightarrow> if f32_less b (mmr i) then Some (i, mmr i) else best)) None [0..<length taken]"

definition raise_sims :: "float_ops \<Rightarrow> candidate list \<Rightarrow> bool list \<Rightarrow> nat \<Rightarrow> f32 list \<Rightarrow> f32 list" where
  "raise_sims ops window taken pick sims = (case window ! pick of
     None \<Rightarrow> sims
   | Some (pv, pn) \<Rightarrow> foldl (\<lambda>sims i.
       if taken ! i then sims
       else (case window ! i of
           None \<Rightarrow> sims
         | Some (v, nrm) \<Rightarrow> sims[i := f32_max (sims ! i) (cosine_of ops pv pn v nrm)])) sims [0..<length window])"

fun select_loop :: "float_ops \<Rightarrow> candidate list \<Rightarrow> f32 list \<Rightarrow> f32 \<Rightarrow> nat \<Rightarrow> bool list \<Rightarrow> f32 list \<Rightarrow> nat list \<Rightarrow> nat list" where
  "select_loop ops window scores lambda 0 taken sims order = order"
| "select_loop ops window scores lambda (Suc k) taken sims order =
     (case pick_best (\<lambda>i. mmr_score ops lambda (scores ! i) (sims ! i)) taken of
        None \<Rightarrow> order
      | Some (pick, _) \<Rightarrow>
          let taken' = taken[pick := True] in
          select_loop ops window scores lambda k taken' (raise_sims ops window taken' pick sims) (order @ [pick]))"

definition mmr_select :: "float_ops \<Rightarrow> candidate list \<Rightarrow> f32 list \<Rightarrow> f32 \<Rightarrow> nat list" where
  "mmr_select ops window scores lambda =
     (let n = length window in select_loop ops window scores lambda n (replicate n False) (replicate n 0) [])"

fun take_slots :: "'a option list \<Rightarrow> nat list \<Rightarrow> 'a list" where
  "take_slots slots [] = []"
| "take_slots slots (i # is) = (case slots ! i of
     None \<Rightarrow> take_slots slots is
   | Some h \<Rightarrow> h # take_slots (slots[i := None]) is)"

text \<open>The vector a hit is compared by: the first scored name it carries, else its primary row.\<close>

definition mmr_row :: "string list \<Rightarrow> doc_entry \<Rightarrow> nat option" where
  "mmr_row names e = (case List.map_filter (aget (de_rows e)) names of
     r # _ \<Rightarrow> Some r | [] \<Rightarrow> primary_row e)"

definition mmr_candidate :: "float_ops \<Rightarrow> store \<Rightarrow> string list \<Rightarrow> hit \<Rightarrow> search_error + candidate" where
  "mmr_candidate ops s names h = (case Option.bind (doc_of s (h_collection h) (h_id h)) (mmr_row names) of
     None \<Rightarrow> Inr None
   | Some r \<Rightarrow> (case segs_row (st_data s) r of
         None \<Rightarrow> Inl (RowOutOfRange r)
       | Some v \<Rightarrow> Inr (Some (v, f_sqrt ops (f32_sum ops (map (\<lambda>x. f_mul ops x x) v))))))"

definition diversify :: "float_ops \<Rightarrow> store \<Rightarrow> f32 \<Rightarrow> string list \<Rightarrow> hit list \<Rightarrow> search_error + hit list" where
  "diversify ops s lambda names ranked =
     (let width = min (length ranked) MAX_DIVERSITY_WINDOW; head = take width ranked; tail = drop width ranked in
      if width < 2 then Inr ranked
      else (case join_all (map (mmr_candidate ops s names) head) of
          Inl e \<Rightarrow> Inl e
        | Inr window \<Rightarrow>
            Inr (take_slots (map Some head) (mmr_select ops window (map h_score head) lambda) @ tail)))"

section \<open>Neighbour expansion\<close>

definition is_whitespace :: "uchar \<Rightarrow> bool" where
  "is_whitespace c \<longleftrightarrow> (9 \<le> c \<and> c \<le> 13) \<or> c \<in> {32, 133, 160, 5760, 8232, 8233, 8239, 8287, 12288} \<or> (8192 \<le> c \<and> c \<le> 8202)"

definition blank :: "string \<Rightarrow> bool" where
  "blank s \<longleftrightarrow> list_all is_whitespace (chars s)"

definition expand_validate :: "expand option \<Rightarrow> search_error + unit" where
  "expand_validate e = (case e of
     None \<Rightarrow> Inr ()
   | Some x \<Rightarrow>
       if blank (ex_parent_field x) then Inl (BadQuery ''expand needs a parent_field'')
       else if blank (ex_index_field x) then Inl (BadQuery ''expand needs a index_field'')
       else if blank (ex_text_field x) then Inl (BadQuery ''expand needs a text_field'')
       else Inr ())"

definition META_CHAR_START :: string where "META_CHAR_START = ''nidus.char_start''"

definition coords :: "store \<Rightarrow> expand \<Rightarrow> hit \<Rightarrow> (string \<times> int) option" where
  "coords s x h = (case attrs_of s (h_collection h) (h_id h) of
     None \<Rightarrow> None
   | Some a \<Rightarrow> (case (aget a (ex_parent_field x), aget a (ex_index_field x)) of
         (Some (VStr p), Some (VInt i)) \<Rightarrow> Some (p, i)
       | _ \<Rightarrow> None))"

text \<open>A chunk of a document: its text and where it starts in the source, when it says so.\<close>

type_synonym piece = "uchar list \<times> int option"

definition piece_of :: "expand \<Rightarrow> attrs \<Rightarrow> (string \<times> int \<times> piece) option" where
  "piece_of x a = (case (aget a (ex_parent_field x), aget a (ex_index_field x), aget a (ex_text_field x)) of
     (Some (VStr p), Some (VInt i), Some (VStr t)) \<Rightarrow>
       Some (p, i, chars t, (case aget a META_CHAR_START of Some (VInt c) \<Rightarrow> Some c | _ \<Rightarrow> None))
   | _ \<Rightarrow> None)"

text \<open>The chunks of one document by index; a later one of the same index replaces an earlier one.\<close>

definition pieces_of :: "read_env \<Rightarrow> store \<Rightarrow> expand \<Rightarrow> string \<Rightarrow> string \<Rightarrow> (int, piece) amap" where
  "pieces_of env s x c parent = (case aget (st_collections s) c of
     None \<Rightarrow> []
   | Some col \<Rightarrow> fold (\<lambda>(i, p). aput i p)
       (List.map_filter (\<lambda>(_, e). case piece_of x (de_attrs e) of
          Some (q, i, p) \<Rightarrow> if q = parent then Some (i, p) else None
        | None \<Rightarrow> None) (iter_docs env col)) [])"

text \<open>\<^verbatim>\<open>end - start\<close> and \<^verbatim>\<open>start + len\<close> are \<^verbatim>\<open>i64\<close> operations that wrap in a release build.\<close>

definition wrap_i64 :: "int \<Rightarrow> int" where
  "wrap_i64 x = (x + 2 ^ 63) mod 2 ^ 64 - 2 ^ 63"

text \<open>\<^verbatim>\<open>as usize\<close> of a negative count is a huge one: everything is skipped.\<close>

definition skip_count :: "int \<Rightarrow> nat \<Rightarrow> nat" where
  "skip_count gap len = (let m = min (wrap_i64 gap) (int len) in if m < 0 then len else nat m)"

fun stitch_loop :: "piece list \<Rightarrow> uchar list \<Rightarrow> int option \<Rightarrow> uchar list" where
  "stitch_loop [] out written = out"
| "stitch_loop ((t, start) # ps) out written =
     (let (text, contiguous) = (case (written, start) of
          (Some e, Some st) \<Rightarrow>
            if st < e then (drop (skip_count (e - st) (length t)) t, True) else (t, st = e)
        | _ \<Rightarrow> (t, False));
          written' = (case start of
            Some st \<Rightarrow> Some (max (case written of Some e \<Rightarrow> e | None \<Rightarrow> i64_min) (wrap_i64 (st + int (length t))))
          | None \<Rightarrow> written) in
      if text = [] then stitch_loop ps out written'
      else stitch_loop ps ((if out \<noteq> [] \<and> \<not> contiguous then out @ [10, 10] else out) @ text) written')"

definition stitch :: "piece list \<Rightarrow> uchar list option" where
  "stitch ps = (let out = stitch_loop ps [] None in if out = [] then None else Some out)"

text \<open>The chunks of a window; \<^verbatim>\<open>BTreeMap::range\<close> panics on a range that starts past its end.\<close>

definition window_of :: "int \<Rightarrow> nat \<Rightarrow> (int, piece) amap \<Rightarrow> search_error + piece list" where
  "window_of index radius ps =
     (let r = wrap_i64 (int radius); lo = sat_sub index r; hi = sat_add index r in
      if lo > hi then Inl (InvertedWindow lo hi)
      else Inr (map snd (filter (\<lambda>(i, _). lo \<le> i \<and> i \<le> hi) ps)))"

definition expand_hit :: "read_env \<Rightarrow> store \<Rightarrow> expand \<Rightarrow> hit \<Rightarrow> search_error + hit" where
  "expand_hit env s x h = (case coords s x h of
     None \<Rightarrow> Inr h
   | Some (parent, index) \<Rightarrow>
       (let ps = pieces_of env s x (h_collection h) parent in
        if ps = [] then Inr h
        else (case window_of index (ex_radius x) ps of
            Inl e \<Rightarrow> Inl e
          | Inr w \<Rightarrow> Inr (h\<lparr>h_context := stitch w\<rparr>))))"

definition widen_hits :: "read_env \<Rightarrow> store \<Rightarrow> expand \<Rightarrow> hit list \<Rightarrow> search_error + hit list" where
  "widen_hits env s x hits = join_all (map (expand_hit env s x) hits)"

section \<open>The cap keeps the best hits of every value\<close>

definition seen_count :: "(string, nat) amap \<Rightarrow> string \<Rightarrow> nat" where
  "seen_count seen v = (case aget seen v of Some n \<Rightarrow> n | None \<Rightarrow> 0)"

lemma seen_count_aput [simp]: "seen_count (aput k n seen) = (seen_count seen)(k := n)"
  by (auto simp: seen_count_def)

lemma length_amap: "amap_wf m \<Longrightarrow> length m = card (fst ` set m)"
  using amap_wf_distinct[of m] distinct_card[of "akeys m"] by simp

lemma cap_walk_groups:
  assumes "amap_wf seen" and "card (fst ` set seen \<union> key ` set hs) \<le> MAX_GROUPS"
  shows "filter (\<lambda>h. key h = v) (cap_walk key m seen hs) =
    take (m - seen_count seen v) (filter (\<lambda>h. key h = v) hs)"
  using assms
proof (induction hs arbitrary: seen)
  case (Cons h hs)
  have bound: "card (insert (key h) (fst ` set seen) \<union> key ` set hs) \<le> MAX_GROUPS"
    using Cons.prems(2) by (simp add: insert_commute)
  show ?case
  proof (cases "aget seen (key h)")
    case None
    then have "key h \<notin> fst ` set seen" by (simp add: map_of_eq_None_iff)
    then have "Suc (length seen) = card (insert (key h) (fst ` set seen))"
      using length_amap[OF Cons.prems(1)] by simp
    also have "\<dots> \<le> MAX_GROUPS" using bound by (meson card_mono finite_UnI finite_imageI finite_set finite.insertI le_trans Un_upper1)
    finally have "length seen < MAX_GROUPS" by simp
    moreover have "seen_count seen (key h) = 0" using None by (simp add: seen_count_def)
    ultimately show ?thesis using None bound Cons.prems(1) Cons.IH[of "aput (key h) 1 seen"]
      by (cases m) (auto simp: numeral_eq_Suc)
  next
    case (Some n)
    then have n: "seen_count seen (key h) = n" by (simp add: seen_count_def)
    have IH: "filter (\<lambda>h. key h = v) (cap_walk key m (aput (key h) (Suc n) seen) hs) =
        take (m - (if v = key h then Suc n else seen_count seen v)) (filter (\<lambda>h. key h = v) hs)"
      using bound Cons.prems(1) Cons.IH[of "aput (key h) (Suc n) seen"] by simp
    have "m - n = Suc (m - Suc n)" if "Suc n \<le> m" using that by simp
    then show ?thesis using Some n IH by (cases "Suc n \<le> m"; cases "v = key h") simp_all
  qed
qed simp

lemma cap_walk_subseq: "subseq (cap_walk key m seen hs) hs"
proof (induction hs arbitrary: seen)
  case (Cons h hs)
  have "subseq (ks @ cap_walk key m seen' hs) (h # hs)" if "ks = [] \<or> ks = [h]" for ks seen'
    using that Cons[of seen'] by (auto intro: list_emb_Cons)
  from this[of "[]"] this[of "[h]"] show ?case by (simp split: option.split)
qed simp

text \<open>
  C33 (the cap per value). Of a ranking whose hits fall into at most ten thousand groups, the cap
  keeps for every group exactly its first hits up to the cap and leaves the kept hits in their
  order. A group is a group key: values of the capped attribute with the same key count as one, as
  an empty list and a list of one empty string do, and so do all records without the attribute.
\<close>
theorem cap_keeps_best_of_each:
  assumes "card (hit_group s cap ` set hits) \<le> MAX_GROUPS"
  shows "(\<forall>v. filter (\<lambda>h. hit_group s cap h = v) (cap_per_value s cap hits) =
      take (lp_max cap) (filter (\<lambda>h. hit_group s cap h = v) hits)) \<and> subseq (cap_per_value s cap hits) hits"
  using cap_walk_groups[of "[]" "hit_group s cap" hits] assms
  by (simp add: cap_per_value_def cap_walk_subseq seen_count_def)

section \<open>The spread only reorders\<close>

lemma pick_best_fold:
  fixes taken :: "bool list"
  defines "f \<equiv> \<lambda>mmr w i. if taken ! i then w
     else (case w of None \<Rightarrow> Some (i, mmr i) | Some (_, b) \<Rightarrow> if f32_less b (mmr i) then Some (i, mmr i) else w)"
  shows "(foldl (f mmr) w ixs = None \<longleftrightarrow> w = None \<and> (\<forall>i \<in> set ixs. taken ! i)) \<and>
    (\<forall>p m. foldl (f mmr) w ixs = Some (p, m) \<longrightarrow> w = Some (p, m) \<or> (p \<in> set ixs \<and> \<not> taken ! p))"
proof (induction ixs arbitrary: w)
  case (Cons i js)
  show ?case using Cons[of "f mmr w i"] by (auto simp: f_def split: option.splits if_splits)
qed simp

lemma pick_best_None: "pick_best mmr taken = None \<longleftrightarrow> list_all (\<lambda>b. b) taken"
  using pick_best_fold[where taken = taken and mmr = mmr and w = None and ixs = "[0..<length taken]"]
  by (auto simp: pick_best_def list_all_length)

lemma pick_best_Some: "pick_best mmr taken = Some (p, m) \<Longrightarrow> p < length taken \<and> \<not> taken ! p"
  using pick_best_fold[where taken = taken and mmr = mmr and w = None and ixs = "[0..<length taken]"]
  by (auto simp: pick_best_def)

lemma select_loop_perm:
  assumes "distinct order" and "set order = {i. i < length taken \<and> taken ! i}" and "length taken \<le> k + length order"
  shows "distinct (select_loop ops window scores lambda k taken sims order) \<and>
    set (select_loop ops window scores lambda k taken sims order) = {..<length taken}"
  using assms
proof (induction k arbitrary: taken sims order)
  case 0
  have "card (set order) = length order" using 0(1) by (rule distinct_card)
  then have "card {..<length taken} \<le> card (set order)" using 0 by simp
  moreover have "set order \<subseteq> {..<length taken}" using 0 by auto
  ultimately have "set order = {..<length taken}" using card_seteq[of "{..<length taken}" "set order"] by simp
  then show ?case using 0 by simp
next
  case (Suc k)
  show ?case
  proof (cases "pick_best (\<lambda>i. mmr_score ops lambda (scores ! i) (sims ! i)) taken")
    case None
    then have "{i. i < length taken \<and> taken ! i} = {..<length taken}"
      by (auto simp: pick_best_None list_all_length)
    then show ?thesis using None Suc.prems by simp
  next
    case (Some pm)
    obtain p m where pm: "pm = (p, m)" by (cases pm)
    have p: "p < length taken" "\<not> taken ! p" using Some pick_best_Some unfolding pm by blast+
    have set: "set (order @ [p]) = {i. i < length (taken[p := True]) \<and> taken[p := True] ! i}"
      using p Suc.prems(2) by (auto simp: nth_list_update)
    show ?thesis
      using Suc.IH[of "order @ [p]" "taken[p := True]"] Suc.prems p set by (simp add: Some pm Let_def)
  qed
qed

lemma mmr_select_perm:
  "distinct (mmr_select ops window scores lambda)"
  "set (mmr_select ops window scores lambda) = {..<length window}"
  using select_loop_perm[of "[]" "replicate (length window) False" "length window"]
  by (simp_all add: mmr_select_def Let_def)

lemma take_slots_nth:
  assumes "distinct order" and "\<forall>i \<in> set order. i < length slots \<and> slots ! i = Some (hs ! i)"
  shows "take_slots slots order = map (\<lambda>i. hs ! i) order"
  using assms
proof (induction order arbitrary: slots)
  case (Cons i js)
  have "\<forall>j \<in> set js. j < length (slots[i := None]) \<and> slots[i := None] ! j = Some (hs ! j)"
    using Cons.prems by (auto simp: nth_list_update)
  then show ?case using Cons.prems Cons.IH[of "slots[i := None]"] by simp
qed simp

lemma mset_map_nth:
  assumes "distinct order" and "set order = {..<length hs}"
  shows "mset (map (\<lambda>i. hs ! i) order) = mset hs"
proof -
  have "mset order = mset [0..<length hs]" using assms by (metis set_eq_iff_mset_eq_distinct distinct_upt atLeast0LessThan set_upt)
  then show ?thesis by (metis map_nth mset_map)
qed

lemma join_all_length: "join_all xs = Inr ys \<Longrightarrow> length ys = length xs"
  by (induction xs arbitrary: ys rule: join_all.induct) (auto split: sum.splits)

lemma take_min: "take (min (length xs) n) xs = take n xs"
  by (simp add: min_def)

text \<open>
  C34 (the spread). Reordering a ranking by maximal marginal relevance, whatever the vectors, the
  scores and the weight, NaN included, returns every hit once: the hits past the window of 512
  stay where they are and those inside are permuted.
\<close>
theorem diversify_permutes:
  assumes "diversify ops s lambda names ranked = Inr out"
  shows "mset (take MAX_DIVERSITY_WINDOW out) = mset (take MAX_DIVERSITY_WINDOW ranked) \<and>
    drop MAX_DIVERSITY_WINDOW out = drop MAX_DIVERSITY_WINDOW ranked"
proof -
  let ?w = "min (length ranked) MAX_DIVERSITY_WINDOW"
  show ?thesis
  proof (cases "?w < 2")
    case True
    then show ?thesis using assms by (simp add: diversify_def Let_def)
  next
    case False
    obtain window where win: "join_all (map (mmr_candidate ops s names) (take ?w ranked)) = Inr window"
      and out: "out = take_slots (map Some (take ?w ranked)) (mmr_select ops window (map h_score (take ?w ranked)) lambda) @ drop ?w ranked"
      using assms False by (auto simp: diversify_def Let_def split: sum.splits)
    let ?o = "mmr_select ops window (map h_score (take ?w ranked)) lambda"
    have len: "length window = ?w" using join_all_length[OF win] by simp
    have slots: "take_slots (map Some (take ?w ranked)) ?o = map (\<lambda>i. take ?w ranked ! i) ?o"
      by (rule take_slots_nth) (auto simp: mmr_select_perm len)
    have perm: "mset (map (\<lambda>i. take ?w ranked ! i) ?o) = mset (take ?w ranked)"
      by (rule mset_map_nth) (simp_all add: mmr_select_perm len)
    let ?h = "map (\<lambda>i. take ?w ranked ! i) ?o"
    have "length ?h = ?w" using mset_eq_length[OF perm] by simp
    then have "take MAX_DIVERSITY_WINDOW (?h @ drop ?w ranked) = ?h"
      "drop MAX_DIVERSITY_WINDOW (?h @ drop ?w ranked) = drop MAX_DIVERSITY_WINDOW ranked"
      by (auto simp: min_def split: if_splits)
    then show ?thesis using perm unfolding out slots by (simp only: take_min)
  qed
qed

section \<open>Overlapping chunks are stitched back into their source\<close>

definition src_slice :: "'a list \<Rightarrow> nat \<Rightarrow> nat \<Rightarrow> 'a list" where
  "src_slice src a b = take (b - a) (drop a src)"

definition chunk_piece :: "uchar list \<Rightarrow> nat \<times> nat \<Rightarrow> piece" where
  "chunk_piece src w = (src_slice src (fst w) (snd w), Some (int (fst w)))"

text \<open>Each window starts no later than the text written so far reaches, and ends in the source.\<close>

fun chained :: "nat \<Rightarrow> nat \<Rightarrow> (nat \<times> nat) list \<Rightarrow> bool" where
  "chained n e [] \<longleftrightarrow> True"
| "chained n e ((a, b) # ws) \<longleftrightarrow> a \<le> e \<and> a \<le> b \<and> b \<le> n \<and> chained n (max e b) ws"

lemma length_slice: "b \<le> length src \<Longrightarrow> length (src_slice src a b) = b - a"
  by (simp add: src_slice_def)

lemma slice_append: "lo \<le> e \<Longrightarrow> e \<le> b \<Longrightarrow> src_slice src lo e @ src_slice src e b = src_slice src lo b"
proof -
  assume "lo \<le> e" "e \<le> b"
  then have "b - lo = (e - lo) + (b - e)" "drop e src = drop (e - lo) (drop lo src)" by simp_all
  then show ?thesis by (simp add: src_slice_def take_add)
qed

lemma drop_slice: "drop k (src_slice src a b) = src_slice src (a + k) b"
  by (simp add: src_slice_def drop_take ac_simps)

lemma wrap_i64_id: "i64_min \<le> x \<Longrightarrow> x \<le> i64_max \<Longrightarrow> wrap_i64 x = x"
  by (simp add: wrap_i64_def)

lemma stitch_step:
  assumes "lo \<le> e" and "a \<le> e" and "a \<le> b" and "b \<le> length src" and "e \<le> length src" and "int (length src) \<le> i64_max"
  shows "stitch_loop (chunk_piece src (a, b) # ps) (src_slice src lo e) (Some (int e)) =
    stitch_loop ps (src_slice src lo (max e b)) (Some (int (max e b)))"
proof -
  let ?t = "src_slice src a b"
  have len: "length ?t = b - a" using assms by (simp add: length_slice)
  have reach: "wrap_i64 (int a + int (length ?t)) = int b" using len assms by (simp add: wrap_i64_id)
  show ?thesis
  proof (cases "a < e")
    case True
    have "wrap_i64 (int e - int a) = int (e - a)" using True assms by (simp add: wrap_i64_id)
    then have skip: "skip_count (int e - int a) (length ?t) = min (e - a) (b - a)"
      using len by (simp add: skip_count_def Let_def min_def)
    have "src_slice src lo e @ drop (min (e - a) (b - a)) ?t = src_slice src lo (max e b)"
    proof (cases "e \<le> b")
      case True
      then have "drop (min (e - a) (b - a)) ?t = src_slice src e b" using \<open>a < e\<close> by (simp add: drop_slice min_absorb1)
      then show ?thesis using True \<open>a < e\<close> assms slice_append[of lo e b src] by (simp add: max_def)
    qed (use len in \<open>simp add: max_def min_def\<close>)
    then show ?thesis using True reach skip by (auto simp: chunk_piece_def Let_def max_def)
  next
    case False
    then have "a = e" using assms(2) by simp
    then show ?thesis using reach assms slice_append[of lo e b src] by (auto simp: chunk_piece_def Let_def max_def)
  qed
qed

lemma stitch_chain:
  assumes "chained (length src) e ws" and "lo \<le> e" and "e \<le> length src" and "int (length src) \<le> i64_max"
  shows "stitch_loop (map (chunk_piece src) ws) (src_slice src lo e) (Some (int e)) = src_slice src lo (fold (max \<circ> snd) ws e)"
  using assms
proof (induction ws arbitrary: e)
  case (Cons w ws)
  obtain a b where w: "w = (a, b)" by (cases w)
  then show ?case using Cons.prems Cons.IH[of "max e b"] stitch_step[of lo e a b src "map (chunk_piece src) ws"]
    by (simp add: max.commute le_max_iff_disj)
qed simp

lemma stitch_slices:
  assumes "chained (length src) b ws" and "a < b" and "b \<le> length src" and "int (length src) \<le> i64_max"
  shows "stitch (map (chunk_piece src) ((a, b) # ws)) = Some (src_slice src a (fold (max \<circ> snd) ws b))"
proof -
  have ne: "src_slice src a b \<noteq> []" using length_slice[of b src a] assms(2,3) by fastforce
  have "wrap_i64 (int a + int (length (src_slice src a b))) = int b" using assms by (simp add: length_slice wrap_i64_id)
  then have "stitch_loop (map (chunk_piece src) ((a, b) # ws)) [] None = src_slice src a (fold (max \<circ> snd) ws b)"
    using ne assms stitch_chain[OF assms(1), of a] by (simp add: chunk_piece_def[of _ "(a, b)"] Let_def)
  moreover have "b \<le> fold (max \<circ> snd) ws b" by (induction ws arbitrary: b) (auto intro: order.trans[OF max.cobounded2])
  ultimately show ?thesis using assms(2,3) by (simp add: stitch_def Let_def src_slice_def)
qed

section \<open>Concrete runs\<close>

definition demo_hit :: "string \<Rightarrow> string \<Rightarrow> f32 \<Rightarrow> hit" where
  "demo_hit c did score = \<lparr>h_collection = c, h_id = did, h_score = score, h_attrs = [], h_context = None\<rparr>"

definition demo_cap :: limit_per where
  "demo_cap = \<lparr>lp_field = ''k'', lp_max = 1\<rparr>"

lemma demo_groups:
  "hit_group demo_full demo_cap (demo_hit ''a'' ''x'' z) = ''i1''"
  "hit_group demo_full demo_cap (demo_hit ''a'' ''y'' z) = CHR 0x00 # ''missing''"
  "hit_group demo_full demo_cap (demo_hit ''b'' ''z'' z) = CHR 0x00 # ''missing''"
proof -
  have "show_int 1 = ''1''" by code_simp
  then show "hit_group demo_full demo_cap (demo_hit ''a'' ''x'' z) = ''i1''"
    "hit_group demo_full demo_cap (demo_hit ''a'' ''y'' z) = CHR 0x00 # ''missing''"
    "hit_group demo_full demo_cap (demo_hit ''b'' ''z'' z) = CHR 0x00 # ''missing''"
    by (simp_all add: hit_group_def demo_hit_def attrs_of_def doc_of_def demo_full_defs demo_cap_def group_key_def)
qed

theorem cap_keeps_best_of_each_witness:
  "filter (\<lambda>h. hit_group demo_full demo_cap h = CHR 0x00 # ''missing'')
     (cap_per_value demo_full demo_cap [demo_hit ''a'' ''y'' 3, demo_hit ''a'' ''x'' 2, demo_hit ''b'' ''z'' 1]) = [demo_hit ''a'' ''y'' 3]"
proof -
  let ?hs = "[demo_hit ''a'' ''y'' 3, demo_hit ''a'' ''x'' 2, demo_hit ''b'' ''z'' 1]"
  have "card (hit_group demo_full demo_cap ` set ?hs) \<le> MAX_GROUPS"
    by (rule order.trans[OF card_image_le]) (simp_all add: MAX_GROUPS_def card_insert_if)
  from cap_keeps_best_of_each[OF this] show ?thesis by (simp add: demo_groups) (simp add: demo_cap_def)
qed

theorem diversify_permutes_witness:
  "\<exists>out. diversify demo_float demo_full 0x3F000000 [] [demo_hit ''a'' ''x'' 1, demo_hit ''a'' ''y'' 2] = Inr out \<and>
     mset (take MAX_DIVERSITY_WINDOW out) = mset [demo_hit ''a'' ''x'' 1, demo_hit ''a'' ''y'' 2]"
proof -
  let ?hs = "[demo_hit ''a'' ''x'' 1, demo_hit ''a'' ''y'' 2]"
  have "\<exists>out. diversify demo_float demo_full 0x3F000000 [] ?hs = Inr out"
    by (simp add: diversify_def MAX_DIVERSITY_WINDOW_def mmr_candidate_def demo_hit_def doc_of_def demo_full_defs
        mmr_row_def primary_row_def DEFAULT_VECTOR_def segs_row_def seg_row_def seg_vectors_def)
  then obtain out where out: "diversify demo_float demo_full 0x3F000000 [] ?hs = Inr out" ..
  then show ?thesis using diversify_permutes[OF out] by (auto simp: MAX_DIVERSITY_WINDOW_def)
qed

text \<open>
  A radius past the range of \<^verbatim>\<open>i64\<close> wraps to a negative one: the window starts past its end and the
  expansion of a hit that has chunks fails instead of returning its text.
\<close>

lemma huge_radius_fails: "window_of 5 (2 ^ 64 - 1) ps = Inl (InvertedWindow 6 4)"
  by (simp add: window_of_def wrap_i64_def sat_sub_def sat_add_def clamp_i64_def)

text \<open>The group keys of an empty list and of a list of one empty string are the same.\<close>

lemma group_keys_collide: "group_key (Some (VList [])) = group_key (Some (VList [[]]))"
  by (simp add: group_key_def)

end
