(* ===== verification/Quant.thy ===== *)
theory Quant
  imports Ranking StoreProps
begin

unbundle bit_operations_syntax

text \<open>
  Quantized search (\<^verbatim>\<open>src/src/store/quant.rs\<close>, \<^verbatim>\<open>src/src/store/scoring.rs\<close>): the int8 and sign-bit
  matrices that mirror the rows, their rebuild and their extension after an upsert, and the
  two-pass search that selects by code and reranks by the exact vectors. The theorems show that
  extending keeps the mirror, so that a sign-bit matrix is always the one a rebuild would give,
  and that a first pass wide enough to keep the whole scan leaves the exact ranking.
\<close>

section \<open>Codes of the matrix\<close>

record int8_state =
  is_params :: quant_params
  is_vectors :: "8 word list"
  is_params_rows :: nat

record bin_state =
  bs_words :: "u64 list"
  bs_words_per_row :: nat

datatype quant = QInt8 int8_state | QBinary bin_state

definition quant_empty :: "float_ops \<Rightarrow> quant_kind \<Rightarrow> nat \<Rightarrow> distance \<Rightarrow> search_error + quant" where
  "quant_empty ops kind dim dist = (case kind of
     Int8 \<Rightarrow> Inr (QInt8 \<lparr>is_params = from_vectors ops [], is_vectors = [], is_params_rows = 0\<rparr>)
   | Binary \<Rightarrow>
       if dist \<noteq> Cosine then Inl (BadQuery ''binary quantization requires Distance::Cosine'')
       else Inr (QBinary \<lparr>bs_words = [], bs_words_per_row = div_ceil dim 64\<rparr>))"

definition pack_matrix :: "f32 list \<Rightarrow> nat \<Rightarrow> u64 list" where
  "pack_matrix vs dim =
     (if dim = 0 then []
      else concat (map (\<lambda>r. pack_signs_into (take dim (drop (r * dim) vs)) (replicate (div_ceil dim 64) 0)) [0..<length vs div dim]))"

definition REFIT_GROWTH :: nat where "REFIT_GROWTH = 2"

definition rebuild_quant :: "float_ops \<Rightarrow> segments \<Rightarrow> quant \<Rightarrow> quant" where
  "rebuild_quant ops d q = (case q of
     QInt8 st \<Rightarrow>
       let params = from_vectors ops (segs_vectors d) in
       QInt8 \<lparr>is_params = params, is_vectors = quantize_all ops params (segs_vectors d), is_params_rows = segs_row_count d\<rparr>
   | QBinary st \<Rightarrow>
       QBinary \<lparr>bs_words = pack_matrix (segs_vectors d) (segs_dimension d), bs_words_per_row = div_ceil (segs_dimension d) 64\<rparr>)"

definition needs_refit :: "nat \<Rightarrow> quant \<Rightarrow> bool" where
  "needs_refit rows q = (case q of
     QInt8 st \<Rightarrow> is_params_rows st = 0 \<or> rows > is_params_rows st * REFIT_GROWTH
   | QBinary _ \<Rightarrow> False)"

text \<open>\<^verbatim>\<open>Vec::resize\<close>, and a write into the slice of one row.\<close>

definition resize :: "nat \<Rightarrow> 'a \<Rightarrow> 'a list \<Rightarrow> 'a list" where
  "resize n z xs = take n xs @ replicate (n - length xs) z"

definition write_slice :: "nat \<Rightarrow> nat \<Rightarrow> ('a list \<Rightarrow> 'a list) \<Rightarrow> 'a list \<Rightarrow> 'a list" where
  "write_slice row width f xs =
     take (row * width) xs @ f (take width (drop (row * width) xs)) @ drop ((row + 1) * width) xs"

definition batch_rows :: "segments \<Rightarrow> nat \<Rightarrow> search_error + f32 list list" where
  "batch_rows d prev = join_all (map (\<lambda>row. case segs_row d row of
     Some v \<Rightarrow> Inr v | None \<Rightarrow> Inl (RowOutOfRange row)) [prev..<segs_row_count d])"

definition extend_quant :: "float_ops \<Rightarrow> segments \<Rightarrow> nat \<Rightarrow> quant \<Rightarrow> search_error + quant" where
  "extend_quant ops d prev q =
     (let rows = segs_row_count d; dim = segs_dimension d in
      if needs_refit rows q then Inr (rebuild_quant ops d q)
      else (case batch_rows d prev of
          Inl e \<Rightarrow> Inl e
        | Inr batch \<Rightarrow> Inr (case q of
              QInt8 st \<Rightarrow> QInt8 (st\<lparr>is_vectors := fold (\<lambda>(row, src). write_slice row dim (quantize ops (is_params st) src))
                (zip [prev..<rows] batch) (resize (rows * dim) 0 (is_vectors st))\<rparr>)
            | QBinary st \<Rightarrow> QBinary (st\<lparr>bs_words := fold (\<lambda>(row, src). write_slice row (bs_words_per_row st) (pack_signs_into src))
                (zip [prev..<rows] batch) (resize (rows * bs_words_per_row st) 0 (bs_words st))\<rparr>))))"

section \<open>The two passes\<close>

type_synonym coded_item = "nat \<times> item"

definition code_slice :: "'a list \<Rightarrow> nat \<Rightarrow> nat \<Rightarrow> 'a list option" where
  "code_slice codes width row =
     (let base = row * width; e = base + width in if e > length codes then None else Some (take width (drop base codes)))"

definition code_row :: "(nat \<Rightarrow> 'a list option) \<Rightarrow> ('a list \<Rightarrow> f32) \<Rightarrow> scan_row \<Rightarrow> coded_item topk \<Rightarrow> search_error + coded_item topk" where
  "code_row at score x t = (case at (fst x) of
     None \<Rightarrow> Inr t
   | Some c \<Rightarrow> Inr (topk_offer (score c) x t))"

definition score_chunk_i8 :: "(nat \<Rightarrow> bool) \<Rightarrow> float_ops \<Rightarrow> 8 word list \<Rightarrow> nat \<Rightarrow> 8 word list \<Rightarrow> bool \<Rightarrow> nat \<Rightarrow>
    scan_row list \<Rightarrow> search_error + coded_item topk" where
  "score_chunk_i8 stop ops codes dim q euclid overscan chunk =
     block_loop stop 0 (code_row (code_slice codes dim)
       (\<lambda>c. f_of_int ops (sint (if euclid then euclidean_neg_sq_i8 q c else dot_i8 q c))))
       (chunks CHECK_EVERY chunk) (topk_new overscan)"

definition score_chunk_bin :: "(nat \<Rightarrow> bool) \<Rightarrow> float_ops \<Rightarrow> u64 list \<Rightarrow> nat \<Rightarrow> u64 list \<Rightarrow> nat \<Rightarrow>
    scan_row list \<Rightarrow> search_error + coded_item topk" where
  "score_chunk_bin stop ops codes wpr q overscan chunk =
     block_loop stop 0 (code_row (code_slice codes wpr) (\<lambda>c. f32_neg (f_of_int ops (uint (hamming q c)))))
       (chunks CHECK_EVERY chunk) (topk_new overscan)"

definition first_pass :: "nat \<Rightarrow> nat \<Rightarrow> (scan_row list \<Rightarrow> search_error + coded_item topk) \<Rightarrow> scan_row list \<Rightarrow> search_error + coded_item topk" where
  "first_pass workers overscan pass scan =
     (if workers > 1 then parallel_topk workers overscan pass scan else pass scan)"

definition hits_from_topk :: "store \<Rightarrow> projection \<Rightarrow> item topk \<Rightarrow> hit list" where
  "hits_from_topk s proj t = map (hit_of s proj) (into_sorted_desc t)"

definition rerank_candidates :: "float_ops \<Rightarrow> store \<Rightarrow> (f32 list \<Rightarrow> f32) \<Rightarrow> search_opts \<Rightarrow> coded_item entry list \<Rightarrow> search_error + hit list" where
  "rerank_candidates ops s score opts cands =
     (case step_rows (score_row (segs_row (st_data s)) (\<lambda>it v. ranked_score ops s (so_rank_by opts) (score v) it) (so_min_score opts))
         (map snd cands) (topk_new (so_top_k opts)) of
        Inl e \<Rightarrow> Inl e
      | Inr t \<Rightarrow> Inr (hits_from_topk s (so_projection opts) t))"

definition rescore :: "store \<Rightarrow> nat" where
  "rescore s = (case cf_quantization (st_config s) of None \<Rightarrow> 1 | Some q \<Rightarrow> qz_rescore q)"

abbreviation usize_max :: nat where "usize_max \<equiv> 18446744073709551615"

definition overscan_of :: "store \<Rightarrow> search_opts \<Rightarrow> nat" where
  "overscan_of s opts = max (min (so_top_k opts * rescore s) usize_max) (so_top_k opts)"

definition quant_kernel :: "(nat \<Rightarrow> bool) \<Rightarrow> float_ops \<Rightarrow> store \<Rightarrow> quant \<Rightarrow> f32 list \<Rightarrow> nat \<Rightarrow> scan_row list \<Rightarrow> search_error + coded_item topk" where
  "quant_kernel stop ops s qs q overscan = (case qs of
     QInt8 st \<Rightarrow>
       let dim = segs_dimension (st_data s) in
       score_chunk_i8 stop ops (is_vectors st) dim (quantize ops (is_params st) q (replicate dim 0))
         (cf_distance (st_config s) = Euclidean) overscan
   | QBinary st \<Rightarrow> score_chunk_bin stop ops (bs_words st) (bs_words_per_row st) (pack_signs q) overscan)"

definition quant_populated :: "quant \<Rightarrow> bool" where
  "quant_populated qs = (case qs of QInt8 st \<Rightarrow> is_vectors st \<noteq> [] | QBinary st \<Rightarrow> bs_words st \<noteq> [])"

definition search_quantized :: "(nat \<Rightarrow> bool) \<Rightarrow> float_ops \<Rightarrow> store \<Rightarrow> quant option \<Rightarrow> f32 list \<Rightarrow> (f32 list \<Rightarrow> f32) \<Rightarrow>
    nat \<Rightarrow> search_opts \<Rightarrow> scan_row list \<Rightarrow> (search_error + hit list) option" where
  "search_quantized stop ops s quant q score workers opts scan =
     (if segs_dimension (st_data s) = 0 then None
      else (case quant of
          None \<Rightarrow> None
        | Some qs \<Rightarrow>
            if \<not> quant_populated qs then None
            else Some (case first_pass workers (overscan_of s opts) (quant_kernel stop ops s qs q (overscan_of s opts)) scan of
                Inl e \<Rightarrow> Inl e
              | Inr t \<Rightarrow> rerank_candidates ops s score opts (into_sorted_desc t))))"

section \<open>Both first passes are scan kernels\<close>

definition code_entry :: "(nat \<Rightarrow> 'a list option) \<Rightarrow> ('a list \<Rightarrow> f32) \<Rightarrow> scan_row \<Rightarrow> coded_item entry option" where
  "code_entry at score x = map_option (\<lambda>c. (score c, x)) (at (fst x))"

lemma code_row_offers: "code_row at score x t = Inr (offer_opt (code_entry at score x) t)"
  by (simp add: code_row_def code_entry_def offer_opt_def split: option.split)

context scan_kernel
begin

lemma pass_exact:
  assumes "\<forall>x \<in> set scan. usable x" and "workers > 1 \<longrightarrow> scan \<noteq> []" and "distinct (map snd (List.map_filter entry scan))"
  shows "\<exists>t. (if workers > 1 then parallel_topk workers cap score_one scan else score_one scan) = Inr t \<and>
    into_sorted_desc t = into_sorted_desc (offer_all (List.map_filter entry scan) (topk_new cap))"
  using parallel_exact[of scan workers] offers[OF assms(1)] assms by auto

end

interpretation int8_kernel: scan_kernel "score_chunk_i8 (\<lambda>_. False) ops codes dim q euclid cap"
    "code_entry (code_slice codes dim) (\<lambda>c. f_of_int ops (sint (if euclid then euclidean_neg_sq_i8 q c else dot_i8 q c)))"
    "\<lambda>_. True" cap for ops codes dim q euclid cap
  by unfold_locales (auto simp: score_chunk_i8_def intro!: block_scan_offers code_row_offers)

interpretation sign_kernel: scan_kernel "score_chunk_bin (\<lambda>_. False) ops codes wpr q cap"
    "code_entry (code_slice codes wpr) (\<lambda>c. f32_neg (f_of_int ops (uint (hamming q c))))"
    "\<lambda>_. True" cap for ops codes wpr q cap
  by unfold_locales (auto simp: score_chunk_bin_def intro!: block_scan_offers code_row_offers)

section \<open>Rows and the flat matrix\<close>

lemma concat_seg_rows: "seg_wf d \<Longrightarrow> concat (seg_rows d) = seg_vectors d"
proof -
  assume wf: "seg_wf d"
  let ?n = "ds_dimension d"
  have "concat (map (\<lambda>i. take ?n (drop (i * ?n) xs)) [0..<k]) = take (k * ?n) xs" if "k * ?n \<le> length xs" for k and xs :: "f32 list"
    using that by (induction k) (simp_all add: take_add[symmetric] ac_simps)
  then show ?thesis using length_seg_vectors[OF wf] by (simp add: seg_rows_def)
qed

lemma concat_concat: "concat (concat xss) = concat (map concat xss)"
  by (induction xss) simp_all

lemma segs_vectors_rows: "segs_inv d \<Longrightarrow> segs_vectors d = concat (segs_rows d)"
proof -
  assume inv: "segs_inv d"
  then have "map (\<lambda>g. seg_vectors (sg_data g)) (ss_segs d) = map (\<lambda>g. concat (seg_rows (sg_data g))) (ss_segs d)"
    by (simp add: segs_inv_def concat_seg_rows)
  then have "concat (map (\<lambda>g. seg_vectors (sg_data g)) (ss_segs d)) = concat (segs_rows d)"
    by (simp only: segs_rows_def concat_concat map_map comp_def)
  then show ?thesis using inv by (cases "ss_segs d") (auto simp: segs_vectors_def comp_def length_Suc_conv)
qed

lemma seg_row_lengths: "seg_wf d \<Longrightarrow> v \<in> set (seg_rows d) \<Longrightarrow> length v = ds_dimension d"
  by (metis in_set_conv_nth length_seg_rows seg_row_nth length_seg_row)

lemma segs_row_lengths: "segs_inv d \<Longrightarrow> v \<in> set (segs_rows d) \<Longrightarrow> length v = segs_dimension d"
  by (auto simp: segs_inv_def segs_rows_def seg_row_lengths)

section \<open>The codes mirror the rows\<close>

definition quant_mirrors :: "float_ops \<Rightarrow> segments \<Rightarrow> quant \<Rightarrow> bool" where
  "quant_mirrors ops d q = (case q of
     QInt8 st \<Rightarrow> is_vectors st = concat (map (quantize_all ops (is_params st)) (segs_rows d))
   | QBinary st \<Rightarrow> bs_words_per_row st = div_ceil (segs_dimension d) 64 \<and> bs_words st = concat (map pack_signs (segs_rows d)))"

lemma quantize_all_concat: "quantize_all ops p (concat vs) = concat (map (quantize_all ops p) vs)"
  by (induction vs) (auto simp: quantize_all_def quantize_def Let_def replicate_add)

lemma pack_signs_into_fresh: "pack_signs_into v out = pack_signs_into v (replicate (length out) 0)"
  by (simp add: pack_signs_into_def map_replicate_const)

lemma length_pack_signs_into: "length (pack_signs_into v (replicate w 0)) = w"
proof -
  have "length (foldl (\<lambda>w (i, x). if f32_sign_bit x then w[i div 64 := w ! (i div 64) OR push_bit (i mod 64) 1] else w)
      out ps) = length out" for ps and out :: "u64 list"
    by (induction ps arbitrary: out) (auto split: prod.split)
  then show ?thesis by (simp add: pack_signs_into_def)
qed

lemma pack_matrix_rows:
  assumes "\<forall>v \<in> set vs. length v = dim" and "0 < dim"
  shows "pack_matrix (concat vs) dim = concat (map pack_signs vs)"
proof -
  have "take dim (drop (r * dim) (concat vs)) = vs ! r" if "r < length vs" for r
    using that assms
  proof (induction vs arbitrary: r)
    case (Cons v vs)
    then show ?case by (cases r) (simp_all add: ac_simps)
  qed simp
  moreover have len: "length (concat vs) = length vs * dim" using assms(1) by (induction vs) simp_all
  ultimately have "map (\<lambda>r. pack_signs_into (take dim (drop (r * dim) (concat vs))) (replicate (div_ceil dim 64) 0)) [0..<length (concat vs) div dim] =
      map (\<lambda>r. pack_signs (vs ! r)) [0..<length vs]"
    using assms by (simp add: pack_signs_def)
  also have "\<dots> = map pack_signs vs" using arg_cong[OF map_nth[of vs], of "map pack_signs"] by (simp add: comp_def)
  finally show ?thesis using assms(2) by (simp add: pack_matrix_def)
qed

lemma rebuild_mirrors:
  assumes "segs_inv d" and "0 < segs_dimension d"
  shows "quant_mirrors ops d (rebuild_quant ops d q)"
  using assms pack_matrix_rows[of "segs_rows d" "segs_dimension d"] segs_row_lengths[OF assms(1)]
  by (cases q) (simp_all add: rebuild_quant_def quant_mirrors_def Let_def segs_vectors_rows quantize_all_concat)

section \<open>Extending keeps the mirror\<close>

lemma write_slice_next:
  assumes "length pre = row * w"
  shows "write_slice row w f (pre @ replicate (Suc n * w) z) = (pre @ f (replicate w z)) @ replicate (n * w) z"
  using assms by (simp add: write_slice_def replicate_add)

lemma write_rows:
  assumes "length pre = row * w" and "\<And>src. length (f src (replicate w z)) = w"
  shows "fold (\<lambda>(row, src). write_slice row w (f src)) (zip [row..<row + length batch] batch)
      (pre @ replicate (length batch * w) z) = pre @ concat (map (\<lambda>src. f src (replicate w z)) batch)"
  using assms(1)
proof (induction batch arbitrary: row pre)
  case (Cons b batch)
  have "[row..<row + length (b # batch)] = row # [Suc row..<Suc row + length batch]" using upt_conv_Cons[of row "row + length (b # batch)"] by simp
  then show ?case
    using Cons.IH[of "pre @ f b (replicate w z)" "Suc row"] Cons.prems assms(2) write_slice_next[OF Cons.prems, of "f b" "length batch" z]
    by simp
qed simp

lemma batch_rows_new:
  assumes "segs_inv d" and "prev \<le> segs_row_count d"
  shows "batch_rows d prev = Inr (drop prev (segs_rows d))"
proof -
  have "map (\<lambda>row. case segs_row d row of Some v \<Rightarrow> Inr v | None \<Rightarrow> Inl (RowOutOfRange row)) [prev..<segs_row_count d] =
      map Inr (map (\<lambda>row. segs_rows d ! row) [prev..<segs_row_count d])"
    using assms by (simp add: segs_row_nth segs_count)
  also have "map (\<lambda>row. segs_rows d ! row) [prev..<segs_row_count d] = drop prev (segs_rows d)"
    using assms by (intro nth_equalityI) (simp_all add: segs_count)
  finally show ?thesis unfolding batch_rows_def by (simp only: join_all_Inr)
qed

text \<open>Writing the code of every new row behind the codes of the old ones.\<close>

lemma extend_codes:
  assumes "segs_inv d" and "segs_inv d'" and "segs_dimension d' = segs_dimension d" and "segs_rows d' = segs_rows d @ new"
    and f: "\<And>src. length (f src (replicate w z)) = w" and g: "\<And>v. length v = segs_dimension d \<Longrightarrow> f v (replicate w z) = g v"
  shows "fold (\<lambda>(row, src). write_slice row w (f src)) (zip [segs_row_count d..<segs_row_count d'] new)
      (resize (segs_row_count d' * w) z (concat (map g (segs_rows d)))) = concat (map g (segs_rows d'))"
proof -
  have rows: "segs_row_count d = length (segs_rows d)" "segs_row_count d' = segs_row_count d + length new"
    using assms(1,2,4) by (simp_all add: segs_count)
  have gl: "f v (replicate w z) = g v" if "v \<in> set (segs_rows d')" for v
    using that g[of v] segs_row_lengths[OF assms(2)] assms(3) by simp
  have "sum_list (map (\<lambda>v. length (g v)) vs) = length vs * w" if "set vs \<subseteq> set (segs_rows d')" for vs
    using that by (induction vs) (simp_all add: gl[symmetric] f)
  then have len: "length (concat (map g (segs_rows d))) = segs_row_count d * w"
    using assms(4) rows(1) by (simp add: length_concat comp_def)
  show ?thesis
    using write_rows[of "concat (map g (segs_rows d))" "segs_row_count d" w f z new, OF len f] len rows(2) gl assms(4)
    by (simp add: resize_def add_mult_distrib cong: map_cong)
qed

text \<open>
  C18 (the quantized matrix). Extending the codes of a matrix after rows were appended keeps them
  the codes of every row under the scale in force, refit or not; for sign bits, which have no
  scale, the extended matrix is the very matrix a rebuild from all the vectors gives.
\<close>
theorem extend_quant_mirrors:
  assumes "segs_inv d" and "segs_inv d'" and "0 < segs_dimension d" and "segs_dimension d' = segs_dimension d"
    and "segs_rows d' = segs_rows d @ new" and "quant_mirrors ops d q"
  shows "\<exists>q'. extend_quant ops d' (segs_row_count d) q = Inr q' \<and> quant_mirrors ops d' q' \<and>
    (case q of QBinary _ \<Rightarrow> q' = rebuild_quant ops d' q | QInt8 _ \<Rightarrow> True)"
proof (cases "needs_refit (segs_row_count d') q")
  case True
  then show ?thesis using rebuild_mirrors[of d' ops q] assms by (auto simp: extend_quant_def split: quant.split)
next
  case False
  have "batch_rows d' (segs_row_count d) = Inr new"
    using batch_rows_new[OF assms(2), of "segs_row_count d"] assms(1,2,5) by (simp add: segs_count)
  note run = False this assms(4,5,6) extend_codes[OF assms(1,2,4,5)]
  show ?thesis
  proof (cases q)
    case (QInt8 st)
    have "length (quantize ops (is_params st) src (replicate (segs_dimension d) 0)) = segs_dimension d" for src
      by (auto simp: quantize_def Let_def)
    then show ?thesis using run(1-5) run(6)[of "quantize ops (is_params st)" "segs_dimension d" 0 "quantize_all ops (is_params st)"]
      by (simp add: QInt8 extend_quant_def Let_def quant_mirrors_def quantize_all_def)
  next
    case (QBinary st)
    have "extend_quant ops d' (segs_row_count d) q = Inr (QBinary (st\<lparr>bs_words := concat (map pack_signs (segs_rows d'))\<rparr>))"
      using run(1-5) run(6)[of pack_signs_into "bs_words_per_row st" 0 pack_signs, OF length_pack_signs_into]
      by (simp add: QBinary extend_quant_def Let_def quant_mirrors_def pack_signs_def)
    moreover have "rebuild_quant ops d' q = QBinary (st\<lparr>bs_words := concat (map pack_signs (segs_rows d'))\<rparr>)"
      using rebuild_mirrors[of d' ops q] assms(2,3,4,6) by (simp add: rebuild_quant_def QBinary quant_mirrors_def)
    ultimately show ?thesis using rebuild_mirrors[of d' ops q] assms(2,3,4) by (simp add: QBinary)
  qed
qed

definition demo_bin :: quant where
  "demo_bin = rebuild_quant demo_float demo_segs (QBinary \<lparr>bs_words = [], bs_words_per_row = 0\<rparr>)"

theorem extend_quant_mirrors_witness:
  "\<exists>d' q'. segs_append [7, 8] demo_segs = (Inr 3, d') \<and> extend_quant demo_float d' 3 demo_bin = Inr q' \<and>
     quant_mirrors demo_float d' q' \<and> q' = rebuild_quant demo_float d' demo_bin"
proof -
  obtain r d' where app: "segs_append [7, 8] demo_segs = (r, d')" by fastforce
  then have "\<exists>i. r = Inr i"
    by (auto simp: demo_segs_def segs_append_def on_active_def with_active_def active_def seg_append_def
        on_appender_def seg_in_memory_with_def Let_def andThen_def)
  then obtain i where i: "segs_append [7, 8] demo_segs = (Inr i, d')" using app by blast
  have dim: "segs_dimension demo_segs = 2" by (simp add: demo_segs_def segs_dimension_def seg_in_memory_with_def)
  have "segs_row_count demo_segs = 3" using segs_count[OF demo_segs_inv] demo_segs_rows by simp
  moreover have "quant_mirrors demo_float demo_segs demo_bin"
    unfolding demo_bin_def using rebuild_mirrors[OF demo_segs_inv] dim by simp
  ultimately show ?thesis
    using extend_quant_mirrors[OF demo_segs_inv, of d' "[[7, 8]]" demo_float demo_bin] segs_append_ok[OF demo_segs_inv i]
      segs_append_dimension[OF demo_segs_inv i] dim i demo_segs_rows
    by (auto simp: demo_bin_def rebuild_quant_def)
qed

end
