(* ===== verification/Search.thy ===== *)
theory Search
  imports Quant FindexSound
begin

text \<open>
  Vector search (\<^verbatim>\<open>src/src/store/read.rs\<close>): the checks of a query, the depth a ranking is computed
  to, the exact and the two-pass scan, named vectors, and the one tail that caps, spreads, cuts
  the page and widens the hits. Stores with a nearest-neighbour index or segment indexes take the
  same path when the query asks for exact results; their approximate walks are not modelled.
\<close>

section \<open>Checks and depth\<close>

definition MAX_VECTOR_NAMES :: nat where "MAX_VECTOR_NAMES = 16"

fun check_names :: "string list \<Rightarrow> string list \<Rightarrow> search_error + unit" where
  "check_names seen [] = Inr ()"
| "check_names seen (n # ns) =
     (if n = [] then Inl EmptyName
      else if n \<in> set seen then Inl (RepeatedName n)
      else check_names (n # seen) ns)"

fun check_weights :: "(string \<times> f32) list \<Rightarrow> search_error + unit" where
  "check_weights [] = Inr ()"
| "check_weights ((n, w) # ws) =
     (if \<not> f32_finite w \<or> f32_less w 0 then Inl (BadNameWeight n) else check_weights ws)"

definition validate_names :: "search_opts \<Rightarrow> search_error + unit" where
  "validate_names opts =
     (if length (so_names opts) > MAX_VECTOR_NAMES then Inl (TooManyNames (length (so_names opts)))
      else (case check_names [] (so_names opts) of
          Inl e \<Rightarrow> Inl e
        | Inr _ \<Rightarrow> check_weights (so_name_weights opts)))"

definition check_query_opts :: "search_opts \<Rightarrow> search_error + unit" where
  "check_query_opts opts = (case rank_validate (so_rank_by opts) of Inl e \<Rightarrow> Inl e | Inr _ \<Rightarrow>
     (case limit_validate (so_limit_per opts) of Inl e \<Rightarrow> Inl e | Inr _ \<Rightarrow>
     (case diversity_validate (so_diversity opts) of Inl e \<Rightarrow> Inl e | Inr _ \<Rightarrow>
     (case expand_validate (so_expand opts) of Inl e \<Rightarrow> Inl e | Inr _ \<Rightarrow> validate_names opts))))"

definition check_query_dim :: "store \<Rightarrow> f32 list \<Rightarrow> search_error + unit" where
  "check_query_dim s query =
     (let dim = segs_dimension (st_data s) in
      if dim = 0 then Inl NoVectors
      else if length query \<noteq> dim then Inl (QueryDimension (length query) dim)
      else Inr ())"

definition sat_usize :: "nat \<Rightarrow> nat" where
  "sat_usize n = min n usize_max"

definition search_depth :: "search_opts \<Rightarrow> nat" where
  "search_depth opts =
     (let page = sat_usize (so_offset opts + so_top_k opts);
          cap = (if so_limit_per opts \<noteq> None then LIMIT_PER_OVERFETCH else 1);
          spread = (if so_diversity opts \<noteq> None then MMR_OVERFETCH else 1)
      in sat_usize (page * max cap spread))"

definition deepened :: "search_opts \<Rightarrow> search_opts" where
  "deepened opts = opts\<lparr>so_top_k := search_depth opts, so_offset := 0\<rparr>"

definition paginate :: "nat \<Rightarrow> 'a list \<Rightarrow> 'a list" where
  "paginate offset ranked =
     (if offset = 0 then ranked else if offset \<ge> length ranked then [] else drop offset ranked)"

section \<open>The tail of every ranking\<close>

definition finish :: "read_env \<Rightarrow> store \<Rightarrow> search_opts \<Rightarrow> hit list \<Rightarrow> search_error + hit list" where
  "finish env s opts ranked =
     (let capped = (case so_limit_per opts of Some cap \<Rightarrow> cap_per_value s cap ranked | None \<Rightarrow> ranked) in
      case (case so_diversity opts of
              Some l \<Rightarrow> diversify (re_float env) s l (so_names opts) capped
            | None \<Rightarrow> Inr capped) of
        Inl e \<Rightarrow> Inl e
      | Inr spread \<Rightarrow>
          let hits = take (so_top_k opts) (paginate (so_offset opts) spread) in
          (case so_expand opts of None \<Rightarrow> Inr hits | Some x \<Rightarrow> widen_hits env s x hits))"

section \<open>Ranking a scan\<close>

definition PARALLEL_SCAN_WORK_FLOOR :: nat where "PARALLEL_SCAN_WORK_FLOOR = 1048576"

definition parallel_workers :: "store \<Rightarrow> nat \<Rightarrow> nat" where
  "parallel_workers s n =
     (let threads = max (cf_query_threads (st_config s)) 1 in
      if threads > 1 \<and> sat_usize (n * segs_dimension (st_data s)) \<ge> PARALLEL_SCAN_WORK_FLOOR then threads else 1)"

definition rank_scan_expr :: "(nat \<Rightarrow> bool) \<Rightarrow> float_ops \<Rightarrow> store \<Rightarrow> (f32 list \<Rightarrow> f32) \<Rightarrow> search_opts \<Rightarrow> scan_row list \<Rightarrow> search_error + hit list" where
  "rank_scan_expr stop ops s score opts scan =
     (case block_loop stop 0 (score_row (segs_row (st_data s)) (\<lambda>it v. ranked_score ops s (so_rank_by opts) (score v) it)
         (so_min_score opts)) (chunks CHECK_EVERY scan) (topk_new (so_top_k opts)) of
        Inl e \<Rightarrow> Inl e
      | Inr t \<Rightarrow> Inr (hits_from_topk s (so_projection opts) t))"

definition rank_scan :: "(nat \<Rightarrow> bool) \<Rightarrow> float_ops \<Rightarrow> store \<Rightarrow> (f32 list \<Rightarrow> f32) \<Rightarrow> search_opts \<Rightarrow> scan_row list \<Rightarrow> search_error + hit list" where
  "rank_scan stop ops s score opts scan =
     (if so_rank_by opts \<noteq> None then rank_scan_expr stop ops s score opts scan
      else
        let workers = parallel_workers s (length scan);
            one = score_chunk stop (segs_row (st_data s)) score (so_top_k opts) (so_min_score opts) in
        (case (if workers > 1 then parallel_topk workers (so_top_k opts) one scan else one scan) of
           Inl e \<Rightarrow> Inl e
         | Inr t \<Rightarrow> Inr (hits_from_topk s (so_projection opts) t)))"

definition rank_scan_named :: "(nat \<Rightarrow> bool) \<Rightarrow> float_ops \<Rightarrow> store \<Rightarrow> (f32 list \<Rightarrow> f32) \<Rightarrow> search_opts \<Rightarrow> named_row list \<Rightarrow> search_error + hit list" where
  "rank_scan_named stop ops s score opts scan =
     (let weights = map (\<lambda>n. case aget (so_name_weights opts) n of Some w \<Rightarrow> w | None \<Rightarrow> f32_one) (so_names opts);
          workers = parallel_workers s (length scan);
          one = score_chunk_named stop \<lparr>ro_mul = f_mul ops, ro_add = f_add ops\<rparr> (so_pool opts) weights
            (segs_row (st_data s)) score (so_top_k opts) (so_min_score opts) in
      case (if workers > 1 then parallel_topk_grouped workers (so_top_k opts) one scan else one scan) of
        Inl e \<Rightarrow> Inl e
      | Inr t \<Rightarrow> Inr (hits_from_topk s (so_projection opts) t))"

section \<open>Search\<close>

definition query_vector :: "float_ops \<Rightarrow> store \<Rightarrow> f32 list \<Rightarrow> f32 list" where
  "query_vector ops s query =
     (if cf_distance (st_config s) = Cosine then normalize (f32_ops.truncate ops) query else query)"

definition score_fn :: "float_ops \<Rightarrow> store \<Rightarrow> f32 list \<Rightarrow> f32 list \<Rightarrow> f32" where
  "score_fn ops s = (if cf_distance (st_config s) = Euclidean then euclidean_neg_sq ops else dot ops)"

definition search :: "(nat \<Rightarrow> bool) \<Rightarrow> read_env \<Rightarrow> store \<Rightarrow> quant option \<Rightarrow> string list \<Rightarrow> f32 list \<Rightarrow> search_opts \<Rightarrow> search_error + hit list" where
  "search stop env s quant cols query opts =
     (case check_query_dim s query of Inl e \<Rightarrow> Inl e | Inr _ \<Rightarrow>
     (case check_query_opts opts of Inl e \<Rightarrow> Inl e | Inr _ \<Rightarrow>
      (let ops = re_float env; q = query_vector ops s query; score = score_fn ops s q; deep = deepened opts in
       case (if so_names deep \<noteq> [] then
               rank_scan_named stop ops s score deep (named_scan env s cols (so_filter deep) (so_names deep))
             else
               let scan = sorted_scan env s cols (so_filter deep);
                   two_pass = (if so_exact deep then None
                     else search_quantized stop ops s quant q score (parallel_workers s (length scan)) deep scan) in
               (case two_pass of Some res \<Rightarrow> res | None \<Rightarrow> rank_scan stop ops s score deep scan)) of
         Inl e \<Rightarrow> Inl e
       | Inr ranked \<Rightarrow> finish env s opts ranked)))"

definition search_similar :: "(nat \<Rightarrow> bool) \<Rightarrow> read_env \<Rightarrow> store \<Rightarrow> quant option \<Rightarrow> string list \<Rightarrow> string \<Rightarrow> string \<Rightarrow> search_opts \<Rightarrow> search_error + hit list" where
  "search_similar stop env s quant cols c did opts =
     (case doc_of s c did of
        None \<Rightarrow> Inl (BadQuery ''no record'')
      | Some e \<Rightarrow> (case primary_row e of
          None \<Rightarrow> Inl (BadQuery ''text-only record'')
        | Some row \<Rightarrow> (case segs_row (st_data s) row of
            None \<Rightarrow> Inl (RowOutOfRange row)
          | Some query \<Rightarrow>
              (case search stop env s quant cols query
                  (opts\<lparr>so_offset := 0, so_top_k := sat_usize (search_depth opts + 1), so_limit_per := None, so_diversity := None\<rparr>) of
                 Inl err \<Rightarrow> Inl err
               | Inr ranked \<Rightarrow> finish env s opts (filter (\<lambda>h. \<not> (h_collection h = c \<and> h_id h = did)) ranked)))))"

end
