(* ===== verification/SearchProps.thy ===== *)
theory SearchProps
  imports Search
begin

text \<open>
  What a search returns. The scan behind it, whether the filter index narrowed it, the whole
  store was in scope or a subset was walked, holds exactly the documents of the scope that have a
  default vector and match the filter, each once; and the exact search is the page of those
  documents ranked by score, as a specification over the store's contents states it.
\<close>

section \<open>The documents of a collection\<close>

text \<open>A hash map yields each of its keys once.\<close>

definition iter_ok :: "read_env \<Rightarrow> bool" where
  "iter_ok env \<longleftrightarrow> (\<forall>xs. mset (re_order env xs) = mset xs)"

lemma iter_ok_set: "iter_ok env \<Longrightarrow> set (re_order env xs) = set xs"
  by (metis iter_ok_def set_mset_mset)

lemma iter_ok_distinct: "iter_ok env \<Longrightarrow> distinct (re_order env xs) = distinct xs"
  by (metis iter_ok_def mset_eq_imp_distinct_iff)

lemma set_map_filter: "set (List.map_filter f xs) = {y. \<exists>x \<in> set xs. f x = Some y}"
  by (force simp: List.map_filter_def)

lemma iter_docs_set: "iter_ok env \<Longrightarrow> set (iter_docs env col) = {(did, e). aget (co_docs col) did = Some e}"
  by (auto simp: iter_docs_def set_map_filter iter_ok_set) (metis fst_conv map_of_SomeD)

lemma iter_docs_distinct:
  assumes "iter_ok env" and "distinct (akeys (co_docs col))"
  shows "distinct (map fst (iter_docs env col))"
proof -
  have "distinct (map fst (List.map_filter (\<lambda>did. map_option (Pair did) (m did)) ks))" if "distinct ks" for ks :: "string list" and m
    using that by (induction ks) (auto simp: map_filter_simps set_map_filter split: option.split)
  note keys = this
  show ?thesis unfolding iter_docs_def by (rule keys) (simp add: iter_ok_distinct assms)
qed

text \<open>Entries drawn from distinct keys of distinct collections carry distinct items.\<close>

lemma distinct_items:
  assumes "distinct (map cn ps)" and "\<And>p. p \<in> set ps \<Longrightarrow> distinct (map k (xs p))"
    and "\<And>p x y. g p x = Some y \<Longrightarrow> snd y = (cn p, k x)"
  shows "distinct (map snd (concat (map (\<lambda>p. List.map_filter (g p) (xs p)) ps)))"
  using assms(1,2)
proof (induction ps)
  case (Cons p ps)
  have one: "distinct (map snd (List.map_filter (g p) zs)) \<and> snd ` set (List.map_filter (g p) zs) \<subseteq> Pair (cn p) ` k ` set zs"
    if "distinct (map k zs)" for zs
    using that
  proof (induction zs)
    case (Cons z zs)
    then show ?case using assms(3)[of p z] by (cases "g p z") (auto simp: map_filter_simps)
  qed (simp add: map_filter_simps)
  have "distinct (map k (xs p))" using Cons.prems(2) by simp
  note p = one[OF this]
  have "fst it = cn p" if "it \<in> snd ` set (List.map_filter (g p) (xs p))" for it using p that by auto
  moreover have "fst it \<in> cn ` set ps" if "it \<in> snd ` set (concat (map (\<lambda>p. List.map_filter (g p) (xs p)) ps))" for it
    using that assms(3) by (fastforce simp: set_map_filter)
  ultimately have "snd ` set (List.map_filter (g p) (xs p)) \<inter> snd ` set (concat (map (\<lambda>p. List.map_filter (g p) (xs p)) ps)) = {}"
    using Cons.prems(1) by (metis (no_types, lifting) disjoint_iff distinct.simps(2) list.simps(9) set_map)
  then show ?case using Cons.IH Cons.prems p by simp
qed simp

section \<open>Narrowed candidates are sets\<close>

lemma conjunction_distinct:
  "\<forall>h \<in> set hs. \<forall>ids. h = Some ids \<longrightarrow> distinct ids \<Longrightarrow> (\<forall>ids. acc = Some ids \<longrightarrow> distinct ids) \<Longrightarrow>
    conjunction hs acc = Some ids \<Longrightarrow> distinct ids"
proof (induction hs arbitrary: acc)
  case (Cons h hs)
  have "\<forall>ids. meet acc h = Some ids \<longrightarrow> distinct ids" using Cons.prems(1,2) by (auto simp: meet_def split: option.splits)
  then show ?case using Cons.IH[of "meet acc h"] Cons.prems(1,3) by (auto simp: Let_def split: if_splits)
qed auto

lemma disjunction_distinct:
  "distinct acc \<Longrightarrow> disjunction hs acc = Some ids \<Longrightarrow> distinct ids"
  by (induction hs acc rule: disjunction.induct) (auto simp: distinct_remdups_adj_sort)

lemma narrow_one_distinct: "narrow_one env parse fx c limit p = Some ids \<Longrightarrow> distinct ids"
proof (induction p arbitrary: ids)
  case (PAll ps)
  then show ?case using conjunction_distinct[of "map (narrow_one env parse fx c limit) ps" None ids] by auto
next
  case (PAny ps)
  then show ?case using disjunction_distinct[of "[]"] by auto
qed (auto simp: distinct_remdups_adj_sort)

lemma narrow_ids_distinct: "narrow_candidate_ids env parse fx c f = Some ids \<Longrightarrow> distinct ids"
  using conjunction_distinct[of "map (narrow_one env parse fx c limit) f" None ids for limit] narrow_one_distinct
  by (fastforce simp: narrow_candidate_ids_def bind_eq_Some_conv Let_def split: if_splits)

section \<open>The scan holds the matching documents\<close>

text \<open>The filter index covers every document the store serves.\<close>

definition index_covers :: "read_env \<Rightarrow> store \<Rightarrow> bool" where
  "index_covers env s \<longleftrightarrow> (\<forall>c did e. doc_of s c did = Some e \<longrightarrow>
     attrs_ok (de_attrs e) \<and> fx_covers (re_text env) c did (de_attrs e) (st_findex s))"

definition scan_set :: "read_env \<Rightarrow> store \<Rightarrow> string list \<Rightarrow> filter_t \<Rightarrow> scan_row set" where
  "scan_set env s cols f = {(r, (c, did)). c \<in> set cols \<and> (\<exists>e. doc_of s c did = Some e \<and>
     scannable_row e = Some r \<and> matches (re_text env) f (de_attrs e))}"

definition docs_in :: "read_env \<Rightarrow> store \<Rightarrow> string \<Rightarrow> (string \<times> doc_entry) list" where
  "docs_in env s c = (case aget (st_collections s) c of Some col \<Rightarrow> iter_docs env col | None \<Rightarrow> [])"

lemma store_ok_cols: "store_ok s \<Longrightarrow> distinct (akeys (st_collections s))"
  by (simp add: store_ok_def core_ok_def core_def amap_wf_distinct)

lemma store_ok_col: "store_ok s \<Longrightarrow> aget (st_collections s) c = Some col \<Longrightarrow> distinct (akeys (co_docs col))"
  by (fastforce simp: store_ok_def core_ok_def core_def col_wf_def amap_wf_distinct dest: map_of_SomeD)

lemma docs_in_set: "iter_ok env \<Longrightarrow> set (docs_in env s c) = {(did, e). doc_of s c did = Some e}"
  by (cases "aget (st_collections s) c") (auto simp: docs_in_def doc_of_def iter_docs_set)

lemma docs_in_distinct: "iter_ok env \<Longrightarrow> store_ok s \<Longrightarrow> distinct (map fst (docs_in env s c))"
  using store_ok_col[of s c] by (auto simp: docs_in_def iter_docs_distinct split: option.split)

lemma scan_match_item: "scan_match env f c x = Some y \<Longrightarrow> snd y = (c, fst x)"
  by (auto simp: scan_match_def scan_entry_def split: if_splits prod.splits)

lemma scan_match_Some:
  "scan_match env f c (did, e) = Some x \<longleftrightarrow>
     matches (re_text env) f (de_attrs e) \<and> (\<exists>r. scannable_row e = Some r \<and> x = (r, (c, did)))"
  by (auto simp: scan_match_def scan_entry_def)

lemma distinct_sort_items: "distinct (map snd (sort_key f xs)) = distinct (map snd xs)"
  by (intro mset_eq_imp_distinct_iff) simp

lemma subset_scan_docs:
  "subset_scan env s cols f = sort_key fst (concat (map (\<lambda>c. List.map_filter (scan_match env f c) (docs_in env s c)) cols))"
  unfolding subset_scan_def docs_in_def
  by (intro arg_cong[of _ _ "sort_key fst"] arg_cong[of _ _ concat] map_cong refl) (simp add: map_filter_simps split: option.split)

lemma scan_order_docs:
  "scan_order env s = sort_key fst (concat (map (\<lambda>c. List.map_filter (scan_entry c) (docs_in env s c)) (re_order env (akeys (st_collections s)))))"
  unfolding scan_order_def docs_in_def
  by (intro arg_cong[of _ _ "sort_key fst"] arg_cong[of _ _ concat] map_cong refl) (simp add: map_filter_simps split: option.split)

lemma scan_concat_set:
  assumes "iter_ok env"
  shows "set (concat (map (\<lambda>c. List.map_filter (scan_match env f c) (docs_in env s c)) cols)) = scan_set env s cols f"
proof (rule set_eqI)
  fix x
  have "x \<in> set (concat (map (\<lambda>c. List.map_filter (scan_match env f c) (docs_in env s c)) cols)) \<longleftrightarrow>
      (\<exists>c \<in> set cols. \<exists>did e. doc_of s c did = Some e \<and> scan_match env f c (did, e) = Some x)"
    by (simp add: set_map_filter docs_in_set[OF assms])
  also have "\<dots> \<longleftrightarrow> x \<in> scan_set env s cols f" by (cases x) (auto simp: scan_match_Some scan_set_def)
  finally show "x \<in> set (concat (map (\<lambda>c. List.map_filter (scan_match env f c) (docs_in env s c)) cols)) \<longleftrightarrow> x \<in> scan_set env s cols f" .
qed

lemma subset_scan_ok:
  assumes "store_ok s" and "iter_ok env" and "distinct cols"
  shows "distinct (map snd (subset_scan env s cols f)) \<and> set (subset_scan env s cols f) = scan_set env s cols f"
proof -
  let ?xs = "concat (map (\<lambda>c. List.map_filter (scan_match env f c) (docs_in env s c)) cols)"
  have "distinct (map snd ?xs)"
    by (rule distinct_items[where cn = "\<lambda>c. c" and k = fst]) (auto simp: assms docs_in_distinct scan_match_item)
  then show ?thesis unfolding subset_scan_docs by (simp only: distinct_sort_items set_sort scan_concat_set[OF assms(2)])
qed

lemma scan_order_subset: "scan_order env s = subset_scan env s (re_order env (akeys (st_collections s))) []"
proof -
  have "scan_match env [] c = scan_entry c" for c by (auto simp: scan_match_def matches_def)
  then show ?thesis by (simp add: scan_order_docs subset_scan_docs)
qed

text \<open>A scope of distinct collections that counts every scannable document leaves none out.\<close>

lemma scope_full:
  assumes "store_ok s" and "distinct cols" and "scannable_in_scope s cols = scannable_doc_count s"
    and "doc_of s c did = Some e" and "scannable_row e = Some r"
  shows "c \<in> set cols"
proof (rule ccontr)
  assume out: "c \<notin> set cols"
  let ?m = "st_collections s" and ?g = "\<lambda>c. scannable_in (the (aget (st_collections s) c))"
  have keys: "distinct (akeys ?m)" by (rule store_ok_cols[OF assms(1)])
  obtain col where col: "aget ?m c = Some col" "aget (co_docs col) did = Some e"
    using assms(4) by (auto simp: doc_of_def bind_eq_Some_conv)
  have "e \<in> set (avals (co_docs col))" using map_of_SomeD[OF col(2)] by force
  then have pos: "0 < ?g c" using assms(5) col(1) by (auto simp: scannable_in_def filter_empty_conv)
  have "avals ?m = map (\<lambda>c. the (aget ?m c)) (akeys ?m)" using keys by (auto simp: map_of_is_SomeI)
  then have "scannable_doc_count s = sum_list (map ?g (akeys ?m))" by (simp only: scannable_doc_count_def map_map comp_def)
  then have "scannable_doc_count s = sum ?g (set (akeys ?m))" by (simp only: sum_list_distinct_conv_sum_set[OF keys])
  moreover have "List.map_filter (aget ?m) cs = map (\<lambda>c. the (aget ?m c)) (filter (\<lambda>c. c \<in> set (akeys ?m)) cs)" for cs
    by (auto simp: List.map_filter_def map_of_eq_None_iff)
  then have "scannable_in_scope s cols = sum ?g (set cols \<inter> set (akeys ?m))"
    using assms(2) by (simp add: scannable_in_scope_def sum_list_distinct_conv_sum_set comp_def Int_def)
  moreover have "sum ?g (set cols \<inter> set (akeys ?m)) + ?g c \<le> sum ?g (set (akeys ?m))"
  proof -
    have "c \<in> set (akeys ?m)" using map_of_SomeD[OF col(1)] by force
    then have "insert c (set cols \<inter> set (akeys ?m)) \<subseteq> set (akeys ?m)" by blast
    from sum_mono2[OF _ this, of ?g] show ?thesis using out by simp
  qed
  ultimately show False using pos assms(3) by simp
qed

lemma narrow_all_Some:
  "narrow_all env s f cols = Some nar \<Longrightarrow>
     map fst nar = filter (\<lambda>c. aget (st_collections s) c \<noteq> None) cols \<and>
     (\<forall>(c, ids) \<in> set nar. narrow_candidate_ids (re_text env) (re_parse env) (st_findex s) c f = Some ids)"
proof (induction cols arbitrary: nar)
  case (Cons c cs)
  show ?case
  proof (cases "aget (st_collections s) c")
    case (Some col)
    then obtain ids rest where "narrow_candidate_ids (re_text env) (re_parse env) (st_findex s) c f = Some ids"
      "narrow_all env s f cs = Some rest" "nar = (c, ids) # rest"
      using Cons.prems by (auto split: option.splits)
    then show ?thesis using Some Cons.IH[of rest] by simp
  qed (use Cons in simp)
qed simp

lemma narrowed_scan_ok:
  assumes "env_ok (re_text env) (re_parse env)" and "index_covers env s" and "distinct cols"
    and "narrowed_scan env s cols f = Narrowed scan"
  shows "distinct (map snd scan) \<and> set scan = scan_set env s cols f"
proof -
  let ?g = "\<lambda>p did. Option.bind (doc_of s (fst p) did) (\<lambda>e. scan_match env f (fst p) (did, e))"
  obtain nar where nar: "narrow_all env s f cols = Some nar" and scan: "scan = concat (map (\<lambda>p. List.map_filter (?g p) (snd p)) nar)"
    using assms(4) by (auto simp: narrowed_scan_def split_def split: if_splits option.splits)
  note n = narrow_all_Some[OF nar]
  have nd: "distinct (snd p)" if "p \<in> set nar" for p using bspec[OF conjunct2[OF n] that] narrow_ids_distinct by (auto simp: split_def)
  have "distinct (map snd scan)" unfolding scan
    by (rule distinct_items[where cn = fst and k = "\<lambda>x. x"])
      (use n assms(3) nd in \<open>auto simp: bind_eq_Some_conv scan_match_Some\<close>)
  moreover have "x \<in> set scan \<longleftrightarrow> x \<in> scan_set env s cols f" for x
  proof
    assume "x \<in> set scan"
    then obtain c ids did e where x: "(c, ids) \<in> set nar" "doc_of s c did = Some e" "scan_match env f c (did, e) = Some x"
      unfolding scan by (auto simp: set_map_filter bind_eq_Some_conv)
    have "c \<in> set (map fst nar)" using x(1) by force
    then have "c \<in> set cols" using n by simp
    then show "x \<in> scan_set env s cols f" using x(2,3) by (auto simp: scan_match_Some scan_set_def)
  next
    assume "x \<in> scan_set env s cols f"
    then obtain r c did e where x: "x = (r, (c, did))" "c \<in> set cols" "doc_of s c did = Some e" "scannable_row e = Some r"
      "matches (re_text env) f (de_attrs e)" by (auto simp: scan_set_def)
    have "aget (st_collections s) c \<noteq> None" using x(3) by (auto simp: doc_of_def bind_eq_Some_conv)
    then have "c \<in> set (map fst nar)" using x(2) n by simp
    then obtain ids where ids: "(c, ids) \<in> set nar" by force
    then have "did \<in> set ids" using narrow_sound[OF assms(1)] assms(2) x(3,5) n unfolding index_covers_def by fast
    then show "x \<in> set scan" unfolding scan using ids x by (force simp: set_map_filter bind_eq_Some_conv scan_match_Some)
  qed
  ultimately show ?thesis by blast
qed

lemma whole_scan_ok:
  fixes f :: filter_t
  assumes "store_ok s" and "iter_ok env" and "distinct cols" and "scannable_in_scope s cols = scannable_doc_count s"
  defines "pass \<equiv> \<lambda>(_, (c, did)). f = [] \<or> (case attrs_of s c did of Some a \<Rightarrow> matches (re_text env) f a | None \<Rightarrow> False)"
  shows "distinct (map snd (filter pass (scan_order env s))) \<and> set (filter pass (scan_order env s)) = scan_set env s cols f"
proof -
  let ?keys = "re_order env (akeys (st_collections s))"
  have keys: "distinct ?keys" using store_ok_cols[OF assms(1)] by (simp add: iter_ok_distinct[OF assms(2)])
  note all = subset_scan_ok[OF assms(1,2) keys, of "[]", folded scan_order_subset]
  have "x \<in> set (filter pass (scan_order env s)) \<longleftrightarrow> x \<in> scan_set env s cols f" for x
  proof -
    obtain r c did where x: "x = (r, (c, did))" by (metis prod.collapse)
    have "c \<in> set ?keys" if "doc_of s c did = Some e" for e
      using that by (force simp: doc_of_def iter_ok_set[OF assms(2)] bind_eq_Some_conv dest: map_of_SomeD)
    then have "x \<in> set (scan_order env s) \<longleftrightarrow> (\<exists>e. doc_of s c did = Some e \<and> scannable_row e = Some r)"
      using all by (auto simp: x scan_set_def matches_def)
    moreover have "pass x \<longleftrightarrow> matches (re_text env) f (de_attrs e)" if "doc_of s c did = Some e" for e
      using that by (auto simp: pass_def x attrs_of_def matches_def)
    ultimately show ?thesis using scope_full[OF assms(1,3,4), of c did] by (auto simp: x scan_set_def)
  qed
  moreover have "distinct (map snd (filter pass (scan_order env s)))" using all by (simp add: distinct_map_filter)
  ultimately show ?thesis by blast
qed

lemma sorted_scan_ok:
  assumes "store_ok s" and "iter_ok env" and "distinct cols" and "env_ok (re_text env) (re_parse env)" and "index_covers env s"
  shows "distinct (map snd (sorted_scan env s cols f)) \<and> set (sorted_scan env s cols f) = scan_set env s cols f"
proof (cases "narrowed_scan env s cols f")
  case (Narrowed scan)
  then show ?thesis using narrowed_scan_ok[OF assms(4,5,3) Narrowed] by (simp add: sorted_scan_def distinct_sort_items)
qed (use subset_scan_ok[OF assms(1-3)] whole_scan_ok[OF assms(1-3)] in \<open>simp_all add: sorted_scan_def\<close>)

section \<open>The exact search is the page of the ranked documents\<close>

text \<open>The score of a stored document, and the scored documents of a query, over the contents of the store.\<close>

definition doc_score :: "float_ops \<Rightarrow> (f32 list \<Rightarrow> f32) \<Rightarrow> decay option \<Rightarrow> doc_contents \<Rightarrow> f32 option" where
  "doc_score ops score r x = map_option (\<lambda>v. adjust ops r (score v) (snd x)) (fst x DEFAULT_VECTOR)"

definition ranked_docs :: "read_env \<Rightarrow> contents \<Rightarrow> string list \<Rightarrow> (f32 list \<Rightarrow> f32) \<Rightarrow> search_opts \<Rightarrow> item entry set" where
  "ranked_docs env V cols score opts = {(sc, (c, did)). c \<in> set cols \<and>
     (\<exists>docs x. V c = Some docs \<and> docs did = Some x \<and> matches (re_text env) (so_filter opts) (snd x) \<and>
        doc_score (re_float env) score (so_rank_by opts) x = Some sc \<and> \<not> below_min (so_min_score opts) sc)}"

definition scan_entries :: "read_env \<Rightarrow> store \<Rightarrow> (f32 list \<Rightarrow> f32) \<Rightarrow> search_opts \<Rightarrow> scan_row list \<Rightarrow> item entry list" where
  "scan_entries env s score opts scan = List.map_filter (scored_entry (segs_row (st_data s))
     (\<lambda>it v. ranked_score (re_float env) s (so_rank_by opts) (score v) it) (so_min_score opts)) scan"

lemma doc_contents_of:
  "doc_of s c did = Some e \<longleftrightarrow> (\<exists>col. aget (st_collections s) c = Some col \<and> aget (co_docs col) did = Some e)"
  by (simp add: doc_of_def bind_eq_Some_conv)

lemma contents_doc:
  "(\<exists>docs x. contents s c = Some docs \<and> docs did = Some x \<and> P x) \<longleftrightarrow> (\<exists>e. doc_of s c did = Some e \<and> P (doc_view (segs_row (st_data s)) e))"
  by (auto simp: contents_def view_of_def doc_contents_of simp del: split_paired_Ex)

lemma scan_rows_exist:
  assumes "store_ok s" and "x \<in> scan_set env s cols f"
  shows "segs_row (st_data s) (fst x) \<noteq> None"
proof -
  obtain r c did e where x: "x = (r, (c, did))" "doc_of s c did = Some e" "scannable_row e = Some r"
    using assms(2) by (auto simp: scan_set_def)
  then have "r \<in># live_rows (st_collections s)" using live_mem by (auto simp: doc_contents_of scannable_row_def)
  then have "r < segs_row_count (st_data s)" using assms(1) core_ok_row[of _ "core s"] by (simp add: store_ok_def core_def)
  then show ?thesis using assms(1) by (simp add: x(1) store_ok_def segs_row_nth segs_count)
qed

lemma scan_entries_set:
  assumes "set scan = scan_set env s cols (so_filter opts)" and "store_ok s"
  shows "set (scan_entries env s score opts scan) = ranked_docs env (contents s) cols score opts"
proof -
  let ?row = "segs_row (st_data s)"
  have "(sc, (c, did)) \<in> set (scan_entries env s score opts scan) \<longleftrightarrow>
      (sc, (c, did)) \<in> ranked_docs env (contents s) cols score opts" for sc c did
  proof -
    have "(sc, (c, did)) \<in> set (scan_entries env s score opts scan) \<longleftrightarrow>
        (\<exists>r. (r, (c, did)) \<in> scan_set env s cols (so_filter opts) \<and>
          sc = ranked_score (re_float env) s (so_rank_by opts) (score (the (?row r))) (c, did) \<and> \<not> below_min (so_min_score opts) sc)"
      unfolding scan_entries_def set_map_filter assms(1) Bex_def split_paired_Ex
      by (auto simp: scored_entry_def Let_def split: if_splits)
    also have "\<dots> \<longleftrightarrow> c \<in> set cols \<and> (\<exists>e. doc_of s c did = Some e \<and> matches (re_text env) (so_filter opts) (de_attrs e) \<and>
        (\<exists>r. scannable_row e = Some r \<and> sc = adjust (re_float env) (so_rank_by opts) (score (the (?row r))) (de_attrs e)) \<and>
        \<not> below_min (so_min_score opts) sc)"
      by (auto simp: scan_set_def ranked_score_def attrs_of_def adjust_def)
    also have "\<dots> \<longleftrightarrow> (sc, (c, did)) \<in> ranked_docs env (contents s) cols score opts"
    proof -
      have "doc_score (re_float env) score (so_rank_by opts) (doc_view ?row e) = Some sc \<longleftrightarrow>
          (\<exists>r. scannable_row e = Some r \<and> sc = adjust (re_float env) (so_rank_by opts) (score (the (?row r))) (de_attrs e))"
        if "doc_of s c did = Some e" "matches (re_text env) (so_filter opts) (de_attrs e)" "c \<in> set cols" for e
        using scan_rows_exist[OF assms(2), of "(r, (c, did))" env cols "so_filter opts" for r] that
        by (fastforce simp: doc_score_def doc_view_def scannable_row_def scan_set_def bind_eq_Some_conv)
      then show ?thesis unfolding ranked_docs_def mem_Collect_eq split contents_doc by (auto simp: doc_view_def)
    qed
    finally show ?thesis .
  qed
  then show ?thesis by auto
qed

lemma parallel_nonempty: "1 < parallel_workers s (length scan) \<longrightarrow> scan \<noteq> []"
  by (auto simp: parallel_workers_def PARALLEL_SCAN_WORK_FLOOR_def sat_usize_def Let_def split: if_splits)

lemma rank_scan_offers:
  assumes "distinct (map snd scan)" and "\<forall>x \<in> set scan. segs_row (st_data s) (fst x) \<noteq> None"
  shows "\<exists>t. rank_scan (\<lambda>_. False) (re_float env) s score opts scan = Inr (hits_from_topk s (so_projection opts) t) \<and>
    into_sorted_desc t = take (so_top_k opts) (sort_key rank (scan_entries env s score opts scan))"
proof -
  let ?row = "segs_row (st_data s)" and ?E = "scan_entries env s score opts scan"
  let ?score = "\<lambda>it v. ranked_score (re_float env) s (so_rank_by opts) (score v) it"
  have d: "distinct (map snd ?E)"
    unfolding scan_entries_def by (rule map_filter_distinct[OF scored_item assms(1)])
  note cut = topk_sort_cut[OF d, of "so_top_k opts"]
  have expr: "block_loop (\<lambda>_. False) 0 (score_row ?row ?score (so_min_score opts)) (chunks CHECK_EVERY scan) (topk_new (so_top_k opts)) =
      Inr (offer_all ?E (topk_new (so_top_k opts)))"
    unfolding scan_entries_def by (rule block_scan_offers) (simp add: score_row_offers assms(2))
  show ?thesis
  proof (cases "so_rank_by opts")
    case None
    then have E: "?E = List.map_filter (scored_entry ?row (\<lambda>_. score) (so_min_score opts)) scan"
      by (simp add: scan_entries_def ranked_score_def)
    have "1 < parallel_workers s (length scan) \<longrightarrow> scan \<noteq> []" by (rule parallel_nonempty)
    then show ?thesis
      using exact_kernel.pass_exact[OF assms(2), of "parallel_workers s (length scan)" score "so_min_score opts" "so_top_k opts"] cut d
      unfolding E by (auto simp: rank_scan_def None Let_def)
  next
    case (Some r)
    then show ?thesis using expr cut by (auto simp: rank_scan_def rank_scan_expr_def)
  qed
qed

text \<open>
  C10 (exact search). A valid query over distinct collections that asks for exact results, with no
  cap, spread or expansion, returns the requested page of the documents of those collections that
  have a default vector and match the filter, ranked by their score, best first and ties by name:
  whether the filter index narrowed the scan, the cached order served it or it was split across
  threads makes no difference.
\<close>
theorem search_is_ranked_page:
  assumes "store_ok s" and "iter_ok env" and "env_ok (re_text env) (re_parse env)" and "index_covers env s" and "distinct cols"
    and "check_query_dim s query = Inr ()" and "check_query_opts opts = Inr ()" and "so_exact opts \<or> quant = None"
    and "so_names opts = []" and "so_limit_per opts = None" and "so_diversity opts = None" and "so_expand opts = None"
    and "so_offset opts + so_top_k opts \<le> usize_max"
  shows "\<exists>E. distinct (map snd E) \<and>
    set E = ranked_docs env (contents s) cols (score_fn (re_float env) s (query_vector (re_float env) s query)) opts \<and>
    search (\<lambda>_. False) env s quant cols query opts =
      Inr (map (hit_of s (so_projection opts)) (take (so_top_k opts) (drop (so_offset opts) (sort_key rank E))))"
proof -
  let ?score = "score_fn (re_float env) s (query_vector (re_float env) s query)" and ?scan = "sorted_scan env s cols (so_filter opts)"
  let ?E = "scan_entries env s ?score opts ?scan"
  note scan = sorted_scan_ok[OF assms(1,2,5,3,4), of "so_filter opts"]
  have rows: "\<forall>x \<in> set ?scan. segs_row (st_data s) (fst x) \<noteq> None" using scan scan_rows_exist[OF assms(1)] by blast
  have d: "distinct (map snd ?E)"
    unfolding scan_entries_def by (rule map_filter_distinct[OF scored_item conjunct1[OF scan]])
  have depth: "search_depth opts = so_offset opts + so_top_k opts"
    using assms(10,11,13) by (simp add: search_depth_def sat_usize_def Let_def)
  obtain t where t: "rank_scan (\<lambda>_. False) (re_float env) s ?score (deepened opts) ?scan = Inr (hits_from_topk s (so_projection opts) t)"
    "into_sorted_desc t = take (so_offset opts + so_top_k opts) (sort_key rank ?E)"
    using rank_scan_offers[OF conjunct1[OF scan] rows, of env ?score "deepened opts"] depth
    by (auto simp: deepened_def scan_entries_def)
  have "search (\<lambda>_. False) env s quant cols query opts = finish env s opts (hits_from_topk s (so_projection opts) t)"
    using t(1) assms(6-9) by (auto simp: search_def Let_def search_quantized_def deepened_def)
  also have "\<dots> = Inr (map (hit_of s (so_projection opts)) (take (so_top_k opts) (drop (so_offset opts) (sort_key rank ?E))))"
    using assms(10-12) t(2) by (auto simp: finish_def Let_def paginate_def hits_from_topk_def drop_map take_map drop_take)
  finally show ?thesis using d scan_entries_set[OF conjunct2[OF scan] assms(1), of ?score] by blast
qed

section \<open>A wide first pass is exact\<close>

lemma code_item: "code_entry at score x = Some e \<Longrightarrow> snd e = x"
  by (auto simp: code_entry_def)

text \<open>Every row the scan holds has its code in a mirror of the matrix.\<close>

lemma mirrored_slice:
  assumes "segs_inv d" and "codes = concat (map g (segs_rows d))" and "\<And>v. length v = segs_dimension d \<Longrightarrow> length (g v) = w"
    and "segs_row d r \<noteq> None"
  shows "code_slice codes w r \<noteq> None"
proof -
  have "sum_list (map (\<lambda>v. length (g v)) vs) = length vs * w" if "\<forall>v \<in> set vs. length v = segs_dimension d" for vs
    using that assms(3) by (induction vs) simp_all
  then have "length codes = length (segs_rows d) * w"
    using segs_row_lengths[OF assms(1)] by (simp add: assms(2) length_concat comp_def)
  moreover have "Suc r \<le> length (segs_rows d)" using assms(4) by (auto simp: segs_row_nth[OF assms(1)] split: if_splits)
  then have "Suc r * w \<le> length (segs_rows d) * w" by (rule mult_le_mono1)
  ultimately show ?thesis by (simp add: code_slice_def Let_def ac_simps)
qed

lemma code_entries_all:
  assumes "\<forall>x \<in> set scan. at (fst x) \<noteq> None"
  shows "map snd (List.map_filter (code_entry at score) scan) = scan"
  using assms by (induction scan) (auto simp: map_filter_simps code_entry_def)

text \<open>The candidates of a first pass that has room for the whole scan are the whole scan.\<close>

lemma wide_pass:
  assumes "distinct (map snd scan)" and "\<forall>x \<in> set scan. at (fst x) \<noteq> None" and "length scan \<le> cap"
    and "into_sorted_desc t = into_sorted_desc (offer_all (List.map_filter (code_entry at score) scan) (topk_new cap))"
  shows "mset (map snd (into_sorted_desc t)) = mset scan"
proof -
  let ?E = "List.map_filter (code_entry at score) scan"
  have E: "map snd ?E = scan" by (rule code_entries_all[OF assms(2)])
  have "distinct (map snd ?E)" unfolding E using assms(1) by (simp add: distinct_map)
  from topk_sort_cut[OF this, of cap] have "into_sorted_desc t = take cap (sort_key rank ?E)" using assms(4) by simp
  moreover have "length ?E \<le> cap" using E assms(3) by (metis length_map)
  ultimately have "into_sorted_desc t = sort_key rank ?E" by simp
  then show ?thesis using E by (metis mset_map mset_sort)
qed

lemma code_entries_distinct: "distinct (map snd scan) \<Longrightarrow> distinct (map snd (List.map_filter (code_entry at score) scan))"
proof (rule map_filter_distinct[OF code_item])
  assume "distinct (map snd scan)"
  then show "distinct (map (\<lambda>x. x) scan)" unfolding list.map_ident by (simp add: distinct_map)
qed

lemma first_pass_wide:
  assumes "store_ok s" and "quant_mirrors ops (st_data s) qs" and "distinct (map snd scan)"
    and "\<forall>x \<in> set scan. segs_row (st_data s) (fst x) \<noteq> None" and "length scan \<le> cap" and "1 < workers \<longrightarrow> scan \<noteq> []"
  shows "\<exists>t. first_pass workers cap (quant_kernel (\<lambda>_. False) ops s qs q cap) scan = Inr t \<and>
    mset (map snd (into_sorted_desc t)) = mset scan"
proof -
  have inv: "segs_inv (st_data s)" using assms(1) by (simp add: store_ok_def)
  note d = code_entries_distinct[OF assms(3)]
  show ?thesis
  proof (cases qs)
    case (QInt8 st)
    have at: "\<forall>x \<in> set scan. code_slice (is_vectors st) (segs_dimension (st_data s)) (fst x) \<noteq> None"
      using mirrored_slice[OF inv, of "is_vectors st" "quantize_all ops (is_params st)"] assms(2,4)
      by (simp add: QInt8 quant_mirrors_def quantize_all_bounds)
    show ?thesis using int8_kernel.pass_exact[OF _ assms(6) d] wide_pass[OF assms(3) at assms(5)]
      unfolding first_pass_def QInt8 quant_kernel_def quant.case Let_def by blast
  next
    case (QBinary st)
    have at: "\<forall>x \<in> set scan. code_slice (bs_words st) (bs_words_per_row st) (fst x) \<noteq> None"
      using mirrored_slice[OF inv, of "bs_words st" pack_signs] assms(2,4)
      by (simp add: QBinary quant_mirrors_def pack_signs_bits(1))
    show ?thesis using sign_kernel.pass_exact[OF _ assms(6) d] wide_pass[OF assms(3) at assms(5)]
      unfolding first_pass_def QBinary quant_kernel_def quant.case by blast
  qed
qed

lemma rerank_offers:
  assumes "distinct (map snd scan)" and "\<forall>x \<in> set scan. segs_row (st_data s) (fst x) \<noteq> None" and "mset (map snd cands) = mset scan"
  shows "\<exists>t. rerank_candidates (re_float env) s score opts cands = Inr (hits_from_topk s (so_projection opts) t) \<and>
    into_sorted_desc t = take (so_top_k opts) (sort_key rank (scan_entries env s score opts scan))"
proof -
  let ?F = "scan_entries env s score opts (map snd cands)" and ?E = "scan_entries env s score opts scan"
  have "\<forall>x \<in> set (map snd cands). segs_row (st_data s) (fst x) \<noteq> None" using assms(2) mset_eq_setD[OF assms(3)] by blast
  then have run: "step_rows (score_row (segs_row (st_data s)) (\<lambda>it v. ranked_score (re_float env) s (so_rank_by opts) (score v) it)
      (so_min_score opts)) (map snd cands) (topk_new (so_top_k opts)) = Inr (offer_all ?F (topk_new (so_top_k opts)))"
    unfolding scan_entries_def by (intro step_rows_offers score_row_offers) blast
  have d: "distinct (map snd ?E)" unfolding scan_entries_def by (rule map_filter_distinct[OF scored_item assms(1)])
  have "mset ?E = mset ?F" unfolding scan_entries_def using assms(3) by (intro mset_map_filter) simp
  from offers_perm[OF d this] have "into_sorted_desc (offer_all ?F (topk_new (so_top_k opts))) = take (so_top_k opts) (sort_key rank ?E)"
    using topk_sort_cut[OF d] by simp
  then show ?thesis using run by (auto simp: rerank_candidates_def)
qed

text \<open>
  C11 (quantized search). When the first pass over the codes has room for the whole scan, the
  two-pass search returns what the exact search returns, hit for hit and error for error,
  whichever code is used and whatever caps, spreads or decay the query asks for.
\<close>
theorem wide_quantized_search_is_exact:
  assumes "store_ok s" and "iter_ok env" and "env_ok (re_text env) (re_parse env)" and "index_covers env s" and "distinct cols"
    and "quant_mirrors (re_float env) (st_data s) qs"
    and "length (sorted_scan env s cols (so_filter opts)) \<le> overscan_of s (deepened opts)"
  shows "search (\<lambda>_. False) env s (Some qs) cols query opts = search (\<lambda>_. False) env s None cols query opts"
proof -
  let ?score = "score_fn (re_float env) s (query_vector (re_float env) s query)" and ?scan = "sorted_scan env s cols (so_filter opts)"
  let ?q = "query_vector (re_float env) s query" and ?w = "parallel_workers s (length ?scan)"
  note scan = sorted_scan_ok[OF assms(1,2,5,3,4), of "so_filter opts"]
  have rows: "\<forall>x \<in> set ?scan. segs_row (st_data s) (fst x) \<noteq> None" using scan scan_rows_exist[OF assms(1)] by blast
  obtain t where t: "first_pass ?w (overscan_of s (deepened opts)) (quant_kernel (\<lambda>_. False) (re_float env) s qs ?q (overscan_of s (deepened opts))) ?scan = Inr t"
    "mset (map snd (into_sorted_desc t)) = mset ?scan"
    using first_pass_wide[OF assms(1,6) conjunct1[OF scan] rows assms(7) parallel_nonempty] by blast
  have "rerank_candidates (re_float env) s ?score (deepened opts) (into_sorted_desc t) =
      rank_scan (\<lambda>_. False) (re_float env) s ?score (deepened opts) ?scan"
    using rerank_offers[OF conjunct1[OF scan] rows t(2), of env ?score "deepened opts"]
      rank_scan_offers[OF conjunct1[OF scan] rows, of env ?score "deepened opts"] by (auto simp: hits_from_topk_def)
  then have "search_quantized (\<lambda>_. False) (re_float env) s (Some qs) ?q ?score ?w (deepened opts) ?scan \<in>
      {None, Some (rank_scan (\<lambda>_. False) (re_float env) s ?score (deepened opts) ?scan)}"
    using t(1) by (auto simp: search_quantized_def)
  moreover have "so_filter (deepened opts) = so_filter opts" by (simp add: deepened_def)
  ultimately show ?thesis by (auto simp: search_def Let_def search_quantized_def[of _ _ _ None] split: sum.split)
qed

section \<open>A concrete store\<close>

definition demo_renv :: read_env where
  "demo_renv = \<lparr>re_text = demo_env, re_parse = demo_parse, re_order = (\<lambda>xs. xs), re_float = demo_float\<rparr>"

definition demo_opts :: search_opts where
  "demo_opts = \<lparr>so_top_k = 5, so_offset = 0, so_filter = [], so_min_score = None, so_exact = False, so_projection = ProjAll,
     so_rank_by = None, so_limit_per = None, so_diversity = None, so_expand = None, so_names = [], so_name_weights = [], so_pool = PoolMax\<rparr>"

lemma demo_read_ok: "iter_ok demo_renv" "env_ok (re_text demo_renv) (re_parse demo_renv)" "index_covers demo_renv demo_full"
proof -
  show "iter_ok demo_renv" by (simp add: iter_ok_def demo_renv_def)
  show "env_ok (re_text demo_renv) (re_parse demo_renv)" using demo_env_ok by (simp add: demo_renv_def)
  have "st_findex demo_full = findex_default" by (simp add: demo_full_defs)
  then show "index_covers demo_renv demo_full"
    by (auto simp: index_covers_def fx_covers_def fx_index_for_def findex_default_def attrs_ok_def value_ok_def
        doc_contents_of demo_full_defs split: if_splits)
qed

lemma demo_query_ok: "check_query_dim demo_full [1, 1] = Inr ()" "check_query_opts demo_opts = Inr ()"
  by (simp_all add: check_query_dim_def demo_full_defs segs_dimension_def check_query_opts_def demo_opts_def rank_validate_def
      limit_validate_def diversity_validate_def expand_validate_def validate_names_def MAX_VECTOR_NAMES_def)

lemma singleton_list: "distinct xs \<Longrightarrow> set xs = {x} \<Longrightarrow> xs = [x]"
  by (cases xs) (auto simp: subset_singleton_iff)

theorem search_is_ranked_page_witness:
  "\<exists>sc. search (\<lambda>_. False) demo_renv demo_full None [''a'', ''b''] [1, 1] demo_opts = Inr [hit_of demo_full ProjAll (sc, (''a'', ''x''))]"
proof -
  let ?score = "score_fn (re_float demo_renv) demo_full (query_vector (re_float demo_renv) demo_full [1, 1])"
  have docs: "ranked_docs demo_renv (contents demo_full) [''a'', ''b''] ?score demo_opts = {(?score [3, 4], (''a'', ''x''))}"
    by (auto simp: ranked_docs_def demo_full_contents demo_opts_def doc_score_def DEFAULT_VECTOR_def adjust_def below_min_def
        matches_def split: if_splits)
  have "so_exact demo_opts \<or> (None :: quant option) = None" "so_names demo_opts = []" "so_limit_per demo_opts = None"
    "so_diversity demo_opts = None" "so_expand demo_opts = None" "so_offset demo_opts + so_top_k demo_opts \<le> usize_max"
    by (simp_all add: demo_opts_def)
  from search_is_ranked_page[OF demo_full_ok(1) demo_read_ok _ demo_query_ok this, of "[''a'', ''b'']"] docs
  obtain E where E: "distinct (map snd E)" "set E = {(?score [3, 4], (''a'', ''x''))}"
    "search (\<lambda>_. False) demo_renv demo_full None [''a'', ''b''] [1, 1] demo_opts =
       Inr (map (hit_of demo_full (so_projection demo_opts)) (take (so_top_k demo_opts) (drop (so_offset demo_opts) (sort_key rank E))))"
    by auto
  then have "E = [(?score [3, 4], (''a'', ''x''))]" by (intro singleton_list) (simp_all add: distinct_map)
  then show ?thesis using E(3) by (auto simp: demo_opts_def)
qed

theorem wide_quantized_search_is_exact_witness:
  "let qs = rebuild_quant demo_float (st_data demo_full) (QBinary \<lparr>bs_words = [], bs_words_per_row = 0\<rparr>) in
   search (\<lambda>_. False) demo_renv demo_full (Some qs) [''a''] [1, 1] demo_opts = search (\<lambda>_. False) demo_renv demo_full None [''a''] [1, 1] demo_opts"
proof -
  have inv: "segs_inv (st_data demo_full)" using demo_full_ok(1) by (simp add: store_ok_def)
  have dim: "0 < segs_dimension (st_data demo_full)" by (simp add: demo_full_defs segs_dimension_def)
  note qs = rebuild_mirrors[OF inv dim, of demo_float "QBinary \<lparr>bs_words = [], bs_words_per_row = 0\<rparr>"]
  let ?scan = "sorted_scan demo_renv demo_full [''a''] (so_filter demo_opts)"
  note scan = sorted_scan_ok[OF demo_full_ok(1) demo_read_ok(1) _ demo_read_ok(2,3), of "[''a'']" "so_filter demo_opts"]
  have "set ?scan \<subseteq> {(1, (''a'', ''x''))}"
    using scan by (auto simp: scan_set_def doc_contents_of demo_full_defs scannable_row_def DEFAULT_VECTOR_def split: if_splits)
  then have "card (set ?scan) \<le> 1" by (metis card.empty card.insert card_mono empty_iff finite.intros One_nat_def)
  moreover have "distinct ?scan" using scan by (simp add: distinct_map)
  ultimately have "length ?scan \<le> 1" using distinct_card[of ?scan] by simp
  also have "1 \<le> overscan_of demo_full (deepened demo_opts)"
    by (simp add: overscan_of_def deepened_def demo_opts_def search_depth_def sat_usize_def Let_def)
  finally show ?thesis
    using wide_quantized_search_is_exact[OF demo_full_ok(1) demo_read_ok, of "[''a'']" _ demo_opts "[1, 1]"] qs
    by (simp add: demo_renv_def)
qed

end
