(* ===== verification/ReadProps.thy ===== *)
theory ReadProps
  imports SearchProps
begin

text \<open>
  Listings and lookups: a listing is a page of every matching document in its order, and reading
  a document back after an upsert returns what was written.
\<close>

section \<open>The listing holds the matching documents\<close>

definition list_set :: "read_env \<Rightarrow> store \<Rightarrow> string list \<Rightarrow> filter_t \<Rightarrow> list_row set" where
  "list_set env s cols f = {(pr, (c, did)). c \<in> set cols \<and>
     (\<exists>e. doc_of s c did = Some e \<and> pr = primary_row e \<and> matches (re_text env) f (de_attrs e))}"

lemma list_match_Some:
  "list_match env f c (did, e) = Some x \<longleftrightarrow> matches (re_text env) f (de_attrs e) \<and> x = (primary_row e, (c, did))"
  by (auto simp: list_match_def)

text \<open>One collection's matches, narrowed or walked, drawn from distinct ids.\<close>

lemma list_collection_ids:
  assumes "store_ok s" and "iter_ok env" and "env_ok (re_text env) (re_parse env)" and "index_covers env s"
  shows "\<exists>ids. distinct ids \<and> list_collection env s f c =
      List.map_filter (\<lambda>did. Option.bind (doc_of s c did) (\<lambda>e. list_match env f c (did, e))) ids \<and>
    (\<forall>did e. doc_of s c did = Some e \<longrightarrow> matches (re_text env) f (de_attrs e) \<longrightarrow> did \<in> set ids)"
proof (cases "aget (st_collections s) c")
  case None
  then show ?thesis by (intro exI[of _ "[]"]) (simp add: list_collection_def map_filter_simps doc_of_def)
next
  case (Some col)
  then have doc: "doc_of s c = aget (co_docs col)" by (simp add: doc_of_def fun_eq_iff)
  show ?thesis
  proof (cases "narrow_candidate_ids (re_text env) (re_parse env) (st_findex s) c f")
    case None
    have "List.map_filter g (List.map_filter (\<lambda>did. map_option (Pair did) (m did)) ks) =
        List.map_filter (\<lambda>did. Option.bind (m did) (\<lambda>e. g (did, e))) ks" for g :: "string \<times> doc_entry \<Rightarrow> list_row option" and m ks
      by (induction ks) (auto simp: map_filter_simps split: option.split)
    moreover have "did \<in> set (re_order env (akeys (co_docs col)))" if "aget (co_docs col) did = Some e" for did e
      using map_of_SomeD[OF that] iter_ok_set[OF assms(2)] by force
    ultimately show ?thesis using Some None store_ok_col[OF assms(1) Some]
      by (intro exI[of _ "re_order env (akeys (co_docs col))"]) (auto simp: list_collection_def iter_docs_def doc iter_ok_distinct[OF assms(2)])
  next
    case (Some ids)
    have "did \<in> set ids" if "doc_of s c did = Some e" "matches (re_text env) f (de_attrs e)" for did e
      using narrow_sound[OF assms(3) _ _ that(2) Some] assms(4) that(1) unfolding index_covers_def by blast
    then show ?thesis using Some \<open>aget (st_collections s) c = Some col\<close> narrow_ids_distinct[OF Some]
      by (intro exI[of _ ids]) (auto simp: list_collection_def doc)
  qed
qed

lemma list_rows_ok:
  assumes "store_ok s" and "iter_ok env" and "env_ok (re_text env) (re_parse env)" and "index_covers env s" and "distinct cols"
  shows "distinct (map snd (concat (map (list_collection env s f) cols))) \<and>
    set (concat (map (list_collection env s f) cols)) = list_set env s cols f"
proof -
  let ?g = "\<lambda>c did. Option.bind (doc_of s c did) (\<lambda>e. list_match env f c (did, e))"
  have "\<exists>ids. \<forall>c. distinct (ids c) \<and> list_collection env s f c = List.map_filter (?g c) (ids c) \<and>
      (\<forall>did e. doc_of s c did = Some e \<longrightarrow> matches (re_text env) f (de_attrs e) \<longrightarrow> did \<in> set (ids c))"
    by (rule choice, rule allI, rule list_collection_ids[OF assms(1-4)])
  then obtain ids where ids: "distinct (ids c)" "list_collection env s f c = List.map_filter (?g c) (ids c)"
    "doc_of s c did = Some e \<Longrightarrow> matches (re_text env) f (de_attrs e) \<Longrightarrow> did \<in> set (ids c)" for c did e by blast
  have eq: "map (list_collection env s f) cols = map (\<lambda>c. List.map_filter (?g c) (ids c)) cols" by (simp add: ids(2))
  have "distinct (map snd (concat (map (list_collection env s f) cols)))" unfolding eq
    by (rule distinct_items[where cn = "\<lambda>c. c" and k = "\<lambda>x. x"])
      (use assms(5) ids(1) in \<open>auto simp: list.map_ident bind_eq_Some_conv list_match_Some\<close>)
  moreover have "x \<in> set (concat (map (list_collection env s f) cols)) \<longleftrightarrow> x \<in> list_set env s cols f" for x
  proof -
    have "x \<in> set (concat (map (list_collection env s f) cols)) \<longleftrightarrow>
        (\<exists>c \<in> set cols. \<exists>did \<in> set (ids c). \<exists>e. doc_of s c did = Some e \<and> list_match env f c (did, e) = Some x)"
      unfolding eq by (simp add: set_map_filter bind_eq_Some_conv)
    also have "\<dots> \<longleftrightarrow> x \<in> list_set env s cols f" using ids(3) by (cases x) (fastforce simp: list_match_Some list_set_def)
    finally show ?thesis .
  qed
  ultimately show ?thesis by blast
qed

section \<open>The attribute order is a preorder\<close>

text \<open>Values that compare with a witness compare among themselves as keys of a linear order do.\<close>

fun value_key :: "attr_value \<Rightarrow> int \<times> string" where
  "value_key (VInt i) = (i, [])"
| "value_key (VDateTime t) = (t, [])"
| "value_key (VBool b) = (if b then 1 else 0, [])"
| "value_key (VFloat x) = (f64_key x, [])"
| "value_key (VStr s) = (0, s)"
| "value_key _ = (0, [])"

lemma value_cmp_key:
  assumes "value_cmp x w \<noteq> None" and "value_cmp y w \<noteq> None"
  shows "value_cmp x y = Some (cmp (value_key x) (value_key y))"
proof (cases w)
  case (VBool b)
  then obtain p q where "x = VBool p" "y = VBool q" using assms by (cases x; cases y) auto
  then show ?thesis by (cases p; cases q) (simp_all add: cmp_def less_prod_def less_eq_prod_def)
next
  case (VFloat v)
  then obtain p q where "x = VFloat p" "y = VFloat q" using assms by (cases x; cases y) auto
  then show ?thesis using assms VFloat by (auto simp: cmp_def less_prod_def less_eq_prod_def f64_partial_cmp_def)
next
  case (VStr v)
  then obtain p q where "x = VStr p" "y = VStr q" using assms by (cases x; cases y) auto
  then show ?thesis by (simp add: cmp_def less_prod_def less_eq_prod_def less_le)
next
  case (VInt v)
  then obtain p q where "x = VInt p" "y = VInt q" using assms by (cases x; cases y) auto
  then show ?thesis by (simp add: cmp_def less_prod_def less_eq_prod_def)
next
  case (VDateTime v)
  then obtain p q where "x = VDateTime p" "y = VDateTime q" using assms by (cases x; cases y) auto
  then show ?thesis by (simp add: cmp_def less_prod_def less_eq_prod_def)
qed (use assms in \<open>cases x; simp\<close>)+

definition before :: "bool \<Rightarrow> attr_value \<Rightarrow> attr_value option \<Rightarrow> attr_value option \<Rightarrow> bool" where
  "before desc w a b \<longleftrightarrow> order_cmp desc w a b \<noteq> Greater"

text \<open>The unsortable values trail; the others follow their keys, up or down.\<close>

lemma before_key:
  "before desc w a b \<longleftrightarrow> (sortable w b \<longrightarrow> sortable w a \<and>
     (if desc then value_key (the b) \<le> value_key (the a) else value_key (the a) \<le> value_key (the b)))"
proof (cases "sortable w a \<and> sortable w b")
  case True
  then obtain x y where v: "a = Some x" "b = Some y" "value_cmp x w \<noteq> None" "value_cmp y w \<noteq> None"
    by (auto simp: sortable_def split: option.splits)
  have "reverse_ordering (cmp p q) \<noteq> Greater \<longleftrightarrow> q \<le> p" "cmp p q \<noteq> Greater \<longleftrightarrow> p \<le> q" for p q :: "int \<times> string"
    by (auto simp: cmp_def)
  then show ?thesis using True v(1,2) value_cmp_key[OF v(3,4)] by (simp add: before_def order_cmp_def Let_def)
qed (auto simp: before_def order_cmp_def)

lemma order_cmp_total: "before desc w a b \<or> before desc w b a"
  by (auto simp: before_key)

lemma order_cmp_trans: "before desc w a b \<Longrightarrow> before desc w b c \<Longrightarrow> before desc w a c"
  by (auto simp: before_key split: if_splits)

lemma insert_by_set: "mset (insert_by f x ys) = add_mset x (mset ys)"
  by (induction ys) auto

lemma sort_by_mset: "mset (sort_by f xs) = mset xs"
  by (induction xs) (simp_all add: sort_by_def insert_by_set)

lemma insert_by_sorted:
  assumes "\<And>x y. f x y \<noteq> Greater \<or> f y x \<noteq> Greater" and "\<And>x y z. f x y \<noteq> Greater \<Longrightarrow> f y z \<noteq> Greater \<Longrightarrow> f x z \<noteq> Greater"
    and "sorted_wrt (\<lambda>x y. f x y \<noteq> Greater) ys"
  shows "sorted_wrt (\<lambda>x y. f x y \<noteq> Greater) (insert_by f x ys)"
  using assms(3)
proof (induction ys)
  case (Cons y ys)
  have "set (insert_by f x ys) = insert x (set ys)" by (metis insert_by_set set_mset_add_mset_insert set_mset_mset)
  then show ?case using Cons assms(1)[of x y] assms(2)[of x y] by auto
qed simp

lemma sort_by_sorted:
  assumes "\<And>x y. f x y \<noteq> Greater \<or> f y x \<noteq> Greater" and "\<And>x y z. f x y \<noteq> Greater \<Longrightarrow> f y z \<noteq> Greater \<Longrightarrow> f x z \<noteq> Greater"
  shows "sorted_wrt (\<lambda>x y. f x y \<noteq> Greater) (sort_by f xs)"
  by (induction xs) (simp_all add: sort_by_def insert_by_sorted[OF assms])

lemma value_cmp_refl: "value_cmp v w \<noteq> None \<Longrightarrow> value_cmp v v \<noteq> None"
  by (cases v; cases w) (auto simp: f64_partial_cmp_def split: if_splits)

lemma same_witness: "value_cmp u w \<noteq> None \<Longrightarrow> sortable u = sortable w"
  by (intro ext; cases u; cases w) (auto simp: sortable_def f64_partial_cmp_def split: option.split if_splits elim!: value_cmp.elims)

lemma order_scan_sorted:
  assumes "\<forall>x \<in> set scan. \<forall>v. order_value s (ob_field ob) x = Some v \<longrightarrow> value_cmp v v \<noteq> None \<longrightarrow> value_cmp v w \<noteq> None"
  shows "sorted_wrt (\<lambda>a b. before (ob_descending ob) w (order_value s (ob_field ob) a) (order_value s (ob_field ob) b)) (order_scan s ob scan)"
proof (cases "List.find (\<lambda>v. value_cmp v v \<noteq> None) (List.map_filter (order_value s (ob_field ob)) scan)")
  case None
  have "\<not> sortable w (order_value s (ob_field ob) x)" if "x \<in> set scan" for x
  proof (cases "order_value s (ob_field ob) x")
    case (Some v)
    then have "v \<in> set (List.map_filter (order_value s (ob_field ob)) scan)" using that by (auto simp: set_map_filter)
    then have "value_cmp v v = None" using None by (auto simp: find_None_iff)
    then have "value_cmp v w = None" using value_cmp_refl[of v w] by blast
    then show ?thesis using Some by (simp add: sortable_def)
  qed (simp add: sortable_def)
  then show ?thesis using None by (simp add: order_scan_def before_key sorted_wrt_iff_nth_less)
next
  case (Some u)
  then have "u \<in> set (List.map_filter (order_value s (ob_field ob)) scan)" "value_cmp u u \<noteq> None"
    by (auto simp: find_Some_iff)
  then have "value_cmp u w \<noteq> None" using assms by (auto simp: set_map_filter)
  then have eq: "before (ob_descending ob) u a b \<longleftrightarrow> before (ob_descending ob) w a b" for a b
    by (simp only: before_key same_witness)
  let ?f = "\<lambda>a b. order_cmp (ob_descending ob) u (order_value s (ob_field ob) a) (order_value s (ob_field ob) b)"
  have "sorted_wrt (\<lambda>a b. ?f a b \<noteq> Greater) (sort_by ?f scan)"
    by (rule sort_by_sorted) (use order_cmp_total order_cmp_trans in \<open>unfold before_def, blast+\<close>)
  then show ?thesis using Some by (simp add: order_scan_def before_def[symmetric] eq)
qed

lemma order_scan_mset: "mset (order_scan s ob scan) = mset scan"
  by (simp add: order_scan_def sort_by_mset split: option.split)

text \<open>
  C17 (listings). A listing over distinct collections is the requested page of all their documents
  that match the filter, each once: in storage order, documents without vectors last by id; or,
  when an attribute orders it and its orderable values are of one kind, by that attribute, up or
  down, with the documents that lack an orderable value after all the others.
\<close>
theorem list_is_ordered_page:
  assumes "store_ok s" and "iter_ok env" and "env_ok (re_text env) (re_parse env)" and "index_covers env s" and "distinct cols"
  shows "\<exists>L. distinct (map snd L) \<and> set L = list_set env s cols (lo_filter opts) \<and>
    list_docs env s cols opts =
      map (\<lambda>(_, it). hit_of s (lo_projection opts) (0, it)) (take (lo_limit opts) (drop (lo_offset opts) L)) \<and>
    (case lo_order_by opts of
       None \<Rightarrow> sorted (map list_key L)
     | Some ob \<Rightarrow> \<forall>w. (\<forall>x \<in> set L. \<forall>v. order_value s (ob_field ob) x = Some v \<longrightarrow> value_cmp v v \<noteq> None \<longrightarrow> value_cmp v w \<noteq> None) \<longrightarrow>
         sorted_wrt (\<lambda>a b. before (ob_descending ob) w (order_value s (ob_field ob) a) (order_value s (ob_field ob) b)) L)"
proof -
  let ?rows = "concat (map (list_collection env s (lo_filter opts)) cols)"
  let ?L = "list_scan env s cols (lo_filter opts) (lo_order_by opts)"
  note rows = list_rows_ok[OF assms, of "lo_filter opts"]
  have m: "mset ?L = mset ?rows" by (simp add: list_scan_def Let_def order_scan_mset split: option.split)
  have "distinct (map snd ?L)" using rows mset_eq_imp_distinct_iff[of "map snd ?L" "map snd ?rows"] m by simp
  moreover have "set ?L = list_set env s cols (lo_filter opts)" using rows mset_eq_setD[OF m] by simp
  moreover have "case lo_order_by opts of
       None \<Rightarrow> sorted (map list_key ?L)
     | Some ob \<Rightarrow> \<forall>w. (\<forall>x \<in> set ?L. \<forall>v. order_value s (ob_field ob) x = Some v \<longrightarrow> value_cmp v v \<noteq> None \<longrightarrow> value_cmp v w \<noteq> None) \<longrightarrow>
         sorted_wrt (\<lambda>a b. before (ob_descending ob) w (order_value s (ob_field ob) a) (order_value s (ob_field ob) b)) ?L"
    using order_scan_sorted[of "sort_key list_key ?rows" s] mset_eq_setD[OF m]
    by (auto simp: list_scan_def Let_def split: option.split)
  ultimately show ?thesis by (intro exI[of _ ?L]) (simp add: list_docs_def)
qed

theorem list_is_ordered_page_witness:
  "list_docs demo_renv demo_full [''a''] \<lparr>lo_offset = 0, lo_limit = 10, lo_filter = [], lo_projection = ProjAll,
     lo_order_by = None\<rparr> = [hit_of demo_full ProjAll (0, (''a'', ''x''))]"
proof -
  let ?o = "\<lparr>lo_offset = 0, lo_limit = 10, lo_filter = [], lo_projection = ProjAll, lo_order_by = None\<rparr>"
  have docs: "list_set demo_renv demo_full [''a''] (lo_filter ?o) = {(Some (Suc 0), (''a'', ''x''))}"
    by (auto simp: list_set_def doc_contents_of demo_full_defs matches_def primary_row_def DEFAULT_VECTOR_def split: if_splits)
  from list_is_ordered_page[OF demo_full_ok(1) demo_read_ok(1,2,3), of "[''a'']" ?o] docs
  obtain L where L: "distinct (map snd L)" "set L = {(Some (Suc 0), (''a'', ''x''))}"
    "list_docs demo_renv demo_full [''a''] ?o = map (\<lambda>(_, it). hit_of demo_full (lo_projection ?o) (0, it)) (take (lo_limit ?o) (drop (lo_offset ?o) L))"
    by auto
  then have "L = [(Some (Suc 0), (''a'', ''x''))]" by (intro singleton_list) (simp_all add: distinct_map)
  then show ?thesis using L(3) by simp
qed

end
