(* ===== verification/Ann.thy ===== *)
theory Ann
  imports Quant
begin

unbundle bit_operations_syntax

text \<open>
  The space an approximate index is walked in and the inverted-file index
  (\<^verbatim>\<open>src/src/ann/mod.rs\<close>, \<^verbatim>\<open>src/src/ann/ivf.rs\<close>): the exact and the coded walks, the splitmix64
  generator, k-means fitting, insertion and the probe. Floating-point arithmetic, the rounded
  square root that sizes the index, the logarithm that draws a level, and the order the standard
  library gives to entries of equal score are arguments. The theorems show that the inverted
  lists always hold exactly the indexed rows, and that probing every list is an exact search.
\<close>

section \<open>Failures\<close>

datatype ann_error =
    AnnRow nat
  | AnnNode nat
  | AnnLevel nat nat
  | AnnList nat
  | AnnEndless

definition bindE :: "'e + 'a \<Rightarrow> ('a \<Rightarrow> 'e + 'b) \<Rightarrow> 'e + 'b" where
  "bindE r f = (case r of Inl e \<Rightarrow> Inl e | Inr x \<Rightarrow> f x)"

fun foldE :: "('a \<Rightarrow> 's \<Rightarrow> 'e + 's) \<Rightarrow> 'a list \<Rightarrow> 's \<Rightarrow> 'e + 's" where
  "foldE f [] s = Inr s"
| "foldE f (x # xs) s = bindE (f x s) (foldE f xs)"

fun mapE :: "('a \<Rightarrow> 'e + 'b) \<Rightarrow> 'a list \<Rightarrow> 'e + 'b list" where
  "mapE f [] = Inr []"
| "mapE f (x # xs) = bindE (f x) (\<lambda>y. bindE (mapE f xs) (\<lambda>ys. Inr (y # ys)))"

lemma bindE_Inr [simp]: "bindE (Inr x) f = f x" and bindE_Inl [simp]: "bindE (Inl e) f = Inl e"
  by (simp_all add: bindE_def)

lemma foldE_keeps:
  assumes "P s" and "\<And>x s. x \<in> set xs \<Longrightarrow> P s \<Longrightarrow> \<exists>t. f x s = Inr t \<and> P t"
  shows "\<exists>t. foldE f xs s = Inr t \<and> P t"
  using assms
proof (induction xs arbitrary: s)
  case (Cons x xs)
  from Cons.prems(2)[of x s] Cons.prems(1) obtain t where t: "f x s = Inr t" "P t" by auto
  with Cons.IH[of t] Cons.prems(2) show ?case by auto
qed simp

lemma foldE_prefix:
  assumes "P [] s" and "\<And>ys x s. x \<in> set xs \<Longrightarrow> P ys s \<Longrightarrow> \<exists>t. f x s = Inr t \<and> P (ys @ [x]) t"
  shows "\<exists>t. foldE f xs s = Inr t \<and> P xs t"
proof -
  have "\<exists>t. foldE f zs s = Inr t \<and> P (ys @ zs) t" if "P ys s" "set zs \<subseteq> set xs" for ys zs s
    using that
  proof (induction zs arbitrary: ys s)
    case (Cons z zs)
    from assms(2)[of z ys s] Cons.prems obtain t where t: "f z s = Inr t" "P (ys @ [z]) t" by auto
    with Cons.IH[of "ys @ [z]" t] Cons.prems(2) show ?case by auto
  qed simp
  from this[of "[]" s xs] assms(1) show ?thesis by simp
qed

lemma foldE_append: "foldE f (xs @ ys) s = bindE (foldE f xs s) (foldE f ys)"
  by (induction xs arbitrary: s) (auto simp: bindE_def split: sum.splits)

lemma mapE_total: "\<forall>x \<in> set xs. f x = Inr (g x) \<Longrightarrow> mapE f xs = Inr (map g xs)"
  by (induction xs) auto

section \<open>Order of scores and entries\<close>

text \<open>\<^verbatim>\<open>f32::total_cmp\<close> compares these keys; no two bit patterns share one.\<close>

definition total_key :: "f32 \<Rightarrow> int" where
  "total_key x = (if unat x < 2 ^ 31 then int (unat x) else - int (unat x - 2 ^ 31) - 1)"

type_synonym scored = "f32 \<times> nat"

record ann_env =
  an_ops :: float_ops
  an_auto_lists :: "nat \<Rightarrow> nat"
  an_level :: "nat \<Rightarrow> u64 \<Rightarrow> nat"
  an_tie :: "bool list \<Rightarrow> scored list \<Rightarrow> scored \<Rightarrow> nat"
  an_workers :: nat
  an_threads :: "nat \<Rightarrow> nat list \<Rightarrow> nat list \<Rightarrow> nat list list list \<times> nat \<times> nat"

text \<open>
  An unstable sort, highest score first: entries of equal score come in some order that may
  depend on the whole slice.
\<close>

definition sort_desc :: "ann_env \<Rightarrow> scored list \<Rightarrow> scored list" where
  "sort_desc env xs = sort_key (\<lambda>x. (- total_key (fst x), an_tie env [] xs x)) xs"

section \<open>The walk\<close>

datatype walk_quant =
    WalkExact
  | WalkInt8 "8 word list" nat bool quant_params
  | WalkBinary "u64 list" nat

record walk =
  wk_data :: segments
  wk_distance :: distance
  wk_quant :: walk_quant

definition score_fn_for :: "float_ops \<Rightarrow> distance \<Rightarrow> f32 list \<Rightarrow> f32 list \<Rightarrow> f32" where
  "score_fn_for ops d = (case d of Euclidean \<Rightarrow> euclidean_neg_sq ops | _ \<Rightarrow> dot ops)"

definition i8_score :: "float_ops \<Rightarrow> bool \<Rightarrow> 8 word list \<Rightarrow> 8 word list \<Rightarrow> f32" where
  "i8_score ops euclidean a b = f_of_int ops (sint (if euclidean then euclidean_neg_sq_i8 a b else dot_i8 a b))"

definition walk_exact :: "segments \<Rightarrow> distance \<Rightarrow> walk" where
  "walk_exact d dist = \<lparr>wk_data = d, wk_distance = dist, wk_quant = WalkExact\<rparr>"

definition walk_int8 :: "segments \<Rightarrow> 8 word list \<Rightarrow> quant_params \<Rightarrow> distance \<Rightarrow> walk" where
  "walk_int8 d codes params dist =
     \<lparr>wk_data = d, wk_distance = dist, wk_quant = WalkInt8 codes (segs_dimension d) (dist = Euclidean) params\<rparr>"

definition walk_binary :: "segments \<Rightarrow> u64 list \<Rightarrow> nat \<Rightarrow> walk" where
  "walk_binary d words wpr = \<lparr>wk_data = d, wk_distance = Cosine, wk_quant = WalkBinary words wpr\<rparr>"

definition ann_walk_for :: "quant option \<Rightarrow> segments \<Rightarrow> distance \<Rightarrow> walk" where
  "ann_walk_for quant d dist = (case quant of
     Some (QInt8 st) \<Rightarrow> if is_vectors st \<noteq> [] then walk_int8 d (is_vectors st) (is_params st) dist else walk_exact d dist
   | Some (QBinary st) \<Rightarrow> if bs_words st \<noteq> [] then walk_binary d (bs_words st) (bs_words_per_row st) else walk_exact d dist
   | None \<Rightarrow> walk_exact d dist)"

text \<open>Reads of a row and of a code panic past the end.\<close>

definition row_at :: "segments \<Rightarrow> nat \<Rightarrow> ann_error + f32 list" where
  "row_at d r = (case segs_row d r of Some v \<Rightarrow> Inr v | None \<Rightarrow> Inl (AnnRow r))"

definition code_at :: "'a list \<Rightarrow> nat \<Rightarrow> nat \<Rightarrow> ann_error + 'a list" where
  "code_at codes width r = (case code_slice codes width r of Some c \<Rightarrow> Inr c | None \<Rightarrow> Inl (AnnRow r))"

definition score_rows :: "float_ops \<Rightarrow> walk \<Rightarrow> nat \<Rightarrow> nat \<Rightarrow> ann_error + f32" where
  "score_rows ops w a b = (case wk_quant w of
     WalkExact \<Rightarrow> bindE (row_at (wk_data w) a) (\<lambda>x. bindE (row_at (wk_data w) b) (\<lambda>y.
       Inr (score_fn_for ops (wk_distance w) x y)))
   | WalkInt8 codes dim euclidean _ \<Rightarrow> bindE (code_at codes dim a) (\<lambda>x. bindE (code_at codes dim b) (\<lambda>y.
       Inr (i8_score ops euclidean x y)))
   | WalkBinary words wpr \<Rightarrow> bindE (code_at words wpr a) (\<lambda>x. bindE (code_at words wpr b) (\<lambda>y.
       Inr (f32_neg (f_of_int ops (uint (hamming x y)))))))"

text \<open>\<^verbatim>\<open>query_scorer\<close> encodes the query once; \<^verbatim>\<open>score\<close> pairs the code with its own walk.\<close>

definition query_score :: "float_ops \<Rightarrow> walk \<Rightarrow> f32 list \<Rightarrow> nat \<Rightarrow> ann_error + f32" where
  "query_score ops w query = (case wk_quant w of
     WalkExact \<Rightarrow> (\<lambda>r. bindE (row_at (wk_data w) r) (\<lambda>v. Inr (score_fn_for ops (wk_distance w) query v)))
   | WalkInt8 codes dim euclidean params \<Rightarrow>
       let q = quantize ops params query (replicate dim 0) in
       (\<lambda>r. bindE (code_at codes dim r) (\<lambda>c. Inr (i8_score ops euclidean q c)))
   | WalkBinary words wpr \<Rightarrow>
       let q = pack_signs query in
       (\<lambda>r. bindE (code_at words wpr r) (\<lambda>c. Inr (f32_neg (f_of_int ops (uint (hamming q c)))))))"

section \<open>The generator\<close>

definition next_u64 :: "u64 \<Rightarrow> u64 \<times> u64" where
  "next_u64 s =
     (let s' = s + 0x9E3779B97F4A7C15;
          z = (s' XOR drop_bit 30 s') * 0xBF58476D1CE4E5B9;
          z' = (z XOR drop_bit 27 z) * 0x94D049BB133111EB in
      (z' XOR drop_bit 31 z', s'))"

definition below :: "nat \<Rightarrow> u64 \<Rightarrow> nat \<times> u64" where
  "below n s = (let (z, s') = next_u64 s in (unat z mod n, s'))"

lemma below_less: "0 < n \<Longrightarrow> fst (below n s) < n"
  by (simp add: below_def split: prod.split)

section \<open>The inverted-file index\<close>

record ivf_index =
  ix_dim :: nat
  ix_distance :: distance
  ix_n_lists :: nat
  ix_n_probe :: nat
  ix_seed :: u64
  ix_centroids :: "f32 list"
  ix_lists :: "nat list list"

definition ivf_new :: "ann_config \<Rightarrow> nat \<Rightarrow> distance \<Rightarrow> ivf_index" where
  "ivf_new cfg dim dist = \<lparr>ix_dim = dim, ix_distance = dist, ix_n_lists = ann_n_lists cfg,
     ix_n_probe = max (ann_n_probe cfg) 1, ix_seed = ann_seed cfg, ix_centroids = [], ix_lists = []\<rparr>"

definition n_centroids :: "ivf_index \<Rightarrow> nat" where
  "n_centroids ix = length (ix_centroids ix) div max (ix_dim ix) 1"

definition ivf_from_parts :: "ann_config \<Rightarrow> nat \<Rightarrow> distance \<Rightarrow> f32 list \<Rightarrow> nat list list \<Rightarrow> ivf_index" where
  "ivf_from_parts cfg dim dist cs ls = (ivf_new cfg dim dist)\<lparr>ix_centroids := cs, ix_lists := ls\<rparr>"

definition ivf_set_query_params :: "ann_config \<Rightarrow> ivf_index \<Rightarrow> ivf_index" where
  "ivf_set_query_params cfg ix = ix\<lparr>ix_n_probe := max (ann_n_probe cfg) 1\<rparr>"

definition centroid :: "ivf_index \<Rightarrow> nat \<Rightarrow> f32 list" where
  "centroid ix c = take (ix_dim ix) (drop (c * ix_dim ix) (ix_centroids ix))"

definition f32_neg_infinity :: f32 where "f32_neg_infinity = 0xFF800000"

definition nearest_centroid :: "float_ops \<Rightarrow> ivf_index \<Rightarrow> f32 list \<Rightarrow> nat" where
  "nearest_centroid ops ix v = fst (foldl (\<lambda>(bst, score) c.
     let s = score_fn_for ops (ix_distance ix) v (centroid ix c) in
     if f32_less score s then (c, s) else (bst, score)) (0, f32_neg_infinity) [0..<n_centroids ix])"

definition shuffle_step :: "nat \<Rightarrow> u64 \<times> nat list \<Rightarrow> u64 \<times> nat list" where
  "shuffle_step i st = (case st of (rng, idx) \<Rightarrow>
     (let (d, rng') = below (length idx - i) rng; j = i + d in (rng', idx[i := idx ! j, j := idx ! i])))"

definition list_count :: "ann_env \<Rightarrow> nat \<Rightarrow> nat \<Rightarrow> nat" where
  "list_count env cfg n =
     (let auto = an_auto_lists env n; k = min (max cfg 1) n in
      if cfg = 0 then min (max auto 1) n else k)"

definition seed_centroids :: "segments \<Rightarrow> nat \<Rightarrow> nat list \<Rightarrow> ann_error + f32 list" where
  "seed_centroids d dim picked =
     foldE (\<lambda>(c, row) cs. bindE (row_at d row) (\<lambda>v. Inr (write_slice c dim (\<lambda>_. v) cs)))
       (enumerate 0 picked) (replicate (length picked * dim) 0)"

text \<open>One row added to the sum and the count of its centroid; \<^verbatim>\<open>zip\<close> stops at the shorter slice.\<close>

definition add_member :: "float_ops \<Rightarrow> nat \<Rightarrow> nat \<Rightarrow> f32 list \<Rightarrow> f32 list \<times> u32 list \<Rightarrow> f32 list \<times> u32 list" where
  "add_member ops dim c v st = (case st of (sums, counts) \<Rightarrow>
     (write_slice c dim (\<lambda>dst. map2 (f_add ops) dst v @ drop (length v) dst) sums, counts[c := counts ! c + 1]))"

definition move_centroid :: "float_ops \<Rightarrow> distance \<Rightarrow> nat \<Rightarrow> f32 list \<Rightarrow> u32 list \<Rightarrow> nat \<Rightarrow> f32 list \<Rightarrow> f32 list" where
  "move_centroid ops dist dim sums counts c cs =
     (if counts ! c = 0 then cs
      else let inv = f_div ops 0x3F800000 (f_of_int ops (uint (counts ! c))) in
        write_slice c dim (\<lambda>_. let cen = map (\<lambda>s. f_mul ops s inv) (take dim (drop (c * dim) sums)) in
          if dist = Cosine then normalize (f32_ops.truncate ops) cen else cen) cs)"

definition nearest_all :: "float_ops \<Rightarrow> segments \<Rightarrow> ivf_index \<Rightarrow> nat list \<Rightarrow> ann_error + nat list" where
  "nearest_all ops d ix live = mapE (\<lambda>row. bindE (row_at d row) (\<lambda>v. Inr (nearest_centroid ops ix v))) live"

definition update_centroids :: "float_ops \<Rightarrow> segments \<Rightarrow> nat \<Rightarrow> nat list \<Rightarrow> nat list \<Rightarrow> ivf_index \<Rightarrow> ann_error + ivf_index" where
  "update_centroids ops d k live assign ix =
     bindE (foldE (\<lambda>(c, row) st. bindE (row_at d row) (\<lambda>v. Inr (add_member ops (ix_dim ix) c v st)))
         (zip assign live) (replicate (k * ix_dim ix) 0, replicate k 0))
       (\<lambda>(sums, counts). Inr (ix\<lparr>ix_centroids :=
         fold (move_centroid ops (ix_distance ix) (ix_dim ix) sums counts) [0..<k] (ix_centroids ix)\<rparr>))"

fun kmeans :: "nat \<Rightarrow> float_ops \<Rightarrow> segments \<Rightarrow> nat \<Rightarrow> nat list \<Rightarrow> nat list \<Rightarrow> ivf_index \<Rightarrow> ann_error + ivf_index" where
  "kmeans 0 ops d k live assign ix = Inr ix"
| "kmeans (Suc n) ops d k live assign ix =
     bindE (nearest_all ops d ix live) (\<lambda>assign'.
     bindE (update_centroids ops d k live assign' ix) (\<lambda>ix'.
       if assign' = assign then Inr ix' else kmeans n ops d k live assign' ix'))"

definition KMEANS_ITERS :: nat where "KMEANS_ITERS = 12"

definition push_to_list :: "float_ops \<Rightarrow> segments \<Rightarrow> nat \<Rightarrow> ivf_index \<Rightarrow> ann_error + ivf_index" where
  "push_to_list ops d row ix = bindE (row_at d row) (\<lambda>v.
     let c = nearest_centroid ops ix v in
     if c < length (ix_lists ix) then Inr (ix\<lparr>ix_lists := (ix_lists ix)[c := ix_lists ix ! c @ [row]]\<rparr>)
     else Inl (AnnList c))"

definition ivf_build :: "ann_env \<Rightarrow> walk \<Rightarrow> nat list \<Rightarrow> ivf_index \<Rightarrow> ann_error + ivf_index" where
  "ivf_build env w live ix0 =
     (let ops = an_ops env; d = wk_data w; ix = ix0\<lparr>ix_centroids := [], ix_lists := []\<rparr> in
      if ix_dim ix = 0 \<or> live = [] then Inr ix
      else
        let k = list_count env (ix_n_lists ix) (length live);
            idx = snd (fold shuffle_step [0..<k] (ix_seed ix, live)) in
        bindE (seed_centroids d (ix_dim ix) (take k idx)) (\<lambda>cs.
        bindE (kmeans KMEANS_ITERS ops d k live (replicate (length live) 0) (ix\<lparr>ix_centroids := cs\<rparr>)) (\<lambda>fit.
          foldE (push_to_list ops d) live (fit\<lparr>ix_lists := replicate k []\<rparr>))))"

definition ivf_insert_rows :: "ann_env \<Rightarrow> walk \<Rightarrow> nat list \<Rightarrow> ivf_index \<Rightarrow> ann_error + ivf_index" where
  "ivf_insert_rows env w rows ix =
     (if ix_dim ix = 0 \<or> n_centroids ix = 0 then if rows = [] then Inr ix else ivf_build env w rows ix
      else foldE (push_to_list (an_ops env) (wk_data w)) rows ix)"

text \<open>
  The probe. \<^verbatim>\<open>select_nth_unstable_by\<close> leaves the best \<open>probe\<close> centroids in front; the order among
  them only decides ties of the final sort, which are open anyway.
\<close>

definition probed :: "ann_env \<Rightarrow> ivf_index \<Rightarrow> f32 list \<Rightarrow> nat list" where
  "probed env ix query =
     (let scores = map (\<lambda>c. (score_fn_for (an_ops env) (ix_distance ix) query (centroid ix c), c)) [0..<n_centroids ix] in
      map snd (take (min (ix_n_probe ix) (length scores)) (sort_desc env scores)))"

definition list_at :: "ivf_index \<Rightarrow> nat \<Rightarrow> ann_error + nat list" where
  "list_at ix c = (if c < length (ix_lists ix) then Inr (ix_lists ix ! c) else Inl (AnnList c))"

definition ivf_search :: "ann_env \<Rightarrow> walk \<Rightarrow> f32 list \<Rightarrow> nat \<Rightarrow> ivf_index \<Rightarrow> ann_error + scored list" where
  "ivf_search env w query n ix =
     (if n = 0 \<or> ix_dim ix = 0 \<or> n_centroids ix = 0 then Inr []
      else bindE (mapE (list_at ix) (probed env ix query)) (\<lambda>ls.
        bindE (mapE (\<lambda>r. bindE (query_score (an_ops env) w query r) (\<lambda>s. Inr (s, r))) (concat ls)) (\<lambda>scored.
          Inr (take n (sort_desc env scored)))))"

section \<open>Reads and slices\<close>

lemma row_at_ok:
  assumes "segs_inv d" and "r < segs_row_count d"
  shows "row_at d r = Inr (segs_rows d ! r)" and "length (segs_rows d ! r) = segs_dimension d"
  using assms segs_row_lengths[OF assms(1), of "segs_rows d ! r"]
  by (simp_all add: row_at_def segs_matrix.row_nth segs_count)

lemma length_write_slice:
  assumes "length xs = n * w" and "c < n" and "\<And>ys. length ys = w \<Longrightarrow> length (f ys) = w"
  shows "length (write_slice c w f xs) = n * w"
proof -
  have le: "Suc c * w \<le> n * w" using assms(2) by (intro mult_le_mono1) simp
  then have "length (f (take w (drop (c * w) xs))) = w" using assms by (intro assms(3)) simp
  then show ?thesis using assms(1) le by (simp add: write_slice_def)
qed

lemma length_normalize [simp]: "length (normalize ops v) = length v"
  by (simp add: normalize_def Let_def)

lemma nearest_centroid_less:
  assumes "0 < n_centroids ix"
  shows "nearest_centroid ops ix v < n_centroids ix"
proof -
  let ?f = "\<lambda>(bst, score) c. let s = score_fn_for ops (ix_distance ix) v (centroid ix c) in
     if f32_less score s then (c, s) else (bst, score)"
  have "fst (foldl ?f p cs) < n_centroids ix" if "fst p < n_centroids ix" "\<forall>c \<in> set cs. c < n_centroids ix" for p cs
    using that by (induction cs arbitrary: p) (auto simp: Let_def split: prod.split)
  then show ?thesis using assms by (simp add: nearest_centroid_def)
qed

section \<open>Building and inserting keep every row\<close>

text \<open>
  The lists hold the rows, each as often as it was indexed, one list per centroid.
\<close>

definition ivf_holds :: "ivf_index \<Rightarrow> nat multiset \<Rightarrow> bool" where
  "ivf_holds ix rows \<longleftrightarrow> length (ix_centroids ix) = length (ix_lists ix) * ix_dim ix \<and>
     mset (concat (ix_lists ix)) = rows"

lemma ivf_holds_centroids: "ivf_holds ix rows \<Longrightarrow> 0 < ix_dim ix \<Longrightarrow> n_centroids ix = length (ix_lists ix)"
  by (simp add: ivf_holds_def n_centroids_def)

lemma mset_concat_push: "c < length ls \<Longrightarrow> mset (concat (ls[c := ls ! c @ [r]])) = add_mset r (mset (concat ls))"
  by (induction ls arbitrary: c) (auto split: nat.split)

lemma push_to_list_ok:
  assumes "ivf_holds ix rows" and "0 < ix_dim ix" and "0 < n_centroids ix" and "segs_inv d" and "r < segs_row_count d"
  shows "\<exists>ix'. push_to_list ops d r ix = Inr ix' \<and> ivf_holds ix' (add_mset r rows) \<and> n_centroids ix' = n_centroids ix \<and>
    ix_dim ix' = ix_dim ix"
  using assms nearest_centroid_less[OF assms(3)] ivf_holds_centroids[OF assms(1,2)]
  by (auto simp: push_to_list_def row_at_ok Let_def ivf_holds_def mset_concat_push n_centroids_def)

lemma push_all_ok:
  assumes "segs_inv d" and "\<forall>r \<in> set rows. r < segs_row_count d"
    and "ivf_holds ix held" and "0 < ix_dim ix" and "0 < n_centroids ix"
  shows "\<exists>ix'. foldE (push_to_list ops d) rows ix = Inr ix' \<and> ivf_holds ix' (mset rows + held) \<and> ix_dim ix' = ix_dim ix"
  using assms(2-5)
proof (induction rows arbitrary: ix held)
  case (Cons r rows)
  from push_to_list_ok[OF Cons.prems(2-4) assms(1), of r ops] Cons.prems(1)
  obtain ix1 where "push_to_list ops d r ix = Inr ix1" "ivf_holds ix1 (add_mset r held)"
    "n_centroids ix1 = n_centroids ix" "ix_dim ix1 = ix_dim ix" by auto
  with Cons.IH[of ix1 "add_mset r held"] Cons.prems show ?case by auto
qed simp

lemma shuffle_mset:
  assumes "i < length idx"
  shows "mset (snd (shuffle_step i (rng, idx))) = mset idx"
proof -
  have "i + fst (below (length idx - i) rng) < length idx" using assms below_less[of "length idx - i" rng] by simp
  then show ?thesis using assms by (auto simp: shuffle_step_def Let_def mset_swap split: prod.split)
qed

lemma shuffle_all_mset: "\<forall>i \<in> set is. i < length idx \<Longrightarrow> mset (snd (fold shuffle_step is (rng, idx))) = mset idx"
proof (induction "is" arbitrary: rng idx)
  case (Cons i js)
  obtain rng' idx' where s: "shuffle_step i (rng, idx) = (rng', idx')" by (cases "shuffle_step i (rng, idx)")
  with shuffle_mset[of i idx rng] Cons.prems have m: "mset idx' = mset idx" by simp
  then have "length idx' = length idx" by (rule mset_eq_length)
  then show ?case using Cons.IH[of idx' rng'] Cons.prems m by (simp add: s)
qed simp

lemma seed_centroids_ok:
  assumes "segs_inv d" and "\<forall>r \<in> set picked. r < segs_row_count d" and "dim = segs_dimension d"
  shows "\<exists>cs. seed_centroids d dim picked = Inr cs \<and> length cs = length picked * dim"
  unfolding seed_centroids_def
proof (rule foldE_keeps)
  fix x and cs :: "f32 list"
  assume "x \<in> set (enumerate 0 picked)" and len: "length cs = length picked * dim"
  moreover obtain c row where x1: "x = (c, row)" by (cases x)
  ultimately have x: "x = (c, row)" "c < length picked" "row \<in> set picked"
    by (auto simp: in_set_enumerate_eq)
  with assms have "row < segs_row_count d" by simp
  from row_at_ok[OF assms(1) this] show "\<exists>t. (case x of (c, row) \<Rightarrow> \<lambda>cs. bindE (row_at d row) (\<lambda>v. Inr (write_slice c dim (\<lambda>_. v) cs))) cs = Inr t \<and>
      length t = length picked * dim"
    using x(1) length_write_slice[OF len x(2)] assms(3) by simp
qed simp

lemma nearest_all_ok:
  assumes "segs_inv d" and "\<forall>r \<in> set live. r < segs_row_count d" and "0 < n_centroids ix"
  shows "\<exists>assign. nearest_all ops d ix live = Inr assign \<and> length assign = length live \<and> (\<forall>c \<in> set assign. c < n_centroids ix)"
  using assms nearest_centroid_less[OF assms(3), of ops]
    mapE_total[of live "\<lambda>row. bindE (row_at d row) (\<lambda>v. Inr (nearest_centroid ops ix v))" "\<lambda>r. nearest_centroid ops ix (segs_rows d ! r)"]
  by (auto simp: nearest_all_def row_at_ok)

lemma update_centroids_ok:
  assumes "segs_inv d" and "\<forall>r \<in> set live. r < segs_row_count d" and "\<forall>c \<in> set assign. c < k"
    and "length (ix_centroids ix) = k * ix_dim ix" and "ix_dim ix = segs_dimension d"
  shows "\<exists>ix'. update_centroids ops d k live assign ix = Inr ix' \<and> length (ix_centroids ix') = k * ix_dim ix' \<and>
    ix_dim ix' = ix_dim ix"
proof -
  let ?add = "\<lambda>(c, row) st. bindE (row_at d row) (\<lambda>v. Inr (add_member ops (ix_dim ix) c v st))"
  have "\<exists>st. foldE ?add (zip assign live) (replicate (k * ix_dim ix) 0, replicate k 0) = Inr st \<and> length (fst st) = k * ix_dim ix"
  proof (rule foldE_keeps)
    fix x and st :: "f32 list \<times> u32 list"
    assume "x \<in> set (zip assign live)" and len: "length (fst st) = k * ix_dim ix"
    moreover obtain c row where x1: "x = (c, row)" by (cases x)
    ultimately have x: "x = (c, row)" "c < k" "row < segs_row_count d"
      using assms by (auto dest: set_zip_leftD set_zip_rightD)
    then show "\<exists>t. ?add x st = Inr t \<and> length (fst t) = k * ix_dim ix"
      using row_at_ok[OF assms(1) x(3)] assms(5) length_write_slice[OF len x(2)] by (cases st) (simp add: add_member_def)
  qed simp
  then obtain sums counts where sums: "foldE ?add (zip assign live) (replicate (k * ix_dim ix) 0, replicate k 0) = Inr (sums, counts)"
    "length sums = k * ix_dim ix" by auto
  have slice: "length (take (ix_dim ix) (drop (c * ix_dim ix) sums)) = ix_dim ix" if "c < k" for c
  proof -
    have "Suc c * ix_dim ix \<le> k * ix_dim ix" using that by (intro mult_le_mono1) simp
    then show ?thesis using sums(2) by simp
  qed
  have "length (fold (move_centroid ops (ix_distance ix) (ix_dim ix) sums counts) cs' cen) = k * ix_dim ix"
    if "\<forall>c \<in> set cs'. c < k" "length cen = k * ix_dim ix" for cs' and cen :: "f32 list"
    using that
  proof (induction cs' arbitrary: cen)
    case (Cons c cs')
    then show ?case using length_write_slice[of cen k "ix_dim ix" c] slice[of c] by (simp add: move_centroid_def Let_def)
  qed simp
  then show ?thesis using sums(1) assms(4) by (simp add: update_centroids_def)
qed

lemma kmeans_ok:
  assumes "segs_inv d" and "\<forall>r \<in> set live. r < segs_row_count d" and "0 < k"
    and "length (ix_centroids ix) = k * ix_dim ix" and "ix_dim ix = segs_dimension d" and "0 < ix_dim ix"
  shows "\<exists>ix'. kmeans n ops d k live assign ix = Inr ix' \<and> length (ix_centroids ix') = k * ix_dim ix' \<and> ix_dim ix' = ix_dim ix"
  using assms(4-6)
proof (induction n arbitrary: ix assign)
  case (Suc n)
  then have nc: "n_centroids ix = k" by (simp add: n_centroids_def)
  from nearest_all_ok[OF assms(1,2), of ix ops] nc assms(3)
  obtain assign' where a: "nearest_all ops d ix live = Inr assign'" "\<forall>c \<in> set assign'. c < k" by auto
  from update_centroids_ok[OF assms(1,2) a(2) Suc.prems(1,2), of ops] obtain ix1
    where u: "update_centroids ops d k live assign' ix = Inr ix1" "length (ix_centroids ix1) = k * ix_dim ix1" "ix_dim ix1 = ix_dim ix"
    by auto
  with Suc.IH[of ix1 assign'] Suc.prems a(1) show ?case by simp
qed simp

lemma list_count_bounds: "0 < n \<Longrightarrow> 0 < list_count env cfg n \<and> list_count env cfg n \<le> n"
  by (simp add: list_count_def Let_def min_def max_def)

lemma ivf_build_holds:
  assumes "segs_inv (wk_data w)" and "\<forall>r \<in> set live. r < segs_row_count (wk_data w)"
    and "ix_dim ix = segs_dimension (wk_data w)" and "0 < ix_dim ix"
  shows "\<exists>ix'. ivf_build env w live ix = Inr ix' \<and> ivf_holds ix' (mset live) \<and> ix_dim ix' = ix_dim ix \<and>
    (live \<noteq> [] \<longrightarrow> 0 < n_centroids ix')"
proof (cases "live = []")
  case True
  then show ?thesis by (simp add: ivf_build_def Let_def ivf_holds_def)
next
  case False
  let ?ops = "an_ops env" and ?d = "wk_data w"
  let ?k = "list_count env (ix_n_lists ix) (length live)"
  let ?idx = "snd (fold shuffle_step [0..<?k] (ix_seed ix, live))"
  let ?ix = "ix\<lparr>ix_centroids := [], ix_lists := []\<rparr>"
  have k: "0 < ?k" "?k \<le> length live" using list_count_bounds[of "length live"] False by auto
  have idx: "mset ?idx = mset live" by (rule shuffle_all_mset) (use k in auto)
  then have len: "length (take ?k ?idx) = ?k" using k by (metis length_take min_absorb2 mset_eq_length)
  have "\<forall>r \<in> set (take ?k ?idx). r < segs_row_count ?d"
    using assms(2) mset_eq_setD[OF idx] by (auto dest: in_set_takeD)
  from seed_centroids_ok[OF assms(1) this assms(3)] obtain cs
    where cs: "seed_centroids ?d (ix_dim ix) (take ?k ?idx) = Inr cs" "length cs = ?k * ix_dim ix" unfolding len by auto
  from kmeans_ok[OF assms(1,2) k(1), of "?ix\<lparr>ix_centroids := cs\<rparr>" KMEANS_ITERS ?ops "replicate (length live) 0"] cs(2) assms(3,4)
  obtain fit where fit: "kmeans KMEANS_ITERS ?ops ?d ?k live (replicate (length live) 0) (?ix\<lparr>ix_centroids := cs\<rparr>) = Inr fit"
    "length (ix_centroids fit) = ?k * ix_dim ix" "ix_dim fit = ix_dim ix" by auto
  let ?fit = "fit\<lparr>ix_lists := replicate ?k []\<rparr>"
  have "ivf_holds ?fit {#}" using fit by (simp add: ivf_holds_def)
  moreover have nc: "n_centroids ?fit = ?k" using fit assms(4) by (simp add: n_centroids_def)
  ultimately obtain ix' where ix': "foldE (push_to_list ?ops ?d) live ?fit = Inr ix'" "ivf_holds ix' (mset live + {#})" "ix_dim ix' = ix_dim ?fit"
    using push_all_ok[OF assms(1,2), of ?fit "{#}" ?ops] fit(3) assms(4) k by auto
  have "0 < n_centroids ix'"
    using ivf_holds_centroids[OF ix'(2)] ix' fit(3) assms(4) False by (cases "ix_lists ix'") (auto simp: ivf_holds_def)
  then show ?thesis using False assms(4) cs fit ix' by (simp add: ivf_build_def Let_def)
qed

lemma ivf_insert_holds:
  assumes "segs_inv (wk_data w)" and "\<forall>r \<in> set rows. r < segs_row_count (wk_data w)"
    and "ix_dim ix = segs_dimension (wk_data w)" and "0 < ix_dim ix" and "ivf_holds ix held"
  shows "\<exists>ix'. ivf_insert_rows env w rows ix = Inr ix' \<and> ivf_holds ix' (held + mset rows) \<and> ix_dim ix' = ix_dim ix"
proof (cases "n_centroids ix = 0")
  case True
  with ivf_holds_centroids[OF assms(5,4)] assms(5) have "held = {#}" by (simp add: ivf_holds_def)
  then show ?thesis using True ivf_build_holds[OF assms(1-4), of env] assms(5) by (auto simp: ivf_insert_rows_def)
next
  case False
  then show ?thesis using push_all_ok[OF assms(1,2,5,4), of "an_ops env"] assms(4)
    by (auto simp: ivf_insert_rows_def add.commute)
qed

section \<open>Probing every list is exact\<close>

text \<open>The \<open>n\<close> best entries of a bag, best first.\<close>

definition best_of :: "nat \<Rightarrow> scored multiset \<Rightarrow> scored list \<Rightarrow> bool" where
  "best_of n bag res \<longleftrightarrow> length res = min n (size bag) \<and>
     sorted_wrt (\<lambda>x y. total_key (fst y) \<le> total_key (fst x)) res \<and>
     (\<exists>rest. bag = mset res + rest \<and> (\<forall>x \<in> set res. \<forall>y \<in># rest. total_key (fst y) \<le> total_key (fst x)))"

lemma mset_sort_desc [simp]: "mset (sort_desc env xs) = mset xs"
  by (simp add: sort_desc_def)

lemma set_sort_desc [simp]: "set (sort_desc env xs) = set xs"
  by (simp add: sort_desc_def)

lemma length_sort_desc [simp]: "length (sort_desc env xs) = length xs"
  by (simp add: sort_desc_def)

lemma sorted_sort_desc: "sorted_wrt (\<lambda>x y. total_key (fst y) \<le> total_key (fst x)) (sort_desc env xs)"
proof -
  have "sorted_wrt (\<lambda>x y. (- total_key (fst x), an_tie env [] xs x) \<le> (- total_key (fst y), an_tie env [] xs y)) (sort_desc env xs)"
    using sorted_sort_key[of "\<lambda>x. (- total_key (fst x), an_tie env [] xs x)" xs] unfolding sort_desc_def sorted_map .
  then show ?thesis by (rule sorted_wrt_mono_rel[rotated]) (auto simp: less_eq_prod_def)
qed

lemma best_of_take: "best_of n (mset xs) (take n (sort_desc env xs))"
proof -
  let ?s = "sort_desc env xs"
  have "sorted_wrt (\<lambda>x y. total_key (fst y) \<le> total_key (fst x)) (take n ?s @ drop n ?s)"
    using sorted_sort_desc[of env xs] by simp
  then have "sorted_wrt (\<lambda>x y. total_key (fst y) \<le> total_key (fst x)) (take n ?s)"
    and "\<forall>x \<in> set (take n ?s). \<forall>y \<in># mset (drop n ?s). total_key (fst y) \<le> total_key (fst x)"
    unfolding sorted_wrt_append set_mset_mset by blast+
  moreover have "mset xs = mset (take n ?s) + mset (drop n ?s)" by (simp flip: mset_append)
  ultimately show ?thesis unfolding best_of_def by (intro conjI exI[of _ "mset (drop n ?s)"]) (simp_all add: min.commute)
qed

lemma probed_range: "set (probed env ix q) \<subseteq> {0..<n_centroids ix}" "distinct (probed env ix q)"
proof -
  let ?sc = "map (\<lambda>c. (score_fn_for (an_ops env) (ix_distance ix) q (centroid ix c), c)) [0..<n_centroids ix]"
  have "distinct (map snd (sort_desc env ?sc))"
    by (rule mset_eq_imp_distinct_iff[THEN iffD2, of _ "map snd ?sc"]) (simp_all add: image_mset.compositionality comp_def)
  then show "distinct (probed env ix q)" by (simp add: probed_def Let_def flip: take_map)
  show "set (probed env ix q) \<subseteq> {0..<n_centroids ix}"
    by (auto simp: probed_def Let_def dest!: in_set_takeD)
qed

lemma probed_every:
  assumes "n_centroids ix \<le> ix_n_probe ix"
  shows "mset (probed env ix q) = mset [0..<n_centroids ix]"
  using assms by (simp add: probed_def Let_def image_mset.compositionality comp_def min_absorb2)

lemma ivf_search_scans:
  assumes "ivf_holds ix rows" and "0 < ix_dim ix" and "\<And>r. r \<in># rows \<Longrightarrow> query_score (an_ops env) w query r = Inr (sc r)"
    and "n \<noteq> 0" and "n_centroids ix \<noteq> 0"
  shows "ivf_search env w query n ix =
    Inr (take n (sort_desc env (map (\<lambda>r. (sc r, r)) (concat (map ((!) (ix_lists ix)) (probed env ix query))))))"
proof -
  let ?ls = "map ((!) (ix_lists ix)) (probed env ix query)"
  have in_range: "c < length (ix_lists ix)" if "c \<in> set (probed env ix query)" for c
    using that probed_range[of env ix query] ivf_holds_centroids[OF assms(1,2)] by auto
  then have "mapE (list_at ix) (probed env ix query) = Inr ?ls" by (intro mapE_total) (simp add: list_at_def)
  moreover have "r \<in># rows" if r: "r \<in> set (concat ?ls)" for r
  proof -
    from r obtain c where "c \<in> set (probed env ix query)" "r \<in> set (ix_lists ix ! c)" by auto
    then have "r \<in> set (concat (ix_lists ix))" using in_range by auto
    then show ?thesis using assms(1) by (metis ivf_holds_def set_mset_mset)
  qed
  then have "mapE (\<lambda>r. bindE (query_score (an_ops env) w query r) (\<lambda>s. Inr (s, r))) (concat ?ls) = Inr (map (\<lambda>r. (sc r, r)) (concat ?ls))"
    by (intro mapE_total) (simp add: assms(3))
  ultimately show ?thesis using assms(2,4,5) by (simp add: ivf_search_def)
qed

lemma ivf_search_every_list:
  assumes "ivf_holds ix rows" and "0 < ix_dim ix" and "\<And>r. r \<in># rows \<Longrightarrow> query_score (an_ops env) w query r = Inr (sc r)"
    and "n_centroids ix \<le> ix_n_probe ix"
  shows "\<exists>res. ivf_search env w query n ix = Inr res \<and> best_of n (image_mset (\<lambda>r. (sc r, r)) rows) res"
proof (cases "n = 0 \<or> n_centroids ix = 0")
  case True
  then have "n = 0 \<or> rows = {#}" using ivf_holds_centroids[OF assms(1,2)] assms(1) by (auto simp: ivf_holds_def)
  then show ?thesis using True by (auto simp: ivf_search_def best_of_def)
next
  case False
  let ?bag = "concat (map ((!) (ix_lists ix)) (probed env ix query))"
  have "mset (map ((!) (ix_lists ix)) (probed env ix query)) = mset (map ((!) (ix_lists ix)) [0..<length (ix_lists ix)])"
    using probed_every[OF assms(4), of env query] ivf_holds_centroids[OF assms(1,2)] by (simp add: mset_map)
  then have "mset (map ((!) (ix_lists ix)) (probed env ix query)) = mset (ix_lists ix)" by (simp add: map_nth)
  then have "mset ?bag = mset (concat (ix_lists ix))"
    by (metis mset_concat sum_mset_sum_list mset_map)
  then have bag: "mset (map (\<lambda>r. (sc r, r)) ?bag) = image_mset (\<lambda>r. (sc r, r)) rows"
    using assms(1) by (simp add: ivf_holds_def)
  have "ivf_search env w query n ix = Inr (take n (sort_desc env (map (\<lambda>r. (sc r, r)) ?bag)))"
    using assms(1-3) False by (intro ivf_search_scans) auto
  moreover have "best_of n (image_mset (\<lambda>r. (sc r, r)) rows) (take n (sort_desc env (map (\<lambda>r. (sc r, r)) ?bag)))"
    using best_of_take[of n "map (\<lambda>r. (sc r, r)) ?bag" env] bag by simp
  ultimately show ?thesis by blast
qed

text \<open>
  C16 (inverted lists). Building the inverted-file index over existing rows and inserting more never
  fails; the lists then hold exactly those rows, each once per insertion, whatever the fit of the
  centroids; and a search tuned to probe every list returns the best rows of them all, best first.
\<close>
theorem ivf_probe_all_exact:
  assumes "segs_inv (wk_data w)" and "0 < segs_dimension (wk_data w)"
    and "\<forall>r \<in> set live \<union> set fresh. r < segs_row_count (wk_data w)"
  shows "\<exists>ix. bindE (ivf_build env w live (ivf_new cfg (segs_dimension (wk_data w)) dist)) (ivf_insert_rows env w fresh) = Inr ix \<and>
    mset (concat (ix_lists ix)) = mset (live @ fresh) \<and>
    (\<forall>query n sc tuned. (\<forall>r \<in> set live \<union> set fresh. query_score (an_ops env) w query r = Inr (sc r)) \<longrightarrow>
       n_centroids ix \<le> ann_n_probe tuned \<longrightarrow>
       (\<exists>res. ivf_search env w query n (ivf_set_query_params tuned ix) = Inr res \<and>
          best_of n (image_mset (\<lambda>r. (sc r, r)) (mset (live @ fresh))) res))"
proof -
  let ?ix = "ivf_new cfg (segs_dimension (wk_data w)) dist"
  from ivf_build_holds[OF assms(1), of live ?ix env] assms(2,3)
  obtain ix1 where b: "ivf_build env w live ?ix = Inr ix1" "ivf_holds ix1 (mset live)" "ix_dim ix1 = segs_dimension (wk_data w)"
    by (auto simp: ivf_new_def)
  from ivf_insert_holds[OF assms(1) _ b(3) _ b(2), of fresh env] assms(2,3) b(3)
  obtain ix where i: "ivf_insert_rows env w fresh ix1 = Inr ix" "ivf_holds ix (mset (live @ fresh))" "ix_dim ix = segs_dimension (wk_data w)"
    by auto
  have tuned: "ivf_holds (ivf_set_query_params tuned ix) (mset (live @ fresh))" "0 < ix_dim (ivf_set_query_params tuned ix)"
    "n_centroids (ivf_set_query_params tuned ix) = n_centroids ix" "ann_n_probe tuned \<le> ix_n_probe (ivf_set_query_params tuned ix)" for tuned
    using i(2,3) assms(2) by (simp_all add: ivf_holds_def ivf_set_query_params_def n_centroids_def)
  have "\<exists>res. ivf_search env w query n (ivf_set_query_params tuned ix) = Inr res \<and> best_of n (image_mset (\<lambda>r. (sc r, r)) (mset (live @ fresh))) res"
    if "\<forall>r \<in> set live \<union> set fresh. query_score (an_ops env) w query r = Inr (sc r)" "n_centroids ix \<le> ann_n_probe tuned" for query n sc tuned
    using that tuned[of tuned] by (intro ivf_search_every_list) auto
  then show ?thesis using b(1) i(1,2) by (intro exI[of _ ix]) (simp add: ivf_holds_def)
qed

section \<open>A concrete index\<close>

definition demo_ann :: ann_env where
  "demo_ann = \<lparr>an_ops = demo_float, an_auto_lists = (\<lambda>n. n), an_level = (\<lambda>m z. unat (drop_bit 60 z)), an_tie = (\<lambda>v xs x. snd x),
     an_workers = 1, an_threads = (\<lambda>_ _ _. ([], 0, 0))\<rparr>"

definition demo_walk :: walk where
  "demo_walk = walk_exact demo_segs Euclidean"

definition demo_ann_config :: ann_config where
  "demo_ann_config = \<lparr>ann_kind = Ivf, ann_m = 2, ann_ef_construction = 4, ann_ef_search = 4, ann_n_lists = 2, ann_n_probe = 2,
     ann_overscan = 1, ann_seed = 7\<rparr>"

lemma demo_walk_ok:
  "wk_data demo_walk = demo_segs" "segs_dimension demo_segs = 2" "segs_row_count demo_segs = 3"
  "r < 3 \<Longrightarrow> query_score ops demo_walk q r = Inr (euclidean_neg_sq ops q (segs_rows demo_segs ! r))"
  "a < 3 \<Longrightarrow> b < 3 \<Longrightarrow> score_rows ops demo_walk a b = Inr (euclidean_neg_sq ops (segs_rows demo_segs ! a) (segs_rows demo_segs ! b))"
proof -
  show "wk_data demo_walk = demo_segs" by (simp add: demo_walk_def walk_exact_def)
  show "segs_dimension demo_segs = 2" by (simp add: demo_segs_def segs_dimension_def seg_in_memory_with_def)
  show c: "segs_row_count demo_segs = 3" using segs_count[OF demo_segs_inv] demo_segs_rows by simp
  show "r < 3 \<Longrightarrow> query_score ops demo_walk q r = Inr (euclidean_neg_sq ops q (segs_rows demo_segs ! r))"
    using row_at_ok(1)[OF demo_segs_inv, of r] c by (simp add: demo_walk_def walk_exact_def query_score_def score_fn_for_def)
  show "a < 3 \<Longrightarrow> b < 3 \<Longrightarrow> score_rows ops demo_walk a b = Inr (euclidean_neg_sq ops (segs_rows demo_segs ! a) (segs_rows demo_segs ! b))"
    using row_at_ok(1)[OF demo_segs_inv, of a] row_at_ok(1)[OF demo_segs_inv, of b] c
    by (simp add: demo_walk_def walk_exact_def score_rows_def score_fn_for_def)
qed

theorem ivf_probe_all_exact_witness:
  "\<exists>ix tuned res. bindE (ivf_build demo_ann demo_walk [0, 1] (ivf_new demo_ann_config 2 Euclidean)) (ivf_insert_rows demo_ann demo_walk [2]) = Inr ix \<and>
     mset (concat (ix_lists ix)) = {#0, 1, 2#} \<and> ivf_search demo_ann demo_walk [5, 6] 2 (ivf_set_query_params tuned ix) = Inr res \<and> length res = 2"
proof -
  let ?sc = "\<lambda>r. euclidean_neg_sq demo_float [5, 6] (segs_rows demo_segs ! r)"
  from ivf_probe_all_exact[of demo_walk "[0, 1]" "[2]" demo_ann demo_ann_config Euclidean] demo_segs_inv demo_walk_ok(1-3)
  obtain ix where ix: "bindE (ivf_build demo_ann demo_walk [0, 1] (ivf_new demo_ann_config 2 Euclidean)) (ivf_insert_rows demo_ann demo_walk [2]) = Inr ix"
    "mset (concat (ix_lists ix)) = mset ([0, 1] @ [2])"
    and run: "\<And>query n sc tuned. (\<forall>r \<in> set [0, 1] \<union> set [2]. query_score (an_ops demo_ann) demo_walk query r = Inr (sc r)) \<Longrightarrow>
       n_centroids ix \<le> ann_n_probe tuned \<Longrightarrow>
       (\<exists>res. ivf_search demo_ann demo_walk query n (ivf_set_query_params tuned ix) = Inr res \<and>
          best_of n (image_mset (\<lambda>r. (sc r, r)) (mset ([0, 1] @ [2]))) res)"
    by auto
  have "\<forall>r \<in> set [0, 1] \<union> set [2]. query_score (an_ops demo_ann) demo_walk [5, 6] r = Inr (?sc r)"
    by (simp add: demo_ann_def demo_walk_ok(4))
  from run[OF this, of "demo_ann_config\<lparr>ann_n_probe := n_centroids ix\<rparr>" 2] obtain res where
    "ivf_search demo_ann demo_walk [5, 6] 2 (ivf_set_query_params (demo_ann_config\<lparr>ann_n_probe := n_centroids ix\<rparr>) ix) = Inr res" "length res = 2"
    by (auto simp: best_of_def)
  then show ?thesis using ix by (intro exI conjI) (assumption | simp)+
qed

end
