(* ===== verification/Hnsw.thy ===== *)
theory Hnsw
  imports Ann
begin

text \<open>
  The navigable small-world graph (\<^verbatim>\<open>src/src/ann/hnsw.rs\<close>): greedy descent, beam search, neighbour
  selection, linking with pruning, insertion, the build and the search; the graph that several building threads leave is an argument. Nodes are numbered in the order of
  insertion; the adjacency of a node is one list per level. The binary heaps are the bags of
  their entries; which of several entries of the same score is on top is an argument, free to
  depend on everything visited so far. Indexing past the end fails, as the panics of the code,
  and the two loops carry fuel that is proved to suffice: a turn of the descent climbs to a better
  score, a turn of the beam takes one node that was pushed once.
\<close>

section \<open>The graph\<close>

record hnsw_graph =
  hg_dim :: nat
  hg_m :: nat
  hg_m_max0 :: nat
  hg_ef_construction :: nat
  hg_ef_search :: nat
  hg_rng :: u64
  hg_rows :: "nat list"
  hg_links :: "nat list list list"
  hg_entry :: "nat option"
  hg_max_level :: nat

definition hnsw_new :: "ann_config \<Rightarrow> nat \<Rightarrow> hnsw_graph" where
  "hnsw_new cfg dim =
     (let m = max (ann_m cfg) 1 in
      \<lparr>hg_dim = dim, hg_m = m, hg_m_max0 = max (min (m * 2) usize_max) 1,
       hg_ef_construction = max (ann_ef_construction cfg) 1, hg_ef_search = max (ann_ef_search cfg) 1,
       hg_rng = ann_seed cfg, hg_rows = [], hg_links = [], hg_entry = None, hg_max_level = 0\<rparr>)"

definition hnsw_from_parts :: "ann_config \<Rightarrow> nat \<Rightarrow> nat list \<Rightarrow> nat list list list \<Rightarrow> nat option \<Rightarrow> nat \<Rightarrow> hnsw_graph" where
  "hnsw_from_parts cfg dim rows links entry max_level =
     (hnsw_new cfg dim)\<lparr>hg_rows := rows, hg_links := links, hg_entry := entry, hg_max_level := max_level\<rparr>"

definition hnsw_set_query_params :: "ann_config \<Rightarrow> hnsw_graph \<Rightarrow> hnsw_graph" where
  "hnsw_set_query_params cfg g = g\<lparr>hg_ef_search := max (ann_ef_search cfg) 1\<rparr>"

definition random_level :: "ann_env \<Rightarrow> hnsw_graph \<Rightarrow> nat \<times> u64" where
  "random_level env g =
     (if hg_m g \<le> 1 then (0, hg_rng g)
      else let (z, rng) = next_u64 (hg_rng g) in (an_level env (hg_m g) (drop_bit 11 z), rng))"

definition node_row :: "nat list \<Rightarrow> nat \<Rightarrow> ann_error + nat" where
  "node_row rows n = (if n < length rows then Inr (rows ! n) else Inl (AnnNode n))"

definition node_score :: "nat list \<Rightarrow> (nat \<Rightarrow> ann_error + f32) \<Rightarrow> nat \<Rightarrow> ann_error + f32" where
  "node_score rows score n = bindE (node_row rows n) score"

text \<open>\<^verbatim>\<open>links[n].get(level)\<close>: no neighbours above the node's own level.\<close>

definition neighbours :: "nat list list list \<Rightarrow> nat \<Rightarrow> nat \<Rightarrow> ann_error + nat list" where
  "neighbours links n level =
     (if n < length links then Inr (if level < length (links ! n) then links ! n ! level else []) else Inl (AnnNode n))"

section \<open>Greedy descent\<close>

definition greedy_look :: "nat list \<Rightarrow> (nat \<Rightarrow> ann_error + f32) \<Rightarrow> nat \<Rightarrow> nat \<times> f32 \<times> bool \<Rightarrow> ann_error + nat \<times> f32 \<times> bool" where
  "greedy_look rows score nbr st = (case st of (cur, cur_score, improved) \<Rightarrow>
     bindE (node_score rows score nbr) (\<lambda>s. Inr (if f32_less cur_score s then (nbr, s, True) else st)))"

fun greedy_loop :: "nat \<Rightarrow> nat list \<Rightarrow> nat list list list \<Rightarrow> (nat \<Rightarrow> ann_error + f32) \<Rightarrow> nat \<Rightarrow> nat \<Rightarrow> f32 \<Rightarrow> ann_error + nat" where
  "greedy_loop 0 rows links score level cur cur_score = Inl AnnEndless"
| "greedy_loop (Suc fuel) rows links score level cur cur_score =
     bindE (neighbours links cur level) (\<lambda>ns.
     bindE (foldE (greedy_look rows score) ns (cur, cur_score, False)) (\<lambda>(cur', score', improved).
       if improved then greedy_loop fuel rows links score level cur' score' else Inr cur'))"

definition greedy_descend :: "nat list \<Rightarrow> nat list list list \<Rightarrow> (nat \<Rightarrow> ann_error + f32) \<Rightarrow> nat \<Rightarrow> nat \<Rightarrow> ann_error + nat" where
  "greedy_descend rows links score entry level =
     bindE (node_score rows score entry) (\<lambda>s. greedy_loop (Suc (length rows)) rows links score level entry s)"

section \<open>Beam search\<close>

record beam =
  bm_visited :: "bool list"
  bm_cands :: "scored list"
  bm_result :: "scored list"

definition highest :: "ann_env \<Rightarrow> bool list \<Rightarrow> scored list \<Rightarrow> scored" where
  "highest env visited h = hd (sort_key (\<lambda>x. (- total_key (fst x), an_tie env visited h x)) h)"

definition lowest :: "ann_env \<Rightarrow> bool list \<Rightarrow> scored list \<Rightarrow> scored" where
  "lowest env visited h = hd (sort_key (\<lambda>x. (total_key (fst x), an_tie env visited h x)) h)"

definition worst :: "ann_env \<Rightarrow> beam \<Rightarrow> f32" where
  "worst env b = (if bm_result b = [] then f32_neg_infinity else fst (lowest env (bm_visited b) (bm_result b)))"

definition beam_seed :: "nat list \<Rightarrow> (nat \<Rightarrow> ann_error + f32) \<Rightarrow> nat \<Rightarrow> beam \<Rightarrow> ann_error + beam" where
  "beam_seed rows score ep b =
     (if ep \<ge> length (bm_visited b) then Inl (AnnNode ep)
      else if bm_visited b ! ep then Inr b
      else bindE (node_score rows score ep) (\<lambda>s. Inr (b\<lparr>bm_visited := (bm_visited b)[ep := True],
        bm_cands := (s, ep) # bm_cands b, bm_result := (s, ep) # bm_result b\<rparr>)))"

definition keep_best :: "ann_env \<Rightarrow> nat \<Rightarrow> bool list \<Rightarrow> scored list \<Rightarrow> scored list" where
  "keep_best env ef visited r = (if length r > ef then remove1 (lowest env visited r) r else r)"

definition beam_visit :: "ann_env \<Rightarrow> nat list \<Rightarrow> (nat \<Rightarrow> ann_error + f32) \<Rightarrow> nat \<Rightarrow> nat \<Rightarrow> beam \<Rightarrow> ann_error + beam" where
  "beam_visit env rows score ef nbr b =
     (if nbr \<ge> length (bm_visited b) then Inl (AnnNode nbr)
      else if bm_visited b ! nbr then Inr b
      else
        let seen = b\<lparr>bm_visited := (bm_visited b)[nbr := True]\<rparr> in
        bindE (node_score rows score nbr) (\<lambda>s.
          if length (bm_result b) < ef \<or> f32_less (worst env seen) s
          then Inr (seen\<lparr>bm_cands := (s, nbr) # bm_cands b,
            bm_result := keep_best env ef (bm_visited seen) ((s, nbr) # bm_result b)\<rparr>)
          else Inr seen))"

fun beam_loop :: "nat \<Rightarrow> ann_env \<Rightarrow> nat list \<Rightarrow> nat list list list \<Rightarrow> (nat \<Rightarrow> ann_error + f32) \<Rightarrow> nat \<Rightarrow> nat \<Rightarrow> beam \<Rightarrow> ann_error + beam" where
  "beam_loop 0 env rows links score ef level b = Inl AnnEndless"
| "beam_loop (Suc fuel) env rows links score ef level b =
     (if bm_cands b = [] then Inr b
      else
        let c = highest env (bm_visited b) (bm_cands b); b' = b\<lparr>bm_cands := remove1 c (bm_cands b)\<rparr> in
        if length (bm_result b) \<ge> ef \<and> f32_less (fst c) (worst env b) then Inr b'
        else bindE (neighbours links (snd c) level) (\<lambda>ns.
          bindE (foldE (beam_visit env rows score ef) ns b') (beam_loop fuel env rows links score ef level)))"

definition beam_start :: "nat list \<Rightarrow> beam" where
  "beam_start rows = \<lparr>bm_visited = replicate (length rows) False, bm_cands = [], bm_result = []\<rparr>"

definition search_layer :: "ann_env \<Rightarrow> nat list \<Rightarrow> nat list list list \<Rightarrow> (nat \<Rightarrow> ann_error + f32) \<Rightarrow> nat list \<Rightarrow> nat \<Rightarrow> nat \<Rightarrow> ann_error + scored list" where
  "search_layer env rows links score entry_points ef level =
     bindE (foldE (beam_seed rows score) entry_points (beam_start rows)) (\<lambda>b.
     bindE (beam_loop (Suc (length rows)) env rows links score ef level b) (\<lambda>b'.
       Inr (sort_desc env (bm_result b'))))"

section \<open>Choosing neighbours\<close>

type_synonym pair_score = "nat \<Rightarrow> nat \<Rightarrow> ann_error + f32"

fun all_nearer :: "nat list \<Rightarrow> pair_score \<Rightarrow> nat \<Rightarrow> f32 \<Rightarrow> nat list \<Rightarrow> ann_error + bool" where
  "all_nearer rows pair cand_row s [] = Inr True"
| "all_nearer rows pair cand_row s (r # rs) =
     bindE (node_row rows r) (\<lambda>row. bindE (pair cand_row row) (\<lambda>p.
       if f32_le p s then all_nearer rows pair cand_row s rs else Inr False))"

fun select_spread :: "nat list \<Rightarrow> pair_score \<Rightarrow> nat \<Rightarrow> scored list \<Rightarrow> nat list \<Rightarrow> ann_error + nat list" where
  "select_spread rows pair m [] selected = Inr selected"
| "select_spread rows pair m (c # cs) selected =
     (if length selected \<ge> m then Inr selected
      else bindE (node_row rows (snd c)) (\<lambda>row. bindE (all_nearer rows pair row (fst c) selected) (\<lambda>keep.
        select_spread rows pair m cs (if keep then selected @ [snd c] else selected))))"

fun select_fill :: "nat \<Rightarrow> scored list \<Rightarrow> nat list \<Rightarrow> nat list" where
  "select_fill m [] selected = selected"
| "select_fill m (c # cs) selected =
     (if length selected \<ge> m then selected
      else select_fill m cs (if snd c \<in> set selected then selected else selected @ [snd c]))"

definition select_neighbors :: "nat list \<Rightarrow> pair_score \<Rightarrow> scored list \<Rightarrow> nat \<Rightarrow> ann_error + nat list" where
  "select_neighbors rows pair candidates m =
     bindE (select_spread rows pair m candidates []) (\<lambda>selected.
       Inr (if length selected < m then select_fill m candidates selected else selected))"

section \<open>Linking\<close>

definition connect :: "nat \<Rightarrow> nat \<Rightarrow> nat \<Rightarrow> nat list list list \<Rightarrow> ann_error + nat list list list" where
  "connect from to level links =
     (if from = to then Inr links
      else if from \<ge> length links then Inl (AnnNode from)
      else if level \<ge> length (links ! from) then Inl (AnnLevel from level)
      else let adj = links ! from ! level in
        Inr (if to \<in> set adj then links else links[from := (links ! from)[level := adj @ [to]]]))"

definition level_cap :: "hnsw_graph \<Rightarrow> nat \<Rightarrow> nat" where
  "level_cap g level = (if level = 0 then hg_m_max0 g else hg_m g)"

definition score_of_node :: "nat list \<Rightarrow> pair_score \<Rightarrow> nat \<Rightarrow> nat \<Rightarrow> ann_error + scored" where
  "score_of_node rows pair base n = bindE (node_row rows n) (\<lambda>r. bindE (pair base r) (\<lambda>s. Inr (s, n)))"

definition prune :: "ann_env \<Rightarrow> nat list \<Rightarrow> pair_score \<Rightarrow> nat \<Rightarrow> nat \<Rightarrow> nat \<Rightarrow> nat list list list \<Rightarrow> ann_error + nat list list list" where
  "prune env rows pair cap node level links =
     (if node \<ge> length links then Inl (AnnNode node)
      else if level \<ge> length (links ! node) then Inl (AnnLevel node level)
      else
        let adj = links ! node ! level in
        if length adj \<le> cap then Inr links
        else bindE (node_row rows node) (\<lambda>base.
          bindE (mapE (score_of_node rows pair base) adj) (\<lambda>scored.
          bindE (select_neighbors rows pair (sort_desc env scored) cap) (\<lambda>kept.
            Inr (links[node := (links ! node)[level := kept]])))))"

definition link_nbr :: "ann_env \<Rightarrow> nat list \<Rightarrow> pair_score \<Rightarrow> nat \<Rightarrow> nat \<Rightarrow> nat \<Rightarrow> nat \<Rightarrow> nat list list list \<Rightarrow> ann_error + nat list list list" where
  "link_nbr env rows pair cap level node nbr links =
     bindE (connect node nbr level links) (\<lambda>l1. bindE (connect nbr node level l1) (prune env rows pair cap nbr level))"

section \<open>Insertion\<close>

definition insert_layer :: "ann_env \<Rightarrow> hnsw_graph \<Rightarrow> nat list \<Rightarrow> pair_score \<Rightarrow> nat \<Rightarrow> nat \<Rightarrow> nat \<Rightarrow> nat \<Rightarrow>
    nat list list list \<times> nat list \<Rightarrow> ann_error + nat list list list \<times> nat list" where
  "insert_layer env g rows pair row node ep level st = (case st of (links, entry_points) \<Rightarrow>
     bindE (search_layer env rows links (pair row) entry_points (hg_ef_construction g) level) (\<lambda>found.
     bindE (select_neighbors rows pair found (level_cap g level)) (\<lambda>selected.
     bindE (foldE (link_nbr env rows pair (level_cap g level) level node) selected links) (\<lambda>links'.
       Inr (links', if found = [] then [ep] else map snd found)))))"

definition insert_one :: "ann_env \<Rightarrow> walk \<Rightarrow> nat \<Rightarrow> hnsw_graph \<Rightarrow> ann_error + hnsw_graph" where
  "insert_one env w row g =
     (let node = length (hg_rows g) mod 2 ^ 32; (level, rng) = random_level env g;
          rows = hg_rows g @ [row]; links = hg_links g @ [replicate (Suc level) []];
          g1 = g\<lparr>hg_rng := rng, hg_rows := rows, hg_links := links\<rparr>; pair = score_rows (an_ops env) w in
      case hg_entry g of
        None \<Rightarrow> Inr (g1\<lparr>hg_entry := Some node, hg_max_level := level\<rparr>)
      | Some entry \<Rightarrow>
          bindE (foldE (\<lambda>lc ep. greedy_descend rows links (pair row) ep lc) (rev [Suc level..<Suc (hg_max_level g)]) entry) (\<lambda>ep.
          bindE (foldE (insert_layer env g rows pair row node ep) (rev [0..<Suc (min level (hg_max_level g))]) (links, [ep])) (\<lambda>(links', _).
            Inr (let g2 = g1\<lparr>hg_links := links'\<rparr> in
              if level > hg_max_level g then g2\<lparr>hg_max_level := level, hg_entry := Some node\<rparr> else g2))))"

definition hnsw_insert_rows :: "ann_env \<Rightarrow> walk \<Rightarrow> nat list \<Rightarrow> hnsw_graph \<Rightarrow> ann_error + hnsw_graph" where
  "hnsw_insert_rows env w rows g = (if hg_dim g = 0 then Inr g else foldE (insert_one env w) rows g)"

text \<open>
  From \<^verbatim>\<open>PARALLEL_BUILD_MIN\<close> rows on several workers insert the nodes under locks. The levels are
  drawn beforehand; the links, the entry and the top level that the threads leave depend on how
  they interleave and are an argument.
\<close>

definition PARALLEL_BUILD_MIN :: nat where "PARALLEL_BUILD_MIN = 1024"

fun draw_levels :: "ann_env \<Rightarrow> nat \<Rightarrow> hnsw_graph \<Rightarrow> nat list \<times> hnsw_graph" where
  "draw_levels env 0 g = ([], g)"
| "draw_levels env (Suc n) g =
     (let (level, rng) = random_level env g; (levels, g') = draw_levels env n (g\<lparr>hg_rng := rng\<rparr>) in (level # levels, g'))"

definition hnsw_build_parallel :: "ann_env \<Rightarrow> nat list \<Rightarrow> hnsw_graph \<Rightarrow> hnsw_graph" where
  "hnsw_build_parallel env live g =
     (let (levels, g') = draw_levels env (length live) (g\<lparr>hg_rows := live\<rparr>);
          (links, entry, max_level) = an_threads env (an_workers env) live levels
      in g'\<lparr>hg_links := links, hg_entry := Some entry, hg_max_level := max_level\<rparr>)"

definition builds_parallel :: "ann_env \<Rightarrow> nat list \<Rightarrow> hnsw_graph \<Rightarrow> bool" where
  "builds_parallel env live g \<longleftrightarrow> an_workers env > 1 \<and> hg_dim g > 0 \<and> length live \<ge> PARALLEL_BUILD_MIN"

definition hnsw_build :: "ann_env \<Rightarrow> walk \<Rightarrow> nat list \<Rightarrow> hnsw_graph \<Rightarrow> ann_error + hnsw_graph" where
  "hnsw_build env w live g =
     (let g0 = g\<lparr>hg_rows := [], hg_links := [], hg_entry := None, hg_max_level := 0\<rparr> in
      if builds_parallel env live g then Inr (hnsw_build_parallel env live g0) else hnsw_insert_rows env w live g0)"

section \<open>Search\<close>

definition hnsw_search :: "ann_env \<Rightarrow> walk \<Rightarrow> f32 list \<Rightarrow> nat \<Rightarrow> hnsw_graph \<Rightarrow> ann_error + scored list" where
  "hnsw_search env w query n g =
     (if n = 0 \<or> hg_dim g = 0 then Inr []
      else (case hg_entry g of
          None \<Rightarrow> Inr []
        | Some entry \<Rightarrow>
            let score = query_score (an_ops env) w query in
            bindE (foldE (\<lambda>lc ep. greedy_descend (hg_rows g) (hg_links g) score ep lc) (rev [1..<Suc (hg_max_level g)]) entry) (\<lambda>ep.
            bindE (search_layer env (hg_rows g) (hg_links g) score [ep] (max (hg_ef_search g) n) 0) (\<lambda>found.
              mapE (\<lambda>(s, node). bindE (node_row (hg_rows g) node) (\<lambda>row. Inr (s, row))) (take n found)))))"

section \<open>Well-formed graphs\<close>

text \<open>Every edge stays inside the graph and on a level both ends have, never loops and never repeats.\<close>

definition at_level :: "nat list list list \<Rightarrow> nat \<Rightarrow> nat \<Rightarrow> bool" where
  "at_level links l n \<longleftrightarrow> n < length links \<and> l < length (links ! n)"

definition adj_ok :: "nat list list list \<Rightarrow> nat \<Rightarrow> nat \<Rightarrow> nat list \<Rightarrow> bool" where
  "adj_ok links l n adj \<longleftrightarrow> n \<notin> set adj \<and> distinct adj \<and> (\<forall>k \<in> set adj. at_level links l k)"

definition links_ok :: "nat list list list \<Rightarrow> bool" where
  "links_ok links \<longleftrightarrow> (\<forall>n < length links. links ! n \<noteq> []) \<and> (\<forall>n l. at_level links l n \<longrightarrow> adj_ok links l n (links ! n ! l))"

lemma links_okD: "links_ok links \<Longrightarrow> at_level links l n \<Longrightarrow> adj_ok links l n (links ! n ! l)"
  by (simp add: links_ok_def)

lemma neighbours_ok:
  assumes "links_ok links" and "at_level links l n"
  shows "neighbours links n l = Inr (links ! n ! l)" and "\<forall>k \<in> set (links ! n ! l). at_level links l k"
  using links_okD[OF assms] assms(2) by (auto simp: adj_ok_def at_level_def neighbours_def)

lemma f32_less_trans: "f32_less x y \<Longrightarrow> f32_less y z \<Longrightarrow> f32_less x z"
  by (auto simp: f32_less_def)

lemma node_score_ok: "n < length rows \<Longrightarrow> \<forall>r \<in> set rows. score r = Inr (sc r) \<Longrightarrow> node_score rows score n = Inr (sc (rows ! n))"
  by (simp add: node_score_def node_row_def)

section \<open>The descent ends\<close>

lemma greedy_look_all:
  assumes "\<forall>r \<in> set rows. score r = Inr (sc r)" and "\<forall>k \<in> set ns. k < length rows"
  shows "\<exists>cur' imp'. foldE (greedy_look rows score) ns (cur, sc (rows ! cur), imp) = Inr (cur', sc (rows ! cur'), imp') \<and>
    (cur' = cur \<and> imp' = imp \<or> imp' \<and> cur' \<in> set ns \<and> f32_less (sc (rows ! cur)) (sc (rows ! cur')))"
  using assms(2)
proof (induction ns arbitrary: cur imp)
  case (Cons k ns)
  have k: "node_score rows score k = Inr (sc (rows ! k))" using Cons.prems by (simp add: node_score_ok[OF _ assms(1)])
  show ?case
  proof (cases "f32_less (sc (rows ! cur)) (sc (rows ! k))")
    case True
    with Cons.IH[of k True] Cons.prems k show ?thesis by (auto simp: greedy_look_def dest: f32_less_trans)
  next
    case False
    with Cons.IH[of cur imp] Cons.prems k show ?thesis by (auto simp: greedy_look_def)
  qed
qed simp

lemma greedy_loop_ok:
  assumes "links_ok links" and "length links = length rows" and "\<forall>r \<in> set rows. score r = Inr (sc r)"
  shows "at_level links l cur \<Longrightarrow> card {n. n < length rows \<and> f32_less (sc (rows ! cur)) (sc (rows ! n))} < fuel \<Longrightarrow>
    \<exists>n. greedy_loop fuel rows links score l cur (sc (rows ! cur)) = Inr n \<and> at_level links l n"
proof (induction fuel arbitrary: cur)
  case (Suc fuel)
  let ?up = "\<lambda>c. {n. n < length rows \<and> f32_less (sc (rows ! c)) (sc (rows ! n))}"
  note nb = neighbours_ok[OF assms(1) Suc.prems(1)]
  have "\<forall>k \<in> set (links ! cur ! l). k < length rows" using nb(2) assms(2) by (auto simp: at_level_def)
  from greedy_look_all[OF assms(3) this, of cur False] obtain cur' imp'
    where run: "foldE (greedy_look rows score) (links ! cur ! l) (cur, sc (rows ! cur), False) = Inr (cur', sc (rows ! cur'), imp')"
      and moved: "cur' = cur \<and> \<not> imp' \<or> imp' \<and> cur' \<in> set (links ! cur ! l) \<and> f32_less (sc (rows ! cur)) (sc (rows ! cur'))" by auto
  show ?case
  proof (cases imp')
    case True
    then have c: "at_level links l cur'" "f32_less (sc (rows ! cur)) (sc (rows ! cur'))" using moved nb(2) by auto
    have "?up cur' \<subset> ?up cur"
      using c assms(2) by (auto simp: at_level_def dest: f32_less_trans) (auto simp: f32_less_def)
    then have "card (?up cur') < card (?up cur)" by (intro psubset_card_mono) auto
    with Suc.IH[OF c(1)] Suc.prems(2) True run nb(1) show ?thesis by simp
  next
    case False
    with moved run nb(1) Suc.prems(1) show ?thesis by simp
  qed
qed simp

lemma greedy_descend_ok:
  assumes "links_ok links" and "length links = length rows" and "\<forall>r \<in> set rows. score r = Inr (sc r)" and "at_level links l n"
  shows "\<exists>n'. greedy_descend rows links score n l = Inr n' \<and> at_level links l n'"
proof -
  have "card {k. k < length rows \<and> f32_less (sc (rows ! n)) (sc (rows ! k))} \<le> card {..<length rows}"
    by (intro card_mono) auto
  then have "\<exists>n'. greedy_loop (Suc (length rows)) rows links score l n (sc (rows ! n)) = Inr n' \<and> at_level links l n'"
    using assms by (intro greedy_loop_ok) simp_all
  moreover have "node_score rows score n = Inr (sc (rows ! n))"
    using assms(2,4) by (intro node_score_ok[OF _ assms(3)]) (simp add: at_level_def)
  ultimately show ?thesis by (simp only: greedy_descend_def bindE_Inr)
qed

lemma descend_all_ok:
  assumes "links_ok links" and "length links = length rows" and "\<forall>r \<in> set rows. score r = Inr (sc r)" and "at_level links hi n" and "lo \<le> Suc hi"
  shows "\<exists>n'. foldE (\<lambda>lc ep. greedy_descend rows links score ep lc) (rev [lo..<Suc hi]) n = Inr n' \<and> at_level links (min lo hi) n'"
  using assms(4,5)
proof (induction hi arbitrary: n)
  case (Suc hi)
  show ?case
  proof (cases "lo = Suc (Suc hi)")
    case True
    then show ?thesis using Suc.prems by simp
  next
    case False
    with greedy_descend_ok[OF assms(1-3) Suc.prems(1)] obtain n1
      where n1: "greedy_descend rows links score n (Suc hi) = Inr n1" "at_level links (Suc hi) n1" by auto
    then have "at_level links hi n1" by (simp add: at_level_def)
    from Suc.IH[OF this] False Suc.prems(2) obtain n'
      where "foldE (\<lambda>lc ep. greedy_descend rows links score ep lc) (rev [lo..<Suc hi]) n1 = Inr n'" "at_level links (min lo hi) n'" by auto
    moreover have "rev [lo..<Suc (Suc hi)] = Suc hi # rev [lo..<Suc hi]" using False Suc.prems(2) by simp
    moreover have "lo = Suc hi \<Longrightarrow> at_level links (Suc hi) n1" using n1 by simp
    ultimately show ?thesis using n1(1) False Suc.prems(2) by (cases "lo = Suc hi") (auto simp: min_def)
  qed
next
  case 0
  then consider "lo = 0" | "lo = 1" by linarith
  then show ?case
  proof cases
    case 1
    with greedy_descend_ok[OF assms(1-3) 0(1)] show ?thesis by auto
  qed (use 0 in simp)
qed

section \<open>The beam\<close>

lemma hd_sort_key: "xs \<noteq> [] \<Longrightarrow> hd (sort_key f xs) \<in> set xs"
  using hd_in_set[of "sort_key f xs"] by (simp flip: length_greater_0_conv)

lemma highest_in: "h \<noteq> [] \<Longrightarrow> highest env v h \<in> set h" and lowest_in: "h \<noteq> [] \<Longrightarrow> lowest env v h \<in> set h"
  by (simp_all add: highest_def lowest_def hd_sort_key)

definition unseen :: "bool list \<Rightarrow> nat" where
  "unseen v = length (filter Not v)"

lemma unseen_mark: "n < length v \<Longrightarrow> \<not> v ! n \<Longrightarrow> Suc (unseen (v[n := True])) = unseen v"
  unfolding unseen_def by (induction v arbitrary: n) (auto split: nat.split)

text \<open>What every entry of a beam over a graph is.\<close>

definition entries_ok :: "nat list \<Rightarrow> (nat \<Rightarrow> f32) \<Rightarrow> nat list list list \<Rightarrow> nat \<Rightarrow> bool list \<Rightarrow> scored list \<Rightarrow> bool" where
  "entries_ok rows sc links l visited es \<longleftrightarrow> distinct (map snd es) \<and>
     (\<forall>(s, n) \<in> set es. s = sc (rows ! n) \<and> at_level links l n \<and> visited ! n)"

definition beam_ok :: "nat list \<Rightarrow> (nat \<Rightarrow> f32) \<Rightarrow> nat list list list \<Rightarrow> nat \<Rightarrow> beam \<Rightarrow> bool" where
  "beam_ok rows sc links l b \<longleftrightarrow> length (bm_visited b) = length rows \<and>
     entries_ok rows sc links l (bm_visited b) (bm_cands b) \<and> entries_ok rows sc links l (bm_visited b) (bm_result b)"

lemma entries_mark: "entries_ok rows sc links l v es \<Longrightarrow> entries_ok rows sc links l (v[n := True]) es"
  by (cases "n < length v") (auto simp: entries_ok_def nth_list_update list_update_beyond)

lemma entries_push:
  assumes "entries_ok rows sc links l v es" and "at_level links l n" and "n < length v" and "\<not> v ! n"
  shows "entries_ok rows sc links l (v[n := True]) ((sc (rows ! n), n) # es)"
  using entries_mark[OF assms(1), of n] assms by (auto simp: entries_ok_def)

lemma entries_remove: "entries_ok rows sc links l v es \<Longrightarrow> entries_ok rows sc links l v (remove1 x es)"
  by (auto simp: entries_ok_def distinct_map inj_on_diff dest: set_remove1_subset[THEN subsetD])

lemma entries_keep: "entries_ok rows sc links l v es \<Longrightarrow> entries_ok rows sc links l v (keep_best env ef v es)"
  by (simp add: keep_best_def entries_remove)

lemma beam_visit_ok:
  assumes "beam_ok rows sc links l b" and "at_level links l n" and "length links = length rows"
    and "\<forall>r \<in> set rows. score r = Inr (sc r)"
  shows "\<exists>b'. beam_visit env rows score ef n b = Inr b' \<and> beam_ok rows sc links l b' \<and>
    length (bm_cands b') + unseen (bm_visited b') \<le> length (bm_cands b) + unseen (bm_visited b) \<and>
    (1 \<le> ef \<and> bm_result b \<noteq> [] \<longrightarrow> bm_result b' \<noteq> []) \<and> bm_visited b' = (bm_visited b)[n := True] \<and>
    set (bm_cands b) \<subseteq> set (bm_cands b')"
proof (cases "bm_visited b ! n")
  case True
  then have "(bm_visited b)[n := True] = bm_visited b" by (metis list_update_id)
  then show ?thesis using True assms by (simp add: beam_visit_def beam_ok_def at_level_def)
next
  case False
  have n: "n < length rows" "n < length (bm_visited b)" using assms by (simp_all add: at_level_def beam_ok_def)
  have sn: "node_score rows score n = Inr (sc (rows ! n))" by (rule node_score_ok[OF n(1) assms(4)])
  note push = entries_push[OF _ assms(2) n(2) False, of rows sc] and mark = entries_mark[of rows sc links l "bm_visited b" _ n]
  have "keep_best env ef v (x # r) \<noteq> []" if "1 \<le> ef" "r \<noteq> []" for v x and r :: "scored list"
    using that by (cases r) (auto simp: keep_best_def)
  then show ?thesis using False n assms push[of "bm_cands b"] push[of "bm_result b"] mark[of "bm_cands b"] mark[of "bm_result b"]
      unseen_mark[OF n(2) False] entries_keep[OF push[of "bm_result b"], of env ef]
    by (auto simp: beam_visit_def beam_ok_def Let_def sn)
qed

lemma beam_visit_all:
  assumes "length links = length rows" and "\<forall>r \<in> set rows. score r = Inr (sc r)"
  shows "beam_ok rows sc links l b \<Longrightarrow> \<forall>n \<in> set ns. at_level links l n \<Longrightarrow>
    \<exists>b'. foldE (beam_visit env rows score ef) ns b = Inr b' \<and> beam_ok rows sc links l b' \<and>
    length (bm_cands b') + unseen (bm_visited b') \<le> length (bm_cands b) + unseen (bm_visited b) \<and>
    (1 \<le> ef \<and> bm_result b \<noteq> [] \<longrightarrow> bm_result b' \<noteq> [])"
proof (induction ns arbitrary: b)
  case (Cons n ns)
  from beam_visit_ok[OF Cons.prems(1) _ assms, of n env ef] Cons.prems(2) obtain b1
    where b1: "beam_visit env rows score ef n b = Inr b1" "beam_ok rows sc links l b1"
      "length (bm_cands b1) + unseen (bm_visited b1) \<le> length (bm_cands b) + unseen (bm_visited b)"
      "1 \<le> ef \<and> bm_result b \<noteq> [] \<longrightarrow> bm_result b1 \<noteq> []" by auto
  from Cons.IH[OF b1(2)] Cons.prems(2) b1 show ?case by fastforce
qed simp

lemma beam_loop_ok:
  assumes "links_ok links" and "length links = length rows" and "\<forall>r \<in> set rows. score r = Inr (sc r)"
  shows "beam_ok rows sc links l b \<Longrightarrow> length (bm_cands b) + unseen (bm_visited b) < fuel \<Longrightarrow>
    \<exists>b'. beam_loop fuel env rows links score ef l b = Inr b' \<and> beam_ok rows sc links l b' \<and>
      (1 \<le> ef \<and> bm_result b \<noteq> [] \<longrightarrow> bm_result b' \<noteq> [])"
proof (induction fuel arbitrary: b)
  case (Suc fuel)
  show ?case
  proof (cases "bm_cands b = []")
    case True
    then show ?thesis using Suc.prems by simp
  next
    case False
    let ?c = "highest env (bm_visited b) (bm_cands b)"
    let ?b = "b\<lparr>bm_cands := remove1 ?c (bm_cands b)\<rparr>"
    have c: "?c \<in> set (bm_cands b)" by (rule highest_in[OF False])
    have ok: "beam_ok rows sc links l ?b" using Suc.prems(1) by (simp add: beam_ok_def entries_remove)
    have "at_level links l (snd ?c)" using Suc.prems(1) c by (cases ?c) (auto simp: beam_ok_def entries_ok_def)
    note nb = neighbours_ok[OF assms(1) this]
    have less: "length (bm_cands ?b) + unseen (bm_visited ?b) < fuel"
      using Suc.prems(2) c length_pos_if_in_set[OF c] by (simp add: length_remove1 del: length_greater_0_conv)
    from beam_visit_all[OF assms(2,3) ok nb(2), of env ef] obtain b1
      where b1: "foldE (beam_visit env rows score ef) (links ! snd ?c ! l) ?b = Inr b1" "beam_ok rows sc links l b1"
        "length (bm_cands b1) + unseen (bm_visited b1) \<le> length (bm_cands ?b) + unseen (bm_visited ?b)"
        "1 \<le> ef \<and> bm_result ?b \<noteq> [] \<longrightarrow> bm_result b1 \<noteq> []" by auto
    have "length (bm_cands b1) + unseen (bm_visited b1) < fuel" using b1(3) less by linarith
    from Suc.IH[OF b1(2) this] b1 ok False nb(1) show ?thesis by (auto simp: Let_def)
  qed
qed simp

lemma beam_seed_all:
  assumes "length links = length rows" and "\<forall>r \<in> set rows. score r = Inr (sc r)"
  shows "beam_ok rows sc links l b \<Longrightarrow> \<forall>n \<in> set eps. at_level links l n \<Longrightarrow>
    \<exists>b'. foldE (beam_seed rows score) eps b = Inr b' \<and> beam_ok rows sc links l b' \<and>
    length (bm_cands b') + unseen (bm_visited b') \<le> length (bm_cands b) + unseen (bm_visited b) \<and>
    (bm_cands b = bm_result b \<longrightarrow> bm_cands b' = bm_result b') \<and>
    (\<forall>i < length rows. bm_visited b' ! i \<longleftrightarrow> bm_visited b ! i \<or> i \<in> set eps) \<and>
    set (map snd (bm_result b')) = set (map snd (bm_result b)) \<union> {i \<in> set eps. \<not> bm_visited b ! i}"
proof (induction eps arbitrary: b)
  case (Cons n eps)
  have n: "n < length rows" "n < length (bm_visited b)" "at_level links l n" using Cons.prems assms by (simp_all add: at_level_def beam_ok_def)
  show ?case
  proof (cases "bm_visited b ! n")
    case True
    then have "beam_seed rows score n b = Inr b" using n(2) by (simp add: beam_seed_def)
    with Cons.IH[OF Cons.prems(1)] Cons.prems(2) obtain b' where
      "foldE (beam_seed rows score) (n # eps) b = Inr b'" "beam_ok rows sc links l b'"
      "length (bm_cands b') + unseen (bm_visited b') \<le> length (bm_cands b) + unseen (bm_visited b)"
      "bm_cands b = bm_result b \<longrightarrow> bm_cands b' = bm_result b'"
      "\<forall>i < length rows. bm_visited b' ! i \<longleftrightarrow> bm_visited b ! i \<or> i \<in> set eps"
      "set (map snd (bm_result b')) = set (map snd (bm_result b)) \<union> {i \<in> set eps. \<not> bm_visited b ! i}"
      by auto
    then show ?thesis using True by (intro exI[of _ b']) auto
  next
    case False
    let ?x = "(sc (rows ! n), n)"
    let ?b = "b\<lparr>bm_visited := (bm_visited b)[n := True], bm_cands := ?x # bm_cands b, bm_result := ?x # bm_result b\<rparr>"
    have run: "beam_seed rows score n b = Inr ?b"
      using False n by (simp add: beam_seed_def node_score_ok[OF n(1) assms(2)])
    have ok: "beam_ok rows sc links l ?b" using Cons.prems(1) entries_push[OF _ n(3,2) False] by (simp add: beam_ok_def)
    from Cons.IH[OF ok] Cons.prems(2) obtain b' where b': "foldE (beam_seed rows score) eps ?b = Inr b'" "beam_ok rows sc links l b'"
      "length (bm_cands b') + unseen (bm_visited b') \<le> length (bm_cands ?b) + unseen (bm_visited ?b)"
      "bm_cands ?b = bm_result ?b \<longrightarrow> bm_cands b' = bm_result b'"
      "\<forall>i < length rows. bm_visited b' ! i \<longleftrightarrow> bm_visited ?b ! i \<or> i \<in> set eps"
      "set (map snd (bm_result b')) = set (map snd (bm_result ?b)) \<union> {i \<in> set eps. \<not> bm_visited ?b ! i}" by auto
    have mark: "bm_visited ?b ! i \<longleftrightarrow> bm_visited b ! i \<or> i = n" for i using n(2) by (cases "i = n") auto
    have "length (bm_cands b') + unseen (bm_visited b') \<le> length (bm_cands b) + unseen (bm_visited b)"
      using b'(3) unseen_mark[OF n(2) False] by simp
    moreover have "\<forall>i < length rows. bm_visited b' ! i \<longleftrightarrow> bm_visited b ! i \<or> i \<in> set (n # eps)" using b'(5) mark by auto
    moreover have "set (map snd (bm_result b')) = set (map snd (bm_result b)) \<union> {i \<in> set (n # eps). \<not> bm_visited b ! i}"
      unfolding b'(6) mark using False by auto
    ultimately show ?thesis using run b'(1,2,4) by (intro exI[of _ b']) simp
  qed
qed simp

lemma beam_start_ok: "beam_ok rows sc links l (beam_start rows)" "unseen (bm_visited (beam_start rows)) = length rows"
  "bm_cands (beam_start rows) = []" "bm_result (beam_start rows) = []"
  by (simp_all add: beam_ok_def beam_start_def entries_ok_def unseen_def)

lemma sort_desc_Nil [simp]: "sort_desc env xs = [] \<longleftrightarrow> xs = []"
  by (metis length_0_conv length_sort_desc)

text \<open>Beam search returns scored nodes of the level, each once, best first.\<close>

definition found_ok :: "nat list \<Rightarrow> (nat \<Rightarrow> f32) \<Rightarrow> nat list list list \<Rightarrow> nat \<Rightarrow> scored list \<Rightarrow> bool" where
  "found_ok rows sc links l found \<longleftrightarrow> distinct (map snd found) \<and>
     sorted_wrt (\<lambda>x y. total_key (fst y) \<le> total_key (fst x)) found \<and>
     (\<forall>(s, n) \<in> set found. s = sc (rows ! n) \<and> at_level links l n)"

lemma found_of_beam: "beam_ok rows sc links l b \<Longrightarrow> found_ok rows sc links l (sort_desc env (bm_result b))"
proof -
  assume "beam_ok rows sc links l b"
  moreover have "distinct (map snd (sort_desc env (bm_result b))) = distinct (map snd (bm_result b))"
    by (rule mset_eq_imp_distinct_iff) (simp add: mset_map)
  ultimately show ?thesis by (auto simp: found_ok_def beam_ok_def entries_ok_def sorted_sort_desc)
qed

lemma search_layer_ok:
  assumes "links_ok links" and "length links = length rows" and "\<forall>r \<in> set rows. score r = Inr (sc r)"
    and "\<forall>n \<in> set eps. at_level links l n"
  shows "\<exists>found. search_layer env rows links score eps ef l = Inr found \<and> found_ok rows sc links l found \<and>
    (1 \<le> ef \<and> eps \<noteq> [] \<longrightarrow> found \<noteq> [])"
proof -
  from beam_seed_all[OF assms(2,3) beam_start_ok(1) assms(4)] obtain b where b: "foldE (beam_seed rows score) eps (beam_start rows) = Inr b"
    "beam_ok rows sc links l b" "length (bm_cands b) + unseen (bm_visited b) \<le> length (bm_cands (beam_start rows)) + unseen (bm_visited (beam_start rows))"
    "set (map snd (bm_result b)) = set (map snd (bm_result (beam_start rows))) \<union> {i \<in> set eps. \<not> bm_visited (beam_start rows) ! i}" by blast
  have "eps \<noteq> [] \<longrightarrow> bm_result b \<noteq> []"
  proof
    assume "eps \<noteq> []"
    then have "hd eps \<in> set eps" "hd eps < length rows" using assms(2,4) by (auto simp: at_level_def)
    then have "hd eps \<in> set (map snd (bm_result b))" unfolding b(4) by (simp add: beam_start_def)
    then show "bm_result b \<noteq> []" by auto
  qed
  moreover have "length (bm_cands b) + unseen (bm_visited b) < Suc (length rows)" using b(3) beam_start_ok(2,3)[of rows] by simp
  with beam_loop_ok[OF assms(1-3) b(2)] obtain b' where b': "beam_loop (Suc (length rows)) env rows links score ef l b = Inr b'"
    "beam_ok rows sc links l b'" "1 \<le> ef \<and> bm_result b \<noteq> [] \<longrightarrow> bm_result b' \<noteq> []" by blast
  moreover have "search_layer env rows links score eps ef l = Inr (sort_desc env (bm_result b'))"
    by (simp only: search_layer_def b(1) b'(1) bindE_Inr)
  ultimately show ?thesis using found_of_beam[OF b'(2), of env] b'(3) by simp
qed

section \<open>Selected neighbours\<close>

lemma all_nearer_ok:
  assumes "\<forall>a \<in> set rows. \<forall>b \<in> set rows. \<exists>s. pair a b = Inr s" and "a \<in> set rows" and "\<forall>n \<in> set ns. n < length rows"
  shows "\<exists>keep. all_nearer rows pair a s ns = Inr keep"
  using assms(3)
proof (induction ns)
  case (Cons n ns)
  then obtain p keep where "pair a (rows ! n) = Inr p" "all_nearer rows pair a s ns = Inr keep" using assms(1,2) by fastforce
  with Cons.prems show ?case by (auto simp: node_row_def)
qed auto

lemma select_spread_ok:
  assumes "\<forall>a \<in> set rows. \<forall>b \<in> set rows. \<exists>s. pair a b = Inr s"
  shows "\<forall>c \<in> set cs. snd c < length rows \<Longrightarrow> \<forall>n \<in> set sel. n < length rows \<Longrightarrow> distinct (sel @ map snd cs) \<Longrightarrow> length sel \<le> m \<Longrightarrow>
    \<exists>sel'. select_spread rows pair m cs sel = Inr sel' \<and> distinct sel' \<and> length sel' \<le> m \<and> set sel' \<subseteq> set sel \<union> snd ` set cs"
proof (induction cs arbitrary: sel)
  case (Cons c cs)
  show ?case
  proof (cases "length sel \<ge> m")
    case True
    then show ?thesis using Cons.prems by auto
  next
    case False
    have row: "node_row rows (snd c) = Inr (rows ! snd c)" "rows ! snd c \<in> set rows" using Cons.prems(1) by (auto simp: node_row_def)
    from all_nearer_ok[OF assms row(2) Cons.prems(2), of "fst c"] obtain keep
      where keep: "all_nearer rows pair (rows ! snd c) (fst c) sel = Inr keep" by blast
    let ?sel = "if keep then sel @ [snd c] else sel"
    have "\<exists>sel'. select_spread rows pair m cs ?sel = Inr sel' \<and> distinct sel' \<and> length sel' \<le> m \<and> set sel' \<subseteq> set ?sel \<union> snd ` set cs"
      by (rule Cons.IH) (use Cons.prems False in \<open>auto split: if_splits\<close>)
    then show ?thesis using False row(1) keep by (auto split: if_splits)
  qed
qed simp

lemma select_fill_ok:
  "distinct sel \<Longrightarrow> length sel \<le> m \<Longrightarrow> distinct (select_fill m cs sel) \<and> length (select_fill m cs sel) \<le> m \<and>
    set (select_fill m cs sel) \<subseteq> set sel \<union> snd ` set cs"
proof (induction cs arbitrary: sel)
  case (Cons c cs)
  show ?case
  proof (cases "length sel \<ge> m")
    case False
    let ?sel = "if snd c \<in> set sel then sel else sel @ [snd c]"
    have "distinct (select_fill m cs ?sel) \<and> length (select_fill m cs ?sel) \<le> m \<and> set (select_fill m cs ?sel) \<subseteq> set ?sel \<union> snd ` set cs"
      by (rule Cons.IH) (use Cons.prems False in auto)
    then show ?thesis using False by (auto split: if_splits)
  qed (use Cons.prems in auto)
qed simp

lemma select_neighbors_ok:
  assumes "\<forall>a \<in> set rows. \<forall>b \<in> set rows. \<exists>s. pair a b = Inr s" and "\<forall>c \<in> set cs. snd c < length rows" and "distinct (map snd cs)"
  shows "\<exists>sel. select_neighbors rows pair cs m = Inr sel \<and> distinct sel \<and> length sel \<le> m \<and> set sel \<subseteq> snd ` set cs"
proof -
  from select_spread_ok[OF assms(1,2), of "[]" m] assms(3) obtain sel
    where sel: "select_spread rows pair m cs [] = Inr sel" "distinct sel" "length sel \<le> m" "set sel \<subseteq> snd ` set cs" by auto
  with select_fill_ok[of sel m cs] show ?thesis by (auto simp: select_neighbors_def)
qed

section \<open>Linking keeps the graph well formed\<close>

text \<open>One adjacency list replaced: the shape stays and only that list changes.\<close>

definition relink :: "nat \<Rightarrow> nat \<Rightarrow> nat list \<Rightarrow> nat list list list \<Rightarrow> nat list list list" where
  "relink n l adj links = links[n := (links ! n)[l := adj]]"

lemma relink_shape [simp]: "length (relink n l adj links) = length links"
  "length (relink n l adj links ! k) = length (links ! k)" "at_level (relink n l adj links) i k = at_level links i k"
  by (cases "n = k"; cases "k < length links"; simp add: relink_def at_level_def list_update_beyond)+

lemma relink_nth: "at_level links l n \<Longrightarrow> relink n l adj links ! k ! i = (if k = n \<and> i = l then adj else links ! k ! i)"
  by (auto simp: relink_def at_level_def nth_list_update)

lemma adj_ok_relink [simp]: "adj_ok (relink n l adj links) = adj_ok links"
  by (intro ext) (simp add: adj_ok_def)

lemma links_ok_relink:
  assumes "links_ok links" and "at_level links l n" and "adj_ok links l n adj"
  shows "links_ok (relink n l adj links)"
proof -
  have "relink n l adj links ! k \<noteq> []" if "k < length links" for k
  proof -
    have "length (links ! k) \<noteq> 0" using that assms(1) by (simp add: links_ok_def)
    then show ?thesis using relink_shape(2)[of n l adj links k] by force
  qed
  then show ?thesis using assms by (simp add: links_ok_def relink_nth)
qed

lemma connect_ok:
  assumes "links_ok links" and "at_level links l from" and "at_level links l to"
  shows "\<exists>adj. connect from to l links = Inr (relink from l adj links) \<and> links_ok (relink from l adj links) \<and>
    length adj \<le> Suc (length (links ! from ! l))"
proof -
  have same: "relink from l (links ! from ! l) links = links" by (simp add: relink_def)
  show ?thesis
  proof (cases "from = to \<or> to \<in> set (links ! from ! l)")
    case True
    then show ?thesis using assms same by (intro exI[of _ "links ! from ! l"]) (auto simp: connect_def at_level_def)
  next
    case False
    have "links_ok (relink from l (links ! from ! l @ [to]) links)"
      by (rule links_ok_relink[OF assms(1,2)]) (use assms(3) False links_okD[OF assms(1,2)] in \<open>auto simp: adj_ok_def\<close>)
    then show ?thesis using False assms(2) by (intro exI[of _ "links ! from ! l @ [to]"]) (auto simp: connect_def at_level_def relink_def)
  qed
qed

lemma prune_ok:
  assumes "links_ok links" and "at_level links l n" and "length links = length rows"
    and "\<forall>a \<in> set rows. \<forall>b \<in> set rows. \<exists>s. pair a b = Inr s"
  shows "\<exists>adj. prune env rows pair cap n l links = Inr (relink n l adj links) \<and> links_ok (relink n l adj links) \<and>
    length adj \<le> cap \<and> length adj \<le> length (links ! n ! l)"
proof (cases "length (links ! n ! l) \<le> cap")
  case True
  then show ?thesis using assms by (intro exI[of _ "links ! n ! l"]) (auto simp: prune_def at_level_def relink_def)
next
  case False
  let ?adj = "links ! n ! l"
  have n: "n < length rows" "rows ! n \<in> set rows" using assms(2,3) by (auto simp: at_level_def)
  have in_rows: "\<forall>k \<in> set ?adj. k < length rows" using links_okD[OF assms(1,2)] assms(3) by (auto simp: adj_ok_def at_level_def)
  obtain pc where pc: "\<forall>a \<in> set rows. \<forall>b \<in> set rows. pair a b = Inr (pc a b)" using assms(4) by metis
  let ?scored = "map (\<lambda>k. (pc (rows ! n) (rows ! k), k)) ?adj"
  have scored: "mapE (score_of_node rows pair (rows ! n)) ?adj = Inr ?scored"
    by (rule mapE_total) (use in_rows pc n in \<open>auto simp: score_of_node_def node_row_def\<close>)
  have "distinct ?adj" using links_okD[OF assms(1,2)] by (simp add: adj_ok_def)
  moreover have "distinct (map snd (sort_desc env ?scored)) = distinct (map snd ?scored)" by (rule mset_eq_imp_distinct_iff) (simp only: mset_map mset_sort_desc)
  moreover have "map snd ?scored = ?adj" by (simp add: comp_def)
  ultimately have "distinct (map snd (sort_desc env ?scored))" by simp
  moreover have set_scored: "snd ` set (sort_desc env ?scored) = set ?adj" by (simp add: image_image)
  moreover have "\<forall>c \<in> set (sort_desc env ?scored). snd c < length rows" using in_rows by auto
  ultimately obtain kept where kept: "select_neighbors rows pair (sort_desc env ?scored) cap = Inr kept" "distinct kept" "length kept \<le> cap" "set kept \<subseteq> set ?adj"
    using select_neighbors_ok[OF assms(4), of "sort_desc env ?scored" cap] by auto
  have "links_ok (relink n l kept links)"
    by (rule links_ok_relink[OF assms(1,2)]) (use kept links_okD[OF assms(1,2)] in \<open>auto simp: adj_ok_def\<close>)
  moreover have "prune env rows pair cap n l links = Inr (relink n l kept links)"
    using False assms(2,3) scored kept(1) n by (simp add: prune_def at_level_def node_row_def relink_def Let_def)
  ultimately show ?thesis using kept(3) False by (intro exI[of _ kept]) simp
qed

section \<open>Insertion keeps the graph well formed\<close>

definition same_shape :: "nat list list list \<Rightarrow> nat list list list \<Rightarrow> bool" where
  "same_shape a b \<longleftrightarrow> length a = length b \<and> at_level a = at_level b"

lemma same_shape_relink [simp]: "same_shape (relink n l adj links) links"
  by (simp add: same_shape_def fun_eq_iff)

lemma same_shape_trans: "same_shape a b \<Longrightarrow> same_shape b c \<Longrightarrow> same_shape a c"
  by (simp add: same_shape_def)

lemma link_nbr_ok:
  assumes "links_ok links" and "length links = length rows" and "at_level links l node" and "at_level links l nbr"
    and "\<forall>a \<in> set rows. \<forall>b \<in> set rows. \<exists>s. pair a b = Inr s"
    and "\<forall>k. at_level links l k \<longrightarrow> k \<noteq> node \<longrightarrow> length (links ! k ! l) \<le> c"
  shows "\<exists>links'. link_nbr env rows pair c l node nbr links = Inr links' \<and> links_ok links' \<and> same_shape links' links \<and>
    (\<forall>k. at_level links l k \<longrightarrow> k \<noteq> node \<longrightarrow> length (links' ! k ! l) \<le> c) \<and>
    length (links' ! node ! l) \<le> Suc (length (links ! node ! l)) \<and>
    (\<forall>k i. i \<noteq> l \<longrightarrow> links' ! k ! i = links ! k ! i)"
proof -
  from connect_ok[OF assms(1,3,4)] obtain a1 where a1: "connect node nbr l links = Inr (relink node l a1 links)"
    "links_ok (relink node l a1 links)" "length a1 \<le> Suc (length (links ! node ! l))" by blast
  let ?l1 = "relink node l a1 links"
  from connect_ok[OF a1(2), of l nbr node] assms(3,4) obtain a2 where a2: "connect nbr node l ?l1 = Inr (relink nbr l a2 ?l1)"
    "links_ok (relink nbr l a2 ?l1)" by auto
  have a2_same: "a2 = a1" if "nbr = node"
  proof -
    have "relink node l a2 ?l1 = ?l1" using a2(1) that by (simp add: connect_def)
    then show ?thesis using assms(3) relink_nth[of ?l1 l node a2 node l] relink_nth[OF assms(3), of a1 node l] by simp
  qed
  let ?l2 = "relink nbr l a2 ?l1"
  from prune_ok[OF a2(2), of l nbr rows pair env c] assms(2-5) obtain a3 where a3: "prune env rows pair c nbr l ?l2 = Inr (relink nbr l a3 ?l2)"
    "links_ok (relink nbr l a3 ?l2)" "length a3 \<le> c" "length a3 \<le> length (?l2 ! nbr ! l)" by auto
  let ?l3 = "relink nbr l a3 ?l2"
  have nth: "?l3 ! k ! i = (if k = nbr \<and> i = l then a3 else if k = node \<and> i = l then a1 else links ! k ! i)" for k i
    using assms(3,4) by (simp add: relink_nth)
  have "?l2 ! nbr ! l = a2" using assms(4) relink_nth[of ?l1 l nbr a2 nbr l] by simp
  then have "nbr = node \<Longrightarrow> length a3 \<le> length a1" using a3(4) a2_same by simp
  then have "length (?l3 ! node ! l) \<le> Suc (length (links ! node ! l))" using nth a1(3) by (auto intro: le_trans)
  moreover have "same_shape ?l3 links" by (simp add: same_shape_def fun_eq_iff)
  moreover have "link_nbr env rows pair c l node nbr links = Inr ?l3" using a1(1) a2(1) a3(1) by (simp add: link_nbr_def)
  ultimately show ?thesis using a3(2,3) assms(6) by (intro exI[of _ ?l3]) (simp add: nth)
qed

definition degrees_ok :: "hnsw_graph \<Rightarrow> nat list list list \<Rightarrow> bool" where
  "degrees_ok g links \<longleftrightarrow> (\<forall>n l. at_level links l n \<longrightarrow> length (links ! n ! l) \<le> level_cap g l)"

lemma degrees_ok_frame [simp]:
  "degrees_ok (g\<lparr>hg_rng := a\<rparr>) = degrees_ok g" "degrees_ok (g\<lparr>hg_rows := b\<rparr>) = degrees_ok g"
  "degrees_ok (g\<lparr>hg_links := c\<rparr>) = degrees_ok g" "degrees_ok (g\<lparr>hg_entry := d\<rparr>) = degrees_ok g"
  "degrees_ok (g\<lparr>hg_max_level := e\<rparr>) = degrees_ok g"
  by (simp_all add: fun_eq_iff degrees_ok_def level_cap_def)

lemma link_all_ok:
  assumes "links_ok links" and "length links = length rows" and "at_level links l node" and "\<forall>n \<in> set sel. at_level links l n"
    and "\<forall>a \<in> set rows. \<forall>b \<in> set rows. \<exists>s. pair a b = Inr s" and "degrees_ok g links" and "links ! node ! l = []"
    and "length sel \<le> level_cap g l"
  shows "\<exists>links'. foldE (link_nbr env rows pair (level_cap g l) l node) sel links = Inr links' \<and> links_ok links' \<and> same_shape links' links \<and>
    degrees_ok g links' \<and> (\<forall>k i. i \<noteq> l \<longrightarrow> links' ! k ! i = links ! k ! i)"
proof -
  let ?P = "\<lambda>ys ls. links_ok ls \<and> same_shape ls links \<and> (\<forall>k. at_level links l k \<longrightarrow> k \<noteq> node \<longrightarrow> length (ls ! k ! l) \<le> level_cap g l) \<and>
    length (ls ! node ! l) \<le> length (ys :: nat list) \<and> (\<forall>k i. i \<noteq> l \<longrightarrow> ls ! k ! i = links ! k ! i)"
  have "\<exists>t. foldE (link_nbr env rows pair (level_cap g l) l node) sel links = Inr t \<and> ?P sel t"
  proof (rule foldE_prefix)
    show "?P [] links" using assms(1,6,7) by (auto simp: same_shape_def degrees_ok_def)
  next
    fix ys x ls
    assume x: "x \<in> set sel" and P: "?P ys ls"
    have "at_level ls l node" "at_level ls l x" "length ls = length rows" "at_level ls = at_level links"
      using P x assms(2-4) by (auto simp: same_shape_def)
    then obtain t where "link_nbr env rows pair (level_cap g l) l node x ls = Inr t" "links_ok t" "same_shape t ls"
      "\<forall>k. at_level links l k \<longrightarrow> k \<noteq> node \<longrightarrow> length (t ! k ! l) \<le> level_cap g l" "length (t ! node ! l) \<le> Suc (length (ls ! node ! l))"
      "\<forall>k i. i \<noteq> l \<longrightarrow> t ! k ! i = ls ! k ! i"
      using link_nbr_ok[of ls rows l node x pair "level_cap g l" env] P assms(5) by auto
    then show "\<exists>t. link_nbr env rows pair (level_cap g l) l node x ls = Inr t \<and> ?P (ys @ [x]) t"
      using P by (intro exI[of _ t]) (auto intro: same_shape_trans)
  qed
  then obtain t where t: "foldE (link_nbr env rows pair (level_cap g l) l node) sel links = Inr t" "?P sel t" by blast
  have "length (t ! n ! i) \<le> level_cap g i" if "at_level t i n" for n i
    using that t(2) assms(6,8) by (cases "i = l"; cases "n = node") (auto simp: degrees_ok_def same_shape_def)
  then show ?thesis using t by (auto simp: degrees_ok_def)
qed

lemma insert_layer_ok:
  assumes "links_ok links" and "length links = length rows" and "at_level links l node" and "\<forall>n \<in> set (ep # eps). at_level links l n"
    and "\<forall>a \<in> set rows. \<forall>b \<in> set rows. \<exists>s. pair a b = Inr s" and "degrees_ok g links" and "\<forall>i \<le> l. links ! node ! i = []" and "row \<in> set rows"
  shows "\<exists>links' eps'. insert_layer env g rows pair row node ep l (links, eps) = Inr (links', eps') \<and> links_ok links' \<and> same_shape links' links \<and>
    degrees_ok g links' \<and> (\<forall>i < l. links' ! node ! i = []) \<and> (\<forall>n \<in> set eps'. at_level links l n)"
proof -
  obtain pc where pc: "\<forall>r \<in> set rows. pair row r = Inr (pc r)" using assms(5,8) by metis
  from search_layer_ok[OF assms(1,2) pc, of eps l env "hg_ef_construction g"] assms(4) obtain found where
    f: "search_layer env rows links (pair row) eps (hg_ef_construction g) l = Inr found" "found_ok rows pc links l found" by auto
  have at: "\<forall>c \<in> set found. at_level links l (snd c)" using f(2) by (auto simp: found_ok_def)
  then have "\<forall>c \<in> set found. snd c < length rows" using assms(2) by (simp add: at_level_def)
  from select_neighbors_ok[OF assms(5) this, of "level_cap g l"] f(2) obtain sel where
    sel: "select_neighbors rows pair found (level_cap g l) = Inr sel" "distinct sel" "length sel \<le> level_cap g l" "set sel \<subseteq> snd ` set found"
    by (auto simp: found_ok_def)
  have "\<forall>n \<in> set sel. at_level links l n" using sel(4) at by auto
  from link_all_ok[OF assms(1-3) this assms(5,6) _ sel(3), of env] assms(7) obtain links' where
    "foldE (link_nbr env rows pair (level_cap g l) l node) sel links = Inr links'" "links_ok links'" "same_shape links' links"
    "degrees_ok g links'" "\<forall>k i. i \<noteq> l \<longrightarrow> links' ! k ! i = links ! k ! i" by auto
  then show ?thesis using f(1) sel(1) at assms(4,7)
    by (intro exI[of _ links'] exI[of _ "if found = [] then [ep] else map snd found"]) (auto simp: insert_layer_def)
qed

lemma at_level_down: "at_level links l n \<Longrightarrow> i \<le> l \<Longrightarrow> at_level links i n"
  by (simp add: at_level_def)

lemma insert_layers_ok:
  assumes "\<forall>a \<in> set rows. \<forall>b \<in> set rows. \<exists>s. pair a b = Inr s" and "row \<in> set rows"
  shows "links_ok links \<Longrightarrow> length links = length rows \<Longrightarrow> at_level links l node \<Longrightarrow> \<forall>n \<in> set (ep # eps). at_level links l n \<Longrightarrow>
    degrees_ok g links \<Longrightarrow> \<forall>i \<le> l. links ! node ! i = [] \<Longrightarrow>
    \<exists>links' eps'. foldE (insert_layer env g rows pair row node ep) (rev [0..<Suc l]) (links, eps) = Inr (links', eps') \<and>
      links_ok links' \<and> same_shape links' links \<and> degrees_ok g links'"
proof (induction l arbitrary: links eps)
  case 0
  from insert_layer_ok[OF 0(1-4) assms(1) 0(5,6) assms(2), of env] show ?case by auto
next
  case (Suc l)
  from insert_layer_ok[OF Suc.prems(1-4) assms(1) Suc.prems(5,6) assms(2), of env] obtain l1 e1 where
    1: "insert_layer env g rows pair row node ep (Suc l) (links, eps) = Inr (l1, e1)" "links_ok l1" "same_shape l1 links"
      "degrees_ok g l1" "\<forall>i < Suc l. l1 ! node ! i = []" "\<forall>n \<in> set e1. at_level links (Suc l) n" by auto
  have "\<forall>n \<in> set (ep # e1). at_level l1 l n" "at_level l1 l node" "length l1 = length rows"
    using 1(3,6) Suc.prems(2-4) by (auto simp: same_shape_def intro: at_level_down[where l = "Suc l"])
  from Suc.IH[OF 1(2) this(3,2,1) 1(4)] 1(5) obtain l2 e2 where
    "foldE (insert_layer env g rows pair row node ep) (rev [0..<Suc l]) (l1, e1) = Inr (l2, e2)" "links_ok l2" "same_shape l2 l1" "degrees_ok g l2"
    by (auto simp: less_Suc_eq_le)
  then show ?case using 1(1,3) same_shape_trans[of l2 l1 links] by auto
qed

text \<open>The invariant of the graph between insertions.\<close>

definition hnsw_ok :: "hnsw_graph \<Rightarrow> bool" where
  "hnsw_ok g \<longleftrightarrow> length (hg_links g) = length (hg_rows g) \<and> links_ok (hg_links g) \<and> degrees_ok g (hg_links g) \<and>
     (case hg_entry g of
        None \<Rightarrow> hg_rows g = []
      | Some e \<Rightarrow> e < length (hg_links g) \<and> length (hg_links g ! e) = Suc (hg_max_level g))"

lemma links_ok_snoc:
  assumes "links_ok links"
  shows "links_ok (links @ [replicate (Suc level) []])"
proof -
  let ?l = "links @ [replicate (Suc level) []]"
  have up: "at_level links l n \<Longrightarrow> at_level ?l l n" for l n by (simp add: at_level_def nth_append)
  have "adj_ok ?l l n (?l ! n ! l)" if "at_level ?l l n" for n l
  proof (cases "n < length links")
    case True
    then have "at_level links l n" using that by (simp add: at_level_def nth_append)
    from links_okD[OF assms this] show ?thesis using True up by (simp add: adj_ok_def nth_append)
  next
    case False
    then have "n = length links" "l < Suc level" using that by (auto simp: at_level_def nth_append split: if_splits)
    then show ?thesis by (simp add: adj_ok_def nth_append del: replicate_Suc)
  qed
  then show ?thesis using assms by (auto simp: links_ok_def nth_append simp del: replicate_Suc)
qed

lemma degrees_ok_snoc:
  assumes "degrees_ok g links"
  shows "degrees_ok g (links @ [replicate (Suc level) []])"
  using assms by (auto simp: degrees_ok_def at_level_def nth_append simp del: replicate_Suc split: if_splits)

lemma insert_one_ok:
  assumes "hnsw_ok g" and "length (hg_rows g) < 2 ^ 32"
    and "\<forall>a \<in> set (hg_rows g @ [row]). \<forall>b \<in> set (hg_rows g @ [row]). \<exists>s. score_rows (an_ops env) w a b = Inr s"
  shows "\<exists>g'. insert_one env w row g = Inr g' \<and> hnsw_ok g' \<and> hg_rows g' = hg_rows g @ [row] \<and> hg_dim g' = hg_dim g"
proof -
  obtain level rng where lv: "random_level env g = (level, rng)" by (cases "random_level env g")
  let ?rows = "hg_rows g @ [row]" and ?links = "hg_links g @ [replicate (Suc level) []]" and ?n = "length (hg_rows g)"
  let ?pair = "score_rows (an_ops env) w"
  have n: "?n mod 2 ^ 32 = ?n" using assms(2) by simp
  have len: "length ?links = length ?rows" using assms(1) by (simp add: hnsw_ok_def)
  have ok: "links_ok ?links" "degrees_ok g ?links" using assms(1) by (simp_all only: hnsw_ok_def links_ok_snoc degrees_ok_snoc)
  have new: "?links ! ?n = replicate (Suc level) []" using assms(1) by (simp add: hnsw_ok_def nth_append del: replicate_Suc)
  show ?thesis
  proof (cases "hg_entry g")
    case None
    then have "hg_rows g = []" "hg_links g = []" using assms(1) by (auto simp: hnsw_ok_def)
    then show ?thesis using None lv ok by (simp add: insert_one_def hnsw_ok_def)
  next
    case (Some entry)
    have e: "at_level ?links (hg_max_level g) entry" using assms(1) Some by (simp add: hnsw_ok_def at_level_def nth_append)
    obtain pc where pc: "\<forall>r \<in> set ?rows. ?pair row r = Inr (pc r)" using assms(3) by (metis in_set_conv_decomp)
    define lo where "lo = min (Suc level) (Suc (hg_max_level g))"
    have "rev [Suc level..<Suc (hg_max_level g)] = rev [lo..<Suc (hg_max_level g)]"
      by (cases "level \<le> hg_max_level g") (simp_all add: lo_def min_def)
    with descend_all_ok[OF ok(1) len pc e, of lo] obtain ep where
      ep: "foldE (\<lambda>lc ep. greedy_descend ?rows ?links (?pair row) ep lc) (rev [Suc level..<Suc (hg_max_level g)]) entry = Inr ep"
        "at_level ?links (min lo (hg_max_level g)) ep" by (auto simp: lo_def)
    let ?l = "min level (hg_max_level g)"
    have epl: "\<forall>n \<in> set (ep # [ep]). at_level ?links ?l n" using at_level_down[OF ep(2)] by (simp add: lo_def)
    have node: "at_level ?links ?l ?n" using new assms(1) by (simp add: at_level_def hnsw_ok_def del: replicate_Suc)
    have "\<forall>i \<le> ?l. ?links ! ?n ! i = []" unfolding new by (simp del: replicate_Suc)
    from insert_layers_ok[OF assms(3) _ ok(1) len node epl ok(2) this, of row env] obtain links' eps' where
      ins: "foldE (insert_layer env g ?rows ?pair row ?n ep) (rev [0..<Suc ?l]) (?links, [ep]) = Inr (links', eps')"
        "links_ok links'" "same_shape links' ?links" "degrees_ok g links'" by auto
    have run: "insert_one env w row g = Inr (let g2 = g\<lparr>hg_rng := rng, hg_rows := ?rows, hg_links := links'\<rparr> in
        if level > hg_max_level g then g2\<lparr>hg_max_level := level, hg_entry := Some ?n\<rparr> else g2)"
      using ep(1) ins(1) lv n Some by (simp add: insert_one_def Let_def del: upt_Suc)
    have shape: "length links' = length ?links" "\<And>l n. at_level links' l n = at_level ?links l n" using ins(3) by (simp_all add: same_shape_def)
    have lengths: "length (links' ! k) = length (?links ! k)" if "k < length ?links" for k
    proof -
      have "l < length (links' ! k) \<longleftrightarrow> l < length (?links ! k)" for l using that shape(2)[of l k] shape(1) by (simp add: at_level_def)
      then show ?thesis by (metis linorder_neqE_nat less_irrefl)
    qed
    have "length (links' ! ?n) = Suc level" using lengths[of ?n] new assms(1) by (simp add: hnsw_ok_def del: replicate_Suc)
    moreover have "length (links' ! entry) = Suc (hg_max_level g)" "entry < length ?links"
      using lengths[of entry] assms(1) Some by (auto simp: hnsw_ok_def nth_append)
    ultimately have "hnsw_ok (let g2 = g\<lparr>hg_rng := rng, hg_rows := ?rows, hg_links := links'\<rparr> in
        if level > hg_max_level g then g2\<lparr>hg_max_level := level, hg_entry := Some ?n\<rparr> else g2)"
      using ins(2) shape(1) len Some assms(1) ins(4) by (auto simp: hnsw_ok_def Let_def)
    then show ?thesis unfolding run by (auto simp: Let_def)
  qed
qed

lemma hnsw_insert_rows_ok:
  assumes "\<forall>a \<in> set (hg_rows g @ rows). \<forall>b \<in> set (hg_rows g @ rows). \<exists>s. score_rows (an_ops env) w a b = Inr s"
    and "hnsw_ok g" and "length (hg_rows g) + length rows \<le> 2 ^ 32"
  shows "\<exists>g'. foldE (insert_one env w) rows g = Inr g' \<and> hnsw_ok g' \<and> hg_rows g' = hg_rows g @ rows \<and> hg_dim g' = hg_dim g"
  using assms
proof (induction rows arbitrary: g)
  case (Cons row rows)
  then obtain g1 where "insert_one env w row g = Inr g1" "hnsw_ok g1" "hg_rows g1 = hg_rows g @ [row]" "hg_dim g1 = hg_dim g"
    using insert_one_ok[OF Cons.prems(2), of row env w] by auto
  with Cons.IH[of g1] Cons.prems show ?case by auto
qed simp

section \<open>The search\<close>

lemma take_nodes_subset:
  assumes "distinct ns" and "\<forall>n \<in> set ns. n < length rows"
  shows "image_mset (\<lambda>n. f (rows ! n)) (mset ns) \<subseteq># image_mset f (mset rows)"
proof -
  have "mset ns \<subseteq># mset [0..<length rows]"
    using assms by (intro mset_subset_eqI) (auto simp: distinct_count_atmost_1[THEN iffD1])
  then have "image_mset (\<lambda>n. f (rows ! n)) (mset ns) \<subseteq># image_mset (\<lambda>n. f (rows ! n)) (mset [0..<length rows])"
    by (rule image_mset_subseteq_mono)
  also have "\<dots> = image_mset f (mset (map ((!) rows) [0..<length rows]))" by (simp add: image_mset.compositionality comp_def)
  finally show ?thesis by (simp only: map_nth)
qed

lemma hnsw_search_run:
  assumes "hnsw_ok g" and "\<forall>r \<in> set (hg_rows g). query_score (an_ops env) w query r = Inr (sc r)" and "0 < n" and "0 < hg_dim g"
    and "hg_entry g = Some e"
  shows "\<exists>ep found. at_level (hg_links g) 0 ep \<and>
    search_layer env (hg_rows g) (hg_links g) (query_score (an_ops env) w query) [ep] (max (hg_ef_search g) n) 0 = Inr found \<and>
    found_ok (hg_rows g) sc (hg_links g) 0 found \<and> found \<noteq> [] \<and>
    hnsw_search env w query n g = Inr (map (\<lambda>(s, node). (s, hg_rows g ! node)) (take n found))"
proof -
  have g: "links_ok (hg_links g)" "length (hg_links g) = length (hg_rows g)" "at_level (hg_links g) (hg_max_level g) e"
    using assms(1,5) by (simp_all add: hnsw_ok_def at_level_def)
  from descend_all_ok[OF g(1,2) assms(2) g(3), of 1] obtain ep where
    ep: "foldE (\<lambda>lc ep. greedy_descend (hg_rows g) (hg_links g) (query_score (an_ops env) w query) ep lc) (rev [1..<Suc (hg_max_level g)]) e = Inr ep"
      "at_level (hg_links g) (min 1 (hg_max_level g)) ep" by auto
  have ep0: "at_level (hg_links g) 0 ep" by (rule at_level_down[OF ep(2)]) simp
  from search_layer_ok[OF g(1,2) assms(2), of "[ep]" 0 env "max (hg_ef_search g) n"] ep0 assms(3) obtain found where
    f: "search_layer env (hg_rows g) (hg_links g) (query_score (an_ops env) w query) [ep] (max (hg_ef_search g) n) 0 = Inr found"
      "found_ok (hg_rows g) sc (hg_links g) 0 found" "found \<noteq> []" by auto
  have "mapE (\<lambda>(s, node). bindE (node_row (hg_rows g) node) (\<lambda>row. Inr (s, row))) (take n found) =
      Inr (map (\<lambda>(s, node). (s, hg_rows g ! node)) (take n found))"
    by (rule mapE_total) (use f(2) g(2) in \<open>auto simp: found_ok_def at_level_def node_row_def dest!: in_set_takeD\<close>)
  then have "hnsw_search env w query n g = Inr (map (\<lambda>(s, node). (s, hg_rows g ! node)) (take n found))"
    using ep(1) f(1) assms(3-5) by (simp add: hnsw_search_def Let_def del: upt_Suc)
  then show ?thesis using ep0 f by blast
qed

lemma hnsw_search_ok:
  assumes "hnsw_ok g" and "\<forall>r \<in> set (hg_rows g). query_score (an_ops env) w query r = Inr (sc r)"
  shows "\<exists>res. hnsw_search env w query n g = Inr res \<and> length res \<le> n \<and>
    sorted_wrt (\<lambda>x y. total_key (fst y) \<le> total_key (fst x)) res \<and>
    mset res \<subseteq># image_mset (\<lambda>r. (sc r, r)) (mset (hg_rows g)) \<and>
    (0 < n \<and> 0 < hg_dim g \<and> hg_rows g \<noteq> [] \<longrightarrow> res \<noteq> [])"
proof (cases "n = 0 \<or> hg_dim g = 0 \<or> hg_entry g = None")
  case True
  then show ?thesis using assms(1) by (auto simp: hnsw_search_def hnsw_ok_def)
next
  case False
  then obtain e where e: "hg_entry g = Some e" "0 < n" "0 < hg_dim g" by auto
  from hnsw_search_run[OF assms e(2,3,1)] obtain found where
    f: "found_ok (hg_rows g) sc (hg_links g) 0 found" "found \<noteq> []"
      "hnsw_search env w query n g = Inr (map (\<lambda>(s, node). (s, hg_rows g ! node)) (take n found))" by blast
  let ?nodes = "map snd (take n found)"
  have score: "s = sc (hg_rows g ! k) \<and> k < length (hg_rows g)" if "(s, k) \<in> set (take n found)" for s k
    using f(1) that assms(1) by (auto simp: found_ok_def hnsw_ok_def at_level_def dest!: in_set_takeD)
  have "distinct ?nodes" using f(1) by (simp add: found_ok_def distinct_take flip: take_map)
  then have "image_mset (\<lambda>k. (sc (hg_rows g ! k), hg_rows g ! k)) (mset ?nodes) \<subseteq># image_mset (\<lambda>r. (sc r, r)) (mset (hg_rows g))"
    by (rule take_nodes_subset) (use score in auto)
  moreover have eq: "map (\<lambda>(s, node). (s, hg_rows g ! node)) (take n found) = map (\<lambda>k. (sc (hg_rows g ! k), hg_rows g ! k)) ?nodes"
    using score by (auto simp: comp_def)
  ultimately have "mset (map (\<lambda>(s, node). (s, hg_rows g ! node)) (take n found)) \<subseteq># image_mset (\<lambda>r. (sc r, r)) (mset (hg_rows g))"
    by (simp only: eq mset_map)
  moreover have "sorted_wrt (\<lambda>x y. total_key (fst y) \<le> total_key (fst x)) (map (\<lambda>(s, node). (s, hg_rows g ! node)) (take n found))"
    using f(1) by (auto simp: found_ok_def sorted_wrt_map case_prod_unfold intro: sorted_wrt_take)
  ultimately show ?thesis using f(2,3) e(2) by (intro exI[of _ "map (\<lambda>(s, node). (s, hg_rows g ! node)) (take n found)"]) simp
qed

text \<open>
  C14 (small-world graph). Building the graph serially, with one worker or under 1024 rows, over any
  rows that can be scored never fails and leaves it well formed: every edge joins two nodes of that level, no node links to itself or twice to
  another, and no degree exceeds the cap of its level. A search then ends without a panic and
  returns at most the requested number of indexed rows, each with its own score, best first, and
  at least one when there is any.
\<close>
theorem hnsw_build_and_search:
  assumes "\<forall>a \<in> set live. \<forall>b \<in> set live. \<exists>s. score_rows (an_ops env) w a b = Inr s"
    and "\<forall>r \<in> set live. query_score (an_ops env) w query r = Inr (sc r)"
    and "length live \<le> 2 ^ 32" and "0 < dim" and "an_workers env \<le> 1 \<or> length live < PARALLEL_BUILD_MIN"
  shows "\<exists>g. hnsw_build env w live (hnsw_new cfg dim) = Inr g \<and> hnsw_ok g \<and> hg_rows g = live \<and>
    (\<exists>res. hnsw_search env w query n g = Inr res \<and> length res \<le> n \<and>
      sorted_wrt (\<lambda>x y. total_key (fst y) \<le> total_key (fst x)) res \<and>
      mset res \<subseteq># image_mset (\<lambda>r. (sc r, r)) (mset live) \<and>
      (0 < n \<and> live \<noteq> [] \<longrightarrow> res \<noteq> []))"
proof -
  let ?g = "hnsw_new cfg dim"
  have empty: "?g\<lparr>hg_rows := [], hg_links := [], hg_entry := None, hg_max_level := 0\<rparr> = ?g" "hg_rows ?g = []" "hg_dim ?g = dim"
    by (simp_all add: hnsw_new_def Let_def)
  have "hnsw_ok ?g" by (simp add: hnsw_ok_def hnsw_new_def Let_def links_ok_def degrees_ok_def at_level_def)
  with hnsw_insert_rows_ok[of ?g live env w] assms(1,3) empty obtain g where
    "foldE (insert_one env w) live ?g = Inr g" and g: "hnsw_ok g" "hg_rows g = live" "hg_dim g = dim" by auto
  moreover have "\<not> builds_parallel env live ?g" using assms(5) by (auto simp: builds_parallel_def)
  ultimately have "hnsw_build env w live ?g = Inr g" using assms(4) empty by (simp add: hnsw_build_def hnsw_insert_rows_def)
  then show ?thesis using g hnsw_search_ok[OF g(1), of env w query sc n] assms(2,4) by auto
qed

theorem hnsw_build_and_search_witness:
  "\<exists>g res. hnsw_build demo_ann demo_walk [0, 1, 2] (hnsw_new demo_ann_config 2) = Inr g \<and> hnsw_ok g \<and>
     hnsw_search demo_ann demo_walk [5, 6] 2 g = Inr res \<and> res \<noteq> [] \<and> length res \<le> 2"
proof -
  let ?sc = "\<lambda>r. euclidean_neg_sq demo_float [5, 6] (segs_rows demo_segs ! r)"
  have "\<forall>a \<in> set [0, 1, 2]. \<forall>b \<in> set [0, 1, 2]. \<exists>s. score_rows (an_ops demo_ann) demo_walk a b = Inr s"
    and "\<forall>r \<in> set [0, 1, 2]. query_score (an_ops demo_ann) demo_walk [5, 6] r = Inr (?sc r)"
    by (simp_all add: demo_walk_ok(4,5) demo_ann_def)
  from hnsw_build_and_search[OF this, of 2 demo_ann_config 2] show ?thesis by (auto simp: demo_ann_def)
qed

section \<open>A wide beam sees everything it can reach\<close>

definition layer_edges :: "nat list list list \<Rightarrow> nat \<Rightarrow> (nat \<times> nat) set" where
  "layer_edges links l = {(n, k). at_level links l n \<and> k \<in> set (links ! n ! l)}"

definition marked :: "beam \<Rightarrow> nat set" where
  "marked b = {i. i < length (bm_visited b) \<and> bm_visited b ! i}"

definition wide :: "beam \<Rightarrow> bool" where
  "wide b \<longleftrightarrow> snd ` set (bm_result b) = marked b"

lemma marked_mark: "n < length (bm_visited b) \<Longrightarrow> marked (b\<lparr>bm_visited := (bm_visited b)[n := True]\<rparr>) = insert n (marked b)"
  by (auto simp: marked_def nth_list_update)

lemma beam_visit_wide:
  assumes "beam_ok rows sc links l b" and "wide b" and "at_level links l n" and "length links = length rows"
    and "\<forall>r \<in> set rows. score r = Inr (sc r)" and "length rows \<le> ef"
  shows "\<exists>b'. beam_visit env rows score ef n b = Inr b' \<and> beam_ok rows sc links l b' \<and> wide b' \<and> marked b' = insert n (marked b) \<and>
    length (bm_cands b') + unseen (bm_visited b') \<le> length (bm_cands b) + unseen (bm_visited b) \<and>
    snd ` set (bm_cands b') = snd ` set (bm_cands b) \<union> (insert n (marked b) - marked b)"
proof -
  have n: "n < length rows" "n < length (bm_visited b)" using assms(1,3,4) by (simp_all add: at_level_def beam_ok_def)
  show ?thesis
  proof (cases "bm_visited b ! n")
    case True
    then have "n \<in> marked b" using n(2) by (simp add: marked_def)
    then show ?thesis using True n(2) assms(1,2) by (auto simp: beam_visit_def insert_absorb)
  next
    case False
    have dist: "distinct (map snd (bm_result b))" using assms(1) by (simp add: beam_ok_def entries_ok_def)
    have "length (bm_result b) = card (marked b)" using distinct_card[OF dist] assms(2) by (simp add: wide_def)
    also have "\<dots> < card {..<length rows}"
      using False n assms(1) by (intro psubset_card_mono) (auto simp: marked_def beam_ok_def)
    finally have room: "length (bm_result b) < ef" using assms(6) by simp
    let ?x = "(sc (rows ! n), n)"
    let ?b = "b\<lparr>bm_visited := (bm_visited b)[n := True], bm_cands := ?x # bm_cands b, bm_result := ?x # bm_result b\<rparr>"
    have run: "beam_visit env rows score ef n b = Inr ?b"
      using False n room node_score_ok[OF n(1) assms(5)] by (simp add: beam_visit_def Let_def keep_best_def)
    have m: "marked ?b = insert n (marked b)" using n(2) by (auto simp: marked_def nth_list_update)
    have "n \<notin> marked b" using False by (simp add: marked_def)
    then show ?thesis using run m assms(1,2) unseen_mark[OF n(2) False] entries_push[OF _ assms(3) n(2) False]
      by (intro exI[of _ ?b]) (auto simp: beam_ok_def wide_def)
  qed
qed

lemma beam_visit_all_wide:
  assumes "length links = length rows" and "\<forall>r \<in> set rows. score r = Inr (sc r)" and "length rows \<le> ef"
  shows "beam_ok rows sc links l b \<Longrightarrow> wide b \<Longrightarrow> \<forall>n \<in> set ns. at_level links l n \<Longrightarrow>
    \<exists>b'. foldE (beam_visit env rows score ef) ns b = Inr b' \<and> beam_ok rows sc links l b' \<and> wide b' \<and> marked b' = set ns \<union> marked b \<and>
    length (bm_cands b') + unseen (bm_visited b') \<le> length (bm_cands b) + unseen (bm_visited b) \<and>
    snd ` set (bm_cands b') = snd ` set (bm_cands b) \<union> (set ns - marked b)"
proof (induction ns arbitrary: b)
  case (Cons n ns)
  from beam_visit_wide[OF Cons.prems(1,2) _ assms, of n env] Cons.prems(3) obtain b1 where
    b1: "beam_visit env rows score ef n b = Inr b1" "beam_ok rows sc links l b1" "wide b1" "marked b1 = insert n (marked b)"
      "length (bm_cands b1) + unseen (bm_visited b1) \<le> length (bm_cands b) + unseen (bm_visited b)"
      "snd ` set (bm_cands b1) = snd ` set (bm_cands b) \<union> (insert n (marked b) - marked b)" by auto
  from Cons.IH[OF b1(2,3)] Cons.prems(3) obtain b' where
    "foldE (beam_visit env rows score ef) ns b1 = Inr b'" "beam_ok rows sc links l b'" "wide b'" "marked b' = set ns \<union> marked b1"
      "length (bm_cands b') + unseen (bm_visited b') \<le> length (bm_cands b1) + unseen (bm_visited b1)"
      "snd ` set (bm_cands b') = snd ` set (bm_cands b1) \<union> (set ns - marked b1)" by auto
  then show ?case using b1 by (intro exI[of _ b']) auto
qed simp

text \<open>Every marked node that is not waiting has all its neighbours marked.\<close>

definition explored :: "nat list list list \<Rightarrow> nat \<Rightarrow> beam \<Rightarrow> bool" where
  "explored links l b \<longleftrightarrow> layer_edges links l `` (marked b - snd ` set (bm_cands b)) \<subseteq> marked b"

lemma beam_loop_wide:
  assumes "links_ok links" and "length links = length rows" and "\<forall>r \<in> set rows. score r = Inr (sc r)" and "length rows \<le> ef"
    and "layer_edges links l `` R \<subseteq> R"
  shows "beam_ok rows sc links l b \<Longrightarrow> wide b \<Longrightarrow> explored links l b \<Longrightarrow> marked b \<subseteq> R \<Longrightarrow>
    length (bm_cands b) + unseen (bm_visited b) < fuel \<Longrightarrow>
    \<exists>b'. beam_loop fuel env rows links score ef l b = Inr b' \<and> beam_ok rows sc links l b' \<and> wide b' \<and>
      marked b \<subseteq> marked b' \<and> marked b' \<subseteq> R \<and> layer_edges links l `` marked b' \<subseteq> marked b'"
proof (induction fuel arbitrary: b)
  case (Suc fuel)
  show ?case
  proof (cases "bm_cands b = []")
    case True
    then show ?thesis using Suc.prems by (auto simp: explored_def)
  next
    case False
    let ?c = "highest env (bm_visited b) (bm_cands b)"
    let ?b = "b\<lparr>bm_cands := remove1 ?c (bm_cands b)\<rparr>"
    have c: "?c \<in> set (bm_cands b)" by (rule highest_in[OF False])
    have ok: "beam_ok rows sc links l ?b" "wide ?b" "marked ?b = marked b"
      using Suc.prems(1,2) by (simp_all add: beam_ok_def entries_remove wide_def marked_def)
    have at: "at_level links l (snd ?c)" "snd ?c \<in> marked b"
      using Suc.prems(1) c assms(2) by (cases ?c; auto simp: beam_ok_def entries_ok_def marked_def at_level_def)+
    note nb = neighbours_ok[OF assms(1) at(1)]
    show ?thesis
    proof (cases "length (bm_result b) \<ge> ef \<and> f32_less (fst ?c) (worst env b)")
      case True
      have "distinct (map snd (bm_result b))" using Suc.prems(1) by (simp add: beam_ok_def entries_ok_def)
      from distinct_card[OF this] have "card (marked b) \<ge> length rows" using Suc.prems(2) True assms(4) by (simp add: wide_def)
      moreover have "marked b \<subseteq> {..<length rows}" using Suc.prems(1) by (auto simp: marked_def beam_ok_def)
      ultimately have "marked b = {..<length rows}" by (intro card_seteq) auto
      moreover have "k < length rows" if "(n, k) \<in> layer_edges links l" for n k
      proof -
        from that have "at_level links l n" "k \<in> set (links ! n ! l)" by (simp_all add: layer_edges_def)
        then have "at_level links l k" using neighbours_ok(2)[OF assms(1)] by blast
        then show ?thesis using assms(2) by (simp add: at_level_def)
      qed
      ultimately have "layer_edges links l `` marked b \<subseteq> marked b" by blast
      moreover have "beam_loop (Suc fuel) env rows links score ef l b = Inr ?b"
        using True False by (simp add: Let_def)
      ultimately show ?thesis using ok Suc.prems(4) by (intro exI[of _ ?b]) simp
    next
      case no_break: False
      from beam_visit_all_wide[OF assms(2-4) ok(1,2) nb(2), of env] obtain b1 where
        b1: "foldE (beam_visit env rows score ef) (links ! snd ?c ! l) ?b = Inr b1" "beam_ok rows sc links l b1" "wide b1"
          "marked b1 = set (links ! snd ?c ! l) \<union> marked b"
          "length (bm_cands b1) + unseen (bm_visited b1) \<le> length (bm_cands ?b) + unseen (bm_visited ?b)"
          "snd ` set (bm_cands b1) = snd ` set (bm_cands ?b) \<union> (set (links ! snd ?c ! l) - marked b)" unfolding ok(3) by blast
      have edges: "(snd ?c, k) \<in> layer_edges links l" if "k \<in> set (links ! snd ?c ! l)" for k using that at by (simp add: layer_edges_def)
      have "marked b1 \<subseteq> R" using b1(4) Suc.prems(4) at(2) edges assms(5) by blast
      moreover have "distinct (bm_cands b)" using Suc.prems(1) by (simp add: beam_ok_def entries_ok_def distinct_map)
      then have waiting: "snd ` set (bm_cands b) = insert (snd ?c) (snd ` set (bm_cands ?b))" using c by auto
      have "explored links l b1"
        unfolding explored_def
      proof
        fix k
        assume "k \<in> layer_edges links l `` (marked b1 - snd ` set (bm_cands b1))"
        then obtain i where i: "(i, k) \<in> layer_edges links l" "i \<in> marked b1" "i \<notin> snd ` set (bm_cands b1)" by blast
        show "k \<in> marked b1"
        proof (cases "i = snd ?c")
          case True
          then show ?thesis using i(1) b1(4) by (simp add: layer_edges_def)
        next
          case False
          then have "i \<in> marked b - snd ` set (bm_cands b)" using i b1(4,6) waiting by auto
          then show ?thesis using i(1) Suc.prems(3) b1(4) by (auto simp: explored_def)
        qed
      qed
      moreover have "length (bm_cands ?b) + unseen (bm_visited ?b) < fuel"
        using Suc.prems(5) c length_pos_if_in_set[OF c] by (simp add: length_remove1 del: length_greater_0_conv)
      then have "length (bm_cands b1) + unseen (bm_visited b1) < fuel" using b1(5) by linarith
      ultimately obtain b' where b': "beam_loop fuel env rows links score ef l b1 = Inr b'" "beam_ok rows sc links l b'" "wide b'"
        "marked b1 \<subseteq> marked b'" "marked b' \<subseteq> R" "layer_edges links l `` marked b' \<subseteq> marked b'" using Suc.IH[OF b1(2,3)] by blast
      then have "marked b \<subseteq> marked b'" using b1(4) by blast
      moreover have "beam_loop (Suc fuel) env rows links score ef l b = Inr b'"
        using False no_break by (simp only: beam_loop.simps if_False Let_def nb(1) b1(1) b'(1) bindE_Inr)
      ultimately show ?thesis using b'(2,3,5,6) by (intro exI[of _ b'] conjI)
    qed
  qed
qed simp

lemma search_layer_wide:
  assumes "links_ok links" and "length links = length rows" and "\<forall>r \<in> set rows. score r = Inr (sc r)" and "length rows \<le> ef"
    and "at_level links l ep"
  shows "\<exists>found. search_layer env rows links score [ep] ef l = Inr found \<and> found_ok rows sc links l found \<and>
    snd ` set found = (layer_edges links l)\<^sup>* `` {ep}"
proof -
  let ?R = "(layer_edges links l)\<^sup>* `` {ep}"
  let ?b = "\<lparr>bm_visited = (replicate (length rows) False)[ep := True], bm_cands = [(sc (rows ! ep), ep)], bm_result = [(sc (rows ! ep), ep)]\<rparr>"
  have ep: "ep < length rows" using assms(2,5) by (simp add: at_level_def)
  have seed: "foldE (beam_seed rows score) [ep] (beam_start rows) = Inr ?b"
    using ep by (simp add: beam_seed_def beam_start_def node_score_ok[OF ep assms(3)])
  have m: "marked ?b = {ep}" using ep by (auto simp: marked_def nth_list_update split: if_splits)
  have ok: "beam_ok rows sc links l ?b" using ep assms(5) by (simp add: beam_ok_def entries_ok_def)
  have "wide ?b" "explored links l ?b" unfolding wide_def explored_def m by simp_all
  moreover have "Suc (unseen ((replicate (length rows) False)[ep := True])) = length rows"
    using unseen_mark[of ep "replicate (length rows) False"] ep by (simp add: unseen_def)
  then have "length (bm_cands ?b) + unseen (bm_visited ?b) < Suc (length rows)" by simp
  moreover have "layer_edges links l `` ?R \<subseteq> ?R" by (auto intro: rtrancl_into_rtrancl)
  moreover have "marked ?b \<subseteq> ?R" unfolding m by simp
  ultimately obtain b' where b': "beam_loop (Suc (length rows)) env rows links score ef l ?b = Inr b'" "beam_ok rows sc links l b'" "wide b'"
    "marked ?b \<subseteq> marked b'" "marked b' \<subseteq> ?R" "layer_edges links l `` marked b' \<subseteq> marked b'"
    using beam_loop_wide[OF assms(1-4), of l ?R ?b "Suc (length rows)" env] ok by blast
  have "?R \<subseteq> marked b'" using Image_closed_trancl[OF b'(6)] b'(4) m by blast
  then have "snd ` set (sort_desc env (bm_result b')) = ?R" using b'(3,5) by (auto simp: wide_def)
  moreover have "search_layer env rows links score [ep] ef l = Inr (sort_desc env (bm_result b'))"
    by (simp only: search_layer_def seed b'(1) bindE_Inr)
  ultimately show ?thesis using found_of_beam[OF b'(2), of env] by simp
qed

lemma best_of_found:
  assumes "found_ok rows sc links 0 found" and "length links = length rows" and "snd ` set found = {..<length rows}"
  shows "best_of n (image_mset (\<lambda>r. (sc r, r)) (mset rows)) (map (\<lambda>(s, k). (s, rows ! k)) (take n found))"
proof -
  let ?f = "\<lambda>(s, k). (s, rows ! k)"
  let ?key = "\<lambda>x y. total_key (fst y) \<le> total_key (fst x)"
  have "mset (map snd found) = mset [0..<length rows]"
    using assms(1,3) by (intro set_eq_iff_mset_eq_distinct[THEN iffD1]) (auto simp: found_ok_def)
  then have "mset (map (\<lambda>k. (sc (rows ! k), rows ! k)) (map snd found)) = mset (map (\<lambda>k. (sc (rows ! k), rows ! k)) [0..<length rows])"
    by (metis mset_map)
  also have "map (\<lambda>k. (sc (rows ! k), rows ! k)) [0..<length rows] = map (\<lambda>r. (sc r, r)) rows"
    by (rule nth_equalityI) simp_all
  also have "map (\<lambda>k. (sc (rows ! k), rows ! k)) (map snd found) = map ?f found"
    using assms(1) by (auto simp: found_ok_def)
  finally have bag: "mset (map ?f found) = image_mset (\<lambda>r. (sc r, r)) (mset rows)" by simp
  have split: "found = take n found @ drop n found" by simp
  have "sorted_wrt ?key (take n found @ drop n found)" using assms(1) by (simp add: found_ok_def)
  then have srt: "sorted_wrt ?key (take n found)" "\<forall>x \<in> set (take n found). \<forall>y \<in> set (drop n found). ?key x y"
    unfolding sorted_wrt_append by blast+
  have "length (map ?f found) = length rows" using arg_cong[OF bag, of size] by simp
  then have "length (map ?f (take n found)) = min n (size (image_mset (\<lambda>r. (sc r, r)) (mset rows)))" by simp
  moreover have "sorted_wrt ?key (map ?f (take n found))" using srt(1) by (simp add: sorted_wrt_map case_prod_unfold)
  moreover have "image_mset (\<lambda>r. (sc r, r)) (mset rows) = mset (map ?f (take n found)) + mset (map ?f (drop n found))"
    using bag arg_cong[OF split, of "\<lambda>xs. mset (map ?f xs)"] by (simp only: map_append mset_append)
  moreover have "\<forall>x \<in> set (map ?f (take n found)). \<forall>y \<in># mset (map ?f (drop n found)). ?key x y"
    using srt(2) by (auto simp: case_prod_unfold)
  ultimately show ?thesis unfolding best_of_def by blast
qed

text \<open>
  C15 (exact small-world search). When the bottom layer connects every two nodes and the beam is as wide as
  the graph, the search is exact: it returns the best rows of all that are indexed.
\<close>
theorem hnsw_wide_search_exact:
  assumes "hnsw_ok g" and "\<forall>r \<in> set (hg_rows g). query_score (an_ops env) w query r = Inr (sc r)" and "0 < hg_dim g"
    and "length (hg_rows g) \<le> max (hg_ef_search g) n"
    and "\<forall>a < length (hg_rows g). \<forall>b < length (hg_rows g). (a, b) \<in> (layer_edges (hg_links g) 0)\<^sup>*"
  shows "\<exists>res. hnsw_search env w query n g = Inr res \<and> best_of n (image_mset (\<lambda>r. (sc r, r)) (mset (hg_rows g))) res"
proof (cases "n = 0 \<or> hg_entry g = None")
  case True
  then show ?thesis using assms(1) by (auto simp: hnsw_search_def best_of_def hnsw_ok_def)
next
  case False
  then obtain e where e: "hg_entry g = Some e" "0 < n" by auto
  have g: "links_ok (hg_links g)" "length (hg_links g) = length (hg_rows g)" using assms(1) by (simp_all add: hnsw_ok_def)
  from hnsw_search_run[OF assms(1,2) e(2) assms(3) e(1)] obtain ep found where
    f: "at_level (hg_links g) 0 ep"
      "search_layer env (hg_rows g) (hg_links g) (query_score (an_ops env) w query) [ep] (max (hg_ef_search g) n) 0 = Inr found"
      "hnsw_search env w query n g = Inr (map (\<lambda>(s, node). (s, hg_rows g ! node)) (take n found))" by blast
  from search_layer_wide[OF g assms(2,4) f(1), of env] f(2) have
    found: "found_ok (hg_rows g) sc (hg_links g) 0 found" "snd ` set found = (layer_edges (hg_links g) 0)\<^sup>* `` {ep}" by auto
  have "snd ` set found \<subseteq> {..<length (hg_rows g)}" using found(1) g(2) by (auto simp: found_ok_def at_level_def)
  moreover have "{..<length (hg_rows g)} \<subseteq> snd ` set found" unfolding found(2) using assms(5) f(1) g(2) by (auto simp: at_level_def)
  ultimately show ?thesis using best_of_found[OF found(1) g(2), of n] f(3) by auto
qed

definition demo_graph :: hnsw_graph where
  "demo_graph = hnsw_from_parts demo_ann_config 2 [0, 2] [[[1]], [[0]]] (Some 0) 0"

lemma demo_graph_ok: "hnsw_ok demo_graph"
proof -
  let ?l = "[[[Suc 0]], [[0 :: nat]]]"
  have at: "at_level ?l l n \<longleftrightarrow> l = 0 \<and> (n = 0 \<or> n = 1)" for l n
    by (auto simp: at_level_def less_Suc_eq numeral_2_eq_2)
  have "links_ok ?l" by (auto simp: links_ok_def at adj_ok_def less_Suc_eq)
  moreover have "degrees_ok demo_graph ?l"
    by (auto simp: degrees_ok_def at level_cap_def demo_graph_def hnsw_from_parts_def hnsw_new_def demo_ann_config_def Let_def)
  moreover have "hg_links demo_graph = ?l" "hg_rows demo_graph = [0, 2]" "hg_entry demo_graph = Some 0" "hg_max_level demo_graph = 0"
    by (simp_all add: demo_graph_def hnsw_from_parts_def hnsw_new_def Let_def)
  ultimately show ?thesis by (simp add: hnsw_ok_def)
qed

theorem hnsw_wide_search_exact_witness:
  "\<exists>res. hnsw_search demo_ann demo_walk [5, 6] 2 demo_graph = Inr res \<and> length res = 2"
proof -
  let ?sc = "\<lambda>r. euclidean_neg_sq demo_float [5, 6] (segs_rows demo_segs ! r)"
  have parts: "hg_rows demo_graph = [0, 2]" "hg_links demo_graph = [[[1]], [[0]]]" "hg_dim demo_graph = 2"
    by (simp_all add: demo_graph_def hnsw_from_parts_def hnsw_new_def Let_def)
  have "(0, 1) \<in> layer_edges [[[1]], [[0]]] 0" "(1, 0) \<in> layer_edges [[[1]], [[0]]] 0"
    by (simp_all add: layer_edges_def at_level_def)
  then have "\<forall>a < length (hg_rows demo_graph). \<forall>b < length (hg_rows demo_graph). (a, b) \<in> (layer_edges (hg_links demo_graph) 0)\<^sup>*"
    unfolding parts by (auto simp: less_Suc_eq)
  moreover have "\<forall>r \<in> set (hg_rows demo_graph). query_score (an_ops demo_ann) demo_walk [5, 6] r = Inr (?sc r)"
    by (simp add: parts demo_walk_ok(4) demo_ann_def)
  ultimately obtain res where "hnsw_search demo_ann demo_walk [5, 6] 2 demo_graph = Inr res"
    "best_of 2 (image_mset (\<lambda>r. (?sc r, r)) (mset (hg_rows demo_graph))) res"
    using hnsw_wide_search_exact[OF demo_graph_ok, of demo_ann demo_walk "[5, 6]" ?sc 2] by (auto simp: parts numeral_2_eq_2)
  then show ?thesis by (auto simp: best_of_def parts)
qed

end
