(* ===== verification/AnnSearch.thy ===== *)
theory AnnSearch
  imports Hnsw SearchProps
begin

text \<open>
  Approximate search in the store (\<^verbatim>\<open>src/src/store/read.rs\<close>, \<^verbatim>\<open>src/src/store/mod.rs\<close>): the index a store
  keeps, its rebuild and extension with the map from rows to documents, the walk with its exact
  prefilter, the resolution of walked rows, the per-segment search, and the dispatch between the
  search paths. The index is an argument of the searches next to the store. The theorems show
  that whatever the index holds a walk returns only documents the exact search would rank, with
  their exact scores, and that a walk wide enough returns what the exact search returns.
\<close>

section \<open>The index of a store\<close>

datatype ann = AnnHnsw hnsw_graph | AnnIvf ivf_index

datatype ann_snapshot =
    SnapHnsw "nat list" "nat list list list" "nat option" nat
  | SnapIvf "f32 list" "nat list list"

definition ann_empty :: "ann_config \<Rightarrow> nat \<Rightarrow> distance \<Rightarrow> ann" where
  "ann_empty cfg dim dist = (case ann_kind cfg of Hnsw \<Rightarrow> AnnHnsw (hnsw_new cfg dim) | Ivf \<Rightarrow> AnnIvf (ivf_new cfg dim dist))"

definition ann_build :: "ann_env \<Rightarrow> walk \<Rightarrow> nat list \<Rightarrow> ann \<Rightarrow> ann_error + ann" where
  "ann_build env w live a = (case a of
     AnnHnsw g \<Rightarrow> bindE (hnsw_build env w live g) (\<lambda>g'. Inr (AnnHnsw g'))
   | AnnIvf ix \<Rightarrow> bindE (ivf_build env w live ix) (\<lambda>ix'. Inr (AnnIvf ix')))"

definition ann_insert_rows :: "ann_env \<Rightarrow> walk \<Rightarrow> nat list \<Rightarrow> ann \<Rightarrow> ann_error + ann" where
  "ann_insert_rows env w rows a = (case a of
     AnnHnsw g \<Rightarrow> bindE (hnsw_insert_rows env w rows g) (\<lambda>g'. Inr (AnnHnsw g'))
   | AnnIvf ix \<Rightarrow> bindE (ivf_insert_rows env w rows ix) (\<lambda>ix'. Inr (AnnIvf ix')))"

definition ann_snapshot_of :: "ann \<Rightarrow> ann_snapshot" where
  "ann_snapshot_of a = (case a of
     AnnHnsw g \<Rightarrow> SnapHnsw (hg_rows g) (hg_links g) (hg_entry g) (hg_max_level g)
   | AnnIvf ix \<Rightarrow> SnapIvf (ix_centroids ix) (ix_lists ix))"

definition ann_from_snapshot :: "ann_config \<Rightarrow> nat \<Rightarrow> distance \<Rightarrow> ann_snapshot \<Rightarrow> ann" where
  "ann_from_snapshot cfg dim dist snap = (case snap of
     SnapHnsw rows links entry max_level \<Rightarrow> AnnHnsw (hnsw_from_parts cfg dim rows links entry max_level)
   | SnapIvf cs ls \<Rightarrow> AnnIvf (ivf_from_parts cfg dim dist cs ls))"

definition ann_set_query_params :: "ann_config \<Rightarrow> ann \<Rightarrow> ann" where
  "ann_set_query_params cfg a = (case a of
     AnnHnsw g \<Rightarrow> AnnHnsw (hnsw_set_query_params cfg g) | AnnIvf ix \<Rightarrow> AnnIvf (ivf_set_query_params cfg ix))"

definition ann_search :: "ann_env \<Rightarrow> walk \<Rightarrow> f32 list \<Rightarrow> nat \<Rightarrow> ann \<Rightarrow> ann_error + scored list" where
  "ann_search env w query n a = (case a of AnnHnsw g \<Rightarrow> hnsw_search env w query n g | AnnIvf ix \<Rightarrow> ivf_search env w query n ix)"

definition default_ivf :: ann_config where
  "default_ivf = \<lparr>ann_kind = Ivf, ann_m = 16, ann_ef_construction = 200, ann_ef_search = 64, ann_n_lists = 0, ann_n_probe = 8,
     ann_overscan = 4, ann_seed = 0x9E3779B97F4A7C15\<rparr>"

section \<open>Rows and their documents\<close>

type_synonym row_owner = "string \<times> string \<times> string"

definition doc_rows :: "string \<Rightarrow> string \<times> doc_entry \<Rightarrow> (nat \<times> row_owner) list" where
  "doc_rows c x = (case x of (did, e) \<Rightarrow> map (\<lambda>(name, row). (row, (c, did, name))) (de_rows e))"

definition rows_owned :: "read_env \<Rightarrow> store \<Rightarrow> (nat \<times> row_owner) list" where
  "rows_owned env s =
     concat (map (\<lambda>c. concat (map (doc_rows c) (docs_in env s c))) (re_order env (akeys (st_collections s))))"

definition rebuild_row_to_doc :: "read_env \<Rightarrow> store \<Rightarrow> row_owner option list \<times> nat list" where
  "rebuild_row_to_doc env s =
     (let n = segs_row_count (st_data s); owned = filter (\<lambda>(row, _). row < n) (rows_owned env s) in
      (fold (\<lambda>(row, owner) m. m[row := Some owner]) owned (replicate n None),
       map fst (filter (\<lambda>(_, (_, _, name)). name = DEFAULT_VECTOR) owned)))"

definition rebuild_ann :: "ann_env \<Rightarrow> read_env \<Rightarrow> store \<Rightarrow> quant option \<Rightarrow> ann \<Rightarrow> ann_error + row_owner option list \<times> ann" where
  "rebuild_ann aenv env s quant a =
     (let (owners, live) = rebuild_row_to_doc env s in
      bindE (ann_build aenv (ann_walk_for quant (st_data s) (cf_distance (st_config s))) live a) (\<lambda>a'. Inr (owners, a')))"

definition own_row :: "string \<Rightarrow> nat \<times> string \<times> string \<Rightarrow> row_owner option list \<Rightarrow> ann_error + row_owner option list" where
  "own_row c x m = (case x of (row, did, name) \<Rightarrow>
     if row < length m then Inr (m[row := Some (c, did, name)]) else Inl (AnnRow row))"

definition extend_ann :: "ann_env \<Rightarrow> store \<Rightarrow> quant option \<Rightarrow> string \<Rightarrow> nat \<Rightarrow> (nat \<times> string \<times> string) list \<Rightarrow>
    row_owner option list \<times> ann \<Rightarrow> ann_error + row_owner option list \<times> ann" where
  "extend_ann aenv s quant c prev new_owners st = (case st of (owners, a) \<Rightarrow>
     (let rows = segs_row_count (st_data s);
          sized = (if length owners < rows then resize rows None owners else owners);
          fresh = map fst (filter (\<lambda>(row, _, name). name = DEFAULT_VECTOR \<and> row \<ge> prev) new_owners) in
      bindE (foldE (own_row c) new_owners sized) (\<lambda>owners'.
      bindE (ann_insert_rows aenv (ann_walk_for quant (st_data s) (cf_distance (st_config s))) fresh a) (\<lambda>a'.
        Inr (owners', a')))))"

section \<open>Resolving a walk\<close>

datatype query_error = Refused search_error | WalkFailed ann_error

definition lift_error :: "('e \<Rightarrow> query_error) \<Rightarrow> 'e + 'a \<Rightarrow> query_error + 'a" where
  "lift_error f r = (case r of Inl e \<Rightarrow> Inl (f e) | Inr x \<Rightarrow> Inr x)"

text \<open>What became of the candidates of a walk, for the query plan.\<close>

record candidates =
  cd_surfaced :: nat
  cd_dropped_stale :: nat
  cd_dropped_out_of_scope :: nat
  cd_dropped_filtered :: nat
  cd_dropped_min_score :: nat
  cd_survived :: nat

definition no_candidates :: candidates where
  "no_candidates = \<lparr>cd_surfaced = 0, cd_dropped_stale = 0, cd_dropped_out_of_scope = 0, cd_dropped_filtered = 0,
     cd_dropped_min_score = 0, cd_survived = 0\<rparr>"

definition offer_candidate :: "read_env \<Rightarrow> store \<Rightarrow> row_owner option list \<Rightarrow> string list \<Rightarrow> (f32 list \<Rightarrow> f32) \<Rightarrow> search_opts \<Rightarrow>
    scored \<Rightarrow> item topk \<times> candidates \<Rightarrow> query_error + item topk \<times> candidates" where
  "offer_candidate env s owners scope score opts x st = (case st of (t, acc) \<Rightarrow>
     (let row = snd x; stale = Inr (t, acc\<lparr>cd_dropped_stale := Suc (cd_dropped_stale acc)\<rparr>);
          outside = Inr (t, acc\<lparr>cd_dropped_out_of_scope := Suc (cd_dropped_out_of_scope acc)\<rparr>) in
      case (if row < length owners then owners ! row else None) of
        None \<Rightarrow> stale
      | Some (c, did, name) \<Rightarrow>
          if name \<noteq> DEFAULT_VECTOR then outside
          else if c \<notin> set scope then outside
          else (case doc_of s c did of
              None \<Rightarrow> stale
            | Some e \<Rightarrow>
                if aget (de_rows e) DEFAULT_VECTOR \<noteq> Some row then stale
                else if \<not> matches (re_text env) (so_filter opts) (de_attrs e)
                then Inr (t, acc\<lparr>cd_dropped_filtered := Suc (cd_dropped_filtered acc)\<rparr>)
                else (case segs_row (st_data s) row of
                    None \<Rightarrow> Inl (Refused (RowOutOfRange row))
                  | Some v \<Rightarrow>
                      let sc = adjust (re_float env) (so_rank_by opts) (score v) (de_attrs e) in
                      if below_min (so_min_score opts) sc
                      then Inr (t, acc\<lparr>cd_dropped_min_score := Suc (cd_dropped_min_score acc)\<rparr>)
                      else Inr (topk_offer sc (c, did) t, acc\<lparr>cd_survived := Suc (cd_survived acc)\<rparr>)))))"

definition offer_candidates :: "read_env \<Rightarrow> store \<Rightarrow> row_owner option list \<Rightarrow> string list \<Rightarrow> (f32 list \<Rightarrow> f32) \<Rightarrow> search_opts \<Rightarrow>
    scored list \<Rightarrow> item topk \<times> candidates \<Rightarrow> query_error + item topk \<times> candidates" where
  "offer_candidates env s owners scope score opts cands st = (case st of (t, acc) \<Rightarrow>
     foldE (offer_candidate env s owners scope score opts) cands (t, acc\<lparr>cd_surfaced := cd_surfaced acc + length cands\<rparr>))"

section \<open>The exact prefilter\<close>

fun collect_until :: "nat \<Rightarrow> 'a list \<Rightarrow> 'a list \<Rightarrow> 'a list option" where
  "collect_until cap [] scan = Some scan"
| "collect_until cap (x # xs) scan = (if length scan = cap then None else collect_until cap xs (scan @ [x]))"

definition matching_rows :: "read_env \<Rightarrow> store \<Rightarrow> string list \<Rightarrow> filter_t \<Rightarrow> scan_row list" where
  "matching_rows env s cols f = concat (map (\<lambda>c. case aget (st_collections s) c of
     Some col \<Rightarrow> List.map_filter (scan_match env f c) (iter_docs env col) | None \<Rightarrow> []) cols)"

definition collect_selective_scan :: "read_env \<Rightarrow> store \<Rightarrow> string list \<Rightarrow> filter_t \<Rightarrow> nat \<Rightarrow> scan_row list option" where
  "collect_selective_scan env s cols f cap = collect_until cap (matching_rows env s cols f) []"

section \<open>The searches\<close>

definition candidate_budget :: "nat \<Rightarrow> search_opts \<Rightarrow> nat" where
  "candidate_budget overscan opts = max (sat_usize (so_top_k opts * overscan)) (so_top_k opts)"

definition search_ann :: "(nat \<Rightarrow> bool) \<Rightarrow> ann_env \<Rightarrow> read_env \<Rightarrow> store \<Rightarrow> quant option \<Rightarrow> row_owner option list \<times> ann \<Rightarrow> string list \<Rightarrow>
    f32 list \<Rightarrow> (f32 list \<Rightarrow> f32) \<Rightarrow> search_opts \<Rightarrow> query_error + hit list \<times> candidates" where
  "search_ann stop aenv env s quant st cols q score opts =
     (if so_top_k opts = 0 then Inr ([], no_candidates)
      else
        let overscan = max (case cf_ann (st_config s) of None \<Rightarrow> 1 | Some a \<Rightarrow> ann_overscan a) 1;
            n = candidate_budget overscan opts; docs = scannable_doc_count s;
            narrowed = so_filter opts \<noteq> [] \<or> scannable_in_scope s cols < docs;
            selective = (if narrowed then collect_selective_scan env s cols (so_filter opts) (max (docs div overscan) n) else None) in
        case selective of
          Some scan \<Rightarrow> bindE (lift_error Refused (rank_scan stop (re_float env) s score opts (sort_key fst scan))) (\<lambda>hits. Inr (hits, no_candidates))
        | None \<Rightarrow>
            bindE (lift_error WalkFailed (ann_search aenv (ann_walk_for quant (st_data s) (cf_distance (st_config s))) q n (snd st))) (\<lambda>cands.
            bindE (offer_candidates env s (fst st) cols score opts cands (topk_new (so_top_k opts), no_candidates)) (\<lambda>(t, acc).
              Inr (hits_from_topk s (so_projection opts) t, acc))))"

definition hit_order :: "hit \<Rightarrow> hit \<Rightarrow> ordering" where
  "hit_order a b =
     then_cmp (if f32_is_nan (h_score a) \<or> f32_is_nan (h_score b) then Equal else cmp (f32_key (h_score b)) (f32_key (h_score a)))
       (then_cmp (cmp (h_collection a) (h_collection b)) (cmp (h_id a) (h_id b)))"

definition indexed_ranges :: "store \<Rightarrow> ivf_index option list \<Rightarrow> (nat \<times> nat) list" where
  "indexed_ranges s seg = List.map_filter (\<lambda>((base, rows), ix). map_option (\<lambda>_. (base, base + rows)) ix) (zip (segment_ranges (st_data s)) seg)"

definition exhaustive_tail :: "read_env \<Rightarrow> store \<Rightarrow> ivf_index option list \<Rightarrow> string list \<Rightarrow> filter_t \<Rightarrow> scan_row list" where
  "exhaustive_tail env s seg cols f = sort_key fst
     (filter (\<lambda>(row, _). \<not> list_ex (\<lambda>(lo, hi). lo \<le> row \<and> row < hi) (indexed_ranges s seg)) (matching_rows env s cols f))"

definition search_segmented :: "(nat \<Rightarrow> bool) \<Rightarrow> ann_env \<Rightarrow> read_env \<Rightarrow> store \<Rightarrow> row_owner option list \<Rightarrow> ivf_index option list \<Rightarrow> string list \<Rightarrow>
    f32 list \<Rightarrow> (f32 list \<Rightarrow> f32) \<Rightarrow> search_opts \<Rightarrow> query_error + hit list \<times> candidates" where
  "search_segmented stop aenv env s owners seg cols q score opts =
     (if so_top_k opts = 0 then Inr ([], no_candidates)
      else
        bindE (lift_error Refused (rank_scan stop (re_float env) s score opts (exhaustive_tail env s seg cols (so_filter opts)))) (\<lambda>hits.
        bindE (foldE (\<lambda>ix st.
            bindE (lift_error WalkFailed (ivf_search aenv (walk_exact (st_data s) (cf_distance (st_config s))) q
                (candidate_budget (max (ann_overscan default_ivf) 1) opts) ix)) (\<lambda>cands.
              offer_candidates env s owners cols score opts cands st))
            (List.map_filter (\<lambda>ix. ix) seg) (topk_new (so_top_k opts), no_candidates)) (\<lambda>(t, acc).
          Inr (take (so_top_k opts) (sort_by hit_order (hits @ hits_from_topk s (so_projection opts) t)), acc))))"

text \<open>The whole dispatch: named vectors, the index, the per-segment indexes, the codes, the exact scan.\<close>

definition search_inner :: "(nat \<Rightarrow> bool) \<Rightarrow> ann_env \<Rightarrow> read_env \<Rightarrow> store \<Rightarrow> quant option \<Rightarrow> row_owner option list \<Rightarrow> ann option \<Rightarrow>
    ivf_index option list \<Rightarrow> string list \<Rightarrow> f32 list \<Rightarrow> search_opts \<Rightarrow> query_error + hit list" where
  "search_inner stop aenv env s quant owners index seg cols query opts =
     bindE (lift_error Refused (check_query_dim s query)) (\<lambda>_.
     bindE (lift_error Refused (check_query_opts opts)) (\<lambda>_.
      (let ops = re_float env; q = query_vector ops s query; score = score_fn ops s q; deep = deepened opts in
       bindE
        (if so_names deep \<noteq> [] then
           lift_error Refused (rank_scan_named stop ops s score deep (named_scan env s cols (so_filter deep) (so_names deep)))
         else if index \<noteq> None \<and> \<not> so_exact deep then
           bindE (search_ann stop aenv env s quant (owners, the index) cols q score deep) (\<lambda>(hits, _). Inr hits)
         else if list_ex (\<lambda>ix. ix \<noteq> None) seg \<and> \<not> so_exact deep then
           bindE (search_segmented stop aenv env s owners seg cols q score deep) (\<lambda>(hits, _). Inr hits)
         else
           let scan = sorted_scan env s cols (so_filter deep);
               two_pass = (if so_exact deep then None
                 else search_quantized stop ops s quant q score (parallel_workers s (length scan)) deep scan) in
           lift_error Refused (case two_pass of Some res \<Rightarrow> res | None \<Rightarrow> rank_scan stop ops s score deep scan))
        (\<lambda>ranked. lift_error Refused (finish env s opts ranked)))))"

text \<open>Without any index the dispatch is the search of the previous theory.\<close>

lemma search_inner_plain:
  assumes "\<not> list_ex (\<lambda>ix. ix \<noteq> None) seg"
  shows "search_inner stop aenv env s quant owners None seg cols query opts = lift_error Refused (search stop env s quant cols query opts)"
  using assms by (auto simp: search_inner_def search_def Let_def lift_error_def bindE_def split: sum.splits option.splits)

section \<open>A saved index answers as it did\<close>

lemma snapshot_answers:
  assumes "case a of AnnHnsw g \<Rightarrow> hg_dim g = dim | AnnIvf ix \<Rightarrow> ix_dim ix = dim \<and> ix_distance ix = dist"
  shows "ann_search env w query n (ann_from_snapshot cfg dim dist (ann_snapshot_of a)) = ann_search env w query n (ann_set_query_params cfg a)"
  using assms
  by (cases a) (simp_all add: ann_search_def ann_from_snapshot_def ann_snapshot_of_def ann_set_query_params_def hnsw_from_parts_def
      hnsw_new_def hnsw_set_query_params_def ivf_from_parts_def ivf_new_def ivf_set_query_params_def hnsw_search_def ivf_search_def
      n_centroids_def probed_def centroid_def list_at_def[abs_def] Let_def cong: if_cong option.case_cong)

section \<open>The map from rows to documents\<close>

lemma map_filter_keys:
  assumes "distinct (map fst m)"
  shows "List.map_filter (\<lambda>k. map_option (Pair k) (map_of m k)) (map fst m) = m"
proof -
  have get: "map_of m (fst y) = Some (snd y)" if "y \<in> set m" for y using that assms by (simp add: map_of_is_SomeI)
  have "List.map_filter (\<lambda>k. map_option (Pair k) (map_of m k)) (map fst ys) = ys" if "set ys \<subseteq> set m" for ys
    using that by (induction ys) (simp_all add: map_filter_simps get)
  then show ?thesis by simp
qed

lemma iter_docs_mset:
  assumes "iter_ok env" and "distinct (akeys (co_docs col))"
  shows "mset (iter_docs env col) = mset (co_docs col)"
proof -
  have "mset (re_order env (akeys (co_docs col))) = mset (akeys (co_docs col))" using assms(1) by (simp add: iter_ok_def)
  from mset_map_filter[OF this, of "\<lambda>did. map_option (Pair did) (aget (co_docs col) did)"]
  show ?thesis unfolding iter_docs_def map_filter_keys[OF assms(2)] .
qed

lemma mset_concat_perm: "mset xs = mset ys \<Longrightarrow> mset (concat (map f xs)) = mset (concat (map f ys))"
  by (metis (no_types, lifting) mset_concat map_map mset_map sum_mset_sum_list)

lemma doc_rows_live: "mset (map fst (doc_rows c x)) = entry_live (snd x)"
  by (cases x) (simp add: doc_rows_def entry_live_def comp_def case_prod_unfold)

lemma rows_owned_live:
  assumes "store_ok s" and "iter_ok env"
  shows "mset (map fst (rows_owned env s)) = live_rows (st_collections s)"
proof -
  let ?F = "\<lambda>c. concat (map (doc_rows c) (docs_in env s c))"
  let ?m = "st_collections s"
  have "map fst (rows_owned env s) = concat (map (\<lambda>c. map fst (?F c)) (re_order env (akeys ?m)))"
    unfolding rows_owned_def by (simp add: map_concat comp_def)
  moreover have "mset (concat (map (\<lambda>c. map fst (?F c)) (re_order env (akeys ?m)))) = mset (concat (map (\<lambda>c. map fst (?F c)) (akeys ?m)))"
    by (rule mset_concat_perm) (use assms(2) in \<open>simp add: iter_ok_def\<close>)
  ultimately have "mset (map fst (rows_owned env s)) = mset (concat (map (\<lambda>c. map fst (?F c)) (akeys ?m)))" by simp
  also have "\<dots> = sum_list (map (\<lambda>c. mset (map fst (?F c))) (akeys ?m))" by (simp add: mset_concat comp_def)
  also have "\<dots> = sum_list (map (\<lambda>x. col_live (snd x)) ?m)"
  proof -
    have "mset (map fst (?F (fst x))) = col_live (snd x)" if "x \<in> set ?m" for x
    proof -
      have get: "aget ?m (fst x) = Some (snd x)" using that store_ok_cols[OF assms(1)] by (simp add: map_of_is_SomeI)
      have "mset (map fst (?F (fst x))) = mset (concat (map (\<lambda>y. map fst (doc_rows (fst x) y)) (iter_docs env (snd x))))"
        using get by (simp add: map_concat comp_def docs_in_def)
      also have "\<dots> = mset (concat (map (\<lambda>y. map fst (doc_rows (fst x) y)) (co_docs (snd x))))"
        by (rule mset_concat_perm[OF iter_docs_mset[OF assms(2) store_ok_col[OF assms(1) get]]])
      also have "\<dots> = col_live (snd x)" by (simp only: mset_concat map_map comp_def doc_rows_live col_live_def)
      finally show ?thesis .
    qed
    then show ?thesis by (simp add: comp_def cong: map_cong)
  qed
  finally show ?thesis by (simp add: live_rows_def)
qed

lemma rows_owned_ok:
  assumes "store_ok s" and "iter_ok env"
  shows "distinct (map fst (rows_owned env s))" and "\<forall>(row, _) \<in> set (rows_owned env s). row < segs_row_count (st_data s)"
    and "(row, (c, did, name)) \<in> set (rows_owned env s) \<longleftrightarrow> (\<exists>e. doc_of s c did = Some e \<and> aget (de_rows e) name = Some row)"
proof -
  have core: "core_ok (segs_row_count (st_data s)) (core s)" and inv: "segs_inv (st_data s)"
    using assms(1) by (simp_all add: store_ok_def)
  note live = rows_owned_live[OF assms]
  have sub: "mset (map fst (rows_owned env s)) \<subseteq># mset [0..<segs_row_count (st_data s)]"
    using core live by (simp add: core_ok_def core_def)
  then have "\<forall>x. count (mset (map fst (rows_owned env s))) x \<le> 1"
    by (metis (no_types, lifting) distinct_count_atmost_1 distinct_upt le_trans mset_subset_eq_count bot_nat_0.extremum le_numeral_extra(4) count_mset_0_iff)
  then show "distinct (map fst (rows_owned env s))"
    by (metis distinct_count_atmost_1 count_greater_zero_iff in_multiset_in_set le_antisym less_eq_Suc_le One_nat_def not_gr_zero count_eq_zero_iff)
  show "\<forall>(row, _) \<in> set (rows_owned env s). row < segs_row_count (st_data s)"
  proof
    fix x assume "x \<in> set (rows_owned env s)"
    then have "fst x \<in># mset (map fst (rows_owned env s))" by simp
    from mset_subset_eqD[OF sub this] show "case x of (row, _) \<Rightarrow> row < segs_row_count (st_data s)" by (cases x) simp
  qed
  have wf: "amap_wf (de_rows e)" if "doc_of s c did = Some e" for c did e
    using that core by (fastforce simp: doc_of_def bind_eq_Some_conv core_ok_def core_def col_wf_def dest: map_of_SomeD)
  have "(row, (c, did, name)) \<in> set (rows_owned env s) \<longleftrightarrow> (\<exists>e. doc_of s c did = Some e \<and> (name, row) \<in> set (de_rows e))"
  proof -
    have in_keys: "c \<in> set (akeys (st_collections s))" if "doc_of s c did = Some e" for e
      using that by (auto simp: doc_of_def bind_eq_Some_conv dest!: map_of_SomeD) (metis fst_conv image_eqI)
    have "(row, (c, did, name)) \<in> set (rows_owned env s) \<longleftrightarrow>
        (\<exists>c' \<in> set (akeys (st_collections s)). \<exists>x \<in> set (docs_in env s c'). (row, (c, did, name)) \<in> set (doc_rows c' x))"
      unfolding rows_owned_def by (simp add: iter_ok_set[OF assms(2)])
    also have "\<dots> \<longleftrightarrow> (\<exists>e. doc_of s c did = Some e \<and> (name, row) \<in> set (de_rows e))"
    proof
      assume "\<exists>e. doc_of s c did = Some e \<and> (name, row) \<in> set (de_rows e)"
      then obtain e where e: "doc_of s c did = Some e" "(name, row) \<in> set (de_rows e)" by blast
      then have "(did, e) \<in> set (docs_in env s c)" "(row, (c, did, name)) \<in> set (doc_rows c (did, e))"
        by (simp add: docs_in_set[OF assms(2)]) (use e(2) in \<open>force simp: doc_rows_def\<close>)
      with in_keys[OF e(1)] show "\<exists>c' \<in> set (akeys (st_collections s)). \<exists>x \<in> set (docs_in env s c'). (row, (c, did, name)) \<in> set (doc_rows c' x)"
        by blast
    qed (auto simp: docs_in_set[OF assms(2)] doc_rows_def)
    finally show ?thesis .
  qed
  then show "(row, (c, did, name)) \<in> set (rows_owned env s) \<longleftrightarrow> (\<exists>e. doc_of s c did = Some e \<and> aget (de_rows e) name = Some row)"
    using wf by (auto simp: amap_wf_distinct map_of_is_SomeI dest: map_of_SomeD)
qed

lemma own_all:
  "distinct (map fst os) \<Longrightarrow> \<forall>(row, _) \<in> set os. row < length m \<Longrightarrow>
    length (fold (\<lambda>(row, owner) m. m[row := Some owner]) os m) = length m \<and>
    (\<forall>i < length m. fold (\<lambda>(row, owner) m. m[row := Some owner]) os m ! i = (case map_of os i of Some owner \<Rightarrow> Some owner | None \<Rightarrow> m ! i))"
proof (induction os arbitrary: m)
  case (Cons x os)
  obtain row owner where x: "x = (row, owner)" by (cases x)
  have "map_of os row = None" using Cons.prems(1) x by (auto simp: map_of_eq_None_iff)
  moreover have "\<forall>(r, _) \<in> set os. r < length (m[row := Some owner])" using Cons.prems(2) by auto
  ultimately show ?case using Cons.IH[of "m[row := Some owner]"] Cons.prems x
    by (auto simp: nth_list_update split: option.split)
qed simp

lemma rebuild_row_to_doc_ok:
  assumes "store_ok s" and "iter_ok env" and "rebuild_row_to_doc env s = (owners, live)"
  shows "length owners = segs_row_count (st_data s)"
    and "row < length owners \<Longrightarrow> owners ! row = Some (c, did, name) \<longleftrightarrow> (\<exists>e. doc_of s c did = Some e \<and> aget (de_rows e) name = Some row)"
    and "distinct live" and "set live = {row. \<exists>c did e. doc_of s c did = Some e \<and> scannable_row e = Some row}"
    and "\<forall>row \<in> set live. row < segs_row_count (st_data s)"
proof -
  let ?n = "segs_row_count (st_data s)"
  note o = rows_owned_ok[OF assms(1,2)]
  have all: "filter (\<lambda>(row, _). row < ?n) (rows_owned env s) = rows_owned env s" using o(2) by (simp add: filter_id_conv)
  then have eq: "owners = fold (\<lambda>(row, owner) m. m[row := Some owner]) (rows_owned env s) (replicate ?n None)"
    "live = map fst (filter (\<lambda>(_, (_, _, name)). name = DEFAULT_VECTOR) (rows_owned env s))"
    using assms(3) unfolding rebuild_row_to_doc_def Let_def all by simp_all
  have own: "length owners = ?n" "\<forall>i < ?n. owners ! i = map_of (rows_owned env s) i"
    unfolding eq(1) using own_all[OF o(1), of "replicate ?n None"] o(2) by (auto split: option.split)
  show "length owners = ?n" by (rule own(1))
  show "row < length owners \<Longrightarrow> owners ! row = Some (c, did, name) \<longleftrightarrow> (\<exists>e. doc_of s c did = Some e \<and> aget (de_rows e) name = Some row)"
    using own o(3)[of row c did name] o(1) by (metis map_of_SomeD map_of_is_SomeI)
  show "distinct live" unfolding eq(2) by (rule distinct_map_filter[OF o(1)])
  show mem: "set live = {row. \<exists>c did e. doc_of s c did = Some e \<and> scannable_row e = Some row}"
  proof -
    have "row \<in> set live \<longleftrightarrow> (\<exists>c did. (row, (c, did, DEFAULT_VECTOR)) \<in> set (rows_owned env s))" for row
      unfolding eq(2) by (force simp: image_iff)
    then show ?thesis by (auto simp: o(3) scannable_row_def)
  qed
  show "\<forall>row \<in> set live. row < ?n" unfolding eq(2) using o(2) by auto
qed

section \<open>What a walk resolves to\<close>

text \<open>The document a walked row stands for, if the row is its current default vector, in scope and matched.\<close>

definition resolve :: "read_env \<Rightarrow> store \<Rightarrow> row_owner option list \<Rightarrow> string list \<Rightarrow> filter_t \<Rightarrow> nat \<Rightarrow> scan_row option" where
  "resolve env s owners cols f row = (case (if row < length owners then owners ! row else None) of
     Some (c, did, name) \<Rightarrow>
       if name = DEFAULT_VECTOR \<and> (row, (c, did)) \<in> scan_set env s cols f then Some (row, (c, did)) else None
   | None \<Rightarrow> None)"

definition counted :: "candidates \<Rightarrow> bool" where
  "counted acc \<longleftrightarrow> cd_surfaced acc = cd_dropped_stale acc + cd_dropped_out_of_scope acc + cd_dropped_filtered acc +
     cd_dropped_min_score acc + cd_survived acc"

definition settled :: "candidates \<Rightarrow> nat" where
  "settled acc = cd_dropped_stale acc + cd_dropped_out_of_scope acc + cd_dropped_filtered acc + cd_dropped_min_score acc + cd_survived acc"

lemma offer_candidate_entry:
  assumes "store_ok s"
  shows "\<exists>acc'. offer_candidate env s owners cols score opts x (t, acc) =
      Inr (fold offer_opt (map (scored_entry (segs_row (st_data s)) (\<lambda>it v. ranked_score (re_float env) s (so_rank_by opts) (score v) it) (so_min_score opts))
        (List.map_filter (resolve env s owners cols (so_filter opts)) [snd x])) t, acc') \<and>
    settled acc' = Suc (settled acc) \<and> cd_surfaced acc' = cd_surfaced acc"
proof (cases "if snd x < length owners then owners ! snd x else None")
  case None
  then show ?thesis by (simp add: offer_candidate_def resolve_def map_filter_simps settled_def Let_def)
next
  case (Some own)
  obtain c did name where o: "own = (c, did, name)" by (cases own)
  show ?thesis
  proof (cases "name = DEFAULT_VECTOR \<and> (snd x, (c, did)) \<in> scan_set env s cols (so_filter opts)")
    case True
    from True obtain e where e: "doc_of s c did = Some e" "scannable_row e = Some (snd x)" "matches (re_text env) (so_filter opts) (de_attrs e)" "c \<in> set cols"
      by (auto simp: scan_set_def)
    obtain v where v: "segs_row (st_data s) (snd x) = Some v" using scan_rows_exist[OF assms conjunct2[OF True]] by auto
    have "adjust (re_float env) (so_rank_by opts) (score v) (de_attrs e) = ranked_score (re_float env) s (so_rank_by opts) (score v) (c, did)"
      using e(1) by (simp add: ranked_score_def attrs_of_def adjust_def)
    then show ?thesis using True Some o e v
      by (auto simp: offer_candidate_def resolve_def map_filter_simps settled_def Let_def scannable_row_def scored_entry_def offer_opt_def)
  next
    case False
    then have "resolve env s owners cols (so_filter opts) (snd x) = None" using Some o by (simp add: resolve_def)
    then show ?thesis using False Some o
      by (auto simp: offer_candidate_def map_filter_simps settled_def Let_def scan_set_def scannable_row_def split: option.split)
  qed
qed

lemma offer_candidates_entries:
  assumes "store_ok s"
  shows "\<exists>acc'. foldE (offer_candidate env s owners cols score opts) cands (t, acc) =
      Inr (offer_all (scan_entries env s score opts (List.map_filter (resolve env s owners cols (so_filter opts)) (map snd cands))) t, acc') \<and>
    settled acc' = settled acc + length cands \<and> cd_surfaced acc' = cd_surfaced acc"
proof (induction cands arbitrary: t acc)
  case (Cons x cands)
  let ?res = "resolve env s owners cols (so_filter opts)"
  from offer_candidate_entry[OF assms, of env owners cols score opts x t acc] obtain acc1 where
    1: "offer_candidate env s owners cols score opts x (t, acc) = Inr (offer_all (scan_entries env s score opts (List.map_filter ?res [snd x])) t, acc1)"
      "settled acc1 = Suc (settled acc)" "cd_surfaced acc1 = cd_surfaced acc"
    by (cases "?res (snd x)") (auto simp: map_filter_simps scan_entries_def offer_all_def offer_opt_def split: option.splits)
  have "List.map_filter ?res (map snd (x # cands)) = List.map_filter ?res [snd x] @ List.map_filter ?res (map snd cands)"
    by (simp add: map_filter_simps split: option.split)
  then show ?case using Cons.IH[of "offer_all (scan_entries env s score opts (List.map_filter ?res [snd x])) t" acc1] 1
    by (auto simp: scan_entries_def map_filter_append)
qed (simp add: map_filter_simps scan_entries_def offer_all_def)

lemma resolve_scan: "resolve env s owners cols f row = Some x \<Longrightarrow> x \<in> scan_set env s cols f \<and> fst x = row"
  by (auto simp: resolve_def split: option.splits if_splits)

lemma scan_entries_subset:
  assumes "set scan \<subseteq> scan_set env s cols (so_filter opts)" and "store_ok s"
  shows "set (scan_entries env s score opts scan) \<subseteq> ranked_docs env (contents s) cols score opts"
proof
  fix x assume "x \<in> set (scan_entries env s score opts scan)"
  then obtain y where y: "y \<in> set scan" "x \<in> set (scan_entries env s score opts [y])"
    by (auto simp: scan_entries_def set_map_filter)
  then have "y \<in> scan_set env s cols (so_filter opts)" using assms(1) by auto
  moreover obtain r c did where "y = (r, (c, did))" by (cases y) auto
  ultimately obtain e where e: "y = (r, (c, did))" "c \<in> set cols" "doc_of s c did = Some e" "scannable_row e = Some r"
    "matches (re_text env) (so_filter opts) (de_attrs e)" by (auto simp: scan_set_def)
  obtain v where v: "segs_row (st_data s) r = Some v"
    using scan_rows_exist[OF assms(2), of y env cols "so_filter opts"] e by (auto simp: scan_set_def)
  have "x = (adjust (re_float env) (so_rank_by opts) (score v) (de_attrs e), (c, did))" "\<not> below_min (so_min_score opts) (fst x)"
    using y(2) e v by (auto simp: scan_entries_def map_filter_simps scored_entry_def Let_def ranked_score_def attrs_of_def adjust_def split: if_splits option.splits)
  then show "x \<in> ranked_docs env (contents s) cols score opts"
    unfolding ranked_docs_def mem_Collect_eq contents_doc using e v
    by (auto simp: contents_doc doc_view_def doc_score_def scannable_row_def intro!: exI[of _ e])
qed

section \<open>A walk returns only ranked documents\<close>

lemma collect_until_all: "length acc \<le> cap \<Longrightarrow> collect_until cap xs acc = (if length acc + length xs \<le> cap then Some (acc @ xs) else None)"
  by (induction xs arbitrary: acc) auto

lemma selective_subset: "collect_selective_scan env s cols f cap = Some scan \<Longrightarrow> sort_key fst scan = subset_scan env s cols f"
  using collect_until_all[of "[]" cap "matching_rows env s cols f"]
  by (simp add: collect_selective_scan_def subset_scan_def matching_rows_def split: if_splits)

lemma sorted_desc_ranks: "sorted (map rank (into_sorted_desc t))"
  by (simp add: into_sorted_desc_def)

lemma offers_top: "length (into_sorted_desc (offer_all es (topk_new k))) \<le> k"
  using arg_cong[OF into_sorted_ranks[of es k], of length] by (simp add: best_def)

lemma rank_subset_scan:
  assumes "store_ok s" and "iter_ok env" and "distinct cols"
  shows "\<exists>t. rank_scan (\<lambda>_. False) (re_float env) s score opts (subset_scan env s cols (so_filter opts)) = Inr (hits_from_topk s (so_projection opts) t) \<and>
    into_sorted_desc t = take (so_top_k opts) (sort_key rank (scan_entries env s score opts (subset_scan env s cols (so_filter opts))))"
proof -
  note sub = subset_scan_ok[OF assms, of "so_filter opts"]
  show ?thesis by (rule rank_scan_offers) (use sub scan_rows_exist[OF assms(1)] in blast)+
qed

abbreviation store_walk :: "store \<Rightarrow> quant option \<Rightarrow> walk" where
  "store_walk s quant \<equiv> ann_walk_for quant (st_data s) (cf_distance (st_config s))"

abbreviation store_overscan :: "store \<Rightarrow> nat" where
  "store_overscan s \<equiv> max (case cf_ann (st_config s) of None \<Rightarrow> 1 | Some a \<Rightarrow> ann_overscan a) 1"

lemma counted_start: "settled no_candidates = 0" "cd_surfaced no_candidates = 0" "counted no_candidates"
  by (simp_all add: settled_def no_candidates_def counted_def)

lemma search_ann_walk:
  assumes "store_ok s" and "ann_search aenv (store_walk s quant) q (candidate_budget (store_overscan s) opts) a = Inr cands"
    and "so_top_k opts \<noteq> 0"
    and "so_filter opts \<noteq> [] \<or> scannable_in_scope s cols < scannable_doc_count s \<Longrightarrow>
      collect_selective_scan env s cols (so_filter opts) (max (scannable_doc_count s div store_overscan s) (candidate_budget (store_overscan s) opts)) = None"
  shows "\<exists>acc. search_ann stop aenv env s quant (owners, a) cols q score opts =
      Inr (hits_from_topk s (so_projection opts) (offer_all (scan_entries env s score opts
        (List.map_filter (resolve env s owners cols (so_filter opts)) (map snd cands))) (topk_new (so_top_k opts))), acc) \<and> counted acc"
proof -
  from offer_candidates_entries[OF assms(1), of env owners cols score opts cands "topk_new (so_top_k opts)"
      "no_candidates\<lparr>cd_surfaced := cd_surfaced no_candidates + length cands\<rparr>"] obtain acc where
    acc: "offer_candidates env s owners cols score opts cands (topk_new (so_top_k opts), no_candidates) =
      Inr (offer_all (scan_entries env s score opts (List.map_filter (resolve env s owners cols (so_filter opts)) (map snd cands))) (topk_new (so_top_k opts)), acc)"
      "settled acc = length cands" "cd_surfaced acc = length cands"
    by (auto simp: offer_candidates_def settled_def no_candidates_def)
  have "counted acc" using acc(2,3) by (simp add: counted_def settled_def)
  then show ?thesis using assms(2-4) acc(1) by (auto simp: search_ann_def Let_def lift_error_def)
qed

text \<open>
  C12 (approximate search). Whatever an index holds, stale rows of overwritten and deleted documents included,
  a search through it returns only documents of the collections in scope that match the filter,
  each with its exact score, best first and at most as many as asked for; and the recorded counts
  account for every row the walk surfaced.
\<close>
theorem walk_returns_ranked_documents:
  assumes "store_ok s" and "iter_ok env" and "distinct cols"
    and "ann_search aenv (store_walk s quant) q (candidate_budget (store_overscan s) opts) a = Inr cands"
  shows "\<exists>E acc. search_ann (\<lambda>_. False) aenv env s quant (owners, a) cols q score opts = Inr (map (hit_of s (so_projection opts)) E, acc) \<and>
    set E \<subseteq> ranked_docs env (contents s) cols score opts \<and> sorted (map rank E) \<and> length E \<le> so_top_k opts \<and> counted acc"
proof (cases "so_top_k opts = 0")
  case True
  then show ?thesis by (intro exI[of _ "[]"] exI[of _ no_candidates]) (simp add: search_ann_def counted_start)
next
  case False
  let ?sel = "if so_filter opts \<noteq> [] \<or> scannable_in_scope s cols < scannable_doc_count s
    then collect_selective_scan env s cols (so_filter opts) (max (scannable_doc_count s div store_overscan s) (candidate_budget (store_overscan s) opts)) else None"
  show ?thesis
  proof (cases ?sel)
    case None
    then obtain acc where run: "search_ann (\<lambda>_. False) aenv env s quant (owners, a) cols q score opts =
        Inr (hits_from_topk s (so_projection opts) (offer_all (scan_entries env s score opts
          (List.map_filter (resolve env s owners cols (so_filter opts)) (map snd cands))) (topk_new (so_top_k opts))), acc)" "counted acc"
      using search_ann_walk[OF assms(1,4) False, of cols env "\<lambda>_. False" owners score] by (auto split: if_splits)
    let ?scan = "List.map_filter (resolve env s owners cols (so_filter opts)) (map snd cands)"
    have "set ?scan \<subseteq> scan_set env s cols (so_filter opts)" using resolve_scan by (auto simp: set_map_filter)
    then have "set (scan_entries env s score opts ?scan) \<subseteq> ranked_docs env (contents s) cols score opts"
      by (rule scan_entries_subset[OF _ assms(1)])
    then show ?thesis using run offer_all_subset[of "scan_entries env s score opts ?scan" "so_top_k opts"] sorted_desc_ranks offers_top
      unfolding hits_from_topk_def by blast
  next
    case (Some scan)
    then have "sort_key fst scan = subset_scan env s cols (so_filter opts)" using selective_subset by (auto split: if_splits)
    then obtain t where t: "rank_scan (\<lambda>_. False) (re_float env) s score opts (sort_key fst scan) = Inr (hits_from_topk s (so_projection opts) t)"
      "into_sorted_desc t = take (so_top_k opts) (sort_key rank (scan_entries env s score opts (sort_key fst scan)))"
      "set (sort_key fst scan) = scan_set env s cols (so_filter opts)"
      using rank_subset_scan[OF assms(1-3), of score opts] subset_scan_ok[OF assms(1-3), of "so_filter opts"] by auto
    have "search_ann (\<lambda>_. False) aenv env s quant (owners, a) cols q score opts = Inr (hits_from_topk s (so_projection opts) t, no_candidates)"
      using Some False t(1) by (auto simp: search_ann_def Let_def lift_error_def split: if_splits)
    moreover have "set (into_sorted_desc t) \<subseteq> ranked_docs env (contents s) cols score opts"
      using t(2) scan_entries_subset[of "sort_key fst scan" env s cols opts score] t(3) assms(1) by (auto dest!: in_set_takeD)
    moreover have "length (into_sorted_desc t) \<le> so_top_k opts" using t(2) by simp
    ultimately show ?thesis using sorted_desc_ranks[of t] counted_start(3) unfolding hits_from_topk_def by blast
  qed
qed

section \<open>A wide walk is exact\<close>

lemma resolve_live:
  assumes "store_ok s" and "iter_ok env" and "rebuild_row_to_doc env s = (owners, live)" and "(row, (c, did)) \<in> scan_set env s cols f"
  shows "resolve env s owners cols f row = Some (row, (c, did))"
proof -
  from assms(4) obtain e where e: "doc_of s c did = Some e" "aget (de_rows e) DEFAULT_VECTOR = Some row"
    by (auto simp: scan_set_def scannable_row_def)
  then have "row \<in> set live" unfolding rebuild_row_to_doc_ok(4)[OF assms(1-3)] by (auto simp: scannable_row_def)
  then have "row < length owners" using rebuild_row_to_doc_ok(1,5)[OF assms(1-3)] by simp
  then show ?thesis using rebuild_row_to_doc_ok(2)[OF assms(1-3), of row c did DEFAULT_VECTOR] e assms(4) by (auto simp: resolve_def)
qed

lemma wide_resolves_all:
  assumes "store_ok s" and "iter_ok env" and "rebuild_row_to_doc env s = (owners, live)" and "distinct rows" and "set live \<subseteq> set rows"
  shows "distinct (map snd (List.map_filter (resolve env s owners cols f) rows))"
    and "set (List.map_filter (resolve env s owners cols f) rows) = scan_set env s cols f"
proof -
  let ?res = "resolve env s owners cols f"
  show all: "set (List.map_filter ?res rows) = scan_set env s cols f"
  proof
    show "set (List.map_filter ?res rows) \<subseteq> scan_set env s cols f" using resolve_scan by (auto simp: set_map_filter)
    show "scan_set env s cols f \<subseteq> set (List.map_filter ?res rows)"
    proof
      fix x assume x: "x \<in> scan_set env s cols f"
      obtain row c did where r: "x = (row, (c, did))" by (cases x) auto
      have "row \<in> set live" using x r unfolding rebuild_row_to_doc_ok(4)[OF assms(1-3)] by (auto simp: scan_set_def)
      then show "x \<in> set (List.map_filter ?res rows)" using resolve_live[OF assms(1-3)] x r assms(5) by (force simp: set_map_filter)
    qed
  qed
  have "distinct (map fst (List.map_filter ?res rows))" using assms(4)
  proof (induction rows)
    case (Cons r rows)
    have "fst x \<in> set rows" if "x \<in> set (List.map_filter ?res rows)" for x
      using that by (auto simp: set_map_filter simp del: split_paired_All dest!: resolve_scan[THEN conjunct2])
    then show ?case using Cons resolve_scan[of env s owners cols f r] by (auto simp: map_filter_simps split: option.split)
  qed (simp add: map_filter_simps)
  moreover have "inj_on snd (scan_set env s cols f)" by (auto simp: inj_on_def scan_set_def)
  ultimately show "distinct (map snd (List.map_filter ?res rows))" unfolding distinct_map all by blast
qed

lemma same_items_same_hits:
  assumes "distinct (map snd a)" and "distinct (map snd b)" and "set a = set b"
  shows "into_sorted_desc (offer_all (scan_entries env s score opts a) (topk_new k)) = take k (sort_key rank (scan_entries env s score opts b))"
proof -
  have "mset b = mset a" using assms by (intro set_eq_iff_mset_eq_distinct[THEN iffD1]) (auto simp: distinct_map)
  then have m: "mset (scan_entries env s score opts b) = mset (scan_entries env s score opts a)"
    unfolding scan_entries_def by (rule mset_map_filter)
  have d: "distinct (map snd (scan_entries env s score opts b))"
    unfolding scan_entries_def by (rule map_filter_distinct[OF scored_item assms(2)])
  from offers_perm[OF d m, of k] topk_sort_cut[OF d, of k] show ?thesis by simp
qed

lemma wide_search_ann:
  assumes "store_ok s" and "iter_ok env" and "env_ok (re_text env) (re_parse env)" and "index_covers env s" and "distinct cols"
    and "rebuild_row_to_doc env s = (owners, live)"
    and "ann_search aenv (store_walk s quant) q (candidate_budget (store_overscan s) opts) a = Inr cands"
    and "distinct (map snd cands)" and "set live \<subseteq> snd ` set cands"
  shows "\<exists>acc hits. search_ann (\<lambda>_. False) aenv env s quant (owners, a) cols q score opts = Inr (hits, acc) \<and>
    rank_scan (\<lambda>_. False) (re_float env) s score opts (sorted_scan env s cols (so_filter opts)) = Inr hits"
proof -
  note scan = sorted_scan_ok[OF assms(1,2,5,3,4), of "so_filter opts"]
  have rows: "\<forall>x \<in> set (sorted_scan env s cols (so_filter opts)). segs_row (st_data s) (fst x) \<noteq> None" using scan scan_rows_exist[OF assms(1)] by blast
  from rank_scan_offers[OF conjunct1[OF scan] rows, of env score opts] obtain t where
    t: "rank_scan (\<lambda>_. False) (re_float env) s score opts (sorted_scan env s cols (so_filter opts)) = Inr (hits_from_topk s (so_projection opts) t)"
      "into_sorted_desc t = take (so_top_k opts) (sort_key rank (scan_entries env s score opts (sorted_scan env s cols (so_filter opts))))" by auto
  show ?thesis
  proof (cases "so_top_k opts = 0")
    case True
    then show ?thesis using t by (simp add: search_ann_def hits_from_topk_def)
  next
    case False
    let ?cap = "max (scannable_doc_count s div store_overscan s) (candidate_budget (store_overscan s) opts)"
    show ?thesis
    proof (cases "if so_filter opts \<noteq> [] \<or> scannable_in_scope s cols < scannable_doc_count s then collect_selective_scan env s cols (so_filter opts) ?cap else None")
      case None
      let ?found = "List.map_filter (resolve env s owners cols (so_filter opts)) (map snd cands)"
      have wide: "distinct (map snd ?found)" "set ?found = set (sorted_scan env s cols (so_filter opts))"
        using wide_resolves_all[OF assms(1,2,6,8), of cols "so_filter opts"] assms(9) scan by simp_all
      obtain acc where "search_ann (\<lambda>_. False) aenv env s quant (owners, a) cols q score opts =
          Inr (hits_from_topk s (so_projection opts) (offer_all (scan_entries env s score opts ?found) (topk_new (so_top_k opts))), acc)"
        using search_ann_walk[OF assms(1,7) False, of cols env "\<lambda>_. False" owners score] None by (auto split: if_splits)
      then show ?thesis using t same_items_same_hits[OF wide(1) conjunct1[OF scan] wide(2), of env s score opts "so_top_k opts"]
        by (simp add: hits_from_topk_def)
    next
      case (Some found)
      then have sub: "sort_key fst found = subset_scan env s cols (so_filter opts)" using selective_subset by (auto split: if_splits)
      from rank_subset_scan[OF assms(1,2,5), of score opts] obtain t' where
        t': "rank_scan (\<lambda>_. False) (re_float env) s score opts (sort_key fst found) = Inr (hits_from_topk s (so_projection opts) t')"
          "into_sorted_desc t' = take (so_top_k opts) (sort_key rank (scan_entries env s score opts (subset_scan env s cols (so_filter opts))))"
        unfolding sub by auto
      note ss = subset_scan_ok[OF assms(1,2,5), of "so_filter opts"]
      have "into_sorted_desc t' = into_sorted_desc t"
        using t(2) t'(2) same_items_same_hits[of "subset_scan env s cols (so_filter opts)" "subset_scan env s cols (so_filter opts)" env s score opts "so_top_k opts"]
          same_items_same_hits[of "subset_scan env s cols (so_filter opts)" "sorted_scan env s cols (so_filter opts)" env s score opts "so_top_k opts"] scan ss by simp
      moreover have "search_ann (\<lambda>_. False) aenv env s quant (owners, a) cols q score opts = Inr (hits_from_topk s (so_projection opts) t', no_candidates)"
        using Some False t'(1) by (auto simp: search_ann_def Let_def lift_error_def split: if_splits)
      ultimately show ?thesis using t(1) by (simp add: hits_from_topk_def)
    qed
  qed
qed

lemma wide_search_inner:
  assumes "store_ok s" and "iter_ok env" and "env_ok (re_text env) (re_parse env)" and "index_covers env s" and "distinct cols"
    and "rebuild_row_to_doc env s = (owners, live)"
    and "ann_search aenv (store_walk s quant) (query_vector (re_float env) s query) (candidate_budget (store_overscan s) (deepened opts)) a = Inr cands"
    and "distinct (map snd cands)" and "set live \<subseteq> snd ` set cands"
  shows "search_inner (\<lambda>_. False) aenv env s quant owners (Some a) seg cols query opts =
    lift_error Refused (search (\<lambda>_. False) env s None cols query opts)"
proof -
  let ?score = "score_fn (re_float env) s (query_vector (re_float env) s query)"
  from wide_search_ann[OF assms, of ?score] obtain acc hits where
    "search_ann (\<lambda>_. False) aenv env s quant (owners, a) cols (query_vector (re_float env) s query) ?score (deepened opts) = Inr (hits, acc)"
    "rank_scan (\<lambda>_. False) (re_float env) s ?score (deepened opts) (sorted_scan env s cols (so_filter (deepened opts))) = Inr hits" by blast
  then show ?thesis
    by (auto simp: search_inner_def search_def Let_def search_quantized_def[of _ _ _ None] lift_error_def bindE_def split: sum.splits)
qed

lemma store_walk_scores:
  assumes "segs_inv d" and "case quant of None \<Rightarrow> True | Some qs \<Rightarrow> quant_mirrors ops d qs" and "r < segs_row_count d"
  shows "\<exists>x. query_score ops (ann_walk_for quant d dist) q r = Inr x"
proof -
  have row: "segs_row d r \<noteq> None" using assms(3) by (simp add: segs_row_nth[OF assms(1)] segs_count[OF assms(1)])
  have exact: "\<exists>x. query_score ops (walk_exact d dist) q r = Inr x"
    using row_at_ok(1)[OF assms(1,3)] by (simp add: query_score_def walk_exact_def)
  show ?thesis
  proof (cases quant)
    case None
    then show ?thesis using exact by (simp add: ann_walk_for_def)
  next
    case (Some qs)
    show ?thesis
    proof (cases qs)
      case (QInt8 st)
      have "code_slice (is_vectors st) (segs_dimension d) r \<noteq> None"
        using mirrored_slice[OF assms(1), of "is_vectors st" "quantize_all ops (is_params st)"] assms(2) row
        by (simp add: Some QInt8 quant_mirrors_def quantize_all_bounds)
      then show ?thesis using exact by (auto simp: Some QInt8 ann_walk_for_def walk_int8_def query_score_def code_at_def Let_def)
    next
      case (QBinary st)
      have "code_slice (bs_words st) (bs_words_per_row st) r \<noteq> None"
        using mirrored_slice[OF assms(1), of "bs_words st" pack_signs] assms(2) row
        by (simp add: Some QBinary quant_mirrors_def pack_signs_bits(1))
      then show ?thesis using exact by (auto simp: Some QBinary ann_walk_for_def walk_binary_def query_score_def code_at_def Let_def)
    qed
  qed
qed

lemma walk_data [simp]: "wk_data (ann_walk_for quant d dist) = d"
  by (simp add: ann_walk_for_def walk_exact_def walk_int8_def walk_binary_def split: option.split quant.split)

text \<open>
  C13 (exact through the index). After a rebuild of the inverted-file index, a search whose budget of candidates covers
  the live rows and that probes every list returns exactly what the exact search returns, error
  for error, whether the walk scores vectors or codes and whatever the query asks for.
\<close>
theorem rebuilt_index_wide_search_is_exact:
  assumes "store_ok s" and "iter_ok env" and "env_ok (re_text env) (re_parse env)" and "index_covers env s" and "distinct cols"
    and "0 < segs_dimension (st_data s)" and "case quant of None \<Rightarrow> True | Some qs \<Rightarrow> quant_mirrors (an_ops aenv) (st_data s) qs"
    and "length (snd (rebuild_row_to_doc env s)) \<le> candidate_budget (store_overscan s) (deepened opts)"
  shows "\<exists>owners ix. rebuild_ann aenv env s quant (AnnIvf (ivf_new cfg (segs_dimension (st_data s)) dist)) = Inr (owners, AnnIvf ix) \<and>
    (\<forall>tuned seg query. n_centroids ix \<le> ann_n_probe tuned \<longrightarrow>
      search_inner (\<lambda>_. False) aenv env s quant owners (Some (ann_set_query_params tuned (AnnIvf ix))) seg cols query opts =
      lift_error Refused (search (\<lambda>_. False) env s None cols query opts))"
proof -
  obtain owners live where rb: "rebuild_row_to_doc env s = (owners, live)" by (cases "rebuild_row_to_doc env s")
  note live = rebuild_row_to_doc_ok[OF assms(1,2) rb]
  have inv: "segs_inv (st_data s)" using assms(1) by (simp add: store_ok_def)
  let ?w = "store_walk s quant" and ?d = "segs_dimension (st_data s)"
  from ivf_build_holds[of ?w live "ivf_new cfg ?d dist" aenv] inv live(5) assms(6) obtain ix where
    ix: "ivf_build aenv ?w live (ivf_new cfg ?d dist) = Inr ix" "ivf_holds ix (mset live)" "ix_dim ix = ?d" by (auto simp: ivf_new_def)
  have run: "rebuild_ann aenv env s quant (AnnIvf (ivf_new cfg ?d dist)) = Inr (owners, AnnIvf ix)"
    using ix(1) rb by (simp add: rebuild_ann_def ann_build_def)
  have "search_inner (\<lambda>_. False) aenv env s quant owners (Some (ann_set_query_params tuned (AnnIvf ix))) seg cols query opts =
      lift_error Refused (search (\<lambda>_. False) env s None cols query opts)" if tuned: "n_centroids ix \<le> ann_n_probe tuned" for tuned seg query
  proof -
    let ?ix = "ivf_set_query_params tuned ix" and ?q = "query_vector (re_float env) s query"
    let ?n = "candidate_budget (store_overscan s) (deepened opts)"
    have t: "ivf_holds ?ix (mset live)" "0 < ix_dim ?ix" "n_centroids ?ix \<le> ix_n_probe ?ix"
      using ix(2,3) assms(6) tuned by (simp_all add: ivf_holds_def ivf_set_query_params_def n_centroids_def)
    have "\<forall>r \<in> set live. \<exists>x. query_score (an_ops aenv) ?w ?q r = Inr x"
      using store_walk_scores[OF inv assms(7)] live(5) by simp
    from bchoice[OF this] obtain sc where "\<forall>r \<in> set live. query_score (an_ops aenv) ?w ?q r = Inr (sc r)" by blast
    then obtain res where res: "ivf_search aenv ?w ?q ?n ?ix = Inr res" "best_of ?n (image_mset (\<lambda>r. (sc r, r)) (mset live)) res"
      using ivf_search_every_list[OF t(1,2) _ t(3), of aenv ?w ?q sc ?n] by auto
    have "length live \<le> ?n" using assms(8) rb by simp
    then have len: "length res = length live" using res(2) by (simp add: best_of_def)
    obtain rest where rest: "image_mset (\<lambda>r. (sc r, r)) (mset live) = mset res + rest" using res(2) unfolding best_of_def by blast
    have "size (mset live) = size (mset res) + size rest" using arg_cong[OF rest, of size] by (simp only: size_image_mset size_union)
    then have "rest = {#}" using len by simp
    then have "mset res = image_mset (\<lambda>r. (sc r, r)) (mset live)" using rest by simp
    then have "image_mset snd (mset res) = mset live" by (simp add: image_mset.compositionality comp_def)
    then have m: "mset (map snd res) = mset live" by simp
    have "distinct (map snd res)" using live(3) mset_eq_imp_distinct_iff[OF m] by simp
    moreover have "set live \<subseteq> snd ` set res" using mset_eq_setD[OF m] by simp
    ultimately show ?thesis
      using wide_search_inner[OF assms(1-5) rb, of aenv quant query opts "ann_set_query_params tuned (AnnIvf ix)" res seg] res(1)
      by (simp add: ann_search_def ann_set_query_params_def)
  qed
  then show ?thesis using run by blast
qed


section \<open>A concrete store\<close>

definition demo_aenv :: ann_env where
  "demo_aenv = demo_ann\<lparr>an_ops := demo_float\<rparr>"

theorem walk_returns_ranked_documents_witness:
  "\<exists>E acc. search_ann (\<lambda>_. False) demo_aenv demo_renv demo_full None ([None], AnnIvf (ivf_new demo_ann_config 2 Euclidean)) [''a''] [1, 1] (\<lambda>_. 0) demo_opts =
     Inr (map (hit_of demo_full (so_projection demo_opts)) E, acc) \<and> counted acc"
proof -
  have "ann_search demo_aenv (store_walk demo_full None) [1, 1] (candidate_budget (store_overscan demo_full) demo_opts)
      (AnnIvf (ivf_new demo_ann_config 2 Euclidean)) = Inr []"
    by (simp add: ann_search_def ivf_search_def ivf_new_def n_centroids_def)
  from walk_returns_ranked_documents[OF demo_full_ok(1) demo_read_ok(1) _ this, of "[''a'']"] show ?thesis by fastforce
qed

theorem rebuilt_index_wide_search_is_exact_witness:
  "\<exists>owners ix tuned. rebuild_ann demo_aenv demo_renv demo_full None (AnnIvf (ivf_new demo_ann_config (segs_dimension (st_data demo_full)) DotProduct)) = Inr (owners, AnnIvf ix) \<and>
     search_inner (\<lambda>_. False) demo_aenv demo_renv demo_full None owners (Some (ann_set_query_params tuned (AnnIvf ix))) [] [''a''] [1, 1] demo_opts =
     lift_error Refused (search (\<lambda>_. False) demo_renv demo_full None [''a''] [1, 1] demo_opts)"
proof -
  have dim: "0 < segs_dimension (st_data demo_full)" by (simp add: demo_full_defs segs_dimension_def)
  obtain owners live where rb: "rebuild_row_to_doc demo_renv demo_full = (owners, live)" by (cases "rebuild_row_to_doc demo_renv demo_full")
  note live = rebuild_row_to_doc_ok[OF demo_full_ok(1) demo_read_ok(1) rb]
  have "set live \<subseteq> {1}" unfolding live(4) by (auto simp: doc_contents_of demo_full_defs scannable_row_def DEFAULT_VECTOR_def split: if_splits)
  from card_mono[OF _ this] have "length live \<le> 1" using distinct_card[OF live(3)] by simp
  also have "1 \<le> candidate_budget (store_overscan demo_full) (deepened demo_opts)"
    by (simp add: candidate_budget_def deepened_def demo_opts_def search_depth_def sat_usize_def Let_def)
  finally have budget: "length (snd (rebuild_row_to_doc demo_renv demo_full)) \<le> candidate_budget (store_overscan demo_full) (deepened demo_opts)"
    using rb by simp
  from rebuilt_index_wide_search_is_exact[OF demo_full_ok(1) demo_read_ok _ dim _ budget,
      where cols = "[''a'']" and quant = None and aenv = demo_aenv and cfg = demo_ann_config and dist = DotProduct]
  obtain owners' ix where ix: "rebuild_ann demo_aenv demo_renv demo_full None (AnnIvf (ivf_new demo_ann_config (segs_dimension (st_data demo_full)) DotProduct)) = Inr (owners', AnnIvf ix)"
    "\<And>tuned. n_centroids ix \<le> ann_n_probe tuned \<Longrightarrow>
      search_inner (\<lambda>_. False) demo_aenv demo_renv demo_full None owners' (Some (ann_set_query_params tuned (AnnIvf ix))) [] [''a''] [1, 1] demo_opts =
      lift_error Refused (search (\<lambda>_. False) demo_renv demo_full None [''a''] [1, 1] demo_opts)" by auto
  from ix(2)[of "demo_ann_config\<lparr>ann_n_probe := n_centroids ix\<rparr>"] ix(1) show ?thesis by auto
qed

end
