(* ===== verification/ChunkProps.thy ===== *)
theory ChunkProps
  imports Chunk
begin

text \<open>
  Correctness of chunking. A splitter is right when it returns and its spans tile the range it
  was given, each within the budget where the strategy promises one; the laws of a splitter are
  a locale, interpreted on the separator ladder, the sentence splitter and the markdown splitter.
\<close>

section \<open>Tilings\<close>

fun tiles :: "nat \<Rightarrow> nat \<Rightarrow> span list \<Rightarrow> bool" where
  "tiles a b [] \<longleftrightarrow> a = b"
| "tiles a b ((s, e) # r) \<longleftrightarrow> s = a \<and> s < e \<and> tiles e b r"

definition fits :: "nat \<Rightarrow> span list \<Rightarrow> bool" where
  "fits m r \<longleftrightarrow> (\<forall>(s, e) \<in> set r. e - s \<le> m)"

lemma fits_simps [simp]:
  "fits m []" "fits m ((s, e) # r) \<longleftrightarrow> e - s \<le> m \<and> fits m r" "fits m (xs @ ys) \<longleftrightarrow> fits m xs \<and> fits m ys"
  by (auto simp: fits_def)

lemma tiles_append: "tiles a c (xs @ ys) \<longleftrightarrow> (\<exists>b. tiles a b xs \<and> tiles b c ys)"
  by (induction a c xs rule: tiles.induct) auto

lemma tiles_le: "tiles a b r \<Longrightarrow> a \<le> b"
  by (induction a b r rule: tiles.induct) auto

lemma tiles_member: "tiles a b r \<Longrightarrow> (s, e) \<in> set r \<Longrightarrow> a \<le> s \<and> s < e \<and> e \<le> b"
  by (induction a b r rule: tiles.induct) (auto dest: tiles_le)

lemma tiles_Cons_iff: "tiles a b (p # r) \<longleftrightarrow> fst p = a \<and> fst p < snd p \<and> tiles (snd p) b r"
  by (cases p) auto

lemma concat_opt_Nil [simp]: "concat_opt [] = Some []"
  by (simp add: concat_opt_def)

lemma concat_opt_Cons:
  "concat_opt (x # xs) = (case x of None \<Rightarrow> None | Some y \<Rightarrow> map_option ((@) y) (concat_opt xs))"
  by (auto simp: concat_opt_def option.map_comp comp_def split: option.split)

lemma tiles_refine:
  assumes "tiles a b ps" and "\<And>s e. (s, e) \<in> set ps \<Longrightarrow> s < e \<Longrightarrow> \<exists>r. f (s, e) = Some r \<and> tiles s e r \<and> fits m r"
  shows "\<exists>r. concat_opt (map f ps) = Some r \<and> tiles a b r \<and> fits m r"
  using assms
proof (induction a b ps rule: tiles.induct)
  case (2 a b s e r)
  obtain x where x: "f (s, e) = Some x" "tiles s e x" "fits m x" using 2(2,3) by auto
  obtain y where y: "concat_opt (map f r) = Some y" "tiles e b y" "fits m y" using 2 by auto
  show ?case using x y 2(2) by (auto simp: concat_opt_Cons tiles_append)
qed simp

lemma pack_loop_tiles:
  assumes "tiles b c ps" "fits m ps" "tiles a g out" "fits m out" "g < b" "b - g \<le> m"
  shows "tiles a c (pack_loop m ps (Some (g, b)) out) \<and> fits m (pack_loop m ps (Some (g, b)) out)"
  using assms
  by (induction b c ps arbitrary: g out rule: tiles.induct) (auto simp: tiles_append dest: tiles_le)

lemma pack_tiles: "tiles a b ps \<Longrightarrow> fits m ps \<Longrightarrow> tiles a b (pack ps m) \<and> fits m (pack ps m)"
  using pack_loop_tiles[of _ b _ m a a "[]"] by (cases ps) (auto simp: pack_def)

section \<open>The separator ladder\<close>

lemma hard_split_loop_tiles:
  assumes "0 < m" "i \<le> stop" "tiles a i out" "fits m out"
  shows "\<exists>r. hard_split_loop m i stop out = Some r \<and> tiles a stop r \<and> fits m r"
  using assms
proof (induction "stop - i" arbitrary: i out rule: less_induct)
  case less
  show ?case
  proof (cases "i < stop")
    case True
    let ?j = "min (i + m) stop"
    have "\<exists>r. hard_split_loop m ?j stop (out @ [(i, ?j)]) = Some r \<and> tiles a stop r \<and> fits m r"
      using less.prems True by (intro less.hyps) (auto simp: tiles_append)
    then show ?thesis using True by (subst hard_split_loop.simps) (simp add: Let_def)
  next
    case False
    then show ?thesis using less.prems by (subst hard_split_loop.simps) auto
  qed
qed

lemma hard_split_tiles:
  "0 < m \<Longrightarrow> a \<le> b \<Longrightarrow> \<exists>r. hard_split a b m = Some r \<and> tiles a b r \<and> fits m r"
  using hard_split_loop_tiles[of m a b a "[]"] by (simp add: hard_split_def)

lemma tile_loop_tiles: "p \<le> i \<Longrightarrow> p \<le> stop \<Longrightarrow> tiles p stop (tile_loop src stop sep p i)"
proof (induction src stop sep p i rule: tile_loop.induct)
  case (1 src stop sep p i)
  have "p < i + length sep" if "sep \<noteq> []" using 1(3) that by (cases sep) auto
  with 1 show ?case by (subst tile_loop.simps) (auto simp: Let_def)
qed

lemma tile_on_separator_tiles: "a < b \<Longrightarrow> tiles a b (tile_on_separator src a b sep)"
  by (auto simp: tile_on_separator_def intro: tile_loop_tiles)

lemma split_at_tiles:
  "0 < m \<Longrightarrow> a \<le> b \<Longrightarrow> \<exists>r. split_at src a b m k = Some r \<and> tiles a b r \<and> fits m r"
proof (induction src a b m k rule: split_at.induct)
  case (1 src a b m k)
  let ?pieces = "tile_on_separator src a b (SEPARATORS ! k)"
  let ?f = "\<lambda>(ps, pe). if pe - ps > m then split_at src ps pe m (k + 1) else Some [(ps, pe)]"
  consider "a \<ge> b \<or> b - a \<le> m" | "a < b" "m < b - a" "k \<ge> length SEPARATORS"
    | "a < b" "m < b - a" "k < length SEPARATORS" "length ?pieces < 2"
    | "a < b" "m < b - a" "k < length SEPARATORS" "length ?pieces \<ge> 2" by linarith
  then show ?case
  proof cases
    case 4
    have "\<exists>r. concat_opt (map ?f ?pieces) = Some r \<and> tiles a b r \<and> fits m r"
      using 1 4 by (intro tiles_refine tile_on_separator_tiles) auto
    then show ?thesis using 4 by (subst split_at.simps) (auto simp: Let_def pack_tiles)
  qed (use 1 hard_split_tiles[of m a b] in \<open>auto simp: split_at.simps[of src a b m k]\<close>)
qed

lemma recursive_split_tiles:
  "0 < m \<Longrightarrow> a \<le> b \<Longrightarrow> \<exists>r. recursive_split src a b m = Some r \<and> tiles a b r \<and> fits m r"
  by (simp add: recursive_split_def split_at_tiles)

section \<open>Sentences\<close>

lemma tile_sentences_tiles: "p \<le> i \<Longrightarrow> p \<le> stop \<Longrightarrow> tiles p stop (tile_sentences src stop p i)"
proof (induction src stop p i rule: tile_sentences.induct)
  case (1 src stop p i)
  then show ?case by (subst tile_sentences.simps) auto
qed

lemma sentence_split_tiles:
  assumes "0 < m"
  shows "\<exists>r. sentence_split src m = Some r \<and> tiles 0 (length src) r \<and> fits m r"
proof -
  have "\<exists>r. concat_opt (map (\<lambda>(s, e). if e - s > m then recursive_split src s e m else Some [(s, e)])
      (tile_sentences src (length src) 0 0)) = Some r \<and> tiles 0 (length src) r \<and> fits m r"
    using assms by (intro tiles_refine tile_sentences_tiles) (auto intro!: recursive_split_tiles)
  then show ?thesis by (auto simp: sentence_split_def pack_tiles)
qed

section \<open>Markdown: lines, sections and groups\<close>

definition tile_pos :: "span list \<Rightarrow> nat \<Rightarrow> nat \<Rightarrow> nat" where
  "tile_pos L b i = (if i < length L then fst (L ! i) else b)"

lemma tiles_take_drop:
  "tiles a b L \<Longrightarrow> i \<le> length L \<Longrightarrow> tiles a (tile_pos L b i) (take i L) \<and> tiles (tile_pos L b i) b (drop i L)"
proof (induction a b L arbitrary: i rule: tiles.induct)
  case (2 a b s e r)
  then show ?case
  proof (cases i)
    case (Suc k)
    then have "tile_pos ((s, e) # r) b i = tile_pos r b k" by (simp add: tile_pos_def)
    then show ?thesis using Suc 2(1)[of k] 2(2,3) by simp
  qed (simp add: tile_pos_def)
qed (simp add: tile_pos_def)

lemma tiles_nth: "tiles a b L \<Longrightarrow> i < length L \<Longrightarrow> fst (L ! i) < snd (L ! i) \<and> snd (L ! i) = tile_pos L b (Suc i)"
proof (induction a b L arbitrary: i rule: tiles.induct)
  case (2 a b s e r)
  then show ?case by (cases i; cases r) (auto simp: tile_pos_def)
qed simp

lemma tile_pos_mono: "tiles a b L \<Longrightarrow> i < j \<Longrightarrow> j \<le> length L \<Longrightarrow> tile_pos L b i < tile_pos L b j"
proof (induction j)
  case (Suc j)
  have "tile_pos L b j < tile_pos L b (Suc j)"
    using tiles_nth[OF Suc.prems(1), of j] Suc.prems(3) by (simp add: tile_pos_def)
  with Suc show ?case by (cases "i = j") auto
qed simp

lemma tiles_regroup:
  assumes "tiles a b L"
  shows "tiles i n R \<Longrightarrow> n = length L \<Longrightarrow> tiles (tile_pos L b i) b (map (\<lambda>(j, k). (fst (L ! j), snd (L ! (k - 1)))) R)"
proof (induction i n R rule: tiles.induct)
  case (2 i n s e r)
  have "e \<le> n" using 2(2) tiles_le by auto
  then have "snd (L ! (e - 1)) = tile_pos L b e" "fst (L ! s) = tile_pos L b s"
    using tiles_nth[OF assms, of "e - 1"] 2 by (auto simp: tile_pos_def)
  then show ?case using 2 tile_pos_mono[OF assms, of s e] \<open>e \<le> n\<close> by auto
qed (simp add: tile_pos_def)

lemma tiles_cover: "tiles a b L \<Longrightarrow> a \<le> x \<Longrightarrow> x < b \<Longrightarrow> \<exists>(s, e) \<in> set L. s \<le> x \<and> x < e"
proof (induction a b L rule: tiles.induct)
  case (2 a b s e r)
  then show ?case by (cases "x < e") auto
qed simp

lemma tiles_unique:
  "tiles a b L \<Longrightarrow> (s, e) \<in> set L \<Longrightarrow> (s', e') \<in> set L \<Longrightarrow> s \<le> x \<Longrightarrow> x < e \<Longrightarrow> s' \<le> x \<Longrightarrow> x < e' \<Longrightarrow> s = s'"
  by (induction a b L rule: tiles.induct) (auto dest: tiles_member)

lemma tiles_starts_distinct: "tiles a b L \<Longrightarrow> distinct (map fst L)"
  by (induction a b L rule: tiles.induct) (auto dest: tiles_member)

abbreviation ln_span :: "line \<Rightarrow> span" where "ln_span l \<equiv> (ln_start l, ln_end l)"

lemma scan_loop_step:
  assumes "i < length src"
  obtains stop d' fc' fl' h where "i < stop" "stop \<le> length src"
    "scan_line (takeWhile (\<lambda>c. c \<noteq> cNL) (drop i src)) d fc fl = (d', fc', fl', h)"
    "scan_loop src i d fc fl = \<lparr>ln_start = i, ln_end = stop, ln_depth_before = d, ln_depth_after = d',
       ln_is_heading = h\<rparr> # scan_loop src stop d' fc' fl'"
proof -
  let ?content = "takeWhile (\<lambda>c. c \<noteq> cNL) (drop i src)"
  let ?j = "i + length ?content"
  obtain d' fc' fl' h where sl: "scan_line ?content d fc fl = (d', fc', fl', h)" by (metis prod_cases4)
  have "length ?content \<le> length src - i"
    using length_takeWhile_le[of "\<lambda>c. c \<noteq> cNL" "drop i src"] by simp
  then have bounds: "i < (if ?j < length src then ?j + 1 else ?j)" "(if ?j < length src then ?j + 1 else ?j) \<le> length src"
    using assms by auto
  show thesis by (rule that[OF bounds sl]) (use assms sl in \<open>simp add: scan_loop.simps[of src i] Let_def\<close>)
qed

lemma scan_loop_done: "\<not> i < length src \<Longrightarrow> scan_loop src i d fc fl = []"
  by (subst scan_loop.simps) simp

lemma scan_loop_tiles: "i \<le> length src \<Longrightarrow> tiles i (length src) (map ln_span (scan_loop src i d fc fl))"
proof (induction "length src - i" arbitrary: i d fc fl rule: less_induct)
  case less
  show ?case
  proof (cases "i < length src")
    case True
    obtain stop d' fc' fl' h where st: "i < stop" "stop \<le> length src"
      "scan_loop src i d fc fl = \<lparr>ln_start = i, ln_end = stop, ln_depth_before = d, ln_depth_after = d',
         ln_is_heading = h\<rparr> # scan_loop src stop d' fc' fl'"
      by (rule scan_loop_step[OF True])
    then show ?thesis using less.hyps[of stop d' fc' fl'] by simp
  qed (use less.prems in \<open>simp add: scan_loop_done\<close>)
qed

lemma scan_loop_heading:
  "l \<in> set (scan_loop src i d fc fl) \<Longrightarrow> ln_is_heading l \<Longrightarrow> ln_depth_before l = 0"
proof (induction "length src - i" arbitrary: i d fc fl rule: less_induct)
  case less
  show ?case
  proof (cases "i < length src")
    case True
    obtain stop d' fc' fl' h where st: "i < stop" "stop \<le> length src"
      "scan_line (takeWhile (\<lambda>c. c \<noteq> cNL) (drop i src)) d fc fl = (d', fc', fl', h)"
      "scan_loop src i d fc fl = \<lparr>ln_start = i, ln_end = stop, ln_depth_before = d, ln_depth_after = d',
         ln_is_heading = h\<rparr> # scan_loop src stop d' fc' fl'"
      by (rule scan_loop_step[OF True])
    have "h \<Longrightarrow> d = 0" using st(3) by (auto simp: scan_line_def split: if_splits option.splits)
    moreover have "length src - stop < length src - i" using st(1,2) by simp
    ultimately show ?thesis using less.prems less.hyps[of stop d' fc' fl'] st(4) by auto
  qed (use less.prems in \<open>simp add: scan_loop_done\<close>)
qed

lemma scan_lines_first: "src \<noteq> [] \<Longrightarrow> scan_lines src \<noteq> [] \<and> ln_depth_before (scan_lines src ! 0) = 0"
  unfolding scan_lines_def by (rule scan_loop_step[of 0 src 0 cTICK 0]) auto

lemma starts_tile:
  "sorted_wrt (<) (i # is) \<Longrightarrow> \<forall>x \<in> set (i # is). x < n \<Longrightarrow> tiles i n (zip (i # is) (is @ [n]))"
proof (induction "is" arbitrary: i)
  case (Cons j js)
  then show ?case using Cons.IH[of j] by simp
qed simp

lemma section_ranges_tile: "ls \<noteq> [] \<Longrightarrow> tiles 0 (length ls) (section_ranges ls)"
proof -
  assume "ls \<noteq> []"
  let ?is = "filter (\<lambda>i. ln_is_heading (ls ! i)) [1..<length ls]"
  have "sorted_wrt (<) (0 # ?is)" by (auto intro!: sorted_wrt_filter)
  moreover have "\<forall>x \<in> set (0 # ?is). x < length ls" using \<open>ls \<noteq> []\<close> by simp
  ultimately have "tiles 0 (length ls) (zip (0 # ?is) (?is @ [length ls]))" by (rule starts_tile)
  then show ?thesis by (simp only: section_ranges_def Let_def list.sel)
qed

text \<open>A section starts on the first line or on a heading, which is never inside a fence.\<close>

lemma section_start:
  assumes "(a, b) \<in> set (section_ranges (scan_lines src))" "src \<noteq> []"
  shows "ln_depth_before (scan_lines src ! a) = 0"
proof -
  let ?ls = "scan_lines src"
  have "a = 0 \<or> (a < length ?ls \<and> ln_is_heading (?ls ! a))"
    using set_zip_leftD[OF assms(1)[unfolded section_ranges_def Let_def]] by auto
  then show ?thesis using scan_lines_first[OF assms(2)] scan_loop_heading[of "?ls ! a" src 0 0 cTICK 0]
    by (auto simp: scan_lines_def)
qed

text \<open>A group starts on a line outside every fence, and one that reports no fence has none inside.\<close>

definition group_ok :: "line list \<Rightarrow> nat \<times> nat \<times> bool \<Rightarrow> bool" where
  "group_ok sec g \<longleftrightarrow> (case g of (s, e, f) \<Rightarrow>
     (\<exists>j < length sec. s = ln_start (sec ! j) \<and> ln_depth_before (sec ! j) \<noteq> 1 \<and>
        (\<not> f \<longrightarrow> (\<exists>k. j \<le> k \<and> k < length sec \<and> e = ln_end (sec ! k) \<and>
           (\<forall>x. j \<le> x \<and> x \<le> k \<longrightarrow> ln_depth_before (sec ! x) \<noteq> 1)))))"

lemma group_okI:
  assumes "j < length sec" "ln_depth_before (sec ! j) \<noteq> 1" "j \<le> k" "k < length sec"
    "\<not> f \<longrightarrow> (\<forall>x. j \<le> x \<and> x \<le> k \<longrightarrow> ln_depth_before (sec ! x) \<noteq> 1)"
  shows "group_ok sec (ln_start (sec ! j), ln_end (sec ! k), f)"
  using assms unfolding group_ok_def by blast

lemma tiles_last_end:
  assumes "tiles a b (map ln_span sec)" "sec \<noteq> []"
  shows "ln_end (last sec) = b" "ln_start (hd sec) = a"
  using tiles_nth[OF assms(1), of "length sec - 1"] assms
  by (auto simp: tile_pos_def last_conv_nth neq_Nil_conv)

lemma line_next:
  assumes "tiles a b (map ln_span sec)" "0 < i" "i < length sec"
  shows "ln_end (sec ! (i - 1)) = ln_start (sec ! i)"
  using tiles_nth[OF assms(1), of "i - 1"] assms by (simp add: tile_pos_def)

lemma line_before:
  assumes "tiles a b (map ln_span sec)" "i \<le> j" "j < length sec"
  shows "ln_start (sec ! i) < ln_end (sec ! j)"
  using tiles_nth[OF assms(1), of j] tile_pos_mono[OF assms(1), of i j] assms
  by (cases "i = j") (auto simp: tile_pos_def)

lemma pack_section_loop_tiles:
  assumes L: "tiles a b (map ln_span sec)"
  shows "gs \<le> k \<Longrightarrow> k \<le> length sec \<Longrightarrow> gs < length sec \<Longrightarrow>
    tiles (ln_start (sec ! gs)) b (map (\<lambda>(s, e, f). (s, e)) (pack_section_loop sec m [k..<length sec] gs hf))"
proof (induction "length sec - k" arbitrary: k gs hf)
  case 0
  then have "sec \<noteq> []" by auto
  then show ?case using 0 tiles_last_end[OF L] line_before[OF L, of gs "length sec - 1"]
    by (simp add: last_conv_nth)
next
  case (Suc d)
  have IH: "gs' \<le> Suc k \<Longrightarrow> gs' < length sec \<Longrightarrow> tiles (ln_start (sec ! gs')) b
      (map (\<lambda>(s, e, f). (s, e)) (pack_section_loop sec m [Suc k..<length sec] gs' hf'))" for gs' hf'
    using Suc by auto
  show ?case using Suc.prems Suc.hyps(2) IH line_next[OF L, of k] line_before[OF L, of gs "k - 1"]
    by (auto simp: upt_conv_Cons Let_def)
qed

lemma pack_section_loop_ok:
  assumes "gs \<le> k" "k \<le> length sec" "gs < length sec" "ln_depth_before (sec ! gs) \<noteq> 1"
    "\<not> hf \<longrightarrow> (\<forall>x. gs \<le> x \<and> x < k \<longrightarrow> ln_depth_before (sec ! x) \<noteq> 1)" "gs < k \<or> k < length sec"
    "g \<in> set (pack_section_loop sec m [k..<length sec] gs hf)"
  shows "group_ok sec g"
  using assms
proof (induction "length sec - k" arbitrary: k gs hf)
  case 0
  then have "last sec = sec ! (length sec - 1)" by (intro last_conv_nth) auto
  with 0 have "g = (ln_start (sec ! gs), ln_end (sec ! (length sec - 1)), hf)" by simp
  moreover have "group_ok sec (ln_start (sec ! gs), ln_end (sec ! (length sec - 1)), hf)"
    using 0 by (intro group_okI) auto
  ultimately show ?case by simp
next
  case (Suc d)
  have k: "k < length sec" "d = length sec - Suc k" using Suc.hyps(2) by auto
  let ?t = "ln_depth_before (sec ! k) = 1 \<or> ln_depth_after (sec ! k) = 1"
  let ?cut = "k > gs \<and> ln_end (sec ! k) - ln_start (sec ! gs) > m \<and> ln_depth_before (sec ! k) = 0"
  show ?case
  proof (cases ?cut)
    case True
    then have "g = (ln_start (sec ! gs), ln_end (sec ! (k - 1)), hf) \<or>
        g \<in> set (pack_section_loop sec m [Suc k..<length sec] k ?t)"
      using Suc.prems(7) k by (auto simp: upt_conv_Cons Let_def)
    then show ?thesis
    proof
      assume "g = (ln_start (sec ! gs), ln_end (sec ! (k - 1)), hf)"
      moreover have "group_ok sec (ln_start (sec ! gs), ln_end (sec ! (k - 1)), hf)"
        using Suc.prems True k by (intro group_okI) auto
      ultimately show ?thesis by simp
    next
      assume "g \<in> set (pack_section_loop sec m [Suc k..<length sec] k ?t)"
      then show ?thesis using True k by (intro Suc.hyps(1)[of "Suc k" k ?t]) (auto simp: le_less_Suc_eq)
    qed
  next
    case False
    then have "g \<in> set (pack_section_loop sec m [Suc k..<length sec] gs (hf \<or> ?t))"
      using Suc.prems(7) k by (auto simp: upt_conv_Cons Let_def split: if_splits)
    then show ?thesis using Suc.prems k
      by (intro Suc.hyps(1)[of "Suc k" gs "hf \<or> ?t"]) (auto simp: less_Suc_eq_le le_less)
  qed
qed

definition safe_pos :: "line list \<Rightarrow> nat \<Rightarrow> bool" where
  "safe_pos ls x \<longleftrightarrow> (\<exists>l \<in> set ls. ln_start l \<le> x \<and> x < ln_end l \<and> ln_depth_before l \<noteq> 1)"

lemma safe_pos_mono: "safe_pos sec x \<Longrightarrow> set sec \<subseteq> set ls \<Longrightarrow> safe_pos ls x"
  by (auto simp: safe_pos_def)

lemma safe_pos_not_fenced:
  assumes L: "tiles a b (map ln_span ls)" and x: "safe_pos ls x" and l: "l \<in> set ls" "ln_depth_before l = 1"
  shows "\<not> (ln_start l \<le> x \<and> x < ln_end l)"
proof
  assume "ln_start l \<le> x \<and> x < ln_end l"
  moreover obtain l' where l': "l' \<in> set ls" "ln_start l' \<le> x" "x < ln_end l'" "ln_depth_before l' \<noteq> 1"
    using x unfolding safe_pos_def by blast
  ultimately have "ln_start l = ln_start l'"
    using l(1) by (intro tiles_unique[OF L, of _ "ln_end l" _ "ln_end l'" x]) auto
  moreover have "inj_on ln_start (set ls)" using tiles_starts_distinct[OF L] by (simp add: comp_def distinct_map)
  ultimately show False using l l' by (auto dest: inj_onD)
qed

lemma group_ok_start:
  assumes "group_ok sec (s, e, f)" "tiles a b (map ln_span sec)"
  shows "safe_pos sec s"
proof -
  obtain j where j: "j < length sec" "s = ln_start (sec ! j)" "ln_depth_before (sec ! j) \<noteq> 1"
    using assms(1) unfolding group_ok_def by auto
  then show ?thesis using line_before[OF assms(2) order_refl j(1)]
    unfolding safe_pos_def by (intro bexI[of _ "sec ! j"]) auto
qed

lemma group_ok_inside:
  assumes g: "group_ok sec (s, e, False)" and L: "tiles a b (map ln_span sec)" and x: "s \<le> x" "x < e"
  shows "safe_pos sec x"
proof -
  obtain j k where jk: "s = ln_start (sec ! j)" "e = ln_end (sec ! k)" "j \<le> k" "k < length sec"
    and ok: "\<And>i. j \<le> i \<Longrightarrow> i \<le> k \<Longrightarrow> ln_depth_before (sec ! i) \<noteq> 1"
    using g unfolding group_ok_def by auto
  let ?G = "take (Suc k - j) (drop j (map ln_span sec))"
  have "tiles s b (drop j (map ln_span sec))"
    using tiles_take_drop[OF L, of j] jk by (simp add: tile_pos_def)
  then have "tiles s (tile_pos (drop j (map ln_span sec)) b (Suc k - j)) ?G"
    using tiles_take_drop[of s b "drop j (map ln_span sec)" "Suc k - j"] jk by simp
  moreover have "tile_pos (drop j (map ln_span sec)) b (Suc k - j) = e"
    using tiles_nth[OF L, of k] jk by (auto simp: tile_pos_def Suc_diff_le)
  ultimately obtain p where p: "p \<in> set ?G" "fst p \<le> x" "x < snd p" using tiles_cover x by fastforce
  then obtain i where i: "i < Suc k - j" "p = ln_span (sec ! (j + i))"
    using jk by (auto simp: in_set_conv_nth)
  then show ?thesis using p ok[of "j + i"] jk unfolding safe_pos_def by (intro bexI[of _ "sec ! (j + i)"]) auto
qed

lemma tiles_refine_map:
  assumes "tiles a b (map key xs)"
    and "\<And>x. x \<in> set xs \<Longrightarrow> fst (key x) < snd (key x) \<Longrightarrow>
      \<exists>r. f x = Some r \<and> tiles (fst (key x)) (snd (key x)) (map fst r) \<and> (\<forall>y \<in> set r. Q y)"
  shows "\<exists>r. concat_opt (map f xs) = Some r \<and> tiles a b (map fst r) \<and> (\<forall>y \<in> set r. Q y)"
  using assms
proof (induction xs arbitrary: a)
  case (Cons x xs)
  then have kx: "fst (key x) = a" "fst (key x) < snd (key x)" "tiles (snd (key x)) b (map key xs)"
    by (auto simp: tiles_Cons_iff)
  obtain y where y: "f x = Some y" "tiles a (snd (key x)) (map fst y)" "\<forall>z \<in> set y. Q z"
    using Cons.prems(2)[of x] kx by auto
  obtain z where z: "concat_opt (map f xs) = Some z" "tiles (snd (key x)) b (map fst z)" "\<forall>w \<in> set z. Q w"
    using Cons.IH[OF kx(3)] Cons.prems(2) by auto
  show ?case using y z by (auto simp: concat_opt_Cons tiles_append)
qed simp

lemma split_group_tiles:
  assumes "group_ok sec (s, e, f)" "tiles a b (map ln_span sec)" "0 < m" "s < e" "c \<le> s"
  shows "\<exists>r. split_group src m c (s, e, f) = Some r \<and> tiles s e (map fst r) \<and>
    (\<forall>y \<in> set r. snd y = c \<and> c \<le> fst (fst y) \<and> safe_pos sec (fst (fst y)))"
proof (cases "\<not> f \<and> e - s > m")
  case True
  obtain r where r: "recursive_split src s e m = Some r" "tiles s e r"
    using recursive_split_tiles[of m s e src] assms by auto
  have "safe_pos sec (fst p) \<and> c \<le> fst p" if "p \<in> set r" for p
    using tiles_member[OF r(2), of "fst p" "snd p"] that group_ok_inside[of sec s e] assms True by auto
  then show ?thesis using r True by (auto simp: split_group_def comp_def)
next
  case False
  then show ?thesis using assms group_ok_start[OF assms(1,2)] by (auto simp: split_group_def)
qed

lemma split_section_tiles:
  assumes L: "tiles a b (map ln_span sec)" and "sec \<noteq> []" "ln_depth_before (sec ! 0) \<noteq> 1" "0 < m"
  shows "\<exists>r. split_section src m sec = Some r \<and> tiles a b (map fst r) \<and>
    (\<forall>y \<in> set r. snd y = a \<and> a \<le> fst (fst y) \<and> safe_pos sec (fst (fst y)))"
proof (cases "b - a \<le> m")
  case True
  have "group_ok sec (ln_start (sec ! 0), ln_end (sec ! 0), True)" using assms by (intro group_okI) auto
  then have "safe_pos sec a" using group_ok_start[OF _ L] tiles_last_end[OF L] assms(2) by (auto simp: hd_conv_nth)
  moreover have "a < b" using tiles_last_end[OF L] line_before[OF L, of 0 "length sec - 1"] assms(2)
    by (auto simp: hd_conv_nth last_conv_nth)
  ultimately show ?thesis using True tiles_last_end[OF L] assms(2) by (simp add: split_section_def)
next
  case False
  let ?gs = "pack_section sec m" and ?key = "\<lambda>(s, e, f). (s, e)"
  have t: "tiles a b (map ?key ?gs)"
    using pack_section_loop_tiles[OF L, of 0 0 m False] tiles_last_end[OF L] assms(2)
    by (auto simp: pack_section_def hd_conv_nth)
  have ok: "group_ok sec g" if "g \<in> set ?gs" for g
    using pack_section_loop_ok[of 0 0 sec False g m] that assms by (auto simp: pack_section_def)
  have "\<exists>r. concat_opt (map (split_group src m a) ?gs) = Some r \<and> tiles a b (map fst r) \<and>
      (\<forall>y \<in> set r. snd y = a \<and> a \<le> fst (fst y) \<and> safe_pos sec (fst (fst y)))"
  proof (rule tiles_refine_map[OF t])
    fix g assume g: "g \<in> set ?gs" "fst (?key g) < snd (?key g)"
    obtain s e f where seg: "g = (s, e, f)" by (cases g)
    have "(s, e) \<in> set (map ?key ?gs)" using g(1) seg by force
    then have "a \<le> s" using tiles_member[OF t] by auto
    then show "\<exists>r. split_group src m a g = Some r \<and> tiles (fst (?key g)) (snd (?key g)) (map fst r) \<and>
        (\<forall>y \<in> set r. snd y = a \<and> a \<le> fst (fst y) \<and> safe_pos sec (fst (fst y)))"
      using split_group_tiles[OF ok[OF g(1), unfolded seg] L assms(4)] g(2) seg by simp
  qed
  then show ?thesis using False tiles_last_end[OF L] assms(2) by (simp add: split_section_def)
qed

lemma src_slice_set: "set (src_slice xs i j) \<subseteq> set xs"
  by (auto simp: src_slice_def dest: in_set_takeD in_set_dropD)

lemma tiles_slice:
  assumes "tiles a b L" "i < j" "j \<le> length L"
  shows "tiles (fst (L ! i)) (snd (L ! (j - 1))) (src_slice L i j)"
proof -
  have t: "tiles a (tile_pos L b j) (take j L)" using tiles_take_drop[OF assms(1,3)] by simp
  have "tile_pos L b j = snd (L ! (j - 1))" using tiles_nth[OF assms(1), of "j - 1"] assms by simp
  then show ?thesis using tiles_take_drop[OF t, of i] assms by (simp add: src_slice_def tile_pos_def drop_take)
qed

lemma markdown_split_tiles:
  assumes "0 < m" "src \<noteq> []"
  shows "\<exists>r. markdown_split src m = Some (map fst r, map snd r) \<and> tiles 0 (length src) (map fst r) \<and>
    (\<forall>y \<in> set r. snd y \<le> fst (fst y) \<and> safe_pos (scan_lines src) (fst (fst y)))"
proof -
  let ?ls = "scan_lines src"
  let ?L = "map ln_span ?ls" and ?R = "section_ranges ?ls"
  let ?key = "\<lambda>(i, j). (fst (?L ! i), snd (?L ! (j - 1)))"
  have L: "tiles 0 (length src) ?L" unfolding scan_lines_def by (rule scan_loop_tiles) simp
  have ls: "?ls \<noteq> []" using scan_lines_first[OF assms(2)] by simp
  have R: "tiles 0 (length ?ls) ?R" by (rule section_ranges_tile[OF ls])
  have "tile_pos ?L (length src) 0 = 0"
    using L ls by (cases ?ls) (auto simp: tile_pos_def)
  then have K: "tiles 0 (length src) (map ?key ?R)" using tiles_regroup[OF L R] by (simp only: length_map)
  have "\<exists>r. concat_opt (map (\<lambda>(a, b). split_section src m (src_slice ?ls a b)) ?R) = Some r \<and>
      tiles 0 (length src) (map fst r) \<and> (\<forall>y \<in> set r. snd y \<le> fst (fst y) \<and> safe_pos ?ls (fst (fst y)))"
  proof (rule tiles_refine_map[OF K])
    fix x assume x: "x \<in> set ?R"
    obtain i j where ij: "x = (i, j)" by (cases x)
    then have b: "i < j" "j \<le> length ?ls" using tiles_member[OF R] x by auto
    let ?sec = "src_slice ?ls i j"
    have ne: "?sec \<noteq> []" and hd: "?sec ! 0 = ?ls ! i" using b by (auto simp: src_slice_def)
    have d: "ln_depth_before (?sec ! 0) \<noteq> 1" using section_start[of i j src] x ij assms(2) hd by simp
    have "tiles (fst (?key x)) (snd (?key x)) (map ln_span ?sec)"
      using tiles_slice[OF L b(1)] b ij by (simp add: src_slice_def drop_map take_map)
    then obtain r where r: "split_section src m ?sec = Some r" "tiles (fst (?key x)) (snd (?key x)) (map fst r)"
      "\<forall>y \<in> set r. snd y = fst (?key x) \<and> fst (?key x) \<le> fst (fst y) \<and> safe_pos ?sec (fst (fst y))"
      using split_section_tiles[OF _ ne d assms(1)] by blast
    have "\<forall>y \<in> set r. snd y \<le> fst (fst y) \<and> safe_pos ?ls (fst (fst y))"
      using r(3) safe_pos_mono[OF _ src_slice_set, of ?ls i j] by auto
    then show "\<exists>r. (case x of (a, b) \<Rightarrow> split_section src m (src_slice ?ls a b)) = Some r \<and>
        tiles (fst (?key x)) (snd (?key x)) (map fst r) \<and>
        (\<forall>y \<in> set r. snd y \<le> fst (fst y) \<and> safe_pos ?ls (fst (fst y)))"
      using r(1,2) ij by (intro exI[of _ r]) simp
  qed
  then show ?thesis using assms(2) by (auto simp: markdown_split_def Let_def)
qed

section \<open>Overlap\<close>

definition floor_at :: "nat list option \<Rightarrow> nat \<Rightarrow> nat" where
  "floor_at floors i = (case floors of Some f \<Rightarrow> if i < length f then f ! i else 0 | None \<Rightarrow> 0)"

definition chunk_start :: "nat list option \<Rightarrow> nat \<Rightarrow> nat \<Rightarrow> nat \<Rightarrow> nat \<Rightarrow> nat" where
  "chunk_start floors ov i prev s = (if i = 0 \<or> ov = 0 then s else max (max (s - ov) prev) (floor_at floors i))"

lemma overlap_loop_Cons:
  "overlap_loop src ov floors i prev ((s, e) # spans) =
     (let st = chunk_start floors ov i prev s in
      if st > e \<or> e > length src then Inl (SlicePanic st e)
      else map_sum id ((#) \<lparr>ch_text = src_slice src st e, ch_index = i, ch_char_start = st\<rparr>)
        (overlap_loop src ov floors (i + 1) s spans))"
  by (simp add: chunk_start_def floor_at_def Let_def del: max_less_iff_conj split: sum.split)

declare overlap_loop.simps(2) [simp del]

text \<open>Whatever the spans are, a chunk that is emitted is an exact slice of the source.\<close>

lemma overlap_loop_slices:
  "overlap_loop src ov floors i prev spans = Inr cs \<Longrightarrow> length cs = length spans \<and> (\<forall>k < length cs.
     ch_index (cs ! k) = i + k \<and> ch_char_start (cs ! k) + length (ch_text (cs ! k)) \<le> length src \<and>
     ch_text (cs ! k) = src_slice src (ch_char_start (cs ! k)) (ch_char_start (cs ! k) + length (ch_text (cs ! k))))"
proof (induction spans arbitrary: i prev cs)
  case (Cons p spans)
  obtain s e where p: "p = (s, e)" by (cases p)
  let ?st = "chunk_start floors ov i prev s"
  obtain r where r: "overlap_loop src ov floors (i + 1) s spans = Inr r" "?st \<le> e" "e \<le> length src"
    "cs = \<lparr>ch_text = src_slice src ?st e, ch_index = i, ch_char_start = ?st\<rparr> # r"
    using Cons.prems p by (cases "overlap_loop src ov floors (i + 1) s spans")
      (auto simp: overlap_loop_Cons Let_def split: if_splits)
  have "length (src_slice src ?st e) = e - ?st" using r(3) by (simp add: length_slice)
  then show ?case using Cons.IH[OF r(1)] r(2-4) by (auto simp: nth_Cons split: nat.split)
qed simp

lemma overlap_loop_tiles:
  assumes "tiles a (length src) spans" "prev \<le> a" "\<forall>k < length spans. floor_at floors (i + k) \<le> fst (spans ! k)"
  shows "\<exists>cs. overlap_loop src ov floors i prev spans = Inr cs \<and> length cs = length spans \<and>
    (\<forall>k < length spans. ch_char_start (cs ! k) \<le> fst (spans ! k) \<and>
       fst (spans ! k) - ch_char_start (cs ! k) \<le> ov \<and> (i + k = 0 \<longrightarrow> ch_char_start (cs ! k) = fst (spans ! k)) \<and>
       ch_text (cs ! k) = src_slice src (ch_char_start (cs ! k)) (snd (spans ! k)))"
  using assms
proof (induction a "length src" spans arbitrary: i prev rule: tiles.induct)
  case (2 a s e spans)
  have fl: "floor_at floors i \<le> s" using 2(4) by force
  have "\<forall>k < length spans. floor_at floors (Suc i + k) \<le> fst (spans ! k)"
    using 2(4) by (auto dest: spec[of _ "Suc _"])
  then obtain r where r: "overlap_loop src ov floors (Suc i) s spans = Inr r" "length r = length spans"
    "\<forall>k < length spans. ch_char_start (r ! k) \<le> fst (spans ! k) \<and>
       fst (spans ! k) - ch_char_start (r ! k) \<le> ov \<and>
       ch_text (r ! k) = src_slice src (ch_char_start (r ! k)) (snd (spans ! k))"
    using 2(1)[of s "Suc i"] 2(2) by auto
  let ?st = "chunk_start floors ov i prev s"
  have st: "?st \<le> s" "s - ?st \<le> ov" "i = 0 \<longrightarrow> ?st = s" using fl 2(2,3) by (auto simp: chunk_start_def)
  have "e \<le> length src" "s < e" using 2(2) tiles_le by auto
  then have "overlap_loop src ov floors i prev ((s, e) # spans) =
      Inr (\<lparr>ch_text = src_slice src ?st e, ch_index = i, ch_char_start = ?st\<rparr> # r)"
    using st(1) r(1) by (simp add: overlap_loop_Cons Let_def)
  then show ?case using st r by (intro exI) (auto simp: nth_Cons split: nat.split)
qed simp

section \<open>Chunks as pieces of a window\<close>

definition source_piece :: "chunk \<Rightarrow> piece" where
  "source_piece c = (ch_text c, Some (int (ch_char_start c)))"

text \<open>What overlap makes of a tiling: chunk by chunk, the span and how far back it reaches.\<close>

definition chunked :: "uchar list \<Rightarrow> nat \<Rightarrow> span list \<Rightarrow> chunk list \<Rightarrow> bool" where
  "chunked src ov spans cs \<longleftrightarrow> tiles 0 (length src) spans \<and> length cs = length spans \<and>
     (\<forall>k < length spans. ch_char_start (cs ! k) \<le> fst (spans ! k) \<and>
        fst (spans ! k) - ch_char_start (cs ! k) \<le> ov \<and> (k = 0 \<longrightarrow> ch_char_start (cs ! k) = fst (spans ! k)) \<and>
        ch_text (cs ! k) = src_slice src (ch_char_start (cs ! k)) (snd (spans ! k)))"

lemma chunked_bounds:
  assumes "chunked src ov spans cs" "k < length cs"
  shows "ch_char_start (cs ! k) < snd (spans ! k)" "snd (spans ! k) \<le> length src"
    "length (ch_text (cs ! k)) = snd (spans ! k) - ch_char_start (cs ! k)"
proof -
  have "spans ! k \<in> set spans" using assms by (simp add: chunked_def)
  then have b: "fst (spans ! k) < snd (spans ! k) \<and> snd (spans ! k) \<le> length src"
    using assms(1) tiles_member[of 0 "length src" spans "fst (spans ! k)" "snd (spans ! k)"] by (auto simp: chunked_def)
  moreover have "ch_char_start (cs ! k) \<le> fst (spans ! k)"
    "ch_text (cs ! k) = src_slice src (ch_char_start (cs ! k)) (snd (spans ! k))"
    using assms by (auto simp: chunked_def)
  ultimately show "ch_char_start (cs ! k) < snd (spans ! k)" "snd (spans ! k) \<le> length src"
    "length (ch_text (cs ! k)) = snd (spans ! k) - ch_char_start (cs ! k)" by (auto simp: length_slice)
qed

lemma chunked_chain:
  assumes c: "chunked src ov spans cs" and "0 < k" "k \<le> j" "j \<le> length cs"
  shows "chained (length src) (snd (spans ! (k - 1))) (map (\<lambda>i. (ch_char_start (cs ! i), snd (spans ! i))) [k..<j]) \<and>
    fold (max \<circ> snd) (map (\<lambda>i. (ch_char_start (cs ! i), snd (spans ! i))) [k..<j]) (snd (spans ! (k - 1))) =
      snd (spans ! (j - 1))"
  using assms(2-4)
proof (induction "j - k" arbitrary: k)
  case (Suc d)
  have k: "k < j" "k < length spans" "k < length cs" using Suc c by (auto simp: chunked_def)
  have "snd (spans ! (k - 1)) = fst (spans ! k) \<and> fst (spans ! k) < snd (spans ! k)"
    using c tiles_nth[of 0 "length src" spans k] tiles_nth[of 0 "length src" spans "k - 1"] k Suc.prems
    by (auto simp: chunked_def tile_pos_def)
  moreover have "ch_char_start (cs ! k) \<le> fst (spans ! k)" using c k by (simp add: chunked_def)
  ultimately show ?case using Suc.hyps(1)[of "Suc k"] Suc.hyps(2) Suc.prems k chunked_bounds[OF c k(3)]
    by (simp add: upt_conv_Cons max_def)
qed simp

lemma chunked_window:
  assumes c: "chunked src ov spans cs" and ij: "i < j" "j \<le> length cs" and small: "length src < 2 ^ 63"
  shows "stitch (map source_piece (src_slice cs i j)) = Some (src_slice src (ch_char_start (cs ! i)) (snd (spans ! (j - 1))))"
proof -
  let ?p = "\<lambda>k. (ch_char_start (cs ! k), snd (spans ! k))"
  have "src_slice cs i j = map ((!) cs) [i..<j]" using ij by (intro nth_equalityI) (auto simp: src_slice_def)
  then have "map source_piece (src_slice cs i j) = map (chunk_piece src) (map ?p [i..<j])"
    using c ij by (auto simp: source_piece_def chunk_piece_def chunked_def)
  moreover have "map ?p [i..<j] = ?p i # map ?p [Suc i..<j]" using ij by (simp add: upt_conv_Cons)
  moreover have "stitch (map (chunk_piece src) (?p i # map ?p [Suc i..<j])) =
      Some (src_slice src (ch_char_start (cs ! i)) (fold (max \<circ> snd) (map ?p [Suc i..<j]) (snd (spans ! i))))"
    using chunked_chain[OF c, of "Suc i" j] chunked_bounds[OF c, of i] ij small by (intro stitch_slices) simp_all
  ultimately show ?thesis using chunked_chain[OF c, of "Suc i" j] ij by simp
qed

section \<open>Splitters\<close>

text \<open>
  The contract of a splitting strategy: it returns, its spans tile the source, and a span
  starts at or after the floor that comes with it. Whatever fulfils it is chunked right.
\<close>

locale splitter =
  fixes split :: "uchar list \<Rightarrow> nat \<Rightarrow> (span list \<times> nat list option) option"
  assumes split_tiles: "0 < m \<Longrightarrow> src \<noteq> [] \<Longrightarrow> \<exists>spans floors. split src m = Some (spans, floors) \<and>
    tiles 0 (length src) spans \<and> (\<forall>k < length spans. floor_at floors k \<le> fst (spans ! k))"
begin

lemma overlapped:
  assumes "0 < m" "src \<noteq> []"
  shows "\<exists>spans floors cs. split src m = Some (spans, floors) \<and> apply_overlap src spans ov floors = Inr cs \<and>
    chunked src ov spans cs"
proof -
  obtain spans floors where s: "split src m = Some (spans, floors)" "tiles 0 (length src) spans"
    "\<forall>k < length spans. floor_at floors k \<le> fst (spans ! k)" using split_tiles[OF assms] by auto
  then show ?thesis using overlap_loop_tiles[of 0 src spans 0 floors 0 ov]
    by (auto simp: apply_overlap_def chunked_def)
qed

end

interpretation ladder: splitter "\<lambda>src m. map_option (\<lambda>r. (r, None)) (recursive_split src 0 (length src) m)"
proof
  fix m :: nat and src :: "uchar list"
  assume "0 < m" "src \<noteq> []"
  then show "\<exists>spans floors. map_option (\<lambda>r. (r, None)) (recursive_split src 0 (length src) m) = Some (spans, floors) \<and>
      tiles 0 (length src) spans \<and> (\<forall>k < length spans. floor_at floors k \<le> fst (spans ! k))"
    using recursive_split_tiles[of m 0 "length src" src] by (auto simp: floor_at_def)
qed

interpretation sentences: splitter "\<lambda>src m. map_option (\<lambda>r. (r, None)) (sentence_split src m)"
proof
  fix m :: nat and src :: "uchar list"
  assume "0 < m" "src \<noteq> []"
  then show "\<exists>spans floors. map_option (\<lambda>r. (r, None)) (sentence_split src m) = Some (spans, floors) \<and>
      tiles 0 (length src) spans \<and> (\<forall>k < length spans. floor_at floors k \<le> fst (spans ! k))"
    using sentence_split_tiles[of m src] by (auto simp: floor_at_def)
qed

interpretation headings: splitter "\<lambda>src m. map_option (\<lambda>(r, f). (r, Some f)) (markdown_split src m)"
proof
  fix m :: nat and src :: "uchar list"
  assume "0 < m" "src \<noteq> []"
  then obtain r where "markdown_split src m = Some (map fst r, map snd r)" "tiles 0 (length src) (map fst r)"
    "\<forall>y \<in> set r. snd y \<le> fst (fst y)" using markdown_split_tiles[of m src] by blast
  then show "\<exists>spans floors. map_option (\<lambda>(r, f). (r, Some f)) (markdown_split src m) = Some (spans, floors) \<and>
      tiles 0 (length src) spans \<and> (\<forall>k < length spans. floor_at floors k \<le> fst (spans ! k))"
    by (auto simp: floor_at_def)
qed

lemma chunk_text_chunked:
  assumes "co_strategy opts \<noteq> Code" "co_overlap_chars opts < co_max_chars opts" "trim src \<noteq> []"
  shows "\<exists>spans floors cs. split_text parser src opts = Some (spans, floors) \<and>
    chunk_text parser src opts = Some (Inr cs) \<and> chunked src (co_overlap_chars opts) spans cs"
proof -
  have pos: "0 < co_max_chars opts" and ne: "src \<noteq> []" using assms by (auto simp: trim_def trim_start_def)
  have "\<exists>spans floors cs. split_text parser src opts = Some (spans, floors) \<and>
      apply_overlap src spans (co_overlap_chars opts) floors = Inr cs \<and> chunked src (co_overlap_chars opts) spans cs"
  proof (cases "co_strategy opts")
    case Recursive
    then show ?thesis using ladder.overlapped[OF pos ne] by (simp add: split_text_def)
  next
    case Markdown
    then show ?thesis using headings.overlapped[OF pos ne] by (simp add: split_text_def)
  next
    case Sentence
    then show ?thesis using sentences.overlapped[OF pos ne] by (simp add: split_text_def)
  qed (use assms in simp)
  then show ?thesis using assms(2,3) pos by (auto simp: chunk_text_def)
qed

lemma split_text_fits:
  assumes "co_strategy opts \<in> {Recursive, Sentence}" "0 < co_max_chars opts"
    "split_text parser src opts = Some (spans, floors)"
  shows "fits (co_max_chars opts) spans"
  using assms recursive_split_tiles[of "co_max_chars opts" 0 "length src" src]
    sentence_split_tiles[of "co_max_chars opts" src]
  by (auto simp: split_text_def)

lemma chunked_length:
  assumes "chunked src ov spans cs" "fits m spans" "k < length cs"
  shows "length (ch_text (cs ! k)) \<le> m + ov"
proof -
  have "spans ! k \<in> set spans" using assms by (simp add: chunked_def)
  then have "snd (spans ! k) - fst (spans ! k) \<le> m" using assms(2) by (auto simp: fits_def)
  moreover have "fst (spans ! k) - ch_char_start (cs ! k) \<le> ov" using assms by (simp add: chunked_def)
  ultimately show ?thesis using chunked_bounds[OF assms(1,3)] by linarith
qed

section \<open>Properties of chunking\<close>

text \<open>
  C36. Whatever the strategy and whatever the symbol chunker reports, every chunk that
  chunking returns is an exact slice of the source at the offset it names, and the chunks are
  numbered from zero without gaps.
\<close>

theorem chunks_are_exact_slices:
  assumes "chunk_text parser src opts = Some (Inr cs)" "i < length cs"
  shows "ch_index (cs ! i) = i \<and> ch_char_start (cs ! i) + length (ch_text (cs ! i)) \<le> length src \<and>
    ch_text (cs ! i) = src_slice src (ch_char_start (cs ! i)) (ch_char_start (cs ! i) + length (ch_text (cs ! i)))"
proof -
  have "cs = [] \<or> (\<exists>spans floors. apply_overlap src spans (co_overlap_chars opts) floors = Inr cs)"
    using assms(1) by (auto simp: chunk_text_def split: if_splits)
  then show ?thesis using assms(2) overlap_loop_slices[of src "co_overlap_chars opts" _ 0 0 _ cs]
    by (auto simp: apply_overlap_def)
qed

text \<open>
  C37. With an overlap below the budget and a strategy other than the symbol chunker's, chunking a
  text that is not blank returns without a panic, no chunk is empty, and a chunk of the separator ladder or of the
  sentence splitter holds at most the budget and the overlap together.
\<close>

theorem chunking_returns_within_budget:
  assumes "co_strategy opts \<noteq> Code" "co_overlap_chars opts < co_max_chars opts" "trim src \<noteq> []"
  shows "\<exists>cs. chunk_text parser src opts = Some (Inr cs) \<and> cs \<noteq> [] \<and> (\<forall>c \<in> set cs. ch_text c \<noteq> [] \<and>
    (co_strategy opts \<noteq> Markdown \<longrightarrow> length (ch_text c) \<le> co_max_chars opts + co_overlap_chars opts))"
proof -
  obtain spans floors cs where r: "split_text parser src opts = Some (spans, floors)"
    "chunk_text parser src opts = Some (Inr cs)" "chunked src (co_overlap_chars opts) spans cs"
    using chunk_text_chunked[OF assms] by blast
  have "src \<noteq> []" using assms(3) by (auto simp: trim_def trim_start_def)
  then have "cs \<noteq> []" using r(3) by (auto simp: chunked_def)
  moreover have "ch_text (cs ! k) \<noteq> []" if "k < length cs" for k using chunked_bounds[OF r(3) that] by auto
  moreover have "length (ch_text (cs ! k)) \<le> co_max_chars opts + co_overlap_chars opts"
    if "k < length cs" "co_strategy opts \<noteq> Markdown" for k
    using that assms split_text_fits[OF _ _ r(1)] chunked_length[OF r(3)] by (cases "co_strategy opts") auto
  ultimately show ?thesis using r(2) by (intro exI[of _ cs]) (auto simp: in_set_conv_nth)
qed

text \<open>
  C35. With an overlap below the budget and a strategy other than the symbol chunker's, chunking a
  text that is not blank, followed by neighbour expansion, is a round trip: any window of
  consecutive chunks, overlap included, is stitched to the slice of the source from where its first
  chunk starts to where its last chunk ends, and the window of all chunks to the whole source.
\<close>

theorem chunks_stitch_to_source:
  assumes "co_strategy opts \<noteq> Code" "co_overlap_chars opts < co_max_chars opts" "trim src \<noteq> []" "length src < 2 ^ 63"
  shows "\<exists>cs. chunk_text parser src opts = Some (Inr cs) \<and> stitch (map source_piece cs) = Some src \<and>
    (\<forall>i j. i < j \<and> j \<le> length cs \<longrightarrow> stitch (map source_piece (src_slice cs i j)) =
      Some (src_slice src (ch_char_start (cs ! i)) (ch_char_start (cs ! (j - 1)) + length (ch_text (cs ! (j - 1))))))"
proof -
  obtain spans floors cs where r: "chunk_text parser src opts = Some (Inr cs)"
    "chunked src (co_overlap_chars opts) spans cs"
    using chunk_text_chunked[OF assms(1-3)] by blast
  have ne: "spans \<noteq> []" "length cs = length spans" and t: "tiles 0 (length src) spans"
    using r(2) assms(3) by (auto simp: chunked_def trim_def trim_start_def)
  have win: "stitch (map source_piece (src_slice cs i j)) =
      Some (src_slice src (ch_char_start (cs ! i)) (ch_char_start (cs ! (j - 1)) + length (ch_text (cs ! (j - 1)))))"
    if "i < j" "j \<le> length cs" for i j
  proof -
    have "j - 1 < length cs" using that by simp
    then have "ch_char_start (cs ! (j - 1)) + length (ch_text (cs ! (j - 1))) = snd (spans ! (j - 1))"
      using chunked_bounds[OF r(2), of "j - 1"] by simp
    then show ?thesis using chunked_window[OF r(2) that assms(4)] by simp
  qed
  have "snd (spans ! (length cs - 1)) = length src" using tiles_nth[OF t, of "length cs - 1"] ne by (simp add: tile_pos_def)
  moreover have "ch_char_start (cs ! 0) = 0"
    using r(2) ne t by (cases spans) (auto simp: chunked_def)
  ultimately have "stitch (map source_piece cs) = Some src"
    using chunked_window[OF r(2), of 0 "length cs"] ne assms(4) by (simp add: src_slice_def)
  then show ?thesis using r(1) win by blast
qed

text \<open>
  C38. The markdown splitter never cuts a fenced block: it returns spans that tile the source,
  and no span starts on a line that lies inside an open fence.
\<close>

theorem markdown_keeps_fences:
  assumes "0 < m" "src \<noteq> []"
  shows "\<exists>spans floors. markdown_split src m = Some (spans, floors) \<and> tiles 0 (length src) spans \<and>
    (\<forall>(s, e) \<in> set spans. \<forall>l \<in> set (scan_lines src). ln_depth_before l = 1 \<longrightarrow> \<not> (ln_start l \<le> s \<and> s < ln_end l))"
proof -
  obtain r where r: "markdown_split src m = Some (map fst r, map snd r)" "tiles 0 (length src) (map fst r)"
    "\<forall>y \<in> set r. safe_pos (scan_lines src) (fst (fst y))" using markdown_split_tiles[OF assms] by blast
  have L: "tiles 0 (length src) (map ln_span (scan_lines src))" unfolding scan_lines_def by (rule scan_loop_tiles) simp
  have "\<not> (ln_start l \<le> fst (fst y) \<and> fst (fst y) < ln_end l)"
    if "y \<in> set r" "l \<in> set (scan_lines src)" "ln_depth_before l = 1" for y l
    using safe_pos_not_fenced[OF L bspec[OF r(3) that(1)] that(2,3)] .
  then show ?thesis using r(1,2) by (intro exI[of _ "map fst r"] exI[of _ "map snd r"]) auto
qed

section \<open>Concrete runs\<close>

definition demo_source :: "uchar list" where
  "demo_source = ascii ''ab cd. efg''"

definition demo_chunk_opts :: "chunk_strategy \<Rightarrow> chunk_opts" where
  "demo_chunk_opts st = \<lparr>co_strategy = st, co_max_chars = 4, co_overlap_chars = 1, co_language = None\<rparr>"

definition no_symbols :: symbol_parser where
  "no_symbols lang src = None"

lemma demo_chunks:
  "chunk_text no_symbols (ascii ''ab cd'') (demo_chunk_opts Recursive) = Some (Inr
     [\<lparr>ch_text = ascii ''ab '', ch_index = 0, ch_char_start = 0\<rparr>,
      \<lparr>ch_text = ascii '' cd'', ch_index = 1, ch_char_start = 2\<rparr>])"
  by (simp add: chunk_text_def demo_chunk_opts_def split_text_def recursive_split_def split_at.simps SEPARATORS_def
    tile_on_separator_def tile_loop.simps src_slice_def ascii_def trim_def trim_start_def is_whitespace_def
    concat_opt_def pack_def apply_overlap_def overlap_loop_Cons chunk_start_def floor_at_def)

lemma demo_source_text: "trim demo_source \<noteq> []" "demo_source \<noteq> []" "length demo_source < 2 ^ 63"
  by (simp_all add: demo_source_def ascii_def trim_def trim_start_def is_whitespace_def)

theorem chunks_are_exact_slices_witness: "ascii '' cd'' = src_slice (ascii ''ab cd'') 2 5"
  using chunks_are_exact_slices[OF demo_chunks, of 1] by (simp add: ascii_def)

theorem chunking_returns_within_budget_witness:
  "\<exists>cs. chunk_text no_symbols demo_source (demo_chunk_opts Sentence) = Some (Inr cs) \<and> cs \<noteq> [] \<and>
     (\<forall>c \<in> set cs. ch_text c \<noteq> [] \<and> length (ch_text c) \<le> 5)"
  using chunking_returns_within_budget[of "demo_chunk_opts Sentence" demo_source no_symbols] demo_source_text(1)
  by (simp add: demo_chunk_opts_def)

theorem chunks_stitch_to_source_witness:
  "\<exists>cs. chunk_text no_symbols demo_source (demo_chunk_opts Markdown) = Some (Inr cs) \<and>
     stitch (map source_piece cs) = Some demo_source"
  using chunks_stitch_to_source[of "demo_chunk_opts Markdown" demo_source no_symbols] demo_source_text(1,3)
  by (auto simp: demo_chunk_opts_def)

theorem markdown_keeps_fences_witness:
  "\<exists>spans floors. markdown_split demo_source 4 = Some (spans, floors) \<and> tiles 0 (length demo_source) spans"
  using markdown_keeps_fences[of 4 demo_source] demo_source_text(2) by auto

text \<open>
  The symbol chunker is left out of these theorems: its chunks leave gaps, and since it orders
  symbols by line only, two symbols of one line that the parser reports out of order make the
  overlap start after the end of the chunk, which panics.
\<close>

abbreviation sym_cc :: symbol_chunk where
  "sym_cc \<equiv> \<lparr>sy_name = [], sy_start_line = 1, sy_body = ascii ''cc''\<rparr>"
abbreviation sym_aa :: symbol_chunk where
  "sym_aa \<equiv> \<lparr>sy_name = [], sy_start_line = 1, sy_body = ascii ''aa''\<rparr>"

definition swapped_symbols :: symbol_parser where
  "swapped_symbols lang src = (if lang = ''rust'' then Some [sym_cc, sym_aa] else None)"

lemma swapped_placed: "place_symbols (ascii ''aa cc'') [sym_cc, sym_aa] = [(3, 5, sym_cc), (0, 2, sym_aa)]"
proof -
  have "line_start_table (ascii ''aa cc'') = [0]" by (simp add: line_start_table_def ascii_def upt_rec)
  moreover have "locate_symbol (ascii ''aa cc'') [0] sym_cc = Some 3" "locate_symbol (ascii ''aa cc'') [0] sym_aa = Some 0"
    by (simp_all add: locate_symbol_def Let_def window_position_def ascii_def src_slice_def upt_rec)
  ultimately show ?thesis by (simp add: place_symbols_def map_filter_simps del: One_nat_def) (simp add: ascii_def)
qed

lemma code_chunks_can_panic:
  "chunk_text swapped_symbols (ascii ''aa cc'') (demo_chunk_opts Code) = Some (Inl (SlicePanic 3 2))"
proof -
  have "code_symbols swapped_symbols (ascii ''aa cc'') None = [sym_cc, sym_aa]"
    by (simp add: code_symbols_def LANGUAGES_def swapped_symbols_def map_filter_simps)
  moreover have "sort_key sy_start_line [sym_cc, sym_aa] = [sym_cc, sym_aa]" by simp
  ultimately have "code_split swapped_symbols (ascii ''aa cc'') 4 None = Some [(3, 5), (0, 2)]"
    by (simp add: code_split_def locate_symbols_def swapped_placed keep_symbol_def contains_another_def
        OVERSIZED_SYMBOL_CAP_def concat_opt_def Let_def del: One_nat_def)
  then show ?thesis
    by (simp add: chunk_text_def demo_chunk_opts_def split_text_def apply_overlap_def ascii_def trim_def trim_start_def
        is_whitespace_def overlap_loop_Cons chunk_start_def floor_at_def)
qed

end
