(* ===== verification/Fuzzy.thy ===== *)
theory Fuzzy
  imports Fts EditDistance
begin

text \<open>
  The fallback leg of suggestions (\<^verbatim>\<open>src/src/fts/fuzzy.rs\<close>): the edit budget of a fragment, and the
  walk that runs one dynamic program down the shared prefixes of the ordered surface forms,
  skipping the forms below a prefix that can no longer match and emitting without any further
  work those below a prefix that already has. The walk is proved to emit exactly the forms within
  the budget, each with its least prefix distance.
\<close>

section \<open>The budget\<close>

definition MAX_FUZZY_FRAGMENT :: nat where "MAX_FUZZY_FRAGMENT = 64"

definition budget :: "nat \<Rightarrow> nat" where
  "budget n = (if n \<le> 3 then 0 else if n \<le> 7 then 1 else if n \<le> MAX_FUZZY_FRAGMENT then 2 else 0)"

definition capped_len :: "term_t \<Rightarrow> nat" where
  "capped_len fragment = length (take (MAX_FUZZY_FRAGMENT + 1) fragment)"

definition budget_for :: "term_t \<Rightarrow> nat" where
  "budget_for fragment = budget (capped_len fragment)"

section \<open>The walk\<close>

definition lcp :: "'a list \<Rightarrow> 'a list \<Rightarrow> nat" where
  "lcp a b = length (takeWhile (\<lambda>(x, y). x = y) (zip a b))"

text \<open>One row more; its cells follow the recurrence of \<^const>\<open>lev_cells\<close>.\<close>

definition extend_row :: "nat list \<Rightarrow> term_t \<Rightarrow> uchar \<Rightarrow> nat \<Rightarrow> nat list" where
  "extend_row prev needle c prefix_len = prefix_len # lev_cells c needle prev prefix_len"

record fuzzy_walk =
  fz_rows :: "nat list list"
  fz_prev_key :: term_t
  fz_pruned_at :: "nat option"
  fz_settled_at :: "(nat \<times> nat) option"
  fz_rows_computed :: nat
  fz_out :: "(term_t \<times> term_t \<times> nat) list"

text \<open>The loop over the characters past the shared prefix; the last result says where it broke off.\<close>

fun walk_key :: "term_t \<Rightarrow> nat \<Rightarrow> term_t \<Rightarrow> nat \<Rightarrow> nat list list \<Rightarrow> nat \<Rightarrow> nat \<Rightarrow>
    nat list list \<times> nat \<times> nat \<times> nat option" where
  "walk_key needle mx [] k rows bst computed = (rows, bst, computed, None)"
| "walk_key needle mx (c # cs) k rows bst computed =
     (let row = extend_row (rows ! k) needle c (k + 1);
          row_min = Min (set row);
          bst' = min bst (row ! length needle);
          rows' = rows @ [row] in
      if row_min > mx then (rows', bst', computed + 1, Some (k + 1))
      else walk_key needle mx cs (k + 1) rows' bst' (computed + 1))"

definition descend_key :: "term_t \<Rightarrow> nat \<Rightarrow> term_t \<Rightarrow> term_t \<Rightarrow> nat \<Rightarrow> fuzzy_walk \<Rightarrow> fuzzy_walk" where
  "descend_key needle mx key stm shared st =
     (let rows0 = take (shared + 1) (fz_rows st);
          bst0 = Min (set (map (\<lambda>r. r ! length needle) rows0));
          (rows, bst, computed, broke) =
            walk_key needle mx (drop shared key) shared rows0 bst0 (fz_rows_computed st) in
      \<lparr>fz_rows = rows, fz_prev_key = key,
       fz_pruned_at = (case broke of Some k \<Rightarrow> if bst \<le> mx then None else Some k | None \<Rightarrow> None),
       fz_settled_at = (case broke of Some k \<Rightarrow> if bst \<le> mx then Some (k, bst) else None | None \<Rightarrow> None),
       fz_rows_computed = computed,
       fz_out = (if bst \<le> mx then fz_out st @ [(key, stm, bst)] else fz_out st)\<rparr>)"

definition visit_key :: "term_t \<Rightarrow> nat \<Rightarrow> term_t \<times> term_t \<Rightarrow> fuzzy_walk \<Rightarrow> fuzzy_walk" where
  "visit_key needle mx e st = (case e of (key, stm) \<Rightarrow>
     (let shared = lcp (fz_prev_key st) key in
      case fz_pruned_at st of
        Some p \<Rightarrow> if shared \<ge> p then st else descend_key needle mx key stm shared st
      | None \<Rightarrow> (case fz_settled_at st of
            Some (f, distance) \<Rightarrow>
              if shared \<ge> f then st\<lparr>fz_out := fz_out st @ [(key, stm, distance)]\<rparr>
              else descend_key needle mx key stm shared st
          | None \<Rightarrow> descend_key needle mx key stm shared st)))"

definition fuzzy_start :: "term_t \<Rightarrow> fuzzy_walk" where
  "fuzzy_start needle = \<lparr>fz_rows = [[0..<Suc (length needle)]], fz_prev_key = [], fz_pruned_at = None,
     fz_settled_at = None, fz_rows_computed = 0, fz_out = []\<rparr>"

definition for_each_within :: "(term_t, term_t) amap \<Rightarrow> term_t \<Rightarrow> nat \<Rightarrow> fuzzy_walk" where
  "for_each_within surface needle mx = fold (visit_key needle mx) surface (fuzzy_start needle)"

definition suggest_fuzzy :: "term_t \<Rightarrow> nat \<Rightarrow> (nat \<Rightarrow> string \<Rightarrow> bool) option \<Rightarrow> fts_index \<Rightarrow> (term_t \<times> nat \<times> nat) list" where
  "suggest_fuzzy fragment max_edits admit ix =
     List.map_filter (\<lambda>(s, stemmed, distance).
       let df = (case aget (fi_postings ix) stemmed of None \<Rightarrow> 0 | Some ps \<Rightarrow> df_where ps admit ix) in
       if df > 0 then Some (s, df, distance) else None)
     (fz_out (for_each_within (fi_surface ix) fragment max_edits))"

section \<open>Prefix distance\<close>

definition prefix_distance :: "term_t \<Rightarrow> term_t \<Rightarrow> nat" where
  "prefix_distance needle key = Min ((\<lambda>k. levenshtein_chars (take k key) needle) ` {..length key})"

definition row_of :: "term_t \<Rightarrow> term_t \<Rightarrow> nat list" where
  "row_of needle w = lev_row (rev w) [] needle"

lemma lev_row_nth: "i \<le> length bs \<Longrightarrow> lev_row ra rb bs ! i = levr ra (rev (take i bs) @ rb)"
proof (induction bs arbitrary: i rb)
  case (Cons c bs)
  then show ?case by (cases i) auto
qed simp

lemma length_lev_row [simp]: "length (lev_row ra rb bs) = Suc (length bs)"
  by (induction bs arbitrary: rb) auto

lemma row_of_last: "row_of needle w ! length needle = levenshtein_chars w needle"
  by (simp add: row_of_def lev_row_last levenshtein_levr)

lemma row_of_Nil: "row_of needle [] = [0..<Suc (length needle)]"
  by (simp add: row_of_def lev_row_first)

lemma extend_row_of: "extend_row (row_of needle w) needle c (Suc (length w)) = row_of needle (w @ [c])"
  using lev_cells_row[of c needle "rev w" "[]"] lev_row_Cons[of "c # rev w" "[]" needle]
  by (simp add: extend_row_def row_of_def)

lemma set_row_of: "set (row_of needle w) = (\<lambda>i. levr (rev w) (rev (take i needle))) ` {..length needle}"
proof -
  have "set (row_of needle w) = (!) (row_of needle w) ` {..length needle}"
    by (auto simp: row_of_def set_conv_nth less_Suc_eq_le)
  also have "\<dots> = (\<lambda>i. levr (rev w) (rev (take i needle))) ` {..length needle}"
    by (intro image_cong) (auto simp: row_of_def lev_row_nth)
  finally show ?thesis .
qed

lemma levr_step_bound:
  assumes "\<forall>i \<le> length needle. m \<le> levr ra (rev (take i needle))" "i \<le> length needle"
  shows "m \<le> levr (c # ra) (rev (take i needle))"
  using assms(2)
proof (induction i)
  case 0
  then show ?case using assms(1) by (force dest: spec[of _ 0])
next
  case (Suc i)
  have "rev (take (Suc i) needle) = needle ! i # rev (take i needle)" using Suc.prems by (simp add: take_Suc_conv_app_nth)
  then show ?case using Suc assms(1)[rule_format, of i] assms(1)[rule_format, of "Suc i"] by auto
qed

text \<open>No extension of a prefix has a cell below the least cell of the prefix's row.\<close>

lemma row_min_bound: "mx < Min (set (row_of needle w)) \<Longrightarrow> mx < levenshtein_chars (w @ v) needle"
proof -
  assume "mx < Min (set (row_of needle w))"
  then have "\<forall>i \<le> length needle. Suc mx \<le> levr (rev w) (rev (take i needle))"
    by (simp add: set_row_of Suc_le_eq)
  then have "\<forall>i \<le> length needle. Suc mx \<le> levr (rev (w @ v)) (rev (take i needle))"
  proof (induction v rule: rev_induct)
    case (snoc c v)
    then show ?case using levr_step_bound[of needle "Suc mx" "rev (w @ v)" _ c] by simp
  qed simp
  then show ?thesis using spec[of _ "length needle"] by (auto simp: levenshtein_levr Suc_le_eq)
qed

lemma lcp_take: "take (lcp a b) a = take (lcp a b) b" "lcp a b \<le> length a" "lcp a b \<le> length b"
proof -
  show "take (lcp a b) a = take (lcp a b) b"
    unfolding lcp_def by (induction a b rule: list_induct2') auto
  show "lcp a b \<le> length a" "lcp a b \<le> length b"
    unfolding lcp_def using length_takeWhile_le[of "\<lambda>(x, y). x = y" "zip a b"] by auto
qed

definition least_upto :: "term_t \<Rightarrow> term_t \<Rightarrow> nat \<Rightarrow> nat" where
  "least_upto needle key k = Min ((\<lambda>j. levenshtein_chars (take j key) needle) ` {..k})"

lemma least_upto_Suc: "least_upto needle key (Suc k) = min (least_upto needle key k) (levenshtein_chars (take (Suc k) key) needle)"
proof -
  have "{..Suc k} = insert (Suc k) {..k}" by auto
  then show ?thesis by (simp add: least_upto_def min.commute)
qed

lemma take_cong_le: "take k a = take k b \<Longrightarrow> j \<le> k \<Longrightarrow> take j a = take j b"
  by (metis min.absorb1 take_take)

lemma least_upto_cong: "take k a = take k b \<Longrightarrow> least_upto needle a k = least_upto needle b k"
  unfolding least_upto_def by (intro arg_cong[of _ _ Min] image_cong) (auto dest: take_cong_le)

lemma prefix_distance_least: "prefix_distance needle key = least_upto needle key (length key)"
  by (simp add: prefix_distance_def least_upto_def)

text \<open>Below a prefix whose row exceeds the budget the least distance can only be one already seen.\<close>

lemma dead_row_settles:
  assumes "mx < Min (set (row_of needle (take f key)))" "f \<le> length key"
  shows "prefix_distance needle key \<le> mx \<longleftrightarrow> least_upto needle key f \<le> mx"
    "least_upto needle key f \<le> mx \<Longrightarrow> prefix_distance needle key = least_upto needle key f"
proof -
  have deep: "mx < levenshtein_chars (take j key) needle" if "f \<le> j" for j
  proof -
    have "take j key = take f key @ take (j - f) (drop f key)" using take_add[of f "j - f" key] that by simp
    then show ?thesis using row_min_bound[OF assms(1), of "take (j - f) (drop f key)"] by simp
  qed
  have *: "least_upto needle key k \<le> mx \<longleftrightarrow> (\<exists>j \<le> k. levenshtein_chars (take j key) needle \<le> mx)" for k
    by (auto simp: least_upto_def Min_le_iff)
  show "prefix_distance needle key \<le> mx \<longleftrightarrow> least_upto needle key f \<le> mx"
  proof
    assume "prefix_distance needle key \<le> mx"
    then obtain j where j: "levenshtein_chars (take j key) needle \<le> mx" unfolding prefix_distance_least * by blast
    then have "j \<le> f" using deep[of j] by (meson leD nat_le_linear)
    with j show "least_upto needle key f \<le> mx" unfolding * by blast
  next
    assume "least_upto needle key f \<le> mx"
    then show "prefix_distance needle key \<le> mx" unfolding prefix_distance_least * using assms(2) le_trans by blast
  qed
  assume le: "least_upto needle key f \<le> mx"
  have "least_upto needle key k = least_upto needle key f" if "f \<le> k" for k
    using that le
  proof (induction k rule: dec_induct)
    case (step k)
    have "mx < levenshtein_chars (take (Suc k) key) needle" using deep[of "Suc k"] step.hyps(1) by simp
    then show ?case using step by (simp add: least_upto_Suc min_def)
  qed simp
  from this[OF assms(2)] show "prefix_distance needle key = least_upto needle key f" by (simp only: prefix_distance_least)
qed

section \<open>The walk emits exactly the forms within the budget\<close>

definition rows_upto :: "term_t \<Rightarrow> term_t \<Rightarrow> nat \<Rightarrow> nat list list" where
  "rows_upto needle key k = map (\<lambda>j. row_of needle (take j key)) [0..<Suc k]"

lemma rows_upto_Suc: "rows_upto needle key (Suc k) = rows_upto needle key k @ [row_of needle (take (Suc k) key)]"
  by (simp add: rows_upto_def)

lemma rows_upto_nth: "j \<le> k \<Longrightarrow> rows_upto needle key k ! j = row_of needle (take j key)"
  by (simp add: rows_upto_def del: upt_Suc)

lemma rows_upto_take: "j \<le> k \<Longrightarrow> take (Suc j) (rows_upto needle key k) = rows_upto needle key j"
  by (simp add: rows_upto_def take_map del: upt_Suc)

lemma rows_upto_cong: "take k a = take k b \<Longrightarrow> rows_upto needle a k = rows_upto needle b k"
  unfolding rows_upto_def by (intro map_cong refl arg_cong[of _ _ "row_of needle"]) (rule take_cong_le, auto)

lemma rows_upto_least: "Min (set (map (\<lambda>r. r ! length needle) (rows_upto needle key k))) = least_upto needle key k"
  unfolding rows_upto_def least_upto_def
  by (intro arg_cong[of _ _ Min]) (auto simp: row_of_last simp del: upt_Suc simp: image_image less_Suc_eq_le)

lemma walk_key_sound:
  assumes "k \<le> length key" "walk_key needle mx (drop k key) k (rows_upto needle key k) (least_upto needle key k) n = (rows, bst, n', broke)"
  shows "case broke of
      None \<Rightarrow> rows = rows_upto needle key (length key) \<and> bst = prefix_distance needle key
    | Some f \<Rightarrow> f \<le> length key \<and> rows = rows_upto needle key f \<and> bst = least_upto needle key f \<and>
        mx < Min (set (row_of needle (take f key)))"
  using assms
proof (induction "length key - k" arbitrary: k n)
  case 0
  then show ?case by (simp add: prefix_distance_least)
next
  case (Suc d)
  have k: "k < length key" using Suc.hyps(2) by simp
  let ?row = "row_of needle (take (Suc k) key)"
  have row: "extend_row (rows_upto needle key k ! k) needle (key ! k) (k + 1) = ?row"
    using extend_row_of[of needle "take k key" "key ! k"] k by (simp add: rows_upto_nth take_Suc_conv_app_nth)
  have drop: "drop k key = key ! k # drop (Suc k) key" using k by (simp add: Cons_nth_drop_Suc)
  show ?case
  proof (cases "mx < Min (set ?row)")
    case True
    then show ?thesis using Suc.prems(2) k row
      by (simp add: drop Let_def rows_upto_Suc[symmetric] row_of_last least_upto_Suc[symmetric]) auto
  next
    case False
    then have "walk_key needle mx (drop (Suc k) key) (Suc k) (rows_upto needle key (Suc k)) (least_upto needle key (Suc k)) (n + 1) = (rows, bst, n', broke)"
      using Suc.prems(2) row by (simp add: drop Let_def rows_upto_Suc row_of_last least_upto_Suc)
    then show ?thesis using Suc.hyps k by (intro Suc.hyps(1)[of "Suc k"]) auto
  qed
qed

definition fz_ok :: "term_t \<Rightarrow> nat \<Rightarrow> fuzzy_walk \<Rightarrow> bool" where
  "fz_ok needle mx st \<longleftrightarrow> (\<exists>r \<le> length (fz_prev_key st).
     fz_rows st = rows_upto needle (fz_prev_key st) r \<and>
     (case (fz_pruned_at st, fz_settled_at st) of
        (None, None) \<Rightarrow> r = length (fz_prev_key st)
      | (Some f, None) \<Rightarrow> f = r \<and> mx < Min (set (row_of needle (take r (fz_prev_key st)))) \<and>
          mx < least_upto needle (fz_prev_key st) r
      | (None, Some (f, d)) \<Rightarrow> f = r \<and> mx < Min (set (row_of needle (take r (fz_prev_key st)))) \<and>
          d = least_upto needle (fz_prev_key st) r \<and> d \<le> mx
      | _ \<Rightarrow> False))"

definition within_budget :: "term_t \<Rightarrow> nat \<Rightarrow> term_t \<times> term_t \<Rightarrow> (term_t \<times> term_t \<times> nat) option" where
  "within_budget needle mx e =
     (let d = prefix_distance needle (fst e) in if d \<le> mx then Some (fst e, snd e, d) else None)"

abbreviation emitted :: "term_t \<Rightarrow> nat \<Rightarrow> (term_t, term_t) amap \<Rightarrow> (term_t \<times> term_t \<times> nat) list" where
  "emitted needle mx es \<equiv> List.map_filter (within_budget needle mx) es"

lemma fuzzy_start_ok: "fz_ok needle mx (fuzzy_start needle)"
  by (auto simp: fz_ok_def fuzzy_start_def rows_upto_def row_of_Nil)

lemma descend_key_ok:
  assumes "fz_rows st = rows_upto needle (fz_prev_key st) r" "lcp (fz_prev_key st) key \<le> r"
  shows "fz_ok needle mx (descend_key needle mx key stm (lcp (fz_prev_key st) key) st) \<and>
    fz_out (descend_key needle mx key stm (lcp (fz_prev_key st) key) st) = fz_out st @ emitted needle mx [(key, stm)]"
proof -
  let ?s = "lcp (fz_prev_key st) key"
  have rows0: "take (?s + 1) (fz_rows st) = rows_upto needle key ?s"
    using rows_upto_take[OF assms(2)] rows_upto_cong[OF lcp_take(1)] assms(1) by simp
  obtain rows bst n broke where w: "walk_key needle mx (drop ?s key) ?s (rows_upto needle key ?s)
      (least_upto needle key ?s) (fz_rows_computed st) = (rows, bst, n, broke)" by (metis prod_cases4)
  note sound = walk_key_sound[OF lcp_take(3) w]
  have d: "descend_key needle mx key stm ?s st = \<lparr>fz_rows = rows, fz_prev_key = key,
       fz_pruned_at = (case broke of Some k \<Rightarrow> if bst \<le> mx then None else Some k | None \<Rightarrow> None),
       fz_settled_at = (case broke of Some k \<Rightarrow> if bst \<le> mx then Some (k, bst) else None | None \<Rightarrow> None),
       fz_rows_computed = n,
       fz_out = (if bst \<le> mx then fz_out st @ [(key, stm, bst)] else fz_out st)\<rparr>"
    unfolding descend_key_def Let_def rows0 rows_upto_least w prod.case ..
  show ?thesis
  proof (cases broke)
    case None
    then show ?thesis using sound
      by (auto simp: d fz_ok_def within_budget_def map_filter_simps)
  next
    case (Some f)
    then have f: "f \<le> length key" "rows = rows_upto needle key f" "bst = least_upto needle key f"
      "mx < Min (set (row_of needle (take f key)))" using sound by auto
    then show ?thesis using Some dead_row_settles[OF f(4,1)]
      by (auto simp: d fz_ok_def within_budget_def Let_def map_filter_simps)
  qed
qed

text \<open>A key that shares a dead prefix has the verdict of that prefix.\<close>

lemma shared_prefix_verdict:
  assumes "f \<le> lcp p key" "mx < Min (set (row_of needle (take f p)))"
  shows "mx < least_upto needle p f \<Longrightarrow> within_budget needle mx (key, stm) = None"
    "least_upto needle p f \<le> mx \<Longrightarrow> within_budget needle mx (key, stm) = Some (key, stm, least_upto needle p f)"
proof -
  have eq: "take f p = take f key" by (rule take_cong_le[OF lcp_take(1) assms(1)])
  have f: "f \<le> length key" using assms(1) lcp_take(3) order.trans by blast
  note settle = dead_row_settles[of mx needle f key] least_upto_cong[OF eq, of needle]
  show "mx < least_upto needle p f \<Longrightarrow> within_budget needle mx (key, stm) = None"
    "least_upto needle p f \<le> mx \<Longrightarrow> within_budget needle mx (key, stm) = Some (key, stm, least_upto needle p f)"
    using settle f assms(2) eq by (auto simp: within_budget_def Let_def)
qed

lemma visit_key_ok:
  assumes "fz_ok needle mx st"
  shows "fz_ok needle mx (visit_key needle mx e st) \<and>
    fz_out (visit_key needle mx e st) = fz_out st @ emitted needle mx [e]"
proof -
  obtain key stm where e: "e = (key, stm)" by (cases e)
  let ?s = "lcp (fz_prev_key st) key"
  obtain r where r: "r \<le> length (fz_prev_key st)" "fz_rows st = rows_upto needle (fz_prev_key st) r"
    using assms by (auto simp: fz_ok_def)
  consider (live) "fz_pruned_at st = None" "fz_settled_at st = None"
    | (pruned) f where "fz_pruned_at st = Some f" "fz_settled_at st = None"
    | (settled) f d where "fz_pruned_at st = None" "fz_settled_at st = Some (f, d)"
    using assms by (auto simp: fz_ok_def split: option.splits)
  then show ?thesis
  proof cases
    case live
    then obtain r' where "fz_rows st = rows_upto needle (fz_prev_key st) r'" "r' = length (fz_prev_key st)"
      using assms by (auto simp: fz_ok_def)
    then show ?thesis using live descend_key_ok[of st needle r' key mx stm] lcp_take(2)[of "fz_prev_key st" key]
      by (simp add: e visit_key_def Let_def)
  next
    case (pruned f)
    then have p: "fz_rows st = rows_upto needle (fz_prev_key st) f"
      "mx < Min (set (row_of needle (take f (fz_prev_key st))))" "mx < least_upto needle (fz_prev_key st) f"
      using assms by (auto simp: fz_ok_def)
    show ?thesis
      using assms pruned p(1) descend_key_ok[of st needle f key mx stm] shared_prefix_verdict(1)[OF _ p(2,3), of key stm]
      by (cases "f \<le> ?s") (auto simp: e visit_key_def Let_def map_filter_simps)
  next
    case (settled f d)
    then have p: "fz_rows st = rows_upto needle (fz_prev_key st) f"
      "mx < Min (set (row_of needle (take f (fz_prev_key st))))" "d = least_upto needle (fz_prev_key st) f" "d \<le> mx"
      using assms by (auto simp: fz_ok_def)
    show ?thesis
      using assms settled p descend_key_ok[of st needle f key mx stm] shared_prefix_verdict(2)[OF _ p(2), of key stm]
      by (cases "f \<le> ?s") (auto simp: e visit_key_def Let_def map_filter_simps fz_ok_def)
  qed
qed

text \<open>
  C39. The walk over the surface forms, with its pruning and settling, emits exactly the forms that
  have a prefix within the budget of the fragment, in order, each with the least distance of any of
  its prefixes.
\<close>

theorem fuzzy_walk_exact:
  "fz_out (for_each_within surface needle mx) = List.map_filter (within_budget needle mx) surface"
proof -
  have "fz_ok needle mx st \<Longrightarrow> fz_out (fold (visit_key needle mx) es st) = fz_out st @ emitted needle mx es" for es st
  proof (induction es arbitrary: st)
    case (Cons e es)
    show ?case using visit_key_ok[OF Cons.prems, of e] Cons.IH[of "visit_key needle mx e st"]
      by (auto simp: map_filter_simps split: option.splits)
  qed (simp add: map_filter_simps)
  from this[OF fuzzy_start_ok] show ?thesis by (simp add: for_each_within_def fuzzy_start_def)
qed

end
