(* ===== verification/Highlight.thy ===== *)
theory Highlight
  imports Fts
begin

text \<open>
  Highlighted fragments (\<^verbatim>\<open>src/src/fts/highlight.rs\<close>): excerpts of a text around the tokens a query
  matched, with the byte ranges of the matches inside each excerpt. A text is the list of its
  characters and an offset counts UTF-8 bytes; the source slices a text at such offsets and
  panics off a character boundary. The theorem shows that every offset is a boundary, that each
  range marks a token of the text that matched, and that matches are marked in order, each once.
\<close>

section \<open>Byte offsets\<close>

fun take_bytes :: "nat \<Rightarrow> uchar list \<Rightarrow> uchar list" where
  "take_bytes b [] = []"
| "take_bytes b (c # cs) = (if b = 0 then [] else c # take_bytes (b - char_len c) cs)"

fun drop_bytes :: "nat \<Rightarrow> uchar list \<Rightarrow> uchar list" where
  "drop_bytes b [] = []"
| "drop_bytes b (c # cs) = (if b = 0 then c # cs else drop_bytes (b - char_len c) cs)"

definition slice_bytes :: "nat \<Rightarrow> nat \<Rightarrow> uchar list \<Rightarrow> uchar list" where
  "slice_bytes a b cs = take_bytes (b - a) (drop_bytes a cs)"

section \<open>Fragments\<close>

record highlight_opts =
  hl_max_fragments :: nat
  hl_fragment_chars :: nat

record fragment =
  fr_text :: "uchar list"
  fr_spans :: "(nat \<times> nat) list"

definition back_chars :: "uchar list \<Rightarrow> nat \<Rightarrow> nat \<Rightarrow> nat" where
  "back_chars src from n = (let pre = take_bytes from src in utf8_len (take (length pre - n) pre))"

definition fwd_chars :: "uchar list \<Rightarrow> nat \<Rightarrow> nat \<Rightarrow> nat" where
  "fwd_chars src from n =
     (let post = drop_bytes from src in
      if n < length post then from + utf8_len (take n post) else utf8_len src)"

definition snap_start :: "unicode \<Rightarrow> uchar list \<Rightarrow> nat \<Rightarrow> nat \<Rightarrow> nat" where
  "snap_start uc src start limit =
     (if start = 0 then 0
      else (let mid = slice_bytes start limit src; pre = takeWhile (uc_alnum uc) mid in
        if length pre < length mid then start + utf8_len (take (Suc (length pre)) mid) else start))"

definition snap_end :: "unicode \<Rightarrow> uchar list \<Rightarrow> nat \<Rightarrow> nat \<Rightarrow> nat" where
  "snap_end uc src stop limit =
     (if stop = utf8_len src then stop
      else (let mid = slice_bytes limit stop src; suf = takeWhile (uc_alnum uc) (rev mid) in
        if length suf < length mid then limit + utf8_len (take (length mid - length suf - 1) mid) else stop))"

definition frag_start :: "unicode \<Rightarrow> uchar list \<Rightarrow> nat \<Rightarrow> nat \<Rightarrow> nat" where
  "frag_start uc src budget first_start =
     snap_start uc src (back_chars src first_start (budget div 2)) first_start"

definition frag_end :: "unicode \<Rightarrow> uchar list \<Rightarrow> nat \<Rightarrow> nat \<Rightarrow> nat \<Rightarrow> nat" where
  "frag_end uc src budget first_start first_end =
     max (fwd_chars src (frag_start uc src budget first_start) budget) first_end"

function fragments_loop :: "unicode \<Rightarrow> uchar list \<Rightarrow> nat \<Rightarrow> nat \<Rightarrow> (nat \<times> nat) list \<Rightarrow> fragment list" where
  "fragments_loop uc src budget left [] = []"
| "fragments_loop uc src budget left ((fs, fe) # ms) =
     (if left = 0 then []
      else (let start = frag_start uc src budget fs; stop = frag_end uc src budget fs fe;
                here = takeWhile (\<lambda>m. snd m \<le> stop) ((fs, fe) # ms);
                stop' = snap_end uc src stop (snd (last here)) in
        \<lparr>fr_text = slice_bytes start stop' src, fr_spans = map (\<lambda>(a, b). (a - start, b - start)) here\<rparr> #
        fragments_loop uc src budget (left - 1) (dropWhile (\<lambda>m. snd m \<le> stop) ((fs, fe) # ms))))"
  by pat_completeness auto
termination
  by (relation "measure (\<lambda>(uc, src, budget, left, ms). left)") auto

definition matched_spans :: "unicode \<Rightarrow> analyzer_cfg \<Rightarrow> term_t list \<Rightarrow> string \<Rightarrow> (nat \<times> nat) list" where
  "matched_spans uc cfg query_terms s =
     map (\<lambda>t. (ts_start t, ts_end t)) (filter (\<lambda>t. ts_term t \<in> set query_terms) (analyze_spans uc cfg s))"

definition fragments :: "unicode \<Rightarrow> string \<Rightarrow> analyzer_cfg \<Rightarrow> term_t list \<Rightarrow> highlight_opts \<Rightarrow> fragment list" where
  "fragments uc s cfg query_terms opts =
     fragments_loop uc (chars s) (max (hl_fragment_chars opts) 1) (max (hl_max_fragments opts) 1)
       (matched_spans uc cfg query_terms s)"

section \<open>Boundaries\<close>

definition boundary :: "uchar list \<Rightarrow> nat \<Rightarrow> bool" where
  "boundary src b \<longleftrightarrow> (\<exists>k \<le> length src. b = utf8_len (take k src))"

lemma char_len_pos [simp]: "0 < char_len c"
  by (simp add: char_len_def)

lemma utf8_len_simps [simp]:
  "utf8_len [] = 0" "utf8_len (c # cs) = char_len c + utf8_len cs" "utf8_len (xs @ ys) = utf8_len xs + utf8_len ys"
  by (simp_all add: utf8_len_def)

lemma utf8_len_rev: "utf8_len (rev xs) = utf8_len xs"
  by (simp add: utf8_len_def sum_list_rev rev_map[symmetric])

lemma utf8_len_take_mono: "j \<le> k \<Longrightarrow> utf8_len (take j xs) \<le> utf8_len (take k xs)"
proof (induction xs arbitrary: j k)
  case (Cons x xs)
  then show ?case by (cases j; cases k) auto
qed simp

lemma utf8_len_take_less: "j < k \<Longrightarrow> k \<le> length xs \<Longrightarrow> utf8_len (take j xs) < utf8_len (take k xs)"
proof (induction xs arbitrary: j k)
  case (Cons x xs)
  then show ?case by (cases j; cases k) auto
qed simp

lemma take_bytes_at: "take_bytes (utf8_len (take k src)) src = take k src"
proof (induction src arbitrary: k)
  case (Cons c cs)
  then show ?case using char_len_pos[of c] by (cases k) (auto simp del: char_len_pos)
qed simp

lemma drop_bytes_at: "drop_bytes (utf8_len (take k src)) src = drop k src"
proof (induction src arbitrary: k)
  case (Cons c cs)
  then show ?case using char_len_pos[of c] by (cases k) (auto simp del: char_len_pos)
qed simp

lemma utf8_len_split: "j \<le> k \<Longrightarrow> utf8_len (take k src) - utf8_len (take j src) = utf8_len (take (k - j) (drop j src))"
proof -
  assume "j \<le> k"
  then have "take k src = take j src @ take (k - j) (drop j src)" using take_add[of j "k - j" src] by simp
  then show ?thesis by simp
qed

lemma slice_bytes_at: "j \<le> k \<Longrightarrow> slice_bytes (utf8_len (take j src)) (utf8_len (take k src)) src = take (k - j) (drop j src)"
  by (simp add: slice_bytes_def drop_bytes_at utf8_len_split take_bytes_at)

text \<open>An offset reached by going some characters forward from a boundary is a boundary.\<close>

lemma utf8_len_forward: "utf8_len (take j src) + utf8_len (take n (drop j src)) = utf8_len (take (j + n) src)"
  by (simp add: take_add)

lemma back_chars_at: "k \<le> length src \<Longrightarrow> back_chars src (utf8_len (take k src)) n = utf8_len (take (k - n) src)"
  by (simp add: back_chars_def take_bytes_at min_def Let_def)

lemma fwd_chars_at:
  "k \<le> length src \<Longrightarrow> fwd_chars src (utf8_len (take k src)) n = utf8_len (take (k + n) src)"
  by (auto simp: fwd_chars_def drop_bytes_at Let_def utf8_len_forward)

lemma snap_start_at:
  assumes "j \<le> k" "k \<le> length src"
  shows "\<exists>i. j \<le> i \<and> i \<le> k \<and> snap_start uc src (utf8_len (take j src)) (utf8_len (take k src)) = utf8_len (take i src)"
proof -
  let ?mid = "take (k - j) (drop j src)" and ?pre = "takeWhile (uc_alnum uc) (take (k - j) (drop j src))"
  consider "utf8_len (take j src) = 0" | "utf8_len (take j src) \<noteq> 0" "length ?pre < length ?mid"
    | "utf8_len (take j src) \<noteq> 0" "\<not> length ?pre < length ?mid" by blast
  then show ?thesis
  proof cases
    case 2
    have "Suc (length ?pre) \<le> k - j" using 2(2) assms by simp
    moreover have "utf8_len (take j src) + utf8_len (take (Suc (length ?pre)) ?mid) = utf8_len (take (j + Suc (length ?pre)) src)"
      using calculation utf8_len_forward[of j src "Suc (length ?pre)"] by (simp add: min_def)
    ultimately show ?thesis using 2 assms
      by (intro exI[of _ "j + Suc (length ?pre)"]) (simp add: snap_start_def slice_bytes_at Let_def)
  qed (use assms in \<open>auto simp: snap_start_def slice_bytes_at Let_def intro!: exI[of _ j]\<close>)
qed

lemma snap_end_at:
  assumes "j \<le> k" "k \<le> length src"
  shows "\<exists>i. j \<le> i \<and> i \<le> k \<and> snap_end uc src (utf8_len (take k src)) (utf8_len (take j src)) = utf8_len (take i src)"
proof -
  let ?mid = "take (k - j) (drop j src)"
  define suf where "suf = takeWhile (uc_alnum uc) (rev ?mid)"
  have def: "snap_end uc src (utf8_len (take k src)) (utf8_len (take j src)) =
      (if utf8_len (take k src) = utf8_len src then utf8_len (take k src)
       else if length suf < length ?mid then utf8_len (take j src) + utf8_len (take (length ?mid - length suf - 1) ?mid)
       else utf8_len (take k src))"
    unfolding snap_end_def slice_bytes_at[OF assms(1)] Let_def suf_def ..
  show ?thesis
  proof (cases "utf8_len (take k src) \<noteq> utf8_len src \<and> length suf < length ?mid")
    case True
    define n where "n = length ?mid - length suf - 1"
    have n: "n \<le> k - j" unfolding n_def by simp
    have eq: "take n ?mid = take n (drop j src)" using n by (simp only: take_take min_absorb1)
    have "snap_end uc src (utf8_len (take k src)) (utf8_len (take j src)) = utf8_len (take j src) + utf8_len (take n ?mid)"
      using def True unfolding n_def by (simp only: if_True if_False simp_thms)
    also have "\<dots> = utf8_len (take (j + n) src)" unfolding eq by (rule utf8_len_forward)
    finally show ?thesis using n assms by (intro exI[of _ "j + n"]) auto
  next
    case False
    then show ?thesis using def assms by (intro exI[of _ k]) auto
  qed
qed

section \<open>The spans of the analyzer\<close>

text \<open>Character ranges, ascending and disjoint, up to a bound.\<close>

definition ranges_ok :: "nat \<Rightarrow> (nat \<times> nat) list \<Rightarrow> bool" where
  "ranges_ok n js \<longleftrightarrow> (\<forall>(j, k) \<in> set js. j < k \<and> k \<le> n) \<and> sorted_wrt (\<lambda>p q. snd p \<le> fst q) js"

definition byte_span :: "uchar list \<Rightarrow> nat \<times> nat \<Rightarrow> nat \<times> nat" where
  "byte_span src p = (utf8_len (take (fst p) src), utf8_len (take (snd p) src))"

abbreviation span_of :: "term_span \<Rightarrow> nat \<times> nat" where "span_of t \<equiv> (ts_start t, ts_end t)"

lemma ranges_ok_snoc:
  "ranges_ok n js \<Longrightarrow> \<forall>p \<in> set js. snd p \<le> j \<Longrightarrow> j < k \<Longrightarrow> k \<le> n \<Longrightarrow> ranges_ok n (js @ [(j, k)])"
  by (auto simp: ranges_ok_def sorted_wrt_append)

lemma ranges_ok_mono: "ranges_ok m js \<Longrightarrow> m \<le> n \<Longrightarrow> ranges_ok n js"
  by (fastforce simp: ranges_ok_def)

lemma push_token_ranges:
  assumes "ranges_ok n js" "map span_of out = map (byte_span src) js" "\<forall>p \<in> set js. snd p \<le> j" "j < n"
    "start = utf8_len (take j src)" "stop = utf8_len (take n src)"
  shows "\<exists>js'. ranges_ok n js' \<and> map span_of (push_token fold_on max_len cur start stop out) = map (byte_span src) js'"
proof (cases "case max_len of Some m \<Rightarrow> length cur > m | None \<Rightarrow> False")
  case True
  then show ?thesis using assms(1,2) by (auto simp: push_token_def)
next
  case False
  then show ?thesis using assms ranges_ok_snoc[of n js j n]
    by (intro exI[of _ "js @ [(j, n)]"]) (simp add: push_token_def byte_span_def)
qed

lemma tokenize_loop_ranges:
  assumes "src = pre @ cs" "i = utf8_len pre" "ranges_ok (length pre) js" "map span_of out = map (byte_span src) js"
    "cur \<noteq> [] \<Longrightarrow> \<exists>j < length pre. start = utf8_len (take j src) \<and> (\<forall>p \<in> set js. snd p \<le> j)"
  shows "\<exists>js'. ranges_ok (length src) js' \<and>
    map span_of (tokenize_loop uc fold_on max_len cs i cur start out) = map (byte_span src) js'"
  using assms
proof (induction cs arbitrary: pre i cur start out js)
  case Nil
  then show ?case using push_token_ranges[of "length pre" js out src _ start i]
    by (cases "cur = []") fastforce+
next
  case (Cons c cs)
  have src: "src = (pre @ [c]) @ cs" "i + char_len c = utf8_len (pre @ [c])" using Cons.prems by simp_all
  have i: "i = utf8_len (take (length pre) src)" using Cons.prems by simp
  have mono: "ranges_ok (length (pre @ [c])) js" using Cons.prems(3) by (rule ranges_ok_mono) simp
  have below: "\<forall>p \<in> set js. snd p \<le> length pre" using Cons.prems(3) by (fastforce simp: ranges_ok_def)
  consider "uc_alnum uc c" | "\<not> uc_alnum uc c" "cur = []" | "\<not> uc_alnum uc c" "cur \<noteq> []" by blast
  then show ?case
  proof cases
    case 1
    have "\<exists>j < length (pre @ [c]). (if cur = [] then i else start) = utf8_len (take j src) \<and> (\<forall>p \<in> set js. snd p \<le> j)"
    proof (cases "cur = []")
      case True
      then show ?thesis using i below by (intro exI[of _ "length pre"]) auto
    next
      case False
      then show ?thesis using Cons.prems(5) by (auto intro: less_SucI)
    qed
    then show ?thesis using 1 Cons.IH[OF src mono Cons.prems(4)] by simp
  next
    case 2
    then show ?thesis using Cons.IH[OF src mono Cons.prems(4), of "[]"] by simp
  next
    case 3
    obtain j where j: "j < length pre" "start = utf8_len (take j src)" "\<forall>p \<in> set js. snd p \<le> j" using Cons.prems(5) 3 by blast
    obtain js' where js': "ranges_ok (length pre) js'" "map span_of (push_token fold_on max_len cur start i out) = map (byte_span src) js'"
      using push_token_ranges[OF Cons.prems(3,4) j(3,1,2) i] by blast
    have "ranges_ok (length (pre @ [c])) js'" using js'(1) by (rule ranges_ok_mono) simp
    then show ?thesis using 3 Cons.IH[OF src _ js'(2), of "[]"] by simp
  qed
qed

lemma ranges_ok_Cons:
  "ranges_ok n (p # js) \<longleftrightarrow> fst p < snd p \<and> snd p \<le> n \<and> (\<forall>q \<in> set js. snd p \<le> fst q) \<and> ranges_ok n js"
  by (auto simp: ranges_ok_def)

lemma ranges_ok_filter:
  assumes "ranges_ok n js" "map f out = map g js"
  shows "\<exists>js'. ranges_ok n js' \<and> set js' \<subseteq> set js \<and> map f (filter P out) = map g js'"
  using assms
proof (induction js arbitrary: out)
  case (Cons p js)
  then obtain x xs where out: "out = x # xs" "f x = g p" "map f xs = map g js" by (cases out) auto
  obtain js' where js': "ranges_ok n js'" "set js' \<subseteq> set js" "map f (filter P xs) = map g js'"
    using Cons.IH[OF _ out(3)] Cons.prems(1) by (auto simp: ranges_ok_Cons)
  then have "ranges_ok n (p # js')" using Cons.prems(1) by (auto simp: ranges_ok_Cons)
  show ?case
  proof (cases "P x")
    case True
    then show ?thesis using out js' \<open>ranges_ok n (p # js')\<close> by (intro exI[of _ "p # js'"]) auto
  next
    case False
    then show ?thesis using out js' by (intro exI[of _ js']) auto
  qed
qed (simp add: ranges_ok_def)

lemma matched_spans_ranges:
  "\<exists>js. ranges_ok (length (chars s)) js \<and> matched_spans uc cfg query_terms s = map (byte_span (chars s)) js"
proof -
  let ?src = "chars s" and ?keep = "\<lambda>t. ts_term t \<in> set query_terms"
  obtain js where js: "ranges_ok (length ?src) js"
    "map span_of (tokenize uc (an_ascii_folding cfg) (an_max_token_len cfg) ?src) = map (byte_span ?src) js"
    using tokenize_loop_ranges[of ?src "[]" ?src 0 "[]" "[]" "[]" 0 uc "an_ascii_folding cfg" "an_max_token_len cfg"]
    by (auto simp: tokenize_def ranges_ok_def)
  obtain js1 where js1: "ranges_ok (length ?src) js1"
    "map span_of (filter (\<lambda>t. \<not> is_stopword (ts_term t)) (tokenize uc (an_ascii_folding cfg) (an_max_token_len cfg) ?src)) = map (byte_span ?src) js1"
    using ranges_ok_filter[OF js] by blast
  then have "map span_of (map (\<lambda>t. t\<lparr>ts_term := stem (ts_term t)\<rparr>)
      (filter (\<lambda>t. \<not> is_stopword (ts_term t)) (tokenize uc (an_ascii_folding cfg) (an_max_token_len cfg) ?src))) = map (byte_span ?src) js1"
    by (simp add: comp_def)
  then obtain js2 where "ranges_ok (length ?src) js2" "map span_of (analyze_spans uc cfg s) = map (byte_span ?src) js2"
    using ranges_ok_filter[OF js1(1), of span_of _ _ "\<lambda>t. ts_term t \<noteq> []"]
    by (cases "an_language cfg") (simp only: analyze_spans_def language.case, blast)
  then show ?thesis using ranges_ok_filter[of _ js2 span_of _ "byte_span ?src" ?keep] unfolding matched_spans_def by blast
qed

section \<open>Fragments mark the matches\<close>

definition frag_ok :: "uchar list \<Rightarrow> nat \<Rightarrow> fragment \<Rightarrow> bool" where
  "frag_ok src start f \<longleftrightarrow> fr_spans f \<noteq> [] \<and>
     (\<exists>j k. j \<le> k \<and> k \<le> length src \<and> start = utf8_len (take j src) \<and> fr_text f = take (k - j) (drop j src)) \<and>
     (\<forall>(a, b) \<in> set (fr_spans f). a < b \<and> b \<le> utf8_len (fr_text f) \<and>
        slice_bytes a b (fr_text f) = slice_bytes (start + a) (start + b) src)"

definition shift_spans :: "nat \<Rightarrow> fragment \<Rightarrow> (nat \<times> nat) list" where
  "shift_spans start f = map (\<lambda>(a, b). (start + a, start + b)) (fr_spans f)"

lemma byte_pos_le_iff: "j \<le> length src \<Longrightarrow> k \<le> length src \<Longrightarrow> utf8_len (take j src) \<le> utf8_len (take k src) \<longleftrightarrow> j \<le> k"
  using utf8_len_take_mono[of j k src] utf8_len_take_less[of k j src] by linarith

lemma span_in_fragment:
  assumes "i \<le> j" "j < k" "k \<le> e" "e \<le> length src" and t: "t = take (e - i) (drop i src)"
    and a: "a = utf8_len (take j src) - utf8_len (take i src)" and b: "b = utf8_len (take k src) - utf8_len (take i src)"
  shows "a < b" "b \<le> utf8_len t" "slice_bytes a b t = slice_bytes (utf8_len (take j src)) (utf8_len (take k src)) src"
proof -
  have pos: "utf8_len (take m src) - utf8_len (take i src) = utf8_len (take (m - i) t)" if "i \<le> m" "m \<le> e" for m
    using utf8_len_split[OF that(1), of src] that by (simp add: t min_absorb1)
  have ab: "a = utf8_len (take (j - i) t)" "b = utf8_len (take (k - i) t)" using pos[of j] pos[of k] assms by simp_all
  show "a < b" unfolding ab using assms by (intro utf8_len_take_less) (auto simp: t)
  show "b \<le> utf8_len t" using utf8_len_simps(3)[of "take (k - i) t" "drop (k - i) t"] by (simp add: ab del: utf8_len_simps)
  have "slice_bytes a b t = take (k - j) (drop (j - i) t)" unfolding ab using assms slice_bytes_at[of "j - i" "k - i" t] by simp
  also have "\<dots> = take (k - j) (drop j src)" using assms by (simp add: t drop_take)
  finally show "slice_bytes a b t = slice_bytes (utf8_len (take j src)) (utf8_len (take k src)) src"
    using assms slice_bytes_at[of j k src] by simp
qed

lemma frag_window:
  assumes "j < k" "k \<le> length src"
  shows "\<exists>i e. i \<le> j \<and> k \<le> e \<and> e \<le> length src \<and> frag_start uc src budget (utf8_len (take j src)) = utf8_len (take i src) \<and>
    frag_end uc src budget (utf8_len (take j src)) (utf8_len (take k src)) = utf8_len (take e src)"
proof -
  have j: "j \<le> length src" using assms by simp
  obtain i where i: "i \<le> j" "frag_start uc src budget (utf8_len (take j src)) = utf8_len (take i src)"
    using snap_start_at[of "j - budget div 2" j src uc] back_chars_at[OF j] j by (auto simp: frag_start_def)
  let ?f = "min (i + budget) (length src)"
  have "fwd_chars src (utf8_len (take i src)) budget = utf8_len (take ?f src)"
    using fwd_chars_at[of i src budget] i j by (auto simp: min_def)
  then have "frag_end uc src budget (utf8_len (take j src)) (utf8_len (take k src)) = utf8_len (take (max ?f k) src)"
    using byte_pos_le_iff[of ?f src k] assms unfolding frag_end_def i(2) by (auto simp: max_def)
  then show ?thesis using i assms by (intro exI[of _ i] exI[of _ "max ?f k"]) auto
qed

lemma ranges_ends: "ranges_ok n js \<Longrightarrow> p \<in> set js \<Longrightarrow> fst (hd js) \<le> fst p \<and> snd p \<le> snd (last js)"
proof (induction js)
  case (Cons q js)
  then have q: "fst q < snd q" "\<forall>r \<in> set js. snd q \<le> fst r \<and> fst r < snd r" "ranges_ok n js"
    by (auto simp: ranges_ok_def)
  show ?case
  proof (cases "js = []")
    case False
    then have "snd q \<le> fst (last js)" "fst (last js) < snd (last js)" using q(2) by simp_all
    then show ?thesis using Cons.IH[OF q(3)] Cons.prems(2) q(1,2) False by fastforce
  qed (use Cons.prems in simp)
qed simp

lemma takeWhile_spans:
  assumes "ranges_ok (length src) js" "e \<le> length src"
  shows "takeWhile (\<lambda>m. snd m \<le> utf8_len (take e src)) (map (byte_span src) js) = map (byte_span src) (takeWhile (\<lambda>p. snd p \<le> e) js)"
    "dropWhile (\<lambda>m. snd m \<le> utf8_len (take e src)) (map (byte_span src) js) = map (byte_span src) (dropWhile (\<lambda>p. snd p \<le> e) js)"
proof -
  have eq: "snd (byte_span src p) \<le> utf8_len (take e src) \<longleftrightarrow> snd p \<le> e" if "p \<in> set js" for p
    using that assms byte_pos_le_iff[of "snd p" src e] by (fastforce simp: ranges_ok_def byte_span_def)
  show "takeWhile (\<lambda>m. snd m \<le> utf8_len (take e src)) (map (byte_span src) js) = map (byte_span src) (takeWhile (\<lambda>p. snd p \<le> e) js)"
    using takeWhile_cong[OF refl, of js "(\<lambda>m. snd m \<le> utf8_len (take e src)) \<circ> byte_span src" "\<lambda>p. snd p \<le> e"] eq
    by (simp add: takeWhile_map)
  show "dropWhile (\<lambda>m. snd m \<le> utf8_len (take e src)) (map (byte_span src) js) = map (byte_span src) (dropWhile (\<lambda>p. snd p \<le> e) js)"
    using dropWhile_cong[OF refl, of js "(\<lambda>m. snd m \<le> utf8_len (take e src)) \<circ> byte_span src" "\<lambda>p. snd p \<le> e"] eq
    by (simp add: dropWhile_map)
qed

lemma ranges_ok_append: "ranges_ok n (xs @ ys) \<Longrightarrow> ranges_ok n xs \<and> ranges_ok n ys"
  by (auto simp: ranges_ok_def sorted_wrt_append)

lemma one_fragment:
  assumes ok: "ranges_ok (length src) js" and ne: "js \<noteq> []" and e: "e \<le> length src" and i: "i \<le> fst (hd js)"
    and e': "snd (last js) \<le> e'" "e' \<le> e"
  shows "frag_ok src (utf8_len (take i src)) \<lparr>fr_text = take (e' - i) (drop i src),
      fr_spans = map ((\<lambda>(a, b). (a - utf8_len (take i src), b - utf8_len (take i src))) \<circ> byte_span src) js\<rparr>"
proof -
  have b: "i \<le> fst p \<and> fst p < snd p \<and> snd p \<le> e'" if "p \<in> set js" for p
    using ranges_ends[OF ok that] that ok i e' by (fastforce simp: ranges_ok_def)
  have "fst (hd js) < snd (last js)" using b[of "last js"] b[of "hd js"] ranges_ends[OF ok, of "hd js"] ne by fastforce
  then have "i \<le> e'" using i e' by simp
  have e'': "e' \<le> length src" using e e' by simp
  define t where "t = take (e' - i) (drop i src)"
  define off where "off = utf8_len (take i src)"
  have undo: "off + (utf8_len (take m src) - off) = utf8_len (take m src)" if "i \<le> m" for m
    using utf8_len_take_mono[OF that, of src] by (simp add: off_def)
  have spans: "fst q < snd q \<and> snd q \<le> utf8_len t \<and> slice_bytes (fst q) (snd q) t = slice_bytes (off + fst q) (off + snd q) src"
    if "q = (utf8_len (take (fst p) src) - off, utf8_len (take (snd p) src) - off)" "p \<in> set js" for p q
    using span_in_fragment[of i "fst p" "snd p" e' src t "fst q" "snd q"] b[OF that(2)] e'' undo[of "fst p"] undo[of "snd p"]
    by (simp add: that(1) t_def off_def)
  have "\<exists>j k. j \<le> k \<and> k \<le> length src \<and> off = utf8_len (take j src) \<and> t = take (k - j) (drop j src)"
    using \<open>i \<le> e'\<close> e'' t_def off_def by blast
  then show ?thesis using ne spans unfolding frag_ok_def t_def[symmetric] off_def[symmetric]
    by (auto simp: byte_span_def)
qed

lemma shift_back:
  assumes "\<forall>p \<in> set js. i \<le> fst p \<and> i \<le> snd p"
  shows "shift_spans (utf8_len (take i src)) \<lparr>fr_text = t,
      fr_spans = map ((\<lambda>(a, b). (a - utf8_len (take i src), b - utf8_len (take i src))) \<circ> byte_span src) js\<rparr> = map (byte_span src) js"
  using assms utf8_len_take_mono[of i _ src] by (auto simp: shift_spans_def byte_span_def)

lemma fragments_loop_Cons:
  "ms = (fs, fe) # ms' \<Longrightarrow> fragments_loop uc src budget (Suc left) ms =
     (let start = frag_start uc src budget fs; stop = frag_end uc src budget fs fe;
          here = takeWhile (\<lambda>m. snd m \<le> stop) ms; stop' = snap_end uc src stop (snd (last here)) in
      \<lparr>fr_text = slice_bytes start stop' src, fr_spans = map (\<lambda>(a, b). (a - start, b - start)) here\<rparr> #
      fragments_loop uc src budget left (dropWhile (\<lambda>m. snd m \<le> stop) ms))"
  by (simp only: fragments_loop.simps Let_def nat.simps if_False diff_Suc_1)

lemma fragments_loop_ok:
  "ranges_ok (length src) js \<Longrightarrow> \<exists>starts rest. list_all2 (frag_ok src) starts (fragments_loop uc src budget left (map (byte_span src) js)) \<and>
     map (byte_span src) js = concat (map2 shift_spans starts (fragments_loop uc src budget left (map (byte_span src) js))) @ rest \<and>
     (rest = [] \<or> length starts = left)"
proof (induction left arbitrary: js)
  case 0
  have "fragments_loop uc src budget 0 ms = []" for ms by (cases ms) auto
  then show ?case by simp
next
  case (Suc left)
  show ?case
  proof (cases js)
    case (Cons p js')
    obtain j k where p: "p = (j, k)" by (cases p)
    have jk: "j < k" "k \<le> length src" using Suc.prems Cons p by (auto simp: ranges_ok_Cons)
    obtain i e where ie: "i \<le> j" "k \<le> e" "e \<le> length src"
      "frag_start uc src budget (utf8_len (take j src)) = utf8_len (take i src)"
      "frag_end uc src budget (utf8_len (take j src)) (utf8_len (take k src)) = utf8_len (take e src)"
      using frag_window[OF jk] by blast
    define here where "here = takeWhile (\<lambda>p. snd p \<le> e) js"
    define there where "there = dropWhile (\<lambda>p. snd p \<le> e) js"
    have here: "here \<noteq> []" "hd here = p" using Cons p ie by (auto simp: here_def)
    have split: "js = here @ there" by (simp add: here_def there_def)
    have ok: "ranges_ok (length src) here" "ranges_ok (length src) there" 
      using ranges_ok_append[of "length src" here there] Suc.prems unfolding split[symmetric] by simp_all
    have last: "snd (last here) \<le> e" using set_takeWhileD[of "last here" "\<lambda>p. snd p \<le> e" js] here(1) by (simp add: here_def)
    obtain e' where e': "snd (last here) \<le> e'" "e' \<le> e"
      "snap_end uc src (utf8_len (take e src)) (utf8_len (take (snd (last here)) src)) = utf8_len (take e' src)"
      using snap_end_at[OF last ie(3), of uc] by blast
    let ?f = "\<lparr>fr_text = take (e' - i) (drop i src),
      fr_spans = map ((\<lambda>(a, b). (a - utf8_len (take i src), b - utf8_len (take i src))) \<circ> byte_span src) here\<rparr>"
    have "p \<in> set here" using here hd_in_set[of here] by simp
    then have "k \<le> snd (last here)" using ranges_ends[OF ok(1)] p by auto
    then have "i \<le> e'" using ie(1) jk(1) e'(1) by simp
    have ms: "map (byte_span src) js = (utf8_len (take j src), utf8_len (take k src)) # map (byte_span src) js'"
      using Cons p by (simp add: byte_span_def)
    have last_here: "snd (last (map (byte_span src) here)) = utf8_len (take (snd (last here)) src)"
      using here(1) by (simp add: last_map byte_span_def)
    have slice: "slice_bytes (utf8_len (take i src)) (utf8_len (take e' src)) src = take (e' - i) (drop i src)"
      by (rule slice_bytes_at[OF \<open>i \<le> e'\<close>])
    have loop: "fragments_loop uc src budget (Suc left) (map (byte_span src) js) =
        ?f # fragments_loop uc src budget left (map (byte_span src) there)"
      unfolding fragments_loop_Cons[OF ms] Let_def ie(4,5) takeWhile_spans[OF Suc.prems ie(3)] here_def[symmetric]
        there_def[symmetric] last_here e'(3) slice by simp
    have b: "\<forall>q \<in> set here. i \<le> fst q \<and> i \<le> snd q"
      using ranges_ends[OF ok(1)] here ie p ok(1) by (fastforce simp: ranges_ok_def)
    have f: "frag_ok src (utf8_len (take i src)) ?f"
      using one_fragment[OF ok(1) here(1) ie(3) _ e'(1,2), of i] here p ie by simp
    obtain starts rest where IH: "list_all2 (frag_ok src) starts (fragments_loop uc src budget left (map (byte_span src) there))"
      "map (byte_span src) there = concat (map2 shift_spans starts (fragments_loop uc src budget left (map (byte_span src) there))) @ rest"
      "rest = [] \<or> length starts = left" using Suc.IH[OF ok(2)] by blast
    let ?frs = "fragments_loop uc src budget left (map (byte_span src) there)"
    have "map (byte_span src) js = map (byte_span src) here @ map (byte_span src) there" by (simp add: split)
    also have "\<dots> = concat (map2 shift_spans (utf8_len (take i src) # starts) (?f # ?frs)) @ rest"
      using shift_back[OF b] IH(2) by simp
    finally show ?thesis unfolding loop using IH(1,3) f
      by (intro exI[of _ "utf8_len (take i src) # starts"] exI[of _ rest]) (simp only: list_all2_Cons list.size, simp)
  qed simp
qed

lemma fragments_loop_length: "length (fragments_loop uc src budget left ms) \<le> left"
proof (induction left arbitrary: ms)
  case 0
  then show ?case by (cases ms) auto
next
  case (Suc left)
  show ?case
  proof (cases ms)
    case (Cons m ms')
    obtain a b where "m = (a, b)" by (cases m)
    then show ?thesis using Suc.IH Cons by (simp only: fragments_loop.simps Let_def nat.simps if_False diff_Suc_1 list.size add_Suc_right add_0_right Suc_le_mono)
  qed simp
qed

text \<open>
  C40. The fragments of a text are slices of it cut at character boundaries; every range of a
  fragment covers the very bytes of a token that matched the query; and read in order the ranges of
  the fragments are the matches of the text, none lost or doubled, until the fragment limit is
  reached.
\<close>

theorem fragments_mark_matches:
  "\<exists>starts rest. list_all2 (frag_ok (chars s)) starts (fragments uc s cfg terms opts) \<and>
     matched_spans uc cfg terms s = concat (map2 shift_spans starts (fragments uc s cfg terms opts)) @ rest \<and>
     length (fragments uc s cfg terms opts) \<le> max (hl_max_fragments opts) 1 \<and>
     (rest = [] \<or> length (fragments uc s cfg terms opts) = max (hl_max_fragments opts) 1)"
proof -
  let ?frs = "fragments uc s cfg terms opts" and ?n = "max (hl_max_fragments opts) 1"
  obtain js where js: "ranges_ok (length (chars s)) js" "matched_spans uc cfg terms s = map (byte_span (chars s)) js"
    using matched_spans_ranges by blast
  obtain starts rest where "list_all2 (frag_ok (chars s)) starts ?frs"
    "matched_spans uc cfg terms s = concat (map2 shift_spans starts ?frs) @ rest" "rest = [] \<or> length starts = ?n"
    using fragments_loop_ok[OF js(1), of uc "max (hl_fragment_chars opts) 1" ?n] unfolding fragments_def js(2) by blast
  moreover have "length ?frs \<le> ?n" unfolding fragments_def by (rule fragments_loop_length)
  moreover have "length starts = length ?frs" using calculation(1) by (rule list_all2_lengthD)
  ultimately show ?thesis by (intro exI[of _ starts] exI[of _ rest]) auto
qed

end
