(* ===== verification/Spec2Isabelle.thy ===== *)
theory Spec2Isabelle
  imports FindexSound StoreOpen StoreDurable ReadProps AnnSearch ChunkProps Fuzzy Highlight
begin

text \<open>
  A verification development of nidus, an embedded document store with vector, attribute and text
  search, written in Rust (\<^verbatim>\<open>src/src\<close>). A store is a directory of objects: an append-only matrix
  of vectors cut into segments, an append-only log of framed operations, a manifest that names the
  live segments and is the commit point, and caches and checksums derived from these. Opening a
  store replays the log into an index of documents in memory; every mutation appends to the matrix
  and the log and then changes the index; every search reads the index and the matrix.

  \<^bold>\<open>Conventions.\<close> A string is its UTF-8 bytes (\<^typ>\<open>string\<close>), a text under analysis the list of its
  code points. An IEEE number is its bit pattern at its width; sizes and row numbers are \<^typ>\<open>nat\<close>
  on a 64-bit target, and wrap-around is written out where the source casts. A fallible action is a
  function from a state to a result and the state it leaves, also when it fails, because the
  source keeps what it wrote before the failing call. System calls take their outcomes from a
  script; a theorem holds for every script unless its hypotheses say how the operation ended.

  \<^bold>\<open>Storage.\<close> \<^verbatim>\<open>Prelude\<close> holds codecs, ordered maps and actions; \<^verbatim>\<open>Model\<close> the data model of
  \<^verbatim>\<open>model.rs\<close>. \<^verbatim>\<open>Backend\<close> (\<^verbatim>\<open>backend/ram.rs\<close>, \<^verbatim>\<open>backend/local.rs\<close>) has the append streams, \<^verbatim>\<open>Persist\<close> the
  object store, \<^verbatim>\<open>OpLog\<close> (\<^verbatim>\<open>log/mod.rs\<close>) the framed log, \<^verbatim>\<open>DataSeg\<close> (\<^verbatim>\<open>data/mod.rs\<close>) one segment,
  \<^verbatim>\<open>Segments\<close> (\<^verbatim>\<open>data/segments.rs\<close>) the global row space, \<^verbatim>\<open>IndexCache\<close> caches and checksums, \<^verbatim>\<open>Manifest\<close>
  the commit point and its history. Their theorems: a log torn at any byte recovers the operations
  of its whole frames, corruption before the tail is an error, a bounded open replays exactly the
  pinned prefix, a data file recovers its whole rows, mapped and loaded segments agree, publishing
  a manifest is atomic.

  \<^bold>\<open>The store.\<close> \<^verbatim>\<open>DocIndex\<close> is the document index with its replay; \<^verbatim>\<open>Store\<close> is \<^verbatim>\<open>store/write.rs\<close> and the
  opening half of \<^verbatim>\<open>store/mod.rs\<close>, operation by operation, with phases, rollbacks and barriers;
  \<^verbatim>\<open>StoreRun\<close> the step relation of all public calls. \<^verbatim>\<open>StoreView\<close> abstracts a store to its contents,
  a map from collections and ids to vectors and attributes; \<^verbatim>\<open>StoreFrame\<close>, \<^verbatim>\<open>StoreLog\<close>,
  \<^verbatim>\<open>StoreUpsert\<close>, \<^verbatim>\<open>StoreCompact\<close>, \<^verbatim>\<open>StoreProps\<close>, \<^verbatim>\<open>StoreOpen\<close> and \<^verbatim>\<open>StoreDurable\<close> prove that upsert, delete,
  sweeps and compaction refine their abstract counterparts on the contents, and that a batch or a
  sweep that fails and is undone changes nothing. \<^verbatim>\<open>store_step\<close> are the calls that keep memory and log
  in step: those that returned and the batches and sweeps that were undone. Along them the log
  replays to the served index; live rows stay disjoint and inside the matrix also along the
  deletions, creations, drops and declarations that fail half way (\<^verbatim>\<open>store_call\<close>). Failed compactions
  and reinforcements and failed rollbacks are outside both relations. What a per-batch store
  acknowledged survives a crash in the log and in the file of the active segment; a commit reaches
  no sealed segment, and \<^verbatim>\<open>StoreDurable\<close> states when the whole matrix is on disk.
  \<^verbatim>\<open>StoreDemo\<close> has the concrete stores of the witnesses.

  \<^bold>\<open>Filters and text.\<close> \<^verbatim>\<open>Glob\<close>, \<^verbatim>\<open>Filters\<close> and \<^verbatim>\<open>EditDistance\<close> are predicate evaluation; \<^verbatim>\<open>Findex\<close> and
  \<^verbatim>\<open>FindexSound\<close> the filter index, which never drops a match; \<^verbatim>\<open>Analyzer\<close> and \<^verbatim>\<open>Fts\<close> the analyzer with
  its stemmer and the inverted index, \<^verbatim>\<open>Fuzzy\<close> the fuzzy completions of a mistyped fragment, whose pruned
  walk is proved exact, \<^verbatim>\<open>Highlight\<close> the excerpts of a text around its matches.

  \<^bold>\<open>Search.\<close> \<^verbatim>\<open>Kernels\<close> has the integer kernels, \<^verbatim>\<open>TopK\<close> the bounded collector, \<^verbatim>\<open>Scoring\<close> the scans and
  their parallel versions, \<^verbatim>\<open>Quant\<close> the quantized matrices, \<^verbatim>\<open>StoreRead\<close> lookups and listings,
  \<^verbatim>\<open>Ranking\<close> decay, caps, spread, aggregation and neighbour expansion, \<^verbatim>\<open>Search\<close> the exact search.
  \<^verbatim>\<open>SearchProps\<close> proves it to be a page of the ranking of the matching documents; \<^verbatim>\<open>ReadProps\<close> proves
  the same of listings. \<^verbatim>\<open>Ann\<close> is the inverted-file index, \<^verbatim>\<open>Hnsw\<close> the small-world graph, \<^verbatim>\<open>AnnSearch\<close>
  their life in the store and the dispatch of a search: building keeps the structures well formed,
  searches end, return only live matching documents with exact scores, and are exact when their
  budget covers the rows.

  \<^bold>\<open>Chunking.\<close> \<^verbatim>\<open>Chunk\<close> and \<^verbatim>\<open>ChunkProps\<close> are \<^verbatim>\<open>src/src/chunk\<close>: chunks of every strategy are exact slices;
  the ladder, the sentence and the markdown strategy return and tile the source, and stitching any
  window of their chunks gives the source back; no markdown span starts inside a fenced block. The
  symbol chunker leaves gaps and can panic on symbols of one line out of order.

  \<^bold>\<open>Interfaces.\<close> Locales state what a component relies on: append streams, object stores and framed
  objects in them, row matrices with and without a barrier, scan kernels, splitters. Each is
  interpreted on the definitions of the component that provides it.

  \<^bold>\<open>Loops.\<close> A loop whose source bound is not structural is a function with a measure, a partial
  function into \<^typ>\<open>'a option\<close> (the glob matcher and the hard split, proved to return), or carries
  fuel (the greedy descent and the beam of the graph, whose fuel is the number of nodes plus one:
  a turn of the descent moves to a strictly better node, a turn of the beam takes a candidate that
  was queued once; the theorems show that the fuel error is never returned).

  \<^bold>\<open>Parameters and hypotheses.\<close> Floating-point arithmetic, the iteration order of hash maps, the
  regular-expression engine, the Unicode tables, the byte codecs and checksum of log records and
  caches, the tie order of unstable sorts and heaps, the level draw of the graph and the symbol
  chunker, and the graph that the threads of a parallel build leave, are arguments. Theorems name what they assume of them: a hash map yields each entry once
  (\<^verbatim>\<open>iter_ok\<close>), a codec decodes what it encoded, the index covers the documents (\<^verbatim>\<open>index_covers\<close>),
  the dimension is positive and the next segment name is free (\<^verbatim>\<open>store_ok\<close>).

  \<^bold>\<open>Not modelled.\<close> Cluster mode with its leases and compare-and-swap commits, network back ends, the
  threads of the parallel build of the graph, adoption of a cached graph, the server, the command line, the
  clients of embedding and reranking services, metrics: they are input and output, glue, or rest
  on services outside the sources.
\<close>

end
